(* ===== verification/Prelude.thy ===== *)
theory Prelude
  imports Main "HOL-Library.Word" "HOL-Library.Monad_Syntax" "HOL-Library.Multiset"
begin

text \<open>
  Shared vocabulary of the development: the C integer types of the MSP430 target as words
  (\<open>unsigned\<close>, \<open>size_t\<close> and pointers are 16 bits wide there), pointers to list nodes as
  \<open>'n option\<close> with \<open>None\<close> for \<open>NULL\<close>, and the predicate \<open>lseg\<close> that says which
  nodes a chain of \<open>next\<close> fields runs through. A heap of nodes is kept field by field: the
  \<open>next\<close> fields of all nodes are one function \<open>'n \<Rightarrow> 'n option\<close>, so that an assignment
  through one pointer is a function update and aliasing is explicit.

  A computation that may dereference \<open>NULL\<close>, index an array out of range, or spin for ever
  has an option type; \<open>None\<close> is undefined behaviour or no return, never a normal result.
\<close>

type_synonym u8 = "8 word"
type_synonym u16 = "16 word"
type_synonym u32 = "32 word"
type_synonym u64 = "64 word"

type_synonym 'n heap = "'n \<Rightarrow> 'n option"

named_theorems op_defs \<open>definitions of the operations of a component\<close>
named_theorems heap_simps \<open>facts about chains of nodes under heap updates\<close>

section \<open>Chains of nodes\<close>

fun lseg :: "'n heap \<Rightarrow> 'n option \<Rightarrow> 'n list \<Rightarrow> 'n option \<Rightarrow> bool" where
  "lseg h p [] q \<longleftrightarrow> p = q"
| "lseg h p (x # xs) q \<longleftrightarrow> p = Some x \<and> lseg h (h x) xs q"

lemma lseg_append [simp]:
  "lseg h p (xs @ ys) q \<longleftrightarrow> (\<exists>r. lseg h p xs r \<and> lseg h r ys q)"
  by (induction xs arbitrary: p) auto

lemma lseg_frame [simp, heap_simps]:
  "u \<notin> set xs \<Longrightarrow> lseg (h(u := v)) p xs q \<longleftrightarrow> lseg h p xs q"
  by (induction xs arbitrary: p) auto

lemma lseg_cong: "(\<And>x. x \<in> set xs \<Longrightarrow> h x = h' x) \<Longrightarrow> lseg h p xs q \<longleftrightarrow> lseg h' p xs q"
  by (induction xs arbitrary: p) auto

lemma lseg_det_end: "lseg h p xs q \<Longrightarrow> lseg h p xs q' \<Longrightarrow> q = q'"
  by (induction xs arbitrary: p) auto

lemma lseg_NULL_start [simp]: "lseg h None xs q \<longleftrightarrow> xs = [] \<and> q = None"
  by (cases xs) auto

lemma lseg_unique: "lseg h p xs None \<Longrightarrow> lseg h p ys None \<Longrightarrow> xs = ys"
proof (induction xs arbitrary: p ys)
  case Nil
  then show ?case by (cases ys) auto
next
  case (Cons x xs)
  then show ?case by (cases ys) auto
qed

lemma lseg_member_suffix:
  assumes "lseg h p xs q" and "x \<in> set xs"
  obtains ys zs where "xs = ys @ x # zs" and "lseg h p ys (Some x)" and "lseg h (h x) zs q"
proof -
  from assms(2) obtain ys zs where "xs = ys @ x # zs" by (meson split_list)
  with assms(1) that show thesis by auto
qed

text \<open>A \<open>NULL\<close>-terminated chain never repeats a node.\<close>

lemma lseg_NULL_distinct: "lseg h p xs None \<Longrightarrow> distinct xs"
proof (induction xs arbitrary: p)
  case Nil
  then show ?case by simp
next
  case (Cons x xs)
  have "x \<notin> set xs"
  proof
    assume "x \<in> set xs"
    then obtain ys zs where xs: "xs = ys @ x # zs" by (meson split_list)
    with Cons.prems have "lseg h (h x) zs None" and "lseg h (h x) xs None" by auto
    then have "zs = xs" by (rule lseg_unique)
    with xs show False by (metis append_Cons append_self_conv2 impossible_Cons le_add2 length_append)
  qed
  with Cons show ?case by auto
qed

section \<open>Lists\<close>

lemma rotate1_snoc_Cons: "rotate1 (x # xs) = xs @ [x]"
  by simp

lemma set_tl_distinct: "distinct xs \<Longrightarrow> xs \<noteq> [] \<Longrightarrow> set (tl xs) = set xs - {hd xs}"
  by (cases xs) auto

lemma removeAll_eq_remove1: "distinct xs \<Longrightarrow> removeAll x xs = remove1 x xs"
  by (simp add: distinct_remove1_removeAll)

text \<open>\<open>t\<close> goes in front of the first element that is not to be kept before it.\<close>

definition placed :: "('a \<Rightarrow> bool) \<Rightarrow> 'a \<Rightarrow> 'a list \<Rightarrow> 'a list" where
  "placed keep t xs = takeWhile keep xs @ t # dropWhile keep xs"

lemma placed_simps [simp]:
  "placed keep t [] = [t]"
  "placed keep t (x # xs) = (if keep x then x # placed keep t xs else t # x # xs)"
  by (simp_all add: placed_def)

lemma set_placed [simp]: "set (placed keep t xs) = insert t (set xs)"
  by (induction xs) auto

lemma distinct_placed [simp]: "distinct (placed keep t xs) \<longleftrightarrow> t \<notin> set xs \<and> distinct xs"
  by (induction xs) auto

section \<open>Words\<close>

unbundle bit_operations_syntax

lemma unat_lt_8: "unat (a :: u8) < 256"
  using unsigned_less [of a, where ?'a = nat] by simp

lemma unat_lt_16: "unat (a :: u16) < 65536"
  using unsigned_less [of a, where ?'a = nat] by simp

lemma unat_drop_bit: "unat (drop_bit n (v :: 'a::len word)) = unat v div 2 ^ n"
  unfolding unsigned_drop_bit_eq by (simp add: drop_bit_eq_div take_bit_nat_eq_self)

lemma unat_AND: "unat (a AND b :: 'a::len word) = unat a AND unat b"
  by (rule unsigned_and_eq)

lemma unat_ucast: "unat (ucast (x :: 'a::len word) :: 'b::len word) = unat x mod 2 ^ LENGTH('b)"
  by (simp add: unsigned_ucast_eq take_bit_eq_mod)

lemma unat_ucast_up: "LENGTH('a) \<le> LENGTH('b) \<Longrightarrow>
    unat (ucast (x :: 'a::len word) :: 'b::len word) = unat x"
  by (simp add: unsigned_ucast_eq take_bit_nat_eq_self_iff)
     (meson less_le_trans one_le_numeral power_increasing unsigned_less)

lemma sint_small: "unat (x :: u16) < 2 ^ 15 \<Longrightarrow> sint x = int (unat x)"
proof -
  assume "unat x < 2 ^ 15"
  then have u: "int (unat x) < 2 ^ 15" using of_nat_less_iff [of "unat x" "2 ^ 15", where ?'a = int] by (simp only: of_nat_power of_nat_numeral)
  have "sint x = signed_take_bit 15 (int (unat x))" by (simp add: sint_uint)
  also have "\<dots> = int (unat x)" by (rule signed_take_bit_int_eq_self) (use u in \<open>auto intro: order.trans [of _ 0]\<close>)
  finally show ?thesis .
qed

lemma sint_large: "2 ^ 15 \<le> unat (x :: u16) \<Longrightarrow> sint x = int (unat x) - 2 ^ 16"
proof -
  assume "2 ^ 15 \<le> unat x"
  define k where "k = int (unat x)"
  have l: "2 ^ 15 \<le> k"
    unfolding k_def using \<open>2 ^ 15 \<le> unat x\<close> of_nat_le_iff [of "2 ^ 15" "unat x", where ?'a = int] by (simp only: of_nat_power of_nat_numeral)
  have "unat x < 2 ^ 16" using unsigned_less [of x, where ?'a = nat] by simp
  then have u: "k < 2 ^ 16" unfolding k_def using of_nat_less_iff [of "unat x" "2 ^ 16", where ?'a = int] by (simp only: of_nat_power of_nat_numeral)
  have "sint x = signed_take_bit 15 k" by (simp add: sint_uint k_def)
  also have "\<dots> = take_bit (Suc 15) (k + 2 ^ 15) - 2 ^ 15" by (rule signed_take_bit_eq_take_bit_shift)
  also have "take_bit (Suc 15) (k + 2 ^ 15) = (k + 2 ^ 15) mod 2 ^ 16" by (simp add: take_bit_eq_mod)
  also have "\<dots> = k + 2 ^ 15 - 2 ^ 16" by (rule int_mod_pos_eq [of _ _ 1]) (use l u in simp_all)
  finally show ?thesis by (simp add: k_def)
qed

end
