(* ===== verification/Clist.thy ===== *)
theory Clist
  imports Prelude
begin

text \<open>
  The circular singly linked list of \<open>core/include/clist.h\<close>. A list is a head node whose
  \<open>next\<close> field points at the \<^emph>\<open>last\<close> element; the last element points at the first. The head
  is never part of the ring, so an operation takes the heap of element nodes and the head's
  \<open>next\<close> field and returns both. \<open>cring h t xs\<close> says that the head field \<open>t\<close>
  represents the sequence \<open>xs\<close>. The locale \<open>ring_queue\<close> is the contract the scheduler
  relies on; it is interpreted here on the functions of \<open>clist.h\<close> and again on the copies of
  them in \<open>core/sched.c\<close>.
\<close>

section \<open>Operations\<close>

definition clist_rpush :: "'n heap \<Rightarrow> 'n option \<Rightarrow> 'n \<Rightarrow> 'n heap \<times> 'n option" where
  "clist_rpush h list_next new_node =
     (case list_next of
        Some l \<Rightarrow>
          (let h1 = h(new_node := h l);
               h2 = h1(l := Some new_node)
           in (h2, Some new_node))
      | None \<Rightarrow> (h(new_node := Some new_node), Some new_node))"

definition clist_lpush :: "'n heap \<Rightarrow> 'n option \<Rightarrow> 'n \<Rightarrow> 'n heap \<times> 'n option" where
  "clist_lpush h list_next new_node =
     (case list_next of
        Some l \<Rightarrow>
          (let h1 = h(new_node := h l);
               h2 = h1(l := Some new_node)
           in (h2, list_next))
      | None \<Rightarrow> (h(new_node := Some new_node), Some new_node))"

definition clist_lpop :: "'n heap \<Rightarrow> 'n option \<Rightarrow> ('n heap \<times> 'n option \<times> 'n option) option" where
  "clist_lpop h list_next =
     (case list_next of
        Some l \<Rightarrow>
          (let first = h l in
           if list_next = first then Some (h, None, first)
           else (case first of
                   None \<Rightarrow> None
                 | Some f \<Rightarrow> Some (h(l := h f), list_next, first)))
      | None \<Rightarrow> Some (h, list_next, None))"

definition clist_lpoprpush :: "'n heap \<Rightarrow> 'n option \<Rightarrow> 'n option" where
  "clist_lpoprpush h list_next =
     (case list_next of Some l \<Rightarrow> h l | None \<Rightarrow> list_next)"

definition clist_lpeek :: "'n heap \<Rightarrow> 'n option \<Rightarrow> 'n option" where
  "clist_lpeek h list_next = (case list_next of Some l \<Rightarrow> h l | None \<Rightarrow> None)"

definition clist_rpeek :: "'n heap \<Rightarrow> 'n option \<Rightarrow> 'n option" where
  "clist_rpeek h list_next = list_next"

text \<open>
  The loops below end on a well-formed ring only, so they are partial: on a chain that never
  comes back to its start, or that runs into \<open>NULL\<close>, the value is \<open>None\<close>.
\<close>

partial_function (option) clist_rpop_loop :: "'n heap \<Rightarrow> 'n option \<Rightarrow> 'n option \<Rightarrow> 'n option option" where
  "clist_rpop_loop h list_next last_node =
     (case list_next of
        None \<Rightarrow> None
      | Some l \<Rightarrow>
          if h l \<noteq> last_node then clist_rpop_loop h (clist_lpoprpush h list_next) last_node
          else Some list_next)"

definition clist_rpop :: "'n heap \<Rightarrow> 'n option \<Rightarrow> ('n heap \<times> 'n option \<times> 'n option) option" where
  "clist_rpop h list_next =
     (case list_next of
        Some l \<Rightarrow> do { t \<leftarrow> clist_rpop_loop h list_next list_next; clist_lpop h t }
      | None \<Rightarrow> Some (h, list_next, None))"

partial_function (option) clist_find_before_loop ::
    "'n heap \<Rightarrow> 'n option \<Rightarrow> 'n option \<Rightarrow> 'n \<Rightarrow> 'n option option" where
  "clist_find_before_loop h list_next pos node =
     (case pos of
        None \<Rightarrow> None
      | Some p \<Rightarrow>
          (case h p of
             None \<Rightarrow> None
           | Some p' \<Rightarrow>
               if h p' = Some node then Some (Some p')
               else if Some p' \<noteq> list_next then clist_find_before_loop h list_next (Some p') node
               else Some None))"

definition clist_find_before :: "'n heap \<Rightarrow> 'n option \<Rightarrow> 'n \<Rightarrow> 'n option option" where
  "clist_find_before h list_next node =
     (case list_next of
        None \<Rightarrow> Some None
      | Some pos \<Rightarrow> clist_find_before_loop h list_next (Some pos) node)"

definition clist_find :: "'n heap \<Rightarrow> 'n option \<Rightarrow> 'n \<Rightarrow> 'n option option" where
  "clist_find h list_next node =
     do { tmp \<leftarrow> clist_find_before h list_next node;
          (case tmp of Some p \<Rightarrow> Some (h p) | None \<Rightarrow> Some None) }"

definition clist_remove :: "'n heap \<Rightarrow> 'n option \<Rightarrow> 'n \<Rightarrow> ('n heap \<times> 'n option \<times> 'n option) option" where
  "clist_remove h list_next node =
     (case list_next of
        None \<Rightarrow> Some (h, list_next, None)
      | Some l \<Rightarrow>
          if h l = Some node then clist_lpop h list_next
          else do {
            tmp \<leftarrow> clist_find_before h list_next node;
            (case tmp of
               None \<Rightarrow> Some (h, list_next, None)
             | Some p \<Rightarrow>
                 (case h p of
                    None \<Rightarrow> None
                  | Some q \<Rightarrow>
                      Some (h(p := h q),
                            (if Some node = list_next then Some p else list_next),
                            Some node)))
          })"

partial_function (option) clist_foreach_loop ::
    "'n heap \<Rightarrow> 'n option \<Rightarrow> ('n \<Rightarrow> 'a \<Rightarrow> int \<times> 'a) \<Rightarrow> 'n option \<Rightarrow> 'a \<Rightarrow> ('n option \<times> 'a) option" where
  "clist_foreach_loop h list_next func node arg =
     (case node of
        None \<Rightarrow> None
      | Some p \<Rightarrow>
          (case h p of
             None \<Rightarrow> None
           | Some p' \<Rightarrow>
               (let (r, arg') = func p' arg in
                if r \<noteq> 0 then Some (Some p', arg')
                else if Some p' \<noteq> list_next then clist_foreach_loop h list_next func (Some p') arg'
                else Some (None, arg'))))"

definition clist_foreach ::
    "'n heap \<Rightarrow> 'n option \<Rightarrow> ('n \<Rightarrow> 'a \<Rightarrow> int \<times> 'a) \<Rightarrow> 'a \<Rightarrow> ('n option \<times> 'a) option" where
  "clist_foreach h list_next func arg =
     (case list_next of
        Some node \<Rightarrow> clist_foreach_loop h list_next func (Some node) arg
      | None \<Rightarrow> Some (None, arg))"

partial_function (option) clist_count_loop :: "'n heap \<Rightarrow> 'n option \<Rightarrow> 'n option \<Rightarrow> u16 \<Rightarrow> u16 option" where
  "clist_count_loop h list_next node cnt =
     (case node of
        None \<Rightarrow> None
      | Some p \<Rightarrow>
          if h p \<noteq> list_next then clist_count_loop h list_next (h p) (cnt + 1)
          else Some (cnt + 1))"

definition clist_count :: "'n heap \<Rightarrow> 'n option \<Rightarrow> u16 option" where
  "clist_count h list_next =
     (case list_next of
        Some node \<Rightarrow> clist_count_loop h list_next (Some node) 0
      | None \<Rightarrow> Some 0)"

section \<open>Representation\<close>

definition cring :: "'n heap \<Rightarrow> 'n option \<Rightarrow> 'n list \<Rightarrow> bool" where
  "cring h t xs \<longleftrightarrow>
     (case t of
        None \<Rightarrow> xs = []
      | Some l \<Rightarrow> xs \<noteq> [] \<and> last xs = l \<and> distinct xs \<and> lseg h (h l) (butlast xs) (Some l))"

lemma cring_Nil [simp]: "cring h t [] \<longleftrightarrow> t = None"
  by (auto simp: cring_def split: option.splits)

lemma cring_None [simp]: "cring h None xs \<longleftrightarrow> xs = []"
  by (simp add: cring_def)

lemma cring_snoc:
  "cring h t (ys @ [l]) \<longleftrightarrow> t = Some l \<and> l \<notin> set ys \<and> distinct ys \<and> lseg h (h l) ys (Some l)"
  by (auto simp: cring_def split: option.splits)

lemma cring_Some:
  "cring h (Some l) xs \<longleftrightarrow>
     (\<exists>ys. xs = ys @ [l] \<and> l \<notin> set ys \<and> distinct ys \<and> lseg h (h l) ys (Some l))"
  by (cases xs rule: rev_cases) (auto simp: cring_snoc)

lemma cring_distinct: "cring h t xs \<Longrightarrow> distinct xs"
  by (cases t) (auto simp: cring_Some)

lemma cring_empty_iff: "cring h t xs \<Longrightarrow> xs = [] \<longleftrightarrow> t = None"
  by (cases t) (auto simp: cring_Some)

lemma cring_last: "cring h t xs \<Longrightarrow> xs \<noteq> [] \<Longrightarrow> t = Some (last xs)"
  by (cases t) (auto simp: cring_Some)

lemma cring_first: "cring h t xs \<Longrightarrow> xs \<noteq> [] \<Longrightarrow> h (last xs) = Some (hd xs)"
  by (cases xs rule: rev_cases; cases "butlast xs") (auto simp: cring_snoc)

lemma cring_frame [heap_simps]: "u \<notin> set xs \<Longrightarrow> cring (h(u := v)) t xs \<longleftrightarrow> cring h t xs"
  by (cases xs rule: rev_cases) (auto simp: cring_snoc)

lemma cring_cong: "(\<And>x. x \<in> set xs \<Longrightarrow> h x = h' x) \<Longrightarrow> cring h t xs \<longleftrightarrow> cring h' t xs"
  by (cases xs rule: rev_cases) (auto simp: cring_snoc lseg_cong [of _ h h'])

lemma cring_unique:
  assumes "cring h t xs" and "cring h t ys"
  shows "xs = ys"
proof (cases t)
  case None
  with assms show ?thesis by simp
next
  case (Some l)
  with assms obtain as bs where
      as: "xs = as @ [l]" "l \<notin> set as" "lseg h (h l) as (Some l)"
    and bs: "ys = bs @ [l]" "l \<notin> set bs" "lseg h (h l) bs (Some l)"
    by (auto simp: cring_Some)
  have "lseg (h(l := None)) (h l) (as @ [l]) None" "lseg (h(l := None)) (h l) (bs @ [l]) None"
    using as bs by auto
  then have "as @ [l] = bs @ [l]" by (rule lseg_unique)
  with as bs show ?thesis by simp
qed

section \<open>Behaviour on well-formed rings\<close>

lemma cring_rpush:
  assumes "cring h t xs" and "n \<notin> set xs"
  shows "cring (fst (clist_rpush h t n)) (snd (clist_rpush h t n)) (xs @ [n])"
  using assms by (cases t) (auto simp: cring_Some cring_snoc clist_rpush_def Let_def)

lemma cring_lpush:
  assumes "cring h t xs" and "n \<notin> set xs"
  shows "cring (fst (clist_lpush h t n)) (snd (clist_lpush h t n)) (n # xs)"
proof (cases t)
  case None
  with assms show ?thesis
    using cring_snoc [of "h(n := Some n)" "Some n" "[]" n] by (simp add: clist_lpush_def)
next
  case (Some l)
  with assms(1) obtain ys where ys: "xs = ys @ [l]" "l \<notin> set ys" "distinct ys" "lseg h (h l) ys (Some l)"
    by (auto simp: cring_Some)
  with assms(2) Some show ?thesis
    using cring_snoc [of "h(n := h l, l := Some n)" "Some l" "n # ys" l]
    by (auto simp: clist_lpush_def Let_def)
qed

lemma rpush_frame [heap_simps]:
  "cring h t xs \<Longrightarrow> x \<notin> insert n (set xs) \<Longrightarrow> fst (clist_rpush h t n) x = h x"
  by (cases t) (auto simp: clist_rpush_def cring_Some Let_def)

lemma cring_lpop:
  assumes "cring h t xs" and "xs \<noteq> []"
  shows "\<exists>h' t'. clist_lpop h t = Some (h', t', Some (hd xs)) \<and> cring h' t' (tl xs)
               \<and> (\<forall>x. x \<notin> set xs \<longrightarrow> h' x = h x)"
proof -
  from assms obtain ys l where xs: "xs = ys @ [l]" and t: "t = Some l"
    and ys: "l \<notin> set ys" "distinct ys" "lseg h (h l) ys (Some l)"
    by (cases t) (auto simp: cring_Some)
  show ?thesis
  proof (cases ys)
    case Nil
    with xs t ys show ?thesis by (auto simp: clist_lpop_def)
  next
    case (Cons f zs)
    with ys t have "clist_lpop h t = Some (h(l := h f), t, Some f)" by (auto simp: clist_lpop_def)
    moreover have "cring (h(l := h f)) t (zs @ [l])"
      using ys Cons t by (auto simp: cring_snoc)
    ultimately show ?thesis using xs Cons by auto
  qed
qed

lemma clist_lpop_empty: "clist_lpop h None = Some (h, None, None)"
  by (simp add: clist_lpop_def)

lemma cring_lpoprpush:
  assumes "cring h t xs"
  shows "cring h (clist_lpoprpush h t) (rotate1 xs)"
proof (cases t)
  case None
  with assms show ?thesis by (simp add: clist_lpoprpush_def)
next
  case (Some l)
  with assms obtain ys where xs: "xs = ys @ [l]" "l \<notin> set ys" "distinct ys" "lseg h (h l) ys (Some l)"
    by (auto simp: cring_Some)
  show ?thesis
  proof (cases ys)
    case Nil
    with xs Some show ?thesis
      using cring_snoc [of h "Some l" "[]" l] by (auto simp: clist_lpoprpush_def)
  next
    case (Cons f zs)
    with xs Some show ?thesis
      using cring_snoc [of h "Some f" "zs @ [l]" f] by (auto simp: clist_lpoprpush_def)
  qed
qed

lemma clist_lpeek_hd: "cring h t xs \<Longrightarrow> clist_lpeek h t = (if xs = [] then None else Some (hd xs))"
  using cring_first [of h t xs] cring_last [of h t xs] by (auto simp: clist_lpeek_def)

lemma clist_rpeek_last: "cring h t xs \<Longrightarrow> clist_rpeek h t = (if xs = [] then None else Some (last xs))"
  by (cases t) (auto simp: clist_rpeek_def cring_Some)

subsection \<open>The loops\<close>

text \<open>
  A loop stands at node \<open>p\<close> and has the nodes \<open>zs\<close> still to visit, the last of them the
  node the head points at.
\<close>

definition to_visit :: "'n heap \<Rightarrow> 'n \<Rightarrow> 'n \<Rightarrow> 'n list \<Rightarrow> bool" where
  "to_visit h l p zs \<longleftrightarrow> zs \<noteq> [] \<and> last zs = l \<and> l \<notin> set (butlast zs) \<and> lseg h (h p) (butlast zs) (Some l)"

lemma to_visit_ring: "cring h (Some l) xs \<Longrightarrow> to_visit h l l xs"
  by (auto simp: to_visit_def cring_Some)

lemma to_visit_Cons:
  "to_visit h l p (z # zs) \<longleftrightarrow> h p = Some z \<and> (if zs = [] then z = l else z \<noteq> l \<and> to_visit h l z zs)"
  by (auto simp: to_visit_def)

lemma to_visit_Nil [simp]: "\<not> to_visit h l p []"
  by (simp add: to_visit_def)

lemma clist_find_before_loop_find:
  "to_visit h l p zs \<Longrightarrow>
     clist_find_before_loop h (Some l) (Some p) node = Some (find (\<lambda>x. h x = Some node) zs)"
  by (induction zs arbitrary: p)
     (subst clist_find_before_loop.simps, auto simp: to_visit_Cons split: if_splits)+

lemma clist_find_before_find:
  "cring h t xs \<Longrightarrow> clist_find_before h t node = Some (find (\<lambda>x. h x = Some node) xs)"
  by (cases t) (auto simp: clist_find_before_def to_visit_ring clist_find_before_loop_find)

lemma clist_foreach_loop_run:
  assumes "to_visit h l p zs" and "\<And>x a. fst (func x a) = 0"
  shows "clist_foreach_loop h (Some l) func (Some p) arg = Some (None, fold (\<lambda>x a. snd (func x a)) zs arg)"
  using assms(1)
proof (induction zs arbitrary: p arg)
  case Nil
  then show ?case by simp
next
  case (Cons z zs)
  have "fst (func z arg) = 0" by (rule assms(2))
  with Cons show ?case
    by (subst clist_foreach_loop.simps) (auto simp: to_visit_Cons split: if_splits prod.splits)
qed

lemma clist_foreach_visits_all:
  "cring h t xs \<Longrightarrow> (\<And>x a. fst (func x a) = 0) \<Longrightarrow>
     clist_foreach h t func arg = Some (None, fold (\<lambda>x a. snd (func x a)) xs arg)"
  by (cases t) (auto simp: clist_foreach_def to_visit_ring clist_foreach_loop_run)

lemma clist_count_loop_length:
  "to_visit h l p zs \<Longrightarrow>
     clist_count_loop h (Some l) (Some p) cnt = Some (cnt + of_nat (length zs))"
  by (induction zs arbitrary: p cnt)
     (subst clist_count_loop.simps, auto simp: to_visit_Cons algebra_simps split: if_splits)+

lemma clist_count_length: "cring h t xs \<Longrightarrow> clist_count h t = Some (of_nat (length xs))"
  by (cases t) (auto simp: clist_count_def dest!: to_visit_ring clist_count_loop_length [where cnt = 0])

lemma cring_successor:
  assumes "cring h t xs" and "x \<in> set xs" and "h x = Some y"
  shows "y \<in> set xs \<and> (\<exists>as bs. (xs = as @ x # y # bs) \<or> (xs = y # bs \<and> x = last xs))"
proof -
  from assms(1,2) obtain l ys where t: "t = Some l" and xs: "xs = ys @ [l]"
    and ys: "l \<notin> set ys" "distinct ys" "lseg h (h l) ys (Some l)"
    by (cases t) (auto simp: cring_Some)
  show ?thesis
  proof (cases "x = l")
    case True
    then have "hd xs = y" using cring_first [OF assms(1)] xs assms(3) by simp
    with xs True show ?thesis by (cases ys) auto
  next
    case False
    with assms(2) xs have "x \<in> set ys" by auto
    with ys(3) obtain as bs where "ys = as @ x # bs" "lseg h (h x) bs (Some l)"
      by (rule lseg_member_suffix)
    with xs assms(3) show ?thesis by (cases bs) auto
  qed
qed

lemma cring_pred_exists:
  assumes "cring h t xs" and "node \<in> set xs"
  shows "\<exists>p \<in> set xs. h p = Some node"
proof -
  from assms obtain l ys where t: "t = Some l" and xs: "xs = ys @ [l]"
    and ys: "lseg h (h l) ys (Some l)" by (cases t) (auto simp: cring_Some)
  from assms(2) xs obtain as bs where sp: "ys @ [l] = as @ node # bs" by (metis split_list)
  show ?thesis
  proof (cases as rule: rev_cases)
    case Nil
    with sp have "hd xs = node" using xs by simp
    then show ?thesis using cring_first [OF assms(1)] xs by auto
  next
    case (snoc cs c)
    with sp ys have "h c = Some node" by (cases bs rule: rev_cases) auto
    with sp xs snoc show ?thesis by auto
  qed
qed

lemma cring_remove_after:
  assumes "cring h t (as @ p # q # bs)"
  shows "cring (h(p := h q)) (if Some q = t then Some p else t) (as @ p # bs)"
proof (cases bs rule: rev_cases)
  case Nil
  with assms have "t = Some q" "q \<notin> set as" "p \<notin> set as" "p \<noteq> q" "distinct as"
    "lseg h (h q) as (Some p)"
    using cring_snoc [of h t "as @ [p]" q] by auto
  with Nil show ?thesis
    using cring_snoc [of "h(p := h q)" "Some p" as p] by auto
next
  case (snoc cs l)
  with assms have "t = Some l" "l \<notin> set as" "p \<notin> set as" "p \<noteq> l" "q \<noteq> l" "distinct (as @ p # cs)"
    "l \<notin> set cs" "lseg h (h l) as (Some p)" "lseg h (h q) cs (Some l)"
    using cring_snoc [of h t "as @ p # q # cs" l] by auto
  with snoc show ?thesis
    using cring_snoc [of "h(p := h q)" "Some l" "as @ p # cs" l] by auto
qed

lemma find_split:
  "find P xs = Some x \<Longrightarrow> \<exists>as bs. xs = as @ x # bs \<and> P x"
  by (metis (full_types) find_Some_iff nth_mem split_list)

text \<open>
  \<open>clist_remove\<close> takes a node that is not the first out of the ring and returns it; the first
  is taken out by \<open>clist_lpop\<close>.
\<close>

lemma cring_remove_inner:
  assumes ring: "cring h t xs" and mem: "node \<in> set xs" and nf: "hd xs \<noteq> node"
  shows "\<exists>h' t'. clist_remove h t node = Some (h', t', Some node) \<and> cring h' t' (remove1 node xs)
               \<and> (\<forall>x. x \<notin> set xs \<longrightarrow> h' x = h x)"
proof -
  from ring mem obtain l where t: "t = Some l" by (cases t) auto
  have hl: "h l \<noteq> Some node" using cring_first [OF ring] cring_last [OF ring] mem nf t by force
  obtain p where p: "find (\<lambda>x. h x = Some node) xs = Some p"
    using cring_pred_exists [OF ring mem] by (cases "find (\<lambda>x. h x = Some node) xs") (auto simp: find_None_iff)
  then have ps: "p \<in> set xs" "h p = Some node" by (auto dest: find_split)
  have "p \<noteq> l" using ps hl by auto
  then obtain as bs where xs: "xs = as @ p # node # bs"
    using cring_successor [OF ring ps] cring_last [OF ring] mem nf t by force
  have rem: "remove1 node xs = as @ p # bs"
    using cring_distinct [OF ring] xs by (simp add: remove1_append)
  have "clist_remove h t node = Some (h(p := h node), (if Some node = t then Some p else t), Some node)"
    using t hl clist_find_before_find [OF ring, of node] p ps by (simp add: clist_remove_def)
  moreover have "cring (h(p := h node)) (if Some node = t then Some p else t) (as @ p # bs)"
    using cring_remove_after ring xs by metis
  ultimately show ?thesis using rem ps by auto
qed

theorem clist_remove_spec:
  assumes ring: "cring h t xs"
  shows "\<exists>h' t'. clist_remove h t node = Some (h', t', if node \<in> set xs then Some node else None)
               \<and> cring h' t' (remove1 node xs) \<and> (\<forall>x. x \<notin> set xs \<longrightarrow> h' x = h x)"
proof (cases "node \<in> set xs")
  case False
  then have "find (\<lambda>x. h x = Some node) xs = None"
    using cring_successor [OF ring] by (auto simp: find_None_iff)
  moreover have "t = Some l \<Longrightarrow> h l \<noteq> Some node" for l
    using False cring_first [OF ring] cring_last [OF ring] ring by (cases "xs = []") auto
  ultimately have "clist_remove h t node = Some (h, t, None)"
    using clist_find_before_find [OF ring, of node] by (cases t) (auto simp: clist_remove_def)
  with False ring show ?thesis by (simp add: remove1_idem)
next
  case True
  show ?thesis
  proof (cases "hd xs = node")
    case fst: True
    from True have ne: "xs \<noteq> []" by auto
    with ring obtain l where "t = Some l" "h l = Some node"
      using cring_last cring_first fst by metis
    then have "clist_remove h t node = clist_lpop h t" by (simp add: clist_remove_def)
    moreover have "remove1 node xs = tl xs" using fst ne by (cases xs) auto
    ultimately show ?thesis using cring_lpop [OF ring ne] fst True by auto
  next
    case False
    with ring True show ?thesis using cring_remove_inner by fastforce
  qed
qed

lemma clist_find_spec:
  assumes "cring h t xs"
  shows "clist_find h t node = Some (if node \<in> set xs then Some node else None)"
proof (cases "find (\<lambda>x. h x = Some node) xs")
  case None
  then have "node \<notin> set xs" using cring_pred_exists [OF assms] by (auto simp: find_None_iff)
  with None show ?thesis
    by (simp add: clist_find_def clist_find_before_find [OF assms])
next
  case (Some p)
  then have "p \<in> set xs" "h p = Some node" by (auto dest: find_split)
  with Some cring_successor [OF assms] show ?thesis
    by (auto simp: clist_find_def clist_find_before_find [OF assms])
qed

subsection \<open>Popping at the right end\<close>

lemma clist_rpop_loop_end:
  "lseg h (h p) ys (Some l) \<Longrightarrow> l \<notin> set ys \<Longrightarrow>
     clist_rpop_loop h (Some p) (Some l) = Some (Some (last (p # ys)))"
  by (induction ys arbitrary: p)
     (subst clist_rpop_loop.simps, auto simp: clist_lpoprpush_def)+

lemma clist_rpop_spec:
  assumes "cring h t xs" and "xs \<noteq> []"
  shows "\<exists>h' t'. clist_rpop h t = Some (h', t', Some (last xs)) \<and> cring h' t' (butlast xs)"
proof -
  from assms obtain ys l where xs: "xs = ys @ [l]" and t: "t = Some l"
    and ys: "l \<notin> set ys" "distinct ys" "lseg h (h l) ys (Some l)"
    by (cases t) (auto simp: cring_Some)
  have rp: "clist_rpop h t = clist_lpop h (Some (last (l # ys)))"
    using ys t by (simp add: clist_rpop_def clist_rpop_loop_end)
  have "cring h (Some (last (l # ys))) (l # ys)"
  proof (cases ys rule: rev_cases)
    case Nil
    with ys show ?thesis using cring_snoc [of h "Some l" "[]" l] by auto
  next
    case (snoc zs m)
    with ys show ?thesis using cring_snoc [of h "Some m" "l # zs" m] by auto
  qed
  from cring_lpop [OF this] rp xs show ?thesis by auto
qed

section \<open>The queue contract\<close>

text \<open>
  What a client may rely on: appending, taking the first, rotating, and that nodes outside a
  queue are left alone, so that several queues can share one heap of nodes.
\<close>

fun drain :: "('n heap \<Rightarrow> 'n option \<Rightarrow> ('n heap \<times> 'n option \<times> 'n option) option) \<Rightarrow>
    nat \<Rightarrow> 'n heap \<Rightarrow> 'n option \<Rightarrow> 'n option list option" where
  "drain pop 0 h t = Some []"
| "drain pop (Suc k) h t =
     do { (h', t', x) \<leftarrow> pop h t; xs \<leftarrow> drain pop k h' t'; Some (x # xs) }"

locale ring_queue =
  fixes push_back :: "'n heap \<Rightarrow> 'n option \<Rightarrow> 'n \<Rightarrow> 'n heap \<times> 'n option"
    and pop_front :: "'n heap \<Rightarrow> 'n option \<Rightarrow> ('n heap \<times> 'n option \<times> 'n option) option"
    and rotate_front :: "'n heap \<Rightarrow> 'n option \<Rightarrow> 'n option"
    and rep :: "'n heap \<Rightarrow> 'n option \<Rightarrow> 'n list \<Rightarrow> bool"
  assumes push_rep: "rep h t xs \<Longrightarrow> n \<notin> set xs \<Longrightarrow>
        rep (fst (push_back h t n)) (snd (push_back h t n)) (xs @ [n])"
    and push_frame: "rep h t xs \<Longrightarrow> x \<notin> insert n (set xs) \<Longrightarrow> fst (push_back h t n) x = h x"
    and pop_rep: "rep h t xs \<Longrightarrow> xs \<noteq> [] \<Longrightarrow>
        \<exists>h' t'. pop_front h t = Some (h', t', Some (hd xs)) \<and> rep h' t' (tl xs)
              \<and> (\<forall>x. x \<notin> set xs \<longrightarrow> h' x = h x)"
    and rotate_rep: "rep h t xs \<Longrightarrow> rep h (rotate_front h t) (rotate1 xs)"
    and rep_frame: "rep h t xs \<Longrightarrow> (\<And>x. x \<in> set xs \<Longrightarrow> h' x = h x) \<Longrightarrow> rep h' t xs"
    and rep_empty: "rep h None []"
    and rep_distinct: "rep h t xs \<Longrightarrow> distinct xs"
begin

lemma push_all_rep:
  "rep h t xs \<Longrightarrow> distinct (xs @ ns) \<Longrightarrow>
     (case fold (\<lambda>n (h, t). push_back h t n) ns (h, t) of (h', t') \<Rightarrow> rep h' t' (xs @ ns))"
proof (induction ns arbitrary: h t xs)
  case Nil
  then show ?case by simp
next
  case (Cons n ns)
  from Cons.prems have "rep (fst (push_back h t n)) (snd (push_back h t n)) (xs @ [n])"
    by (intro push_rep) auto
  from Cons.IH [OF this] Cons.prems(2) show ?case by (simp add: case_prod_beta)
qed

lemma drain_in_order: "rep h t xs \<Longrightarrow> drain pop_front (length xs) h t = Some (map Some xs)"
proof (induction xs arbitrary: h t)
  case Nil
  then show ?case by simp
next
  case (Cons x xs)
  from pop_rep [OF Cons.prems] obtain h' t' where
    "pop_front h t = Some (h', t', Some x)" "rep h' t' xs" by auto
  with Cons.IH show ?case by simp
qed

text \<open>First in, first out.\<close>

lemma push_all_drain:
  assumes "distinct ns"
  shows "(case fold (\<lambda>n (h, t). push_back h t n) ns (h, None) of
            (h', t') \<Rightarrow> drain pop_front (length ns) h' t') = Some (map Some ns)"
  using push_all_rep [OF rep_empty, of ns h] assms drain_in_order
  by (auto split: prod.splits)

text \<open>Round robin: as many rotations as there are nodes give every node its turn at the front.\<close>

lemma rotations_rep: "rep h t xs \<Longrightarrow> rep h ((rotate_front h ^^ k) t) (rotate k xs)"
  by (induction k) (auto dest: rotate_rep)

lemma round_robin:
  assumes "rep h t xs" and "k < length xs"
  shows "\<exists>zs. rep h ((rotate_front h ^^ k) t) zs \<and> zs \<noteq> [] \<and> hd zs = xs ! k"
  using rotations_rep [OF assms(1), of k] assms(2) hd_rotate_conv_nth [of xs k]
  by (intro exI [of _ "rotate k xs"]) (cases "xs = []", auto)

text \<open>Two queues that share no node do not disturb each other.\<close>

lemma other_queue_push:
  "rep h t xs \<Longrightarrow> rep h u ys \<Longrightarrow> n \<notin> set ys \<Longrightarrow> set xs \<inter> set ys = {} \<Longrightarrow>
     rep (fst (push_back h t n)) u ys"
  by (rule rep_frame [of h]) (auto intro!: push_frame [of h t xs])

lemma other_queue_pop:
  "rep h t xs \<Longrightarrow> xs \<noteq> [] \<Longrightarrow> rep h u ys \<Longrightarrow> set xs \<inter> set ys = {} \<Longrightarrow>
     pop_front h t = Some (h', t', x) \<Longrightarrow> rep h' u ys"
  using pop_rep [of h t xs] by (auto intro!: rep_frame [of h u ys h'])

end

interpretation cl: ring_queue clist_rpush clist_lpop clist_lpoprpush cring
proof unfold_locales
  show "cring h t xs \<Longrightarrow> (\<And>x. x \<in> set xs \<Longrightarrow> h' x = h x) \<Longrightarrow> cring h' t xs"
    for h h' :: "'n heap" and t xs
    using cring_cong [of xs h' h t] by simp
qed (auto intro: cring_rpush cring_lpop cring_lpoprpush cring_distinct simp: rpush_frame)

end
