(* ===== verification/Bitarithm.thy ===== *)
theory Bitarithm
  imports Prelude
begin

text \<open>
  Bit arithmetic of \<open>core/bitarithm.c\<close> and \<open>core/include/bitarithm.h\<close>, at any word width
  \<open>'a\<close> for the loops (\<open>unsigned\<close> is 16 bits on the MSP430, 32 on the native board) and at
  32 bits for the two variants the header only selects there. Positions and counts are at most
  the word width, so they are natural numbers. The header's two implementations of the least
  significant bit, the loop and the de Bruijn table, are shown to agree.
\<close>

section \<open>Definitions\<close>

function bitarithm_msb_loop :: "'a::len word \<Rightarrow> nat \<Rightarrow> nat" where
  "bitarithm_msb_loop v r =
     (let v' = drop_bit 1 v in if v' \<noteq> 0 then bitarithm_msb_loop v' (r + 1) else r)"
  by pat_completeness auto

termination
proof (relation "measure (\<lambda>(v, r). unat v)")
  fix v v' :: "'a word" and r :: nat
  assume "v' = drop_bit 1 v" and "v' \<noteq> 0"
  then have "unat v' = unat v div 2" and "unat v' \<noteq> 0"
    using unat_drop_bit [of 1 v] unat_eq_0 [of v'] by simp_all
  then show "((v', r + 1), (v, r)) \<in> measure (\<lambda>(v, r). unat v)" by simp
qed simp

definition bitarithm_msb :: "'a::len word \<Rightarrow> nat" where
  "bitarithm_msb v = bitarithm_msb_loop v 0"

text \<open>The 32-bit branch: a binary search over the halves of the word.\<close>

definition bitarithm_msb_32 :: "u32 \<Rightarrow> nat" where
  "bitarithm_msb_32 v0 =
     (let r0 = (if v0 > 0xFFFF then 16 else 0); v1 = drop_bit r0 v0;
          s1 = (if v1 > 0xFF then 8 else 0); v2 = drop_bit s1 v1; r1 = r0 + s1;
          s2 = (if v2 > 0xF then 4 else 0); v3 = drop_bit s2 v2; r2 = r1 + s2;
          s3 = (if v3 > 0x3 then 2 else 0); v4 = drop_bit s3 v3; r3 = r2 + s3
      in r3 + unat (drop_bit 1 v4))"

lemma and_pred_less: "(v :: 'a::len word) \<noteq> 0 \<Longrightarrow> unat (v AND (v - 1)) < unat v"
proof -
  assume nz: "v \<noteq> 0"
  have "v AND (v - 1) \<le> v - 1" by (rule word_and_le1)
  then have "unat (v AND (v - 1)) \<le> unat (v - 1)" by (simp add: word_le_nat_alt)
  also from nz have "unat (v - 1) < unat v" by (simp add: unat_minus_one unat_gt_0)
  finally show ?thesis .
qed

function bitarithm_bits_set_loop :: "'a::len word \<Rightarrow> nat \<Rightarrow> nat" where
  "bitarithm_bits_set_loop v c =
     (if v \<noteq> 0 then bitarithm_bits_set_loop (v AND (v - 1)) (c + 1) else c)"
  by pat_completeness auto

termination
  by (relation "measure (\<lambda>(v, c). unat v)") (auto simp: and_pred_less)

definition bitarithm_bits_set :: "u16 \<Rightarrow> nat" where
  "bitarithm_bits_set v = bitarithm_bits_set_loop v 0"

definition bitarithm_bits_set_u32 :: "u32 \<Rightarrow> nat" where
  "bitarithm_bits_set_u32 v = bitarithm_bits_set_loop v 0"

text \<open>The loop of \<open>bitarithm_lsb\<close> does not end on 0.\<close>

partial_function (option) bitarithm_lsb_loop :: "'a::len word \<Rightarrow> nat \<Rightarrow> nat option" where
  "bitarithm_lsb_loop v r =
     (if v AND 1 = 0 then bitarithm_lsb_loop (drop_bit 1 v) (r + 1) else Some r)"

definition bitarithm_lsb :: "'a::len word \<Rightarrow> nat option" where
  "bitarithm_lsb v = bitarithm_lsb_loop v 0"

definition MultiplyDeBruijnBitPosition :: "nat list" where
  "MultiplyDeBruijnBitPosition =
     [0, 1, 28, 2, 29, 14, 24, 3, 30, 22, 20, 15, 25, 17, 4, 8,
      31, 27, 13, 23, 21, 19, 16, 7, 26, 12, 18, 6, 11, 5, 10, 9]"

definition bitarithm_lsb_lookup :: "u32 \<Rightarrow> nat" where
  "bitarithm_lsb_lookup v =
     MultiplyDeBruijnBitPosition ! unat (drop_bit 27 ((v AND - v) * 0x077CB531))"

definition SETBIT :: "'a::len word \<Rightarrow> 'a word \<Rightarrow> 'a word" where
  "SETBIT val b = val OR b"

definition CLRBIT :: "'a::len word \<Rightarrow> 'a word \<Rightarrow> 'a word" where
  "CLRBIT val b = val AND NOT b"

declare bitarithm_msb_loop.simps [simp del] bitarithm_bits_set_loop.simps [simp del]

section \<open>Most significant bit\<close>

lemma bitarithm_msb_loop_floor:
  "unat v \<noteq> 0 \<Longrightarrow>
     2 ^ (bitarithm_msb_loop v r - r) \<le> unat v \<and> unat v < 2 ^ (bitarithm_msb_loop v r - r + 1)
     \<and> r \<le> bitarithm_msb_loop v r"
proof (induction v r rule: bitarithm_msb_loop.induct)
  case (1 v r)
  define w where "w = drop_bit 1 v"
  have u: "unat w = unat v div 2" using unat_drop_bit [of 1 v] by (simp add: w_def)
  show ?case
  proof (cases "w = 0")
    case True
    then have "unat v div 2 = 0" using u by simp
    with "1.prems" have "unat v = 1" by arith
    with True show ?thesis by (simp add: bitarithm_msb_loop.simps [of v r] Let_def w_def)
  next
    case False
    then have nz: "unat w \<noteq> 0" by (simp add: unat_eq_0)
    let ?m = "bitarithm_msb_loop w (r + 1)"
    from "1.IH" [OF w_def False nz]
    have ih: "2 ^ (?m - (r + 1)) \<le> unat w" "unat w < 2 ^ (?m - (r + 1) + 1)" "r + 1 \<le> ?m" by auto
    then obtain d where d: "?m = r + 1 + d" by (metis le_add_diff_inverse)
    have "bitarithm_msb_loop v r = ?m"
      using False by (simp add: bitarithm_msb_loop.simps [of v r] Let_def w_def)
    with ih d u show ?thesis by (auto simp: algebra_simps)
  qed
qed

lemma msb_floor: "v \<noteq> 0 \<Longrightarrow> 2 ^ bitarithm_msb v \<le> unat v \<and> unat v < 2 ^ (bitarithm_msb v + 1)"
  using bitarithm_msb_loop_floor [of v 0] by (simp add: bitarithm_msb_def unat_eq_0)

lemma power_floor_unique:
  assumes "2 ^ a \<le> (n::nat)" and "n < 2 ^ (a + 1)" and "2 ^ b \<le> n" and "n < 2 ^ (b + 1)"
  shows "a = b"
proof -
  have "(2::nat) ^ a < 2 ^ (b + 1)" "(2::nat) ^ b < 2 ^ (a + 1)" using assms by linarith+
  then have "a < b + 1" "b < a + 1"
    by (metis one_less_numeral_iff power_strict_increasing_iff semiring_norm(76))+
  then show ?thesis by simp
qed

text \<open>The binary search computes the same position: each halving keeps the floor.\<close>

lemma floor_step:
  fixes n k m :: nat
  defines "s \<equiv> (if n \<ge> 2 ^ k then k else 0)"
  shows "0 < n \<Longrightarrow> 0 < n div 2 ^ s" and "n < 2 ^ (2 * k) \<Longrightarrow> n div 2 ^ s < 2 ^ k"
    and "2 ^ m \<le> n div 2 ^ s \<Longrightarrow> n div 2 ^ s < 2 ^ (m + 1) \<Longrightarrow>
           2 ^ (s + m) \<le> n \<and> n < 2 ^ (s + m + 1)"
proof -
  show "0 < n \<Longrightarrow> 0 < n div 2 ^ s" by (auto simp: s_def div_greater_zero_iff)
  show "n < 2 ^ (2 * k) \<Longrightarrow> n div 2 ^ s < 2 ^ k"
    by (auto simp: s_def less_mult_imp_div_less power_add mult_2 simp flip: power_add)
  assume "2 ^ m \<le> n div 2 ^ s" and "n div 2 ^ s < 2 ^ (m + 1)"
  then have "2 ^ m * 2 ^ s \<le> n" "n < 2 ^ (m + 1) * 2 ^ s"
    by (simp_all add: less_eq_div_iff_mult_less_eq div_less_iff_less_mult)
  then show "2 ^ (s + m) \<le> n \<and> n < 2 ^ (s + m + 1)" by (simp add: power_add algebra_simps)
qed

lemma halve_step:
  assumes "unat w = n" and "unat (c::u32) + 1 = 2 ^ k"
  shows "(if w > c then k else 0) = (if n \<ge> 2 ^ k then k else (0::nat))"
    and "unat (drop_bit (if w > c then k else 0) w) = n div 2 ^ (if n \<ge> 2 ^ k then k else (0::nat))"
proof -
  have "w > c \<longleftrightarrow> n \<ge> 2 ^ k" using assms by (auto simp: word_less_nat_alt)
  then show "(if w > c then k else 0) = (if n \<ge> 2 ^ k then k else (0::nat))"
    and "unat (drop_bit (if w > c then k else 0) w) = n div 2 ^ (if n \<ge> 2 ^ k then k else (0::nat))"
    using assms(1) by (auto simp: unat_drop_bit)
qed

lemma msb_32_floor:
  assumes "(v::u32) \<noteq> 0"
  shows "2 ^ bitarithm_msb_32 v \<le> unat v \<and> unat v < 2 ^ (bitarithm_msb_32 v + 1)"
proof -
  define n0 where "n0 = unat v"
  define r0 where "r0 = (if n0 \<ge> 2 ^ 16 then 16 else (0::nat))"
  define n1 where "n1 = n0 div 2 ^ r0"
  define s1 where "s1 = (if n1 \<ge> 2 ^ 8 then 8 else (0::nat))"
  define n2 where "n2 = n1 div 2 ^ s1"
  define s2 where "s2 = (if n2 \<ge> 2 ^ 4 then 4 else (0::nat))"
  define n3 where "n3 = n2 div 2 ^ s2"
  define s3 where "s3 = (if n3 \<ge> 2 ^ 2 then 2 else (0::nat))"
  define n4 where "n4 = n3 div 2 ^ s3"
  have n: "0 < n0" "n0 < 2 ^ (2 * 16)"
    using assms unsigned_less [of v] by (simp_all add: n0_def unat_gt_0)
  have b1: "0 < n1" "n1 < 2 ^ (2 * 8)"
    using floor_step(1,2) [of n0 16] n unfolding n1_def r0_def by auto
  have b2: "0 < n2" "n2 < 2 ^ (2 * 4)"
    using floor_step(1,2) [of n1 8] b1 unfolding n2_def s1_def by auto
  have b3: "0 < n3" "n3 < 2 ^ (2 * 2)"
    using floor_step(1,2) [of n2 4] b2 unfolding n3_def s2_def by auto
  have b4: "0 < n4" "n4 < 2 ^ 2"
    using floor_step(1,2) [of n3 2] b3 unfolding n4_def s3_def by auto
  then have "n4 = 1 \<or> n4 = 2 \<or> n4 = 3" by auto
  then have f4: "2 ^ (n4 div 2) \<le> n4" "n4 < 2 ^ (n4 div 2 + 1)" by auto
  have f3: "2 ^ (s3 + n4 div 2) \<le> n3 \<and> n3 < 2 ^ (s3 + n4 div 2 + 1)"
    using floor_step(3) [of "n4 div 2" n3 2] f4 unfolding n4_def s3_def by auto
  have f2: "2 ^ (s2 + (s3 + n4 div 2)) \<le> n2 \<and> n2 < 2 ^ (s2 + (s3 + n4 div 2) + 1)"
    using floor_step(3) [of "s3 + n4 div 2" n2 4] f3 unfolding n3_def s2_def by auto
  have f1: "2 ^ (s1 + (s2 + (s3 + n4 div 2))) \<le> n1 \<and> n1 < 2 ^ (s1 + (s2 + (s3 + n4 div 2)) + 1)"
    using floor_step(3) [of "s2 + (s3 + n4 div 2)" n1 8] f2 unfolding n2_def s1_def by auto
  have f0: "2 ^ (r0 + (s1 + (s2 + (s3 + n4 div 2)))) \<le> n0 \<and>
      n0 < 2 ^ (r0 + (s1 + (s2 + (s3 + n4 div 2))) + 1)"
    using floor_step(3) [of "s1 + (s2 + (s3 + n4 div 2))" n0 16] f1 unfolding n1_def r0_def by auto
  define w1 where "w1 = drop_bit (if v > 0xFFFF then 16 else 0) v"
  define w2 where "w2 = drop_bit (if w1 > 0xFF then 8 else 0) w1"
  define w3 where "w3 = drop_bit (if w2 > 0xF then 4 else 0) w2"
  define w4 where "w4 = drop_bit (if w3 > 3 then 2 else 0) w3"
  have u0: "unat v = n0" by (simp add: n0_def)
  have e0: "(if v > 0xFFFF then 16 else 0) = r0" and u1: "unat w1 = n1"
    unfolding r0_def w1_def n1_def by (rule halve_step [OF u0], simp)+
  have e1: "(if w1 > 0xFF then 8 else 0) = s1" and u2: "unat w2 = n2"
    unfolding s1_def w2_def n2_def by (rule halve_step [OF u1], simp)+
  have e2: "(if w2 > 0xF then 4 else 0) = s2" and u3: "unat w3 = n3"
    unfolding s2_def w3_def n3_def by (rule halve_step [OF u2], simp)+
  have e3: "(if w3 > 3 then 2 else 0) = s3" and u4: "unat w4 = n4"
    unfolding s3_def w4_def n4_def by (rule halve_step [OF u3], simp)+
  have "bitarithm_msb_32 v = (if v > 0xFFFF then 16 else 0) + (if w1 > 0xFF then 8 else 0)
      + (if w2 > 0xF then 4 else 0) + (if w3 > 3 then 2 else 0) + unat w4 div 2"
    by (simp only: bitarithm_msb_32_def Let_def w1_def w2_def w3_def w4_def unat_drop_bit power_one_right)
  then have "bitarithm_msb_32 v = r0 + s1 + s2 + s3 + n4 div 2"
    by (simp only: e0 e1 e2 e3 u4)
  with f0 show ?thesis by (simp add: n0_def ac_simps)
qed

lemma msb_32_eq_loop: "bitarithm_msb_32 v = bitarithm_msb v"
proof (cases "v = 0")
  case True
  then show ?thesis by (simp add: bitarithm_msb_32_def bitarithm_msb_def bitarithm_msb_loop.simps)
next
  case False
  then show ?thesis using msb_32_floor [of v] msb_floor [of v] power_floor_unique by blast
qed

section \<open>Number of set bits\<close>

fun nat_bits_set :: "nat \<Rightarrow> nat" where
  "nat_bits_set n = (if n = 0 then 0 else n mod 2 + nat_bits_set (n div 2))"

declare nat_bits_set.simps [simp del]

lemma nat_bits_set_double [simp]: "nat_bits_set (2 * n) = nat_bits_set n"
  by (cases "n = 0") (simp_all add: nat_bits_set.simps [of "2 * n"] nat_bits_set.simps [of 0])

lemma nat_bits_set_Suc_double: "nat_bits_set (2 * n + 1) = Suc (nat_bits_set n)"
  by (subst nat_bits_set.simps) simp

lemma nat_bits_set_clear_lowest: "0 < n \<Longrightarrow> Suc (nat_bits_set (n AND (n - 1))) = nat_bits_set n"
proof (induction n rule: less_induct)
  case (less n)
  show ?case
  proof (cases "even n")
    case True
    then obtain m where m: "n = 2 * m" by blast
    with less.prems have pos: "0 < m" by simp
    have "n AND (n - 1) = 2 * (m AND (m - 1))"
      using pos m by (subst and_nat_rec) (auto simp: div_mult_self1 intro!: arg_cong2 [where f = "(AND)"])
    with less.IH [of m] pos m show ?thesis by simp
  next
    case False
    then obtain m where m: "n = 2 * m + 1" by (blast elim: oddE)
    have "n AND (n - 1) = 2 * m" by (simp add: m and_nat_rec [of "Suc (2 * m)" "2 * m"])
    then show ?thesis using m nat_bits_set_Suc_double [of m] by simp
  qed
qed

lemma bits_set_loop_count: "bitarithm_bits_set_loop v c = c + nat_bits_set (unat v)"
proof (induction v c rule: bitarithm_bits_set_loop.induct)
  case (1 v c)
  show ?case
  proof (cases "v = 0")
    case True
    then show ?thesis by (simp add: bitarithm_bits_set_loop.simps nat_bits_set.simps)
  next
    case False
    then have "unat (v AND (v - 1)) = unat v AND (unat v - 1)"
      by (simp add: unat_AND unat_minus_one)
    moreover have "0 < unat v" using False by (simp add: unat_gt_0)
    ultimately show ?thesis
      using 1 [OF False] nat_bits_set_clear_lowest [of "unat v"] False
      by (simp add: bitarithm_bits_set_loop.simps [of v c])
  qed
qed

lemma nat_bits_set_card: "n < 2 ^ k \<Longrightarrow> nat_bits_set n = card {i. i < k \<and> bit n i}"
proof (induction k arbitrary: n)
  case 0
  then show ?case by (simp add: nat_bits_set.simps)
next
  case (Suc k)
  have split: "{i. i < Suc k \<and> bit n i} = (if odd n then {0} else {}) \<union> Suc ` {i. i < k \<and> bit (n div 2) i}"
    (is "?L = _ \<union> Suc ` ?R")
    by (auto simp: bit_Suc image_iff less_Suc_eq_0_disj bit_0)
  have "card ?L = (if odd n then 1 else 0) + card ?R"
    unfolding split by (subst card_Un_disjoint) (auto simp: card_image)
  with Suc.IH [of "n div 2"] Suc.prems show ?case
    by (cases "n = 0") (auto simp: nat_bits_set.simps [of n] nat_bits_set.simps [of 0] mod_2_eq_odd)
qed

lemma bits_set_loop_card:
  "bitarithm_bits_set_loop (v :: 'a::len word) 0 = card {i. i < LENGTH('a) \<and> bit v i}"
proof -
  have "{i. i < LENGTH('a) \<and> bit (unat v) i} = {i. i < LENGTH('a) \<and> bit v i}"
    by (auto simp: bit_unsigned_iff)
  then show ?thesis
    using nat_bits_set_card [of "unat v" "LENGTH('a)"] by (simp add: bits_set_loop_count)
qed

section \<open>Least significant bit\<close>

lemma lsb_loop_spec:
  assumes "bit v n" and "\<And>i. i < n \<Longrightarrow> \<not> bit v i"
  shows "bitarithm_lsb_loop v r = Some (r + n)"
  using assms
proof (induction n arbitrary: v r)
  case 0
  then show ?case by (subst bitarithm_lsb_loop.simps) (simp add: bit_0 and_one_eq odd_iff_mod_2_eq_one)
next
  case (Suc n)
  then have "even v" using Suc.prems(2) [of 0] by (simp add: bit_0)
  moreover have "bitarithm_lsb_loop (drop_bit 1 v) (r + 1) = Some (r + 1 + n)"
  proof (rule Suc.IH)
    show "bit (drop_bit 1 v) n" using Suc.prems(1) by (simp add: bit_drop_bit_eq)
    show "\<not> bit (drop_bit 1 v) i" if "i < n" for i
      using Suc.prems(2) [of "Suc i"] that by (simp add: bit_drop_bit_eq)
  qed
  ultimately show ?case
    by (subst bitarithm_lsb_loop.simps) (simp add: and_one_eq even_iff_mod_2_eq_zero)
qed

lemma word_lowest_bit:
  assumes "(v :: 'a::len word) \<noteq> 0"
  obtains n where "n < LENGTH('a)" and "bit v n" and "\<And>i. i < n \<Longrightarrow> \<not> bit v i"
proof -
  from assms have "\<exists>n. bit v n" by (metis bit_eqI bit_0_eq bot_apply bot_bool_def)
  then obtain n where "bit v n" "\<forall>i<n. \<not> bit v i" using exists_least_iff [of "bit v"] by blast
  with that show thesis using bit_imp_le_length by blast
qed

lemma lsb_lowest:
  "v \<noteq> 0 \<Longrightarrow> \<exists>n < LENGTH('a). bitarithm_lsb (v :: 'a::len word) = Some n \<and> bit v n \<and> (\<forall>i<n. \<not> bit v i)"
proof -
  assume "v \<noteq> 0"
  then obtain n where n: "n < LENGTH('a)" "bit v n" "\<And>i. i < n \<Longrightarrow> \<not> bit v i"
    by (rule word_lowest_bit) blast
  moreover have "bitarithm_lsb v = Some n"
    using lsb_loop_spec [of v n 0, OF n(2,3)] by (simp add: bitarithm_lsb_def)
  ultimately show ?thesis by blast
qed

text \<open>Without a set bit the loop shifts zeros for ever.\<close>

lemma lsb_loop_zero: "bitarithm_lsb_loop 0 r = None"
proof (rule ccontr)
  assume "bitarithm_lsb_loop (0 :: 'a word) r \<noteq> None"
  then obtain y where "bitarithm_lsb_loop (0 :: 'a word) r = Some y" by blast
  then have "(0 :: 'a word) \<noteq> 0"
    by (rule bitarithm_lsb_loop.raw_induct [rotated, where P = "\<lambda>v r y. v \<noteq> 0"])
       (force split: if_splits)
  then show False by simp
qed

lemma word_isolate_lowest:
  assumes "bit (v :: 'a::len word) n" and "\<And>i. i < n \<Longrightarrow> \<not> bit v i"
  shows "v AND - v = push_bit n 1"
proof -
  define w where "w = drop_bit n v"
  have low: "n \<le> i" if "bit v i" for i using assms(2) [of i] that by (meson not_le)
  have v: "v = push_bit n w"
    by (intro bit_eqI) (auto simp: w_def bit_push_bit_iff bit_drop_bit_eq low)
  have odd: "odd w" using assms(1) by (simp add: w_def bit_0 [symmetric] bit_drop_bit_eq)
  have "- w = NOT w OR 1" using odd by (simp add: minus_eq_not_plus_1 or_one_eq)
  then have "w AND - w = w AND 1"
    by (simp add: bit_eq_iff bit_and_iff bit_or_iff bit_not_iff) blast
  also have "\<dots> = 1" using odd by (simp add: and_one_eq odd_iff_mod_2_eq_one)
  finally have one: "w AND - w = 1" .
  have "- v = push_bit n (- w)" by (simp add: v push_bit_eq_mult)
  then show ?thesis using one by (simp add: v flip: push_bit_and)
qed

lemma de_bruijn_positions:
  "n < 32 \<Longrightarrow> MultiplyDeBruijnBitPosition ! unat (drop_bit 27 (push_bit n 1 * (0x077CB531::u32))) = n"
proof -
  have "\<forall>n \<in> set [0..<32].
      MultiplyDeBruijnBitPosition ! unat (drop_bit 27 (push_bit n 1 * (0x077CB531::u32))) = n"
    by code_simp
  then show "n < 32 \<Longrightarrow> ?thesis" by simp
qed

lemma lsb_lookup_eq_loop: "v \<noteq> 0 \<Longrightarrow> bitarithm_lsb v = Some (bitarithm_lsb_lookup v)"
proof -
  assume "v \<noteq> 0"
  then obtain n where n: "n < 32" "bit v n" "\<And>i. i < n \<Longrightarrow> \<not> bit v i"
    by (rule word_lowest_bit) simp
  have "bitarithm_lsb_lookup v = n"
    using de_bruijn_positions [OF n(1)]
    by (simp only: bitarithm_lsb_lookup_def word_isolate_lowest [OF n(2,3)])
  with lsb_loop_spec [of v n 0, OF n(2,3)] show ?thesis by (simp add: bitarithm_lsb_def)
qed

text \<open>The loop that clears the lowest set bit until nothing is left counts the set bits of the word.\<close>

lemma bitarithm_bits_set_counts:
  "bitarithm_bits_set v = card {i. i < 16 \<and> bit v i}" "bitarithm_bits_set_u32 w = card {i. i < 32 \<and> bit w i}"
  using bits_set_loop_card [of v] bits_set_loop_card [of w]
  by (simp_all add: bitarithm_bits_set_def bitarithm_bits_set_u32_def)

end
