(* ===== verification/Sched_State.thy ===== *)
theory Sched_State
  imports Clist Bitarithm
begin

text \<open>
  The protected state of the module \<open>sancus_sm_timer\<close>, shared by the scheduler
  (\<open>core/sched.c\<close>), the thread table (\<open>core/thread.c\<close>), the secure timer
  (\<open>sys/secure_mintimer/secure_mintimer_core.c\<close>) and the TimerA driver
  (\<open>cpu/msp430-sancus/periph/timer.c\<close>), with \<open>sched_set_status\<close>, which both the
  scheduler and the timer call, and the copies of the ring operations that \<open>sched.c\<close> keeps
  inside the module.

  A thread pointer is an index of \<open>sched_threads\<close>; the table has 33 entries and an access
  through any other index is \<open>None\<close>. The embedded \<open>rq_entry\<close> nodes of all threads form
  one heap, so \<open>container_of\<close> is the identity. A timer pointer is a slot of
  \<open>secure_mintimer_timer_list\<close> or the scheduler's own timer. Each read of the counter
  register \<open>TIMER_A->R\<close> takes the next value of \<open>hw_reads\<close>, an arbitrary sequence.
\<close>

section \<open>Threads\<close>

datatype thread_status_t =
    STATUS_STOPPED | STATUS_SLEEPING | STATUS_MUTEX_BLOCKED | STATUS_RECEIVE_BLOCKED
  | STATUS_SEND_BLOCKED | STATUS_REPLY_BLOCKED | STATUS_FLAG_BLOCKED_ANY | STATUS_FLAG_BLOCKED_ALL
  | STATUS_MBOX_BLOCKED | STATUS_COND_BLOCKED | STATUS_RUNNING | STATUS_PENDING | STATUS_NUMOF

text \<open>The enumeration's order is its order of declaration, as C compares it.\<close>

fun status_code :: "thread_status_t \<Rightarrow> nat" where
  "status_code STATUS_STOPPED = 0"
| "status_code STATUS_SLEEPING = 1"
| "status_code STATUS_MUTEX_BLOCKED = 2"
| "status_code STATUS_RECEIVE_BLOCKED = 3"
| "status_code STATUS_SEND_BLOCKED = 4"
| "status_code STATUS_REPLY_BLOCKED = 5"
| "status_code STATUS_FLAG_BLOCKED_ANY = 6"
| "status_code STATUS_FLAG_BLOCKED_ALL = 7"
| "status_code STATUS_MBOX_BLOCKED = 8"
| "status_code STATUS_COND_BLOCKED = 9"
| "status_code STATUS_RUNNING = 10"
| "status_code STATUS_PENDING = 11"
| "status_code STATUS_NUMOF = 12"

lemma status_code_inject: "status_code a = status_code b \<Longrightarrow> a = b"
  by (cases a; cases b) simp_all

instantiation thread_status_t :: linorder
begin

definition less_eq_thread_status_t :: "thread_status_t \<Rightarrow> thread_status_t \<Rightarrow> bool" where
  "less_eq_thread_status_t a b \<longleftrightarrow> status_code a \<le> status_code b"

definition less_thread_status_t :: "thread_status_t \<Rightarrow> thread_status_t \<Rightarrow> bool" where
  "less_thread_status_t a b \<longleftrightarrow> status_code a < status_code b"

instance
  by standard (auto simp: less_eq_thread_status_t_def less_thread_status_t_def intro: status_code_inject)

end

lemmas status_order = less_eq_thread_status_t_def less_thread_status_t_def

definition STATUS_ON_RUNQUEUE :: thread_status_t where
  "STATUS_ON_RUNQUEUE = STATUS_RUNNING"

record thread_t =
  is_sm :: bool
  sp :: u16
  sm_idx :: u16
  status :: thread_status_t
  priority :: u8
  pid :: int
  in_use :: bool
  sm_entry :: u16
  period :: u32
  runtime :: u32
  last_reference :: u32
  last_runtime :: u32
  original_idx :: u16

definition MAXTHREADS :: nat where "MAXTHREADS = 32"
definition KERNEL_PID_UNDEF :: int where "KERNEL_PID_UNDEF = 0"
definition KERNEL_PID_FIRST :: int where "KERNEL_PID_FIRST = KERNEL_PID_UNDEF + 1"
definition KERNEL_PID_LAST :: int where "KERNEL_PID_LAST = KERNEL_PID_FIRST + int MAXTHREADS - 1"
definition SCHED_PRIO_LEVELS :: nat where "SCHED_PRIO_LEVELS = 16"
definition SCHED_PERIODIC_PRIO_LEVEL :: u8 where "SCHED_PERIODIC_PRIO_LEVEL = 1"
definition SCHED_PROTECTED_PRIO_LEVELS :: u8 where "SCHED_PROTECTED_PRIO_LEVELS = 1"

definition SCHED_MAX_PRIO_LEVEL_UNPROTECTED :: u8 where
  "SCHED_MAX_PRIO_LEVEL_UNPROTECTED = SCHED_PROTECTED_PRIO_LEVELS + SCHED_PERIODIC_PRIO_LEVEL + 1"

definition pid_is_valid :: "int \<Rightarrow> bool" where
  "pid_is_valid p \<longleftrightarrow> KERNEL_PID_FIRST \<le> p \<and> p \<le> KERNEL_PID_LAST"

lemmas kernel_consts = MAXTHREADS_def KERNEL_PID_UNDEF_def KERNEL_PID_FIRST_def KERNEL_PID_LAST_def
  SCHED_PRIO_LEVELS_def SCHED_PERIODIC_PRIO_LEVEL_def SCHED_PROTECTED_PRIO_LEVELS_def
  SCHED_MAX_PRIO_LEVEL_UNPROTECTED_def

section \<open>Timers and the module's state\<close>

datatype timer_ref = Pool nat | Scheduler_timer

record secure_mintimer_t =
  target :: u32
  long_target :: u32
  thread :: "nat option"

definition SECURE_MINTIMER_TIMER_LIST_LENGTH :: nat where "SECURE_MINTIMER_TIMER_LIST_LENGTH = 15"

record sm_timer_state =
  sched_num_threads :: int
  sched_context_switch_request :: bool
  sched_threads :: "nat \<Rightarrow> thread_t"
  rq_entry :: "nat heap"
  sched_active_thread :: "nat option"
  sched_active_pid :: int
  sched_runqueues :: "nat \<Rightarrow> nat option"
  runqueue_bitcache :: u32
  initialization_done :: bool
  scheduler_entry :: u16
  sm_irq_is_in_flag :: bool
  timers :: "timer_ref \<Rightarrow> secure_mintimer_t"
  tm_next :: "timer_ref heap"
  in_handler :: bool
  long_cnt :: u32
  high_cnt :: u32
  timer_list_head :: "timer_ref option"
  overflow_list_head :: "timer_ref option"
  long_list_head :: "timer_ref option"
  TIMER_CTL :: u16
  TIMER_CCR :: "nat \<Rightarrow> u16"
  TIMER_CCTL :: "nat \<Rightarrow> u16"
  isr_cb_set :: bool
  hw_reads :: "nat \<Rightarrow> u16"
  hw_k :: nat
  null_priority :: u8
  unprotected_sp :: u16

text \<open>Accesses through a pointer into the thread table and into the timers.\<close>

definition thread_at :: "sm_timer_state \<Rightarrow> nat \<Rightarrow> thread_t option" where
  "thread_at s i = (if i \<le> nat KERNEL_PID_LAST then Some (sched_threads s i) else None)"

definition upd_thread :: "(thread_t \<Rightarrow> thread_t) \<Rightarrow> nat \<Rightarrow> sm_timer_state \<Rightarrow> sm_timer_state option" where
  "upd_thread f i s =
     (if i \<le> nat KERNEL_PID_LAST
      then Some (s\<lparr>sched_threads := (sched_threads s)(i := f (sched_threads s i))\<rparr>) else None)"

definition timer_ok :: "timer_ref \<Rightarrow> bool" where
  "timer_ok r = (case r of Pool i \<Rightarrow> i < SECURE_MINTIMER_TIMER_LIST_LENGTH | Scheduler_timer \<Rightarrow> True)"

definition timer_at :: "sm_timer_state \<Rightarrow> timer_ref \<Rightarrow> secure_mintimer_t option" where
  "timer_at s r = (if timer_ok r then Some (timers s r) else None)"

definition upd_timer ::
    "(secure_mintimer_t \<Rightarrow> secure_mintimer_t) \<Rightarrow> timer_ref \<Rightarrow> sm_timer_state \<Rightarrow> sm_timer_state option" where
  "upd_timer f r s =
     (if timer_ok r then Some (s\<lparr>timers := (timers s)(r := f (timers s r))\<rparr>) else None)"

definition runqueue_at :: "sm_timer_state \<Rightarrow> u8 \<Rightarrow> nat option option" where
  "runqueue_at s p =
     (if unat p < SCHED_PRIO_LEVELS then Some (sched_runqueues s (unat p)) else None)"

section \<open>The scheduler's own ring operations\<close>

definition bitarithm_lsb_sm_timer :: "u16 \<Rightarrow> nat option" where
  "bitarithm_lsb_sm_timer v = bitarithm_lsb_loop v 0"

definition sm_clist_rpush :: "'n heap \<Rightarrow> 'n option \<Rightarrow> 'n \<Rightarrow> 'n heap \<times> 'n option" where
  "sm_clist_rpush h list_next new_node =
     (case list_next of
        Some l \<Rightarrow> (let h1 = h(new_node := h l) in (h1(l := Some new_node), Some new_node))
      | None \<Rightarrow> (h(new_node := Some new_node), Some new_node))"

definition sm_clist_lpop :: "'n heap \<Rightarrow> 'n option \<Rightarrow> ('n heap \<times> 'n option \<times> 'n option) option" where
  "sm_clist_lpop h list_next =
     (case list_next of
        Some l \<Rightarrow>
          (let first = h l in
           if list_next = first then Some (h, None, first)
           else do { f \<leftarrow> first; Some (h(l := h f), list_next, first) })
      | None \<Rightarrow> Some (h, list_next, None))"

definition sm_clist_lpoprpush :: "'n heap \<Rightarrow> 'n option \<Rightarrow> 'n option" where
  "sm_clist_lpoprpush h list_next = (case list_next of Some l \<Rightarrow> h l | None \<Rightarrow> None)"

text \<open>They are the functions of \<open>clist.h\<close> and so satisfy the same contract.\<close>

lemma sm_clist_eq:
  "sm_clist_rpush = clist_rpush" "sm_clist_lpop = clist_lpop" "sm_clist_lpoprpush = clist_lpoprpush"
  by (auto simp: fun_eq_iff sm_clist_rpush_def clist_rpush_def sm_clist_lpop_def clist_lpop_def
      sm_clist_lpoprpush_def clist_lpoprpush_def Let_def split: option.splits)

interpretation rq: ring_queue sm_clist_rpush sm_clist_lpop sm_clist_lpoprpush cring
  unfolding sm_clist_eq by (rule cl.ring_queue_axioms)

section \<open>Status changes\<close>

text \<open>
  \<open>1 << priority\<close> is computed in a 16-bit \<open>int\<close> and then sign-extended to 32 bits, so
  priority 15 sets the upper half of the cache as well; the cache is only read through its low
  16 bits.
\<close>

definition prio_bit :: "u8 \<Rightarrow> u32" where
  "prio_bit p = scast (push_bit (unat p) 1 :: u16)"

definition sched_set_status :: "nat \<Rightarrow> thread_status_t \<Rightarrow> sm_timer_state \<Rightarrow> sm_timer_state option" where
  "sched_set_status process st s = do {
     t \<leftarrow> thread_at s process;
     s' \<leftarrow>
       (if st \<ge> STATUS_ON_RUNQUEUE then
          (if \<not> status t \<ge> STATUS_ON_RUNQUEUE then do {
             q \<leftarrow> runqueue_at s (priority t);
             let (h, q') = sm_clist_rpush (rq_entry s) q process;
             Some (s\<lparr>rq_entry := h,
                     sched_runqueues := (sched_runqueues s)(unat (priority t) := q'),
                     runqueue_bitcache := runqueue_bitcache s OR prio_bit (priority t)\<rparr>)
           }
           else Some s)
        else
          (if status t \<ge> STATUS_ON_RUNQUEUE then do {
             q \<leftarrow> runqueue_at s (priority t);
             (h, q', _) \<leftarrow> sm_clist_lpop (rq_entry s) q;
             let s1 = s\<lparr>rq_entry := h,
                        sched_runqueues := (sched_runqueues s)(unat (priority t) := q')\<rparr>;
             Some (if q' = None
                   then s1\<lparr>runqueue_bitcache := runqueue_bitcache s1 AND NOT (prio_bit (priority t))\<rparr>
                   else s1)
           }
           else Some s));
     upd_thread (status_update (\<lambda>_. st)) process s'
   }"

section \<open>The run queues as sequences\<close>

text \<open>
  \<open>rq_inv s Q\<close>: every level's ring holds the sequence \<open>Q p\<close>, which consists of exactly
  the threads of that priority whose status says they are on the run queue, and the cache has a
  bit for every level that is not empty.
\<close>

definition on_rq :: "thread_t \<Rightarrow> bool" where
  "on_rq t \<longleftrightarrow> status t \<ge> STATUS_ON_RUNQUEUE"

definition queued :: "sm_timer_state \<Rightarrow> nat \<Rightarrow> nat set" where
  "queued s p = {i. i \<le> MAXTHREADS \<and> on_rq (sched_threads s i) \<and> unat (priority (sched_threads s i)) = p}"

definition rq_inv :: "sm_timer_state \<Rightarrow> (nat \<Rightarrow> nat list) \<Rightarrow> bool" where
  "rq_inv s Q \<longleftrightarrow>
     (\<forall>p < SCHED_PRIO_LEVELS. cring (rq_entry s) (sched_runqueues s p) (Q p)
        \<and> set (Q p) = queued s p \<and> (bit (runqueue_bitcache s) p \<longleftrightarrow> Q p \<noteq> []))"

definition requeue :: "bool \<Rightarrow> bool \<Rightarrow> nat \<Rightarrow> nat list \<Rightarrow> nat list" where
  "requeue was now i xs = (if now \<and> \<not> was then xs @ [i] else if was \<and> \<not> now then tl xs else xs)"

lemma KERNEL_PID_LAST_nat [simp]: "nat KERNEL_PID_LAST = MAXTHREADS"
  by (simp add: kernel_consts)

lemma thread_at_eq [simp]: "i \<le> MAXTHREADS \<Longrightarrow> thread_at s i = Some (sched_threads s i)"
  by (simp add: thread_at_def)

lemma thread_at_Some: "thread_at s i = Some t \<longleftrightarrow> i \<le> MAXTHREADS \<and> t = sched_threads s i"
  by (auto simp: thread_at_def)

lemma upd_thread_eq [simp]:
  "i \<le> MAXTHREADS \<Longrightarrow>
     upd_thread f i s = Some (s\<lparr>sched_threads := (sched_threads s)(i := f (sched_threads s i))\<rparr>)"
  by (simp add: upd_thread_def)

lemma timer_at_eq [simp]: "timer_ok r \<Longrightarrow> timer_at s r = Some (timers s r)"
  by (simp add: timer_at_def)

lemma upd_timer_eq [simp]:
  "timer_ok r \<Longrightarrow> upd_timer f r s = Some (s\<lparr>timers := (timers s)(r := f (timers s r))\<rparr>)"
  by (simp add: upd_timer_def)

lemma timer_ok_simps [simp]: "timer_ok Scheduler_timer" "timer_ok (Pool i) \<longleftrightarrow> i < 15"
  by (simp_all add: timer_ok_def SECURE_MINTIMER_TIMER_LIST_LENGTH_def)

lemma bit_prio_bit: "j < SCHED_PRIO_LEVELS \<Longrightarrow> unat p < SCHED_PRIO_LEVELS \<Longrightarrow> bit (prio_bit p) j \<longleftrightarrow> j = unat p"
  by (auto simp: prio_bit_def kernel_consts bit_simps)

lemma rq_invD:
  assumes "rq_inv s Q" and "p < SCHED_PRIO_LEVELS"
  shows "cring (rq_entry s) (sched_runqueues s p) (Q p)" and "set (Q p) = queued s p"
    and "bit (runqueue_bitcache s) p \<longleftrightarrow> Q p \<noteq> []"
  using assms by (auto simp: rq_inv_def)

lemma rq_inv_disjoint:
  assumes "rq_inv s Q" and "p < SCHED_PRIO_LEVELS" and "r < SCHED_PRIO_LEVELS" and "p \<noteq> r"
  shows "set (Q p) \<inter> set (Q r) = {}"
  using rq_invD(2) [OF assms(1,2)] rq_invD(2) [OF assms(1,3)] assms(4) by (auto simp: queued_def)

text \<open>A status change that does not move the thread between the queues and the blocked states.\<close>

lemma queued_status:
  "i \<le> MAXTHREADS \<Longrightarrow>
   queued (s\<lparr>sched_threads := (sched_threads s)(i := (sched_threads s i)\<lparr>status := st\<rparr>)\<rparr>) p =
     (if unat (priority (sched_threads s i)) = p then
        (if st \<ge> STATUS_ON_RUNQUEUE then insert i (queued s p) else queued s p - {i})
      else queued s p)"
  by (auto simp: queued_def on_rq_def)


lemma queued_cong: "sched_threads s = sched_threads s' \<Longrightarrow> queued s = queued s'"
  by (simp add: queued_def fun_eq_iff)

lemma sched_set_status_enqueue:
  assumes inv: "rq_inv s Q" and i: "i \<le> MAXTHREADS" and off: "\<not> on_rq (sched_threads s i)"
    and st: "st \<ge> STATUS_ON_RUNQUEUE" and lv: "unat (priority (sched_threads s i)) < SCHED_PRIO_LEVELS"
  defines "p \<equiv> unat (priority (sched_threads s i))"
  shows "\<exists>h q b. sched_set_status i st s =
             Some (s\<lparr>rq_entry := h, sched_runqueues := (sched_runqueues s)(p := q), runqueue_bitcache := b,
                     sched_threads := (sched_threads s)(i := (sched_threads s i)\<lparr>status := st\<rparr>)\<rparr>)
           \<and> rq_inv (s\<lparr>rq_entry := h, sched_runqueues := (sched_runqueues s)(p := q), runqueue_bitcache := b,
                     sched_threads := (sched_threads s)(i := (sched_threads s i)\<lparr>status := st\<rparr>)\<rparr>)
               (Q(p := Q p @ [i]))"
proof -
  obtain h q where hq: "sm_clist_rpush (rq_entry s) (sched_runqueues s p) i = (h, q)" by fastforce
  define b where "b = runqueue_bitcache s OR prio_bit (priority (sched_threads s i))"
  define s' where "s' = s\<lparr>rq_entry := h, sched_runqueues := (sched_runqueues s)(p := q), runqueue_bitcache := b,
      sched_threads := (sched_threads s)(i := (sched_threads s i)\<lparr>status := st\<rparr>)\<rparr>"
  have eq: "sched_set_status i st s = Some s'"
    using i off st lv hq by (simp add: sched_set_status_def on_rq_def runqueue_at_def p_def b_def s'_def)
  have notin: "i \<notin> set (Q r)" if "r < SCHED_PRIO_LEVELS" for r
    using rq_invD(2) [OF inv that] off by (auto simp: queued_def)
  have p: "p < SCHED_PRIO_LEVELS" using lv by (simp add: p_def)
  have sets: "queued s' r = (if p = r then insert i (queued s r) else queued s r)" for r
    using queued_status [OF i, of s st r] st
    by (simp add: p_def s'_def queued_def)
  have "cring h q (Q p @ [i])"
    using rq.push_rep [OF rq_invD(1) [OF inv p] notin [OF p]] hq by simp
  moreover have "cring h (sched_runqueues s r) (Q r)" if r: "r < SCHED_PRIO_LEVELS" "r \<noteq> p" for r
    using rq.other_queue_push [OF rq_invD(1) [OF inv p] rq_invD(1) [OF inv r(1)] notin [OF r(1)]]
      rq_inv_disjoint [OF inv p r(1)] r hq by auto
  moreover have "bit b r \<longleftrightarrow> bit (runqueue_bitcache s) r \<or> r = p" if "r < SCHED_PRIO_LEVELS" for r
    using bit_prio_bit [OF that lv] by (auto simp: b_def p_def bit_or_iff)
  ultimately have "rq_inv s' (Q(p := Q p @ [i]))"
    unfolding rq_inv_def using rq_invD [OF inv] by (auto simp: sets) (auto simp: s'_def)
  with eq show ?thesis unfolding s'_def by blast
qed

lemma sched_set_status_dequeue:
  assumes inv: "rq_inv s Q" and i: "i \<le> MAXTHREADS" and on: "on_rq (sched_threads s i)"
    and st: "\<not> st \<ge> STATUS_ON_RUNQUEUE" and lv: "unat (priority (sched_threads s i)) < SCHED_PRIO_LEVELS"
    and first: "hd (Q (unat (priority (sched_threads s i)))) = i"
  defines "p \<equiv> unat (priority (sched_threads s i))"
  shows "\<exists>h q b. sched_set_status i st s =
             Some (s\<lparr>rq_entry := h, sched_runqueues := (sched_runqueues s)(p := q), runqueue_bitcache := b,
                     sched_threads := (sched_threads s)(i := (sched_threads s i)\<lparr>status := st\<rparr>)\<rparr>)
           \<and> rq_inv (s\<lparr>rq_entry := h, sched_runqueues := (sched_runqueues s)(p := q), runqueue_bitcache := b,
                     sched_threads := (sched_threads s)(i := (sched_threads s i)\<lparr>status := st\<rparr>)\<rparr>)
               (Q(p := tl (Q p)))"
proof -
  have p: "p < SCHED_PRIO_LEVELS" using lv by (simp add: p_def)
  have "i \<in> set (Q p)" using rq_invD(2) [OF inv p] on i by (auto simp: queued_def p_def)
  then have ne: "Q p \<noteq> []" by auto
  obtain h q where hq: "sm_clist_lpop (rq_entry s) (sched_runqueues s p) = Some (h, q, Some (hd (Q p)))"
      and ring: "cring h q (tl (Q p))"
    using rq.pop_rep [OF rq_invD(1) [OF inv p] ne] by blast
  define b where "b = (if q = None then runqueue_bitcache s AND NOT (prio_bit (priority (sched_threads s i)))
      else runqueue_bitcache s)"
  define s' where "s' = s\<lparr>rq_entry := h, sched_runqueues := (sched_runqueues s)(p := q), runqueue_bitcache := b,
      sched_threads := (sched_threads s)(i := (sched_threads s i)\<lparr>status := st\<rparr>)\<rparr>"
  have eq: "sched_set_status i st s = Some s'"
    using i on st lv hq
    by (simp add: sched_set_status_def on_rq_def runqueue_at_def p_def b_def s'_def Let_def)
  have sets: "queued s' r = (if p = r then queued s r - {i} else queued s r)" for r
    using queued_status [OF i, of s st r] st by (simp add: p_def s'_def queued_def)
  have settl: "set (tl (Q p)) = queued s p - {i}"
    using set_tl_distinct [OF cring_distinct [OF rq_invD(1) [OF inv p]] ne] first rq_invD(2) [OF inv p]
    by (simp add: p_def)
  have oth: "cring h (sched_runqueues s r) (Q r)" if r: "r < SCHED_PRIO_LEVELS" "r \<noteq> p" for r
    using rq.other_queue_pop [OF rq_invD(1) [OF inv p] ne rq_invD(1) [OF inv r(1)] _ hq]
      rq_inv_disjoint [OF inv p r(1)] r by auto
  have qn: "q = None \<longleftrightarrow> tl (Q p) = []" using cring_empty_iff [OF ring] by blast
  have bits: "bit b r \<longleftrightarrow> bit (runqueue_bitcache s) r \<and> \<not> (r = p \<and> q = None)" if "r < SCHED_PRIO_LEVELS" for r
    using bit_prio_bit [OF that lv] that
    by (auto simp: b_def p_def bit_and_iff bit_not_iff kernel_consts)
  have "rq_inv s' (Q(p := tl (Q p)))"
    unfolding rq_inv_def using rq_invD [OF inv] ring oth settl qn ne bits
    by (auto simp: sets) (auto simp: s'_def)
  with eq show ?thesis unfolding s'_def by blast
qed

lemma sched_set_status_stay:
  assumes inv: "rq_inv s Q" and i: "i \<le> MAXTHREADS"
    and stay: "on_rq (sched_threads s i) \<longleftrightarrow> st \<ge> STATUS_ON_RUNQUEUE"
  shows "sched_set_status i st s = Some (s\<lparr>sched_threads := (sched_threads s)(i := (sched_threads s i)\<lparr>status := st\<rparr>)\<rparr>)"
    and "rq_inv (s\<lparr>sched_threads := (sched_threads s)(i := (sched_threads s i)\<lparr>status := st\<rparr>)\<rparr>) Q"
proof -
  show "sched_set_status i st s = Some (s\<lparr>sched_threads := (sched_threads s)(i := (sched_threads s i)\<lparr>status := st\<rparr>)\<rparr>)"
    using i stay by (auto simp: sched_set_status_def on_rq_def)
  have "queued (s\<lparr>sched_threads := (sched_threads s)(i := (sched_threads s i)\<lparr>status := st\<rparr>)\<rparr>) p = queued s p" for p
    using stay i unfolding queued_status [OF i] by (auto simp: queued_def)
  then show "rq_inv (s\<lparr>sched_threads := (sched_threads s)(i := (sched_threads s i)\<lparr>status := st\<rparr>)\<rparr>) Q"
    using inv by (simp add: rq_inv_def)
qed

text \<open>
  The three cases in one statement: with the thread at the head of its queue when it leaves it,
  \<open>sched_set_status\<close> refines the change of the abstract queues by \<open>requeue\<close>.
\<close>

lemma sched_set_status_requeue:
  assumes inv: "rq_inv s Q" and i: "i \<le> MAXTHREADS"
    and lv: "unat (priority (sched_threads s i)) < SCHED_PRIO_LEVELS"
    and first: "on_rq (sched_threads s i) \<Longrightarrow> \<not> st \<ge> STATUS_ON_RUNQUEUE \<Longrightarrow>
      hd (Q (unat (priority (sched_threads s i)))) = i"
  defines "p \<equiv> unat (priority (sched_threads s i))"
  shows "\<exists>h q b. sched_set_status i st s =
             Some (s\<lparr>rq_entry := h, sched_runqueues := (sched_runqueues s)(p := q), runqueue_bitcache := b,
                     sched_threads := (sched_threads s)(i := (sched_threads s i)\<lparr>status := st\<rparr>)\<rparr>)
           \<and> rq_inv (s\<lparr>rq_entry := h, sched_runqueues := (sched_runqueues s)(p := q), runqueue_bitcache := b,
                     sched_threads := (sched_threads s)(i := (sched_threads s i)\<lparr>status := st\<rparr>)\<rparr>)
               (Q(p := requeue (on_rq (sched_threads s i)) (st \<ge> STATUS_ON_RUNQUEUE) i (Q p)))"
proof -
  consider (enq) "\<not> on_rq (sched_threads s i)" "st \<ge> STATUS_ON_RUNQUEUE"
    | (deq) "on_rq (sched_threads s i)" "\<not> st \<ge> STATUS_ON_RUNQUEUE"
    | (stay) "on_rq (sched_threads s i) \<longleftrightarrow> st \<ge> STATUS_ON_RUNQUEUE" by blast
  then show ?thesis
  proof cases
    case enq
    then show ?thesis
      using sched_set_status_enqueue [OF inv i enq lv] by (simp add: requeue_def p_def)
  next
    case deq
    then show ?thesis
      using sched_set_status_dequeue [OF inv i deq lv first [OF deq]] by (simp add: requeue_def p_def)
  next
    case stay
    have "s\<lparr>rq_entry := rq_entry s, sched_runqueues := (sched_runqueues s)(p := sched_runqueues s p),
        runqueue_bitcache := runqueue_bitcache s, sched_threads := T\<rparr> = s\<lparr>sched_threads := T\<rparr>" for T
      by simp
    moreover have "requeue (on_rq (sched_threads s i)) (st \<ge> STATUS_ON_RUNQUEUE) i (Q p) = Q p"
      using stay by (simp add: requeue_def)
    ultimately show ?thesis
      using sched_set_status_stay [OF inv i stay] by (metis fun_upd_triv)
  qed
qed

end
