(* ===== verification/Mintimer.thy ===== *)
theory Mintimer
  imports Sched_State
begin

text \<open>
  The secure timer of \<open>sys/secure_mintimer/secure_mintimer_core.c\<close> on the TimerA driver of
  \<open>cpu/msp430-sancus/periph/timer.c\<close>. A leading underscore of a C name is dropped;
  \<open>_remove\<close> and \<open>_compare\<close> are \<open>tm_remove\<close> and \<open>tm_compare\<close>. The
  counter has 16 bits, so \<open>SECURE_MINTIMER_MASK\<close> is \<open>0xFFFF0000\<close>.

  A \<open>secure_mintimer_t **\<close> is a value of \<open>list_loc\<close>: one of the three list heads or
  the \<open>next\<close> field of a timer. Loops that wait for the counter or follow \<open>next\<close>
  fields are partial functions; the facts below show when they return.
\<close>

section \<open>TimerA driver\<close>

definition TIMER_CCTL_CCIFG :: u16 where "TIMER_CCTL_CCIFG = 0x0001"
definition TIMER_CCTL_CCIE :: u16 where "TIMER_CCTL_CCIE = 0x0010"
definition TIMER_CTL_IFG :: u16 where "TIMER_CTL_IFG = 0x0001"
definition TIMER_CTL_MC_MASK :: u16 where "TIMER_CTL_MC_MASK = 0x0030"
definition TIMER_CTL_MC_CONT :: u16 where "TIMER_CTL_MC_CONT = 0x0020"
definition TIMER_CTL_TASSEL_SMCLK :: u16 where "TIMER_CTL_TASSEL_SMCLK = 0x0200"
definition TIMERA_CLOCK_DIVIDER :: u16 where "TIMERA_CLOCK_DIVIDER = 0x0080"
definition TIMER_CHAN :: nat where "TIMER_CHAN = 3"

lemmas timer_consts = TIMER_CCTL_CCIFG_def TIMER_CCTL_CCIE_def TIMER_CTL_IFG_def TIMER_CTL_MC_MASK_def
  TIMER_CTL_MC_CONT_def TIMER_CTL_TASSEL_SMCLK_def TIMERA_CLOCK_DIVIDER_def TIMER_CHAN_def

definition sm_timer_init :: "nat \<Rightarrow> u32 \<Rightarrow> sm_timer_state \<Rightarrow> int \<times> sm_timer_state" where
  "sm_timer_init dev freq s =
     (if dev \<noteq> 0 then (-1, s)
      else if freq \<noteq> 1000000 then (-1, s)
      else
        let s1 = s\<lparr>isr_cb_set := True\<rparr>;
            s2 = s1\<lparr>TIMER_CTL := TIMER_CTL_TASSEL_SMCLK OR TIMERA_CLOCK_DIVIDER\<rparr>;
            s3 = s2\<lparr>TIMER_CCTL := fold (\<lambda>i r. r(i := 0)) [0..<TIMER_CHAN] (TIMER_CCTL s2)\<rparr>
        in (0, s3\<lparr>TIMER_CTL := TIMER_CTL s3 OR TIMER_CTL_MC_CONT\<rparr>))"

definition sm_timer_set_absolute :: "nat \<Rightarrow> u16 \<Rightarrow> sm_timer_state \<Rightarrow> sm_timer_state" where
  "sm_timer_set_absolute channel val s =
     (let s1 = s\<lparr>TIMER_CCR := (TIMER_CCR s)(channel := val)\<rparr>;
          s2 = s1\<lparr>TIMER_CCTL := (TIMER_CCTL s1)(channel := TIMER_CCTL s1 channel AND NOT TIMER_CCTL_CCIFG)\<rparr>
      in s2\<lparr>TIMER_CCTL := (TIMER_CCTL s2)(channel := TIMER_CCTL s2 channel OR TIMER_CCTL_CCIE)\<rparr>)"

definition mmio_timer_clear :: "sm_timer_state \<Rightarrow> sm_timer_state" where
  "mmio_timer_clear s = s\<lparr>TIMER_CCTL := (TIMER_CCTL s)(0 := TIMER_CCTL s 0 AND NOT TIMER_CCTL_CCIE)\<rparr>"

definition sm_timer_clear :: "nat \<Rightarrow> sm_timer_state \<Rightarrow> sm_timer_state" where
  "sm_timer_clear channel s = mmio_timer_clear s"

definition sm_timer_read_internal :: "sm_timer_state \<Rightarrow> u16 \<times> sm_timer_state" where
  "sm_timer_read_internal s = (hw_reads s (hw_k s), s\<lparr>hw_k := Suc (hw_k s)\<rparr>)"

definition sm_timer_read :: "sm_timer_state \<Rightarrow> u16 \<times> sm_timer_state" where
  "sm_timer_read s = (hw_reads s (hw_k s), s\<lparr>hw_k := Suc (hw_k s)\<rparr>)"

definition mmio_timer_start :: "sm_timer_state \<Rightarrow> sm_timer_state" where
  "mmio_timer_start s = s\<lparr>TIMER_CTL := TIMER_CTL s OR TIMER_CTL_MC_CONT\<rparr>"

definition mmio_timer_stop :: "sm_timer_state \<Rightarrow> sm_timer_state" where
  "mmio_timer_stop s = s\<lparr>TIMER_CTL := TIMER_CTL s AND NOT TIMER_CTL_MC_MASK\<rparr>"

section \<open>Low-level timer and time stamps\<close>

definition SECURE_MINTIMER_BACKOFF :: u32 where "SECURE_MINTIMER_BACKOFF = 200"
definition SECURE_MINTIMER_OVERHEAD :: u32 where "SECURE_MINTIMER_OVERHEAD = 300"
definition SECURE_MINTIMER_ISR_BACKOFF :: u16 where "SECURE_MINTIMER_ISR_BACKOFF = 200"
definition SECURE_MINTIMER_MASK :: u32 where "SECURE_MINTIMER_MASK = push_bit 16 (drop_bit 16 0xFFFFFFFF)"

definition secure_mintimer_lltimer_mask :: "u32 \<Rightarrow> u32" where
  "secure_mintimer_lltimer_mask val = val AND NOT SECURE_MINTIMER_MASK"

definition is_set :: "secure_mintimer_t \<Rightarrow> bool" where
  "is_set t \<longleftrightarrow> target t \<noteq> 0 \<or> long_target t \<noteq> 0"

definition secure_mintimer_lltimer_now :: "sm_timer_state \<Rightarrow> u16 \<times> sm_timer_state" where
  "secure_mintimer_lltimer_now s = sm_timer_read_internal s"

text \<open>The empty loops that wait for the counter: above, below, until it leaves a value.\<close>

partial_function (option) wait_while :: "(u32 \<Rightarrow> bool) \<Rightarrow> sm_timer_state \<Rightarrow> sm_timer_state option" where
  "wait_while P s =
     (case secure_mintimer_lltimer_now s of
        (v, s1) \<Rightarrow> if P (ucast v) then wait_while P s1 else Some s1)"

definition secure_mintimer_spin_until :: "u32 \<Rightarrow> sm_timer_state \<Rightarrow> sm_timer_state option" where
  "secure_mintimer_spin_until tgt s =
     (let tgt = secure_mintimer_lltimer_mask tgt in
      do { s \<leftarrow> wait_while (\<lambda>v. v > tgt) s; wait_while (\<lambda>v. v < tgt) s })"

definition lltimer_set :: "u32 \<Rightarrow> sm_timer_state \<Rightarrow> sm_timer_state" where
  "lltimer_set tgt s =
     (if in_handler s then s
      else sm_timer_set_absolute 0 (ucast (secure_mintimer_lltimer_mask tgt)) s)"

definition secure_mintimer_init :: "sm_timer_state \<Rightarrow> sm_timer_state" where
  "secure_mintimer_init s = (let (_, s1) = sm_timer_init 0 1000000 s in lltimer_set 0xFFFFFFFF s1)"

partial_function (option) secure_mintimer_now :: "sm_timer_state \<Rightarrow> (u32 \<times> sm_timer_state) option" where
  "secure_mintimer_now s =
     (let latched_high_cnt = high_cnt s in
      case secure_mintimer_lltimer_now s of
        (now, s1) \<Rightarrow>
          if high_cnt s1 \<noteq> latched_high_cnt then secure_mintimer_now s1
          else Some (latched_high_cnt OR ucast now, s1))"

definition secure_mintimer_now_internal :: "sm_timer_state \<Rightarrow> (u32 \<times> u32) \<times> sm_timer_state" where
  "secure_mintimer_now_internal s =
     (case secure_mintimer_lltimer_now s of (now, s1) \<Rightarrow> ((high_cnt s1 OR ucast now, long_cnt s1), s1))"

definition secure_mintimer_now64 :: "sm_timer_state \<Rightarrow> u64 \<times> sm_timer_state" where
  "secure_mintimer_now64 s =
     (case secure_mintimer_now_internal s of
        ((short_term, long_term), s1) \<Rightarrow> (push_bit 32 (ucast long_term) + ucast short_term, s1))"

section \<open>Timer lists\<close>

datatype list_loc = Timer_list | Overflow_list | Long_list | Next_of timer_ref

definition load :: "list_loc \<Rightarrow> sm_timer_state \<Rightarrow> timer_ref option option" where
  "load l s =
     (case l of
        Timer_list \<Rightarrow> Some (timer_list_head s)
      | Overflow_list \<Rightarrow> Some (overflow_list_head s)
      | Long_list \<Rightarrow> Some (long_list_head s)
      | Next_of r \<Rightarrow> if timer_ok r then Some (tm_next s r) else None)"

definition store :: "list_loc \<Rightarrow> timer_ref option \<Rightarrow> sm_timer_state \<Rightarrow> sm_timer_state option" where
  "store l v s =
     (case l of
        Timer_list \<Rightarrow> Some (s\<lparr>timer_list_head := v\<rparr>)
      | Overflow_list \<Rightarrow> Some (s\<lparr>overflow_list_head := v\<rparr>)
      | Long_list \<Rightarrow> Some (s\<lparr>long_list_head := v\<rparr>)
      | Next_of r \<Rightarrow> if timer_ok r then Some (s\<lparr>tm_next := (tm_next s)(r := v)\<rparr>) else None)"

text \<open>
  Both insertions walk to the first timer that is later and link in front of it; they differ in
  the comparison, given here as the predicate on the timer in the list and the new one.
\<close>

definition short_before :: "secure_mintimer_t \<Rightarrow> secure_mintimer_t \<Rightarrow> bool" where
  "short_before a b \<longleftrightarrow> target a \<le> target b"

definition long_before :: "secure_mintimer_t \<Rightarrow> secure_mintimer_t \<Rightarrow> bool" where
  "long_before a b \<longleftrightarrow>
     long_target a < long_target b \<or> (long_target a = long_target b \<and> target a \<le> target b)"

partial_function (option) insert_loop ::
    "(secure_mintimer_t \<Rightarrow> secure_mintimer_t \<Rightarrow> bool) \<Rightarrow> list_loc \<Rightarrow> timer_ref \<Rightarrow> sm_timer_state \<Rightarrow>
       sm_timer_state option" where
  "insert_loop before list_head t s = do {
     cur \<leftarrow> load list_head s;
     (case cur of
        Some c \<Rightarrow> do {
          ct \<leftarrow> timer_at s c;
          tt \<leftarrow> timer_at s t;
          if before ct tt then insert_loop before (Next_of c) t s
          else do { s1 \<leftarrow> store (Next_of t) cur s; store list_head (Some t) s1 }
        }
      | None \<Rightarrow> do { s1 \<leftarrow> store (Next_of t) cur s; store list_head (Some t) s1 })
   }"

definition add_timer_to_list :: "list_loc \<Rightarrow> timer_ref \<Rightarrow> sm_timer_state \<Rightarrow> sm_timer_state option" where
  "add_timer_to_list list_head t s = insert_loop short_before list_head t s"

definition add_timer_to_long_list :: "list_loc \<Rightarrow> timer_ref \<Rightarrow> sm_timer_state \<Rightarrow> sm_timer_state option" where
  "add_timer_to_long_list list_head t s = insert_loop long_before list_head t s"

partial_function (option) remove_timer_from_list ::
    "list_loc \<Rightarrow> timer_ref \<Rightarrow> sm_timer_state \<Rightarrow> (bool \<times> sm_timer_state) option" where
  "remove_timer_from_list list_head t s = do {
     cur \<leftarrow> load list_head s;
     (case cur of
        Some c \<Rightarrow>
          if c = t then do { n \<leftarrow> load (Next_of t) s; s1 \<leftarrow> store list_head n s; Some (True, s1) }
          else remove_timer_from_list (Next_of c) t s
      | None \<Rightarrow> Some (False, s))
   }"

definition tm_remove :: "timer_ref \<Rightarrow> sm_timer_state \<Rightarrow> sm_timer_state option" where
  "tm_remove t s =
     (if timer_list_head s = Some t then do {
        n \<leftarrow> load (Next_of t) s;
        let s1 = s\<lparr>timer_list_head := n\<rparr>;
        nxt \<leftarrow> (case timer_list_head s1 of
                  Some r \<Rightarrow> do { tr \<leftarrow> timer_at s1 r; Some (target tr - SECURE_MINTIMER_OVERHEAD) }
                | None \<Rightarrow> Some (secure_mintimer_lltimer_mask 0xFFFFFFFF));
        Some (lltimer_set nxt s1)
      }
      else do {
        (found, s1) \<leftarrow> remove_timer_from_list Timer_list t s;
        if \<not> found then do {
          (found, s2) \<leftarrow> remove_timer_from_list Overflow_list t s1;
          if \<not> found then do { (_, s3) \<leftarrow> remove_timer_from_list Long_list t s2; Some s3 }
          else Some s2
        }
        else Some s1
      })"

definition secure_mintimer_remove :: "timer_ref \<Rightarrow> sm_timer_state \<Rightarrow> sm_timer_state option" where
  "secure_mintimer_remove t s = do {
     tt \<leftarrow> timer_at s t;
     if is_set tt then do {
       s1 \<leftarrow> tm_remove t s;
       s2 \<leftarrow> upd_timer (target_update (\<lambda>_. 0)) t s1;
       upd_timer (long_target_update (\<lambda>_. 0)) t s2
     }
     else Some s
   }"

text \<open>The bound is \<open><=\<close> on a table of 15 entries, and a signed pid has no lower bound.\<close>

definition get_available_timer :: "int \<Rightarrow> sm_timer_state \<Rightarrow> (timer_ref option \<times> sm_timer_state) option" where
  "get_available_timer p s =
     (if p \<le> int SECURE_MINTIMER_TIMER_LIST_LENGTH then
        (if p < 0 then None
         else do { s1 \<leftarrow> secure_mintimer_remove (Pool (nat p)) s; Some (Some (Pool (nat p)), s1) })
      else Some (None, s))"

section \<open>Setting and firing timers\<close>

definition this_high_period :: "u32 \<Rightarrow> sm_timer_state \<Rightarrow> bool" where
  "this_high_period tgt s \<longleftrightarrow> tgt AND SECURE_MINTIMER_MASK = high_cnt s"

definition shoot_timer :: "timer_ref \<Rightarrow> sm_timer_state \<Rightarrow> sm_timer_state option" where
  "shoot_timer t s = do {
     tt \<leftarrow> timer_at s t;
     s1 \<leftarrow> (case thread tt of Some th \<Rightarrow> sched_set_status th STATUS_PENDING s | None \<Rightarrow> Some s);
     Some (s1\<lparr>sched_context_switch_request := True\<rparr>)
   }"

definition secure_mintimer_set_absolute_explicit ::
    "timer_ref \<Rightarrow> u32 \<Rightarrow> sm_timer_state \<Rightarrow> (int \<times> sm_timer_state) option" where
  "secure_mintimer_set_absolute_explicit t now s = do {
     tt \<leftarrow> timer_at s t;
     let tgt = target tt - SECURE_MINTIMER_OVERHEAD;
     s1 \<leftarrow> (if tgt < now then upd_timer (long_target_update (\<lambda>v. v + 1)) t s else Some s);
     t1 \<leftarrow> timer_at s1 t;
     s2 \<leftarrow>
       (if long_target t1 > long_cnt s1 \<or> \<not> this_high_period tgt s1 then
          add_timer_to_long_list Long_list t s1
        else if secure_mintimer_lltimer_mask now \<ge> tgt then
          add_timer_to_list Overflow_list t s1
        else do {
          s2 \<leftarrow> add_timer_to_list Timer_list t s1;
          Some (if timer_list_head s2 = Some t then lltimer_set tgt s2 else s2)
        });
     Some (0, s2)
   }"

definition secure_mintimer_set_absolute ::
    "timer_ref \<Rightarrow> u32 \<Rightarrow> sm_timer_state \<Rightarrow> (int \<times> sm_timer_state) option" where
  "secure_mintimer_set_absolute t tgt s = do {
     (now, s1) \<leftarrow> secure_mintimer_now s;
     s2 \<leftarrow> store (Next_of t) None s1;
     let offset = tgt - now;
     if offset \<le> SECURE_MINTIMER_BACKOFF then do {
       s3 \<leftarrow> secure_mintimer_spin_until tgt s2;
       s4 \<leftarrow> shoot_timer t s3;
       Some (0, s4)
     }
     else do {
       tt \<leftarrow> timer_at s2 t;
       s3 \<leftarrow> (if is_set tt then tm_remove t s2 else Some s2);
       s4 \<leftarrow> upd_timer (target_update (\<lambda>_. tgt)) t s3;
       s5 \<leftarrow> upd_timer (long_target_update (\<lambda>_. long_cnt s4)) t s4;
       secure_mintimer_set_absolute_explicit t now s5
     }
   }"

definition secure_mintimer_set :: "timer_ref \<Rightarrow> u32 \<Rightarrow> sm_timer_state \<Rightarrow> sm_timer_state option" where
  "secure_mintimer_set t offset s = do {
     s1 \<leftarrow> secure_mintimer_remove t s;
     (now, s2) \<leftarrow> secure_mintimer_now s1;
     (_, s3) \<leftarrow> secure_mintimer_set_absolute t (now + offset) s2;
     Some s3
   }"

definition secure_mintimer_tsleep_specific_pid :: "u32 \<Rightarrow> int \<Rightarrow> sm_timer_state \<Rightarrow> sm_timer_state option" where
  "secure_mintimer_tsleep_specific_pid offset p s = do {
     (tr, s1) \<leftarrow> get_available_timer p s;
     (case tr of
        None \<Rightarrow> Some s1
      | Some t \<Rightarrow> do {
          s2 \<leftarrow> upd_timer (\<lambda>tt. tt\<lparr>target := 0, long_target := 0\<rparr>) t s1;
          s3 \<leftarrow> upd_timer (thread_update (\<lambda>_. Some (nat p))) t s2;
          s4 \<leftarrow> sched_set_status (nat p) STATUS_SLEEPING s3;
          secure_mintimer_set t offset s4
        })
   }"

definition secure_mintimer_tsleep_internal :: "u32 \<Rightarrow> sm_timer_state \<Rightarrow> sm_timer_state option" where
  "secure_mintimer_tsleep_internal offset s = do {
     a \<leftarrow> sched_active_thread s;
     t \<leftarrow> thread_at s a;
     secure_mintimer_tsleep_specific_pid offset (pid t) s
   }"

section \<open>The timer interrupt\<close>

definition time_left :: "u32 \<Rightarrow> u32 \<Rightarrow> sm_timer_state \<Rightarrow> u32 \<times> sm_timer_state" where
  "time_left tgt reference s =
     (case secure_mintimer_lltimer_now s of
        (v, s1) \<Rightarrow>
          let now = ucast v in
          (if now < reference then 0 else if tgt > now then tgt - now else 0, s1))"

definition tm_compare :: "timer_ref option \<Rightarrow> timer_ref option \<Rightarrow> sm_timer_state \<Rightarrow> timer_ref option option" where
  "tm_compare a b s =
     (case (a, b) of
        (Some x, Some y) \<Rightarrow> do {
          tx \<leftarrow> timer_at s x;
          ty \<leftarrow> timer_at s y;
          Some (if target tx \<le> target ty then a else b)
        }
      | _ \<Rightarrow> Some (if a \<noteq> None then a else b))"

partial_function (option) merge_loop ::
    "timer_ref option \<Rightarrow> timer_ref option \<Rightarrow> timer_ref option \<Rightarrow> sm_timer_state \<Rightarrow> sm_timer_state option" where
  "merge_loop pos head_a head_b s = do {
     a \<leftarrow> head_a;
     a' \<leftarrow> load (Next_of a) s;
     b \<leftarrow> head_b;
     b' \<leftarrow> load (Next_of b) s;
     p \<leftarrow> pos;
     if a' = None then store (Next_of p) b' s
     else if b' = None then store (Next_of p) a' s
     else do {
       c \<leftarrow> tm_compare a' b' s;
       s1 \<leftarrow> store (Next_of p) c s;
       merge_loop c a' b' s1
     }
   }"

definition merge_lists ::
    "timer_ref option \<Rightarrow> timer_ref option \<Rightarrow> sm_timer_state \<Rightarrow> (timer_ref option \<times> sm_timer_state) option" where
  "merge_lists head_a head_b s = do {
     result_head \<leftarrow> tm_compare head_a head_b s;
     s1 \<leftarrow> merge_loop result_head head_a head_b s;
     Some (result_head, s1)
   }"

partial_function (option) select_loop ::
    "timer_ref option \<Rightarrow> sm_timer_state \<Rightarrow> (timer_ref option \<times> sm_timer_state) option" where
  "select_loop select_list_last s =
     (case long_list_head s of
        None \<Rightarrow> Some (select_list_last, s)
      | Some r \<Rightarrow> do {
          t \<leftarrow> timer_at s r;
          if long_target t \<le> long_cnt s \<and> this_high_period (target t) s
          then select_loop (Some r) (s\<lparr>long_list_head := tm_next s r\<rparr>)
          else Some (select_list_last, s)
        })"

definition select_long_timers :: "sm_timer_state \<Rightarrow> sm_timer_state option" where
  "select_long_timers s = do {
     let select_list_start = long_list_head s;
     (select_list_last, s1) \<leftarrow> select_loop None s;
     s2 \<leftarrow> (case select_list_last of Some l \<Rightarrow> store (Next_of l) None s1 | None \<Rightarrow> Some s1);
     (if timer_list_head s2 \<noteq> None then
        (if select_list_last \<noteq> None then do {
           (h, s3) \<leftarrow> merge_lists (timer_list_head s2) select_list_start s2;
           Some (s3\<lparr>timer_list_head := h\<rparr>)
         }
         else Some s2)
      else
        (if select_list_last \<noteq> None then Some (s2\<lparr>timer_list_head := select_list_start\<rparr>) else Some s2))
   }"

definition next_period :: "sm_timer_state \<Rightarrow> sm_timer_state option" where
  "next_period s =
     (let s1 = s\<lparr>high_cnt := high_cnt s + (NOT SECURE_MINTIMER_MASK + 1)\<rparr>;
          s2 = (if high_cnt s1 = 0 then s1\<lparr>long_cnt := long_cnt s1 + 1\<rparr> else s1);
          s3 = s2\<lparr>timer_list_head := overflow_list_head s2\<rparr>;
          s4 = s3\<lparr>overflow_list_head := None\<rparr>
      in select_long_timers s4)"

partial_function (option) wait_time_left :: "timer_ref \<Rightarrow> u32 \<Rightarrow> sm_timer_state \<Rightarrow> sm_timer_state option" where
  "wait_time_left r reference s = do {
     t \<leftarrow> timer_at s r;
     (case time_left (secure_mintimer_lltimer_mask (target t)) reference s of
        (left, s1) \<Rightarrow> if left \<noteq> 0 then wait_time_left r reference s1 else Some s1)
   }"

definition fire_head :: "timer_ref \<Rightarrow> sm_timer_state \<Rightarrow> sm_timer_state option" where
  "fire_head t s = do {
     n \<leftarrow> load (Next_of t) s;
     let s1 = s\<lparr>timer_list_head := n\<rparr>;
     s2 \<leftarrow> upd_timer (target_update (\<lambda>_. 0)) t s1;
     s3 \<leftarrow> upd_timer (long_target_update (\<lambda>_. 0)) t s2;
     shoot_timer t s3
   }"

partial_function (option) expire_loop :: "u32 \<Rightarrow> sm_timer_state \<Rightarrow> sm_timer_state option" where
  "expire_loop reference s =
     (case timer_list_head s of
        None \<Rightarrow> Some s
      | Some r \<Rightarrow> do {
          t \<leftarrow> timer_at s r;
          (case time_left (secure_mintimer_lltimer_mask (target t)) reference s of
             (left, s1) \<Rightarrow>
               if left < ucast SECURE_MINTIMER_ISR_BACKOFF then do {
                 s2 \<leftarrow> wait_time_left r reference s1;
                 s3 \<leftarrow> fire_head r s2;
                 expire_loop reference s3
               }
               else Some s1)
        })"

partial_function (option) callback_overflow :: "u32 \<Rightarrow> sm_timer_state \<Rightarrow> (u32 \<times> sm_timer_state) option" where
  "callback_overflow reference s = do {
     s1 \<leftarrow> expire_loop reference s;
     (case secure_mintimer_lltimer_now s1 of
        (v, s2) \<Rightarrow>
          if ucast (v + SECURE_MINTIMER_ISR_BACKOFF) < reference then do {
            s3 \<leftarrow> next_period s2;
            s4 \<leftarrow> wait_while (\<lambda>v. reference < v) s3;
            callback_overflow 0 s4
          }
          else (case timer_list_head s2 of
            Some r \<Rightarrow> do {
              t \<leftarrow> timer_at s2 r;
              (now, s3) \<leftarrow> secure_mintimer_now s2;
              if target t - SECURE_MINTIMER_OVERHEAD < now + ucast SECURE_MINTIMER_ISR_BACKOFF
              then callback_overflow reference s3
              else Some (target t - SECURE_MINTIMER_OVERHEAD, s3)
            }
          | None \<Rightarrow>
              (case secure_mintimer_lltimer_now s2 of
                 (v, s3) \<Rightarrow>
                   if ucast v < reference then do { s4 \<leftarrow> next_period s3; callback_overflow 0 s4 }
                   else if secure_mintimer_lltimer_mask (ucast v + ucast SECURE_MINTIMER_ISR_BACKOFF) < ucast v
                   then do {
                     s4 \<leftarrow> wait_while (\<lambda>w. w \<ge> ucast v) s3;
                     s5 \<leftarrow> next_period s4;
                     callback_overflow 0 s5
                   }
                   else Some (secure_mintimer_lltimer_mask 0xFFFFFFFF, s3))))
   }"

definition timer_callback :: "sm_timer_state \<Rightarrow> sm_timer_state option" where
  "timer_callback s = do {
     let s1 = s\<lparr>in_handler := True\<rparr>;
     (reference, s2) \<leftarrow>
       (if timer_list_head s1 = None then do {
          s2 \<leftarrow> next_period s1;
          s3 \<leftarrow> wait_while (\<lambda>v. v = secure_mintimer_lltimer_mask 0xFFFFFFFF) s2;
          Some (0, s3)
        }
        else (case secure_mintimer_lltimer_now s1 of (v, s2) \<Rightarrow> Some (ucast v, s2)));
     (next_target, s3) \<leftarrow> callback_overflow reference s2;
     let s4 = s3\<lparr>in_handler := False\<rparr>;
     let s5 = lltimer_set next_target s4;
     Some (s5\<lparr>TIMER_CTL := TIMER_CTL s5 AND NOT TIMER_CTL_IFG\<rparr>)
   }"

definition secure_mintimer_timer_callback :: "sm_timer_state \<Rightarrow> sm_timer_state option" where
  "secure_mintimer_timer_callback s = timer_callback s"

definition periph_timer_callback :: "int \<Rightarrow> sm_timer_state \<Rightarrow> sm_timer_state option" where
  "periph_timer_callback chan s = timer_callback s"

section \<open>Reading the time\<close>

lemma lltimer_now_eq [simp]:
  "secure_mintimer_lltimer_now s = (hw_reads s (hw_k s), s\<lparr>hw_k := Suc (hw_k s)\<rparr>)"
  by (simp add: secure_mintimer_lltimer_now_def sm_timer_read_internal_def)

lemma secure_mintimer_now_eq:
  "secure_mintimer_now s = Some (high_cnt s OR ucast (hw_reads s (hw_k s)), s\<lparr>hw_k := Suc (hw_k s)\<rparr>)"
  by (subst secure_mintimer_now.simps) simp

text \<open>A waiting loop returns with the first reading, from the current one on, that ends it.\<close>

lemma wait_while_first:
  assumes "\<not> P (ucast (hw_reads s (hw_k s + n)))" and "\<And>i. i < n \<Longrightarrow> P (ucast (hw_reads s (hw_k s + i)))"
  shows "wait_while P s = Some (s\<lparr>hw_k := Suc (hw_k s + n)\<rparr>)"
  using assms
proof (induction n arbitrary: s)
  case 0
  then show ?case by (subst wait_while.simps) simp
next
  case (Suc n)
  have "P (ucast (hw_reads s (hw_k s)))" using Suc.prems(2) [of 0] by simp
  moreover have "wait_while P (s\<lparr>hw_k := Suc (hw_k s)\<rparr>) = Some (s\<lparr>hw_k := Suc (hw_k s + Suc n)\<rparr>)"
    using Suc.IH [of "s\<lparr>hw_k := Suc (hw_k s)\<rparr>"] Suc.prems(1) Suc.prems(2) [of "Suc i" for i] by simp
  ultimately show ?case by (subst wait_while.simps) simp
qed

text \<open>The counter supplies the low half of a time stamp and \<open>high_cnt\<close> the high half.\<close>

definition high_ok :: "sm_timer_state \<Rightarrow> bool" where
  "high_ok s \<longleftrightarrow> high_cnt s AND 0xFFFF = 0"

lemma mask_values: "SECURE_MINTIMER_MASK = 0xFFFF0000" "NOT SECURE_MINTIMER_MASK = (0xFFFF :: u32)"
  by (simp_all add: SECURE_MINTIMER_MASK_def)

lemma ffff_mask: "(0xFFFF :: u32) = mask 16"
  by (simp add: mask_eq_exp_minus_1)

lemma lltimer_mask_unat: "unat (secure_mintimer_lltimer_mask v) = unat v mod 2 ^ 16"
proof -
  have "secure_mintimer_lltimer_mask v = take_bit 16 v"
    unfolding secure_mintimer_lltimer_mask_def mask_values(2) ffff_mask take_bit_eq_mask ..
  then show ?thesis by (simp only: unsigned_take_bit_eq) (simp add: take_bit_eq_mod)
qed

lemma high_ok_dvd: "high_ok s \<longleftrightarrow> 2 ^ 16 dvd unat (high_cnt s)"
proof -
  have "high_cnt s AND 0xFFFF = secure_mintimer_lltimer_mask (high_cnt s)"
    unfolding secure_mintimer_lltimer_mask_def mask_values(2) ..
  then show ?thesis
    unfolding high_ok_def using lltimer_mask_unat [of "high_cnt s"]
    by (metis dvd_eq_mod_eq_0 unat_eq_0)
qed

lemma now_internal_sum:
  assumes "high_ok s"
  shows "unat (high_cnt s OR ucast (v :: u16)) = unat (high_cnt s) + unat v"
proof -
  have "high_cnt s AND ucast v = 0"
  proof (rule bit_eqI)
    fix n
    have "\<not> bit (high_cnt s) n" if "n < 16"
      using arg_cong [OF assms [unfolded high_ok_def ffff_mask], of "\<lambda>w. bit w n"] that
      by (simp add: bit_and_iff bit_mask_iff)
    then show "bit (high_cnt s AND ucast v) n \<longleftrightarrow> bit (0 :: u32) n"
      by (auto simp: bit_and_iff bit_ucast_iff dest: bit_imp_le_length)
  qed
  then have "high_cnt s OR ucast v = high_cnt s + ucast v" by (rule disjunctive_add_eq_or [symmetric])
  moreover have "unat (high_cnt s) + unat v < 2 ^ 32"
  proof -
    obtain k where k: "unat (high_cnt s) = 2 ^ 16 * k" using assms high_ok_dvd by (auto elim: dvdE)
    have "unat (high_cnt s) < 2 ^ LENGTH(32)" "unat v < 2 ^ LENGTH(16)" by (rule unsigned_less)+
    with k have "2 ^ 16 * k < 2 ^ 16 * 2 ^ 16" and v: "unat v < 2 ^ 16" by simp_all
    then have "k < 2 ^ 16" by simp
    then have "2 ^ 16 * (k + 1) \<le> 2 ^ 16 * (2 ^ 16 :: nat)" by (intro mult_le_mono) auto
    then show ?thesis using v k by simp
  qed
  ultimately show ?thesis by (simp add: unat_word_ariths unat_ucast_up)
qed

section \<open>The lists as sequences of timers\<close>

definition put :: "list_loc \<Rightarrow> timer_ref option \<Rightarrow> sm_timer_state \<Rightarrow> sm_timer_state" where
  "put l v s =
     (case l of
        Timer_list \<Rightarrow> s\<lparr>timer_list_head := v\<rparr>
      | Overflow_list \<Rightarrow> s\<lparr>overflow_list_head := v\<rparr>
      | Long_list \<Rightarrow> s\<lparr>long_list_head := v\<rparr>
      | Next_of r \<Rightarrow> s)"

definition tlist :: "sm_timer_state \<Rightarrow> list_loc \<Rightarrow> timer_ref list \<Rightarrow> bool" where
  "tlist s l xs \<longleftrightarrow> (\<exists>p. load l s = Some p \<and> lseg (tm_next s) p xs None)
     \<and> (\<forall>x \<in> set xs. timer_ok x) \<and> (\<forall>r. l = Next_of r \<longrightarrow> r \<notin> set xs)"

lemma tlist_Cons:
  "tlist s l (c # cs) \<Longrightarrow> load l s = Some (Some c) \<and> timer_ok c \<and> tlist s (Next_of c) cs"
  using lseg_NULL_distinct [of "tm_next s" "Some c" "c # cs"] by (auto simp: tlist_def load_def)

lemma tlist_Nil: "tlist s l [] \<longleftrightarrow> load l s = Some None"
  by (auto simp: tlist_def)

lemma put_load_same: "load l s = Some p \<Longrightarrow> put l p s = s"
  by (cases l) (auto simp: put_def load_def)

lemma load_frame:
  "(\<And>r. l = Next_of r \<Longrightarrow> n' r = tm_next s r) \<Longrightarrow> load l (s\<lparr>tm_next := n'\<rparr>) = load l s"
  by (cases l) (auto simp: load_def)

lemma insert_loop_link:
  assumes "load l s = Some p" and "timer_ok t" and "l \<noteq> Next_of t"
  shows "\<exists>n'. do { s1 \<leftarrow> store (Next_of t) p s; store l (Some t) s1 } = Some (put l (Some t) (s\<lparr>tm_next := n'\<rparr>))
         \<and> load l (put l (Some t) (s\<lparr>tm_next := n'\<rparr>)) = Some (Some t)
         \<and> n' t = p \<and> (\<forall>r. r \<noteq> t \<and> l \<noteq> Next_of r \<longrightarrow> n' r = tm_next s r)"
proof (cases "\<exists>r. l = Next_of r")
  case True
  then obtain r where "l = Next_of r" by blast
  with assms show ?thesis
    by (intro exI [of _ "(tm_next s)(t := p, r := Some t)"])
       (auto simp: store_def load_def put_def split: if_splits)
next
  case False
  with assms show ?thesis
    by (intro exI [of _ "(tm_next s)(t := p)"]) (cases l; auto simp: store_def load_def put_def)
qed

text \<open>
  Insertion returns on every well-formed list and leaves the list with the new timer after
  exactly the leading timers that come before it; only \<open>next\<close> fields of the list change.
\<close>

lemma insert_loop_placed:
  assumes "tlist s l xs" and "timer_ok t" and "t \<notin> set xs" and "l \<noteq> Next_of t"
  shows "\<exists>n' p'. insert_loop before l t s = Some (put l p' (s\<lparr>tm_next := n'\<rparr>))
       \<and> load l (put l p' (s\<lparr>tm_next := n'\<rparr>)) = Some p'
       \<and> lseg n' p' (placed (\<lambda>x. before (timers s x) (timers s t)) t xs) None
       \<and> (\<forall>r. r \<notin> insert t (set xs) \<and> l \<noteq> Next_of r \<longrightarrow> n' r = tm_next s r)"
  using assms
proof (induction xs arbitrary: l)
  case Nil
  then have ld: "load l s = Some None" by (simp add: tlist_Nil)
  from insert_loop_link [OF ld Nil.prems(2,4)] obtain n' where
    "do { s1 \<leftarrow> store (Next_of t) None s; store l (Some t) s1 } = Some (put l (Some t) (s\<lparr>tm_next := n'\<rparr>))"
    and fr: "load l (put l (Some t) (s\<lparr>tm_next := n'\<rparr>)) = Some (Some t)"
      "n' t = None" "\<forall>r. r \<noteq> t \<and> l \<noteq> Next_of r \<longrightarrow> n' r = tm_next s r"
    by blast
  then have "insert_loop before l t s = Some (put l (Some t) (s\<lparr>tm_next := n'\<rparr>))"
    by (subst insert_loop.simps) (simp add: ld)
  with fr show ?case by (intro exI [of _ n'] exI [of _ "Some t"]) simp
next
  case (Cons c cs)
  from tlist_Cons [OF Cons.prems(1)] have ld: "load l s = Some (Some c)" and ok: "timer_ok c"
    and tl: "tlist s (Next_of c) cs" by auto
  have nin: "c \<notin> set cs" "t \<noteq> c" using tl Cons.prems(3) by (auto simp: tlist_def)
  have lc: "l \<noteq> Next_of c" using Cons.prems(1) by (auto simp: tlist_def)
  show ?case
  proof (cases "before (timers s c) (timers s t)")
    case True
    have "t \<notin> set cs" "Next_of c \<noteq> Next_of t" using Cons.prems(3) by auto
    from Cons.IH [OF tl Cons.prems(2) this] obtain n' p' where
      res: "insert_loop before (Next_of c) t s = Some (s\<lparr>tm_next := n'\<rparr>)"
      and p': "n' c = p'"
      and seg: "lseg n' p' (placed (\<lambda>x. before (timers s x) (timers s t)) t cs) None"
      and fr: "\<forall>r. r \<notin> insert t (set cs) \<and> Next_of c \<noteq> Next_of r \<longrightarrow> n' r = tm_next s r"
      by (auto simp: put_def load_def split: if_splits)
    have ld': "load l (s\<lparr>tm_next := n'\<rparr>) = Some (Some c)"
      using ld fr lc Cons.prems(1,4) by (subst load_frame) (auto simp: tlist_def)
    have "insert_loop before l t s = Some (s\<lparr>tm_next := n'\<rparr>)"
      using ld ok Cons.prems(2) True res by (subst insert_loop.simps) simp
    moreover have "put l (Some c) (s\<lparr>tm_next := n'\<rparr>) = s\<lparr>tm_next := n'\<rparr>" by (rule put_load_same [OF ld'])
    ultimately show ?thesis
      using ld' seg p' True fr by (intro exI [of _ n'] exI [of _ "Some c"]) auto
  next
    case False
    from insert_loop_link [OF ld Cons.prems(2,4)] obtain n' where
      res: "do { s1 \<leftarrow> store (Next_of t) (Some c) s; store l (Some t) s1 } = Some (put l (Some t) (s\<lparr>tm_next := n'\<rparr>))"
      and ld': "load l (put l (Some t) (s\<lparr>tm_next := n'\<rparr>)) = Some (Some t)"
      and n': "n' t = Some c" "\<forall>r. r \<noteq> t \<and> l \<noteq> Next_of r \<longrightarrow> n' r = tm_next s r"
      by blast
    have "lseg (tm_next s) (Some c) (c # cs) None" using Cons.prems(1) ld by (auto simp: tlist_def)
    then have "lseg n' (Some c) (c # cs) None"
      using n'(2) Cons.prems(1,3) by (subst lseg_cong [of _ n' "tm_next s"]) (auto simp: tlist_def)
    moreover have "insert_loop before l t s = Some (put l (Some t) (s\<lparr>tm_next := n'\<rparr>))"
      using ld ok Cons.prems(2) False res by (subst insert_loop.simps) simp
    ultimately show ?thesis
      using ld' n' False by (intro exI [of _ n'] exI [of _ "Some t"]) auto
  qed
qed

end
