(* ===== verification/Mintimer_Queue.thy ===== *)
theory Mintimer_Queue
  imports Mintimer
begin

text \<open>
  What the operations of the secure timer do to its three lists. \<open>tm_inv s T V L\<close> says that
  the current, overflow and long list hold the sequences \<open>T\<close>, \<open>V\<close> and \<open>L\<close>: no timer is on two
  lists, the first two are ordered by target and the last by long target and target. \<open>tm_order ord\<close> asks for the order of
  the current list only when \<open>ord\<close> holds: the change of a period takes the due timers of the long list over in the order of
  their long targets.
\<close>

section \<open>Removal from one list\<close>

lemma remove_timer_from_list_removes:
  assumes "tlist s l xs" and "l \<noteq> Next_of t" and "timer_ok t"
  shows "\<exists>n' p'. remove_timer_from_list l t s = Some (t \<in> set xs, put l p' (s\<lparr>tm_next := n'\<rparr>))
       \<and> load l (put l p' (s\<lparr>tm_next := n'\<rparr>)) = Some p'
       \<and> lseg n' p' (remove1 t xs) None
       \<and> (\<forall>r. r \<notin> set xs \<and> l \<noteq> Next_of r \<longrightarrow> n' r = tm_next s r)
       \<and> (t \<notin> set xs \<longrightarrow> n' = tm_next s \<and> put l p' s = s)"
  using assms
proof (induction xs arbitrary: l)
  case Nil
  then have ld: "load l s = Some None" by (simp add: tlist_Nil)
  then have "remove_timer_from_list l t s = Some (False, s)"
    by (subst remove_timer_from_list.simps) simp
  then show ?case
    using ld put_load_same [OF ld] by (intro exI [of _ "tm_next s"] exI [of _ None]) simp
next
  case (Cons c cs)
  from tlist_Cons [OF Cons.prems(1)] have ld: "load l s = Some (Some c)" and ok: "timer_ok c"
    and tl: "tlist s (Next_of c) cs" by auto
  have lc: "l \<noteq> Next_of c" and nin: "c \<notin> set cs" using Cons.prems(1) tl by (auto simp: tlist_def)
  have seg: "lseg (tm_next s) (tm_next s c) cs None"
    using tl ok by (auto simp: tlist_def load_def)
  show ?case
  proof (cases "c = t")
    case True
    define n' where "n' = (case l of Next_of r \<Rightarrow> (tm_next s)(r := tm_next s t) | _ \<Rightarrow> tm_next s)"
    have st: "store l (tm_next s t) s = Some (put l (tm_next s t) (s\<lparr>tm_next := n'\<rparr>))"
      using ld by (cases l) (auto simp: store_def put_def n'_def load_def split: if_splits)
    have "lseg n' (tm_next s t) cs None"
      using seg True Cons.prems(1) by (cases l) (auto simp: n'_def tlist_def)
    moreover have "load l (put l (tm_next s t) (s\<lparr>tm_next := n'\<rparr>)) = Some (tm_next s t)"
      using ld by (cases l) (auto simp: load_def put_def n'_def split: if_splits)
    moreover have "remove_timer_from_list l t s = Some (True, put l (tm_next s t) (s\<lparr>tm_next := n'\<rparr>))"
      using ld True ok st by (subst remove_timer_from_list.simps) (simp add: load_def)
    moreover have "n' r = tm_next s r" if "l \<noteq> Next_of r" for r
      using that by (cases l) (auto simp: n'_def)
    ultimately show ?thesis
      using True by (intro exI [of _ n'] exI [of _ "tm_next s t"]) simp
  next
    case False
    then have "Next_of c \<noteq> Next_of t" by simp
    from Cons.IH [OF tl this Cons.prems(3)] obtain n' p' where
      res: "remove_timer_from_list (Next_of c) t s = Some (t \<in> set cs, s\<lparr>tm_next := n'\<rparr>)"
      and p': "n' c = p'" and sg: "lseg n' p' (remove1 t cs) None"
      and fr: "\<forall>r. r \<notin> set cs \<and> c \<noteq> r \<longrightarrow> n' r = tm_next s r"
      and un: "t \<notin> set cs \<longrightarrow> n' = tm_next s"
      by (auto simp: put_def load_def ok)
    have ld': "load l (s\<lparr>tm_next := n'\<rparr>) = Some (Some c)"
      using ld fr lc Cons.prems(1) by (subst load_frame) (auto simp: tlist_def)
    have "remove_timer_from_list l t s = Some (t \<in> set cs, s\<lparr>tm_next := n'\<rparr>)"
      using ld False res by (subst remove_timer_from_list.simps) simp
    moreover have "put l (Some c) (s\<lparr>tm_next := n'\<rparr>) = s\<lparr>tm_next := n'\<rparr>" by (rule put_load_same [OF ld'])
    moreover have "put l (Some c) s = s" by (rule put_load_same [OF ld])
    ultimately show ?thesis
      using ld' sg p' False fr un by (intro exI [of _ n'] exI [of _ "Some c"]) auto
  qed
qed

section \<open>The three lists together\<close>

definition tm_order :: "bool \<Rightarrow> sm_timer_state \<Rightarrow> timer_ref list \<Rightarrow> timer_ref list \<Rightarrow> timer_ref list \<Rightarrow> bool" where
  "tm_order ord s T V L \<longleftrightarrow>
     lseg (tm_next s) (timer_list_head s) T None
     \<and> lseg (tm_next s) (overflow_list_head s) V None
     \<and> lseg (tm_next s) (long_list_head s) L None
     \<and> distinct (T @ V @ L) \<and> (\<forall>x \<in> set (T @ V @ L). timer_ok x)
     \<and> (ord \<longrightarrow> sorted_wrt (\<lambda>a b. short_before (timers s a) (timers s b)) T)
     \<and> sorted_wrt (\<lambda>a b. short_before (timers s a) (timers s b)) V
     \<and> sorted_wrt (\<lambda>a b. long_before (timers s a) (timers s b)) L"

abbreviation tm_inv :: "sm_timer_state \<Rightarrow> timer_ref list \<Rightarrow> timer_ref list \<Rightarrow> timer_ref list \<Rightarrow> bool" where
  "tm_inv \<equiv> tm_order True"

lemmas tm_inv_def = tm_order_def

lemma tm_order_weaken: "tm_order ord s T V L \<Longrightarrow> tm_order False s T V L"
  by (simp add: tm_order_def)

lemma short_before_order: "short_before a b \<or> short_before b a" "short_before a b \<Longrightarrow> short_before b c \<Longrightarrow> short_before a c"
  by (auto simp: short_before_def)

lemma long_before_order: "long_before a b \<or> long_before b a" "long_before a b \<Longrightarrow> long_before b c \<Longrightarrow> long_before a c"
  by (auto simp: long_before_def)

text \<open>Linking a timer after the timers that come before it keeps a list in order.\<close>

lemma sorted_placed:
  assumes "sorted_wrt (\<lambda>a b. R (f a) (f b)) xs"
    and "\<And>a b. R a b \<or> R b a" and "\<And>a b c. R a b \<Longrightarrow> R b c \<Longrightarrow> R a c"
  shows "sorted_wrt (\<lambda>a b. R (f a) (f b)) (placed (\<lambda>x. R (f x) (f t)) t xs)"
  using assms(1)
proof (induction xs)
  case Nil
  then show ?case by simp
next
  case (Cons x xs)
  show ?case
  proof (cases "R (f x) (f t)")
    case True
    with Cons show ?thesis by auto
  next
    case False
    with assms(2) have tx: "R (f t) (f x)" by blast
    with Cons.prems assms(3) have "\<forall>y \<in> set xs. R (f t) (f y)" by fastforce
    with False tx Cons.prems show ?thesis by simp
  qed
qed

lemma sorted_wrt_remove1: "sorted_wrt R xs \<Longrightarrow> sorted_wrt R (remove1 x xs)"
  by (induction xs) (auto dest: notin_set_remove1 in_set_remove1 [THEN iffD1, rotated])

lemma tm_inv_tlist:
  assumes "tm_order ord s T V L"
  shows "tlist s Timer_list T" "tlist s Overflow_list V" "tlist s Long_list L"
  using assms by (auto simp: tm_inv_def tlist_def load_def)

lemma sorted_wrt_cong: "(\<And>a b. a \<in> set xs \<Longrightarrow> b \<in> set xs \<Longrightarrow> P a b = P' a b) \<Longrightarrow> sorted_wrt P xs = sorted_wrt P' xs"
  by (induction xs) auto

lemma tm_inv_timers_cong:
  assumes "tm_order ord s T V L" and "\<And>x. x \<in> set (T @ V @ L) \<Longrightarrow> timers s' x = timers s x"
    and "tm_next s' = tm_next s" "timer_list_head s' = timer_list_head s"
      "overflow_list_head s' = overflow_list_head s" "long_list_head s' = long_list_head s"
  shows "tm_order ord s' T V L"
  using assms unfolding tm_inv_def
  by (auto cong: sorted_wrt_cong)

text \<open>Operations on the lists touch nothing outside them but the compare register.\<close>

definition lists_only :: "sm_timer_state \<Rightarrow> sm_timer_state \<Rightarrow> bool" where
  "lists_only s s' \<longleftrightarrow>
     s' = s\<lparr>tm_next := tm_next s', timer_list_head := timer_list_head s',
            overflow_list_head := overflow_list_head s', long_list_head := long_list_head s',
            TIMER_CCR := TIMER_CCR s', TIMER_CCTL := TIMER_CCTL s'\<rparr>"

lemma lists_only_refl [simp]: "lists_only s s"
  by (simp add: lists_only_def)

lemma lists_only_put [simp]: "lists_only s (put l p (s\<lparr>tm_next := n\<rparr>))"
  by (cases l) (simp_all add: lists_only_def put_def)

lemma lists_only_lltimer_set [simp]: "lists_only s (lltimer_set v (s\<lparr>timer_list_head := h\<rparr>))"
  by (simp add: lists_only_def lltimer_set_def sm_timer_set_absolute_def Let_def)

lemma lists_only_lltimer_set' [simp]: "lists_only s (lltimer_set v (put l p (s\<lparr>tm_next := n\<rparr>)))"
  by (cases l) (simp_all add: lists_only_def lltimer_set_def sm_timer_set_absolute_def Let_def put_def)

lemma lltimer_set_fields [simp]:
  "tm_next (lltimer_set v s) = tm_next s" "timer_list_head (lltimer_set v s) = timer_list_head s"
  "overflow_list_head (lltimer_set v s) = overflow_list_head s"
  "long_list_head (lltimer_set v s) = long_list_head s" "timers (lltimer_set v s) = timers s"
  "sched_threads (lltimer_set v s) = sched_threads s" "rq_entry (lltimer_set v s) = rq_entry s"
  "sched_runqueues (lltimer_set v s) = sched_runqueues s" "runqueue_bitcache (lltimer_set v s) = runqueue_bitcache s"
  by (simp_all add: lltimer_set_def sm_timer_set_absolute_def Let_def)

lemma tm_inv_lltimer_set [simp]: "tm_order ord (lltimer_set v s) T V L \<longleftrightarrow> tm_order ord s T V L"
  by (simp add: tm_inv_def)

lemma put_fields [simp]:
  "timers (put l p s) = timers s" "tm_next (put l p s) = tm_next s"
  "timer_list_head (put l p s) = (if l = Timer_list then p else timer_list_head s)"
  "overflow_list_head (put l p s) = (if l = Overflow_list then p else overflow_list_head s)"
  "long_list_head (put l p s) = (if l = Long_list then p else long_list_head s)"
  by (cases l; simp add: put_def)+

lemma tm_remove_head:
  assumes inv: "tm_order ord s (t # T) V L"
  shows "\<exists>s'. tm_remove t s = Some s' \<and> lists_only s s' \<and> tm_order ord s' T V L"
proof -
  from inv have hd: "timer_list_head s = Some t" and ok: "timer_ok t"
    and seg: "lseg (tm_next s) (tm_next s t) T None" by (auto simp: tm_inv_def)
  have "timer_ok r" if "tm_next s t = Some r" for r
    using that seg inv by (cases T) (auto simp: tm_inv_def)
  then have "\<exists>v. tm_remove t s = Some (lltimer_set v (s\<lparr>timer_list_head := tm_next s t\<rparr>))"
    using hd ok by (cases "tm_next s t") (auto simp: tm_remove_def load_def)
  then obtain v where "tm_remove t s = Some (lltimer_set v (s\<lparr>timer_list_head := tm_next s t\<rparr>))" ..
  moreover have "tm_order ord (s\<lparr>timer_list_head := tm_next s t\<rparr>) T V L"
    using inv by (auto simp: tm_inv_def)
  ultimately show ?thesis by simp
qed

lemma lseg_other:
  assumes "lseg h p xs None" and "\<forall>r. r \<notin> S \<longrightarrow> h' r = h r" and "set xs \<inter> S = {}"
  shows "lseg h' p xs None"
  using assms(1) lseg_cong [of xs h' h p None] assms(2,3) by blast

text \<open>The timer leaves whichever list it is on, and the two others are unchanged.\<close>

lemma tm_remove_spec:
  assumes inv: "tm_order ord s T V L" and ok: "timer_ok t"
  shows "\<exists>s'. tm_remove t s = Some s' \<and> lists_only s s' \<and> tm_order ord s' (remove1 t T) (remove1 t V) (remove1 t L)"
proof (cases "timer_list_head s = Some t")
  case True
  then obtain T' where T: "T = t # T'" using inv by (cases T) (auto simp: tm_inv_def)
  with inv have "t \<notin> set V" "t \<notin> set L" by (auto simp: tm_inv_def)
  with tm_remove_head [OF inv [unfolded T]] show ?thesis by (simp add: T remove1_idem)
next
  case False
  note tl = tm_inv_tlist [OF inv]
  have d: "distinct T" "distinct V" "distinct L" "set T \<inter> set V = {}" "set T \<inter> set L = {}" "set V \<inter> set L = {}"
    using inv by (auto simp: tm_inv_def)
  have step: "\<exists>n p. remove_timer_from_list l t s = Some (t \<in> set xs, put l p (s\<lparr>tm_next := n\<rparr>))
      \<and> lseg n p (remove1 t xs) None \<and> (\<forall>r. r \<notin> set xs \<longrightarrow> n r = tm_next s r)
      \<and> (t \<notin> set xs \<longrightarrow> put l p (s\<lparr>tm_next := n\<rparr>) = s)"
    if "tlist s l xs" "l \<in> {Timer_list, Overflow_list, Long_list}" for l xs
    using remove_timer_from_list_removes [OF that(1) _ ok] that(2) by fastforce
  obtain n1 p1 where r1: "remove_timer_from_list Timer_list t s = Some (t \<in> set T, put Timer_list p1 (s\<lparr>tm_next := n1\<rparr>))"
      "lseg n1 p1 (remove1 t T) None" "\<forall>r. r \<notin> set T \<longrightarrow> n1 r = tm_next s r"
      "t \<notin> set T \<longrightarrow> put Timer_list p1 (s\<lparr>tm_next := n1\<rparr>) = s"
    using step [OF tl(1)] by auto
  obtain n2 p2 where r2: "remove_timer_from_list Overflow_list t s = Some (t \<in> set V, put Overflow_list p2 (s\<lparr>tm_next := n2\<rparr>))"
      "lseg n2 p2 (remove1 t V) None" "\<forall>r. r \<notin> set V \<longrightarrow> n2 r = tm_next s r"
      "t \<notin> set V \<longrightarrow> put Overflow_list p2 (s\<lparr>tm_next := n2\<rparr>) = s"
    using step [OF tl(2)] by auto
  obtain n3 p3 where r3: "remove_timer_from_list Long_list t s = Some (t \<in> set L, put Long_list p3 (s\<lparr>tm_next := n3\<rparr>))"
      "lseg n3 p3 (remove1 t L) None" "\<forall>r. r \<notin> set L \<longrightarrow> n3 r = tm_next s r"
      "t \<notin> set L \<longrightarrow> put Long_list p3 (s\<lparr>tm_next := n3\<rparr>) = s"
    using step [OF tl(3)] by auto
  have sub: "set (remove1 t xs) \<subseteq> set xs" for xs :: "timer_ref list" by (rule set_remove1_subset)
  have rest: "distinct (remove1 t T @ remove1 t V @ remove1 t L)"
      "\<forall>x \<in> set (remove1 t T @ remove1 t V @ remove1 t L). timer_ok x"
      "ord \<longrightarrow> sorted_wrt (\<lambda>a b. short_before (timers s a) (timers s b)) (remove1 t T)"
      "sorted_wrt (\<lambda>a b. short_before (timers s a) (timers s b)) (remove1 t V)"
      "sorted_wrt (\<lambda>a b. long_before (timers s a) (timers s b)) (remove1 t L)"
    using inv d by (auto simp: tm_inv_def sorted_wrt_remove1)
  consider "t \<in> set T" "t \<notin> set V" "t \<notin> set L" | "t \<notin> set T" "t \<in> set V" "t \<notin> set L" | "t \<notin> set T" "t \<notin> set V"
    using d by blast
  then show ?thesis
  proof cases
    case 1
    then have "tm_remove t s = Some (put Timer_list p1 (s\<lparr>tm_next := n1\<rparr>))"
      using False r1(1) by (simp add: tm_remove_def)
    moreover have "tm_order ord (put Timer_list p1 (s\<lparr>tm_next := n1\<rparr>)) (remove1 t T) (remove1 t V) (remove1 t L)"
      using rest r1(2) 1 lseg_other [OF _ r1(3)] inv d(4,5) by (auto simp: tm_inv_def remove1_idem Int_commute)
    ultimately show ?thesis by auto
  next
    case 2
    then have "tm_remove t s = Some (put Overflow_list p2 (s\<lparr>tm_next := n2\<rparr>))"
      using False r1 r2(1) by (simp add: tm_remove_def)
    moreover have "tm_order ord (put Overflow_list p2 (s\<lparr>tm_next := n2\<rparr>)) (remove1 t T) (remove1 t V) (remove1 t L)"
      using rest r2(2) 2 lseg_other [OF _ r2(3)] inv d(4,6) by (auto simp: tm_inv_def remove1_idem Int_commute)
    ultimately show ?thesis by auto
  next
    case 3
    then have "tm_remove t s = Some (put Long_list p3 (s\<lparr>tm_next := n3\<rparr>))"
      using False r1 r2 r3(1) by (simp add: tm_remove_def)
    moreover have "tm_order ord (put Long_list p3 (s\<lparr>tm_next := n3\<rparr>)) (remove1 t T) (remove1 t V) (remove1 t L)"
      using rest r3(2) 3 lseg_other [OF _ r3(3)] inv d(5,6) by (auto simp: tm_inv_def remove1_idem Int_commute)
    ultimately show ?thesis by auto
  qed
qed

lemma lists_only_fields:
  assumes "lists_only s s'"
  shows "timers s' = timers s" "sched_threads s' = sched_threads s" "rq_entry s' = rq_entry s"
    "sched_runqueues s' = sched_runqueues s" "runqueue_bitcache s' = runqueue_bitcache s"
    "long_cnt s' = long_cnt s" "high_cnt s' = high_cnt s" "hw_reads s' = hw_reads s" "hw_k s' = hw_k s"
    "in_handler s' = in_handler s" "sched_active_thread s' = sched_active_thread s"
    "sched_context_switch_request s' = sched_context_switch_request s" "sched_active_pid s' = sched_active_pid s"
    "sched_num_threads s' = sched_num_threads s"
  by (subst assms [unfolded lists_only_def], simp)+

definition cleared :: "secure_mintimer_t \<Rightarrow> secure_mintimer_t" where
  "cleared t = t\<lparr>target := 0, long_target := 0\<rparr>"

lemma is_set_cleared [simp]: "\<not> is_set (cleared t)" "thread (cleared t) = thread t"
  by (simp_all add: is_set_def cleared_def)

lemma cleared_idem: "\<not> is_set t \<Longrightarrow> cleared t = t"
  by (simp add: cleared_def is_set_def)

text \<open>
  Removing a timer returns on every well-formed state; afterwards a pending timer is on no list
  and no longer counts as set, while a timer that was not set is left where it is.
\<close>

lemma secure_mintimer_remove_spec:
  assumes inv: "tm_order ord s T V L" and ok: "timer_ok t"
  defines "rem \<equiv> (\<lambda>xs. if is_set (timers s t) then remove1 t xs else xs)"
  shows "\<exists>s1. lists_only s s1
      \<and> secure_mintimer_remove t s = Some (s1\<lparr>timers := (timers s)(t := cleared (timers s t))\<rparr>)
      \<and> tm_order ord (s1\<lparr>timers := (timers s)(t := cleared (timers s t))\<rparr>) (rem T) (rem V) (rem L)"
proof (cases "is_set (timers s t)")
  case True
  obtain s1 where s1: "tm_remove t s = Some s1" "lists_only s s1" "tm_order ord s1 (remove1 t T) (remove1 t V) (remove1 t L)"
    using tm_remove_spec [OF inv ok] by blast
  have tms: "timers s1 = timers s" using lists_only_fields(1) [OF s1(2)] .
  have "secure_mintimer_remove t s = Some (s1\<lparr>timers := (timers s)(t := cleared (timers s t))\<rparr>)"
    using True ok s1(1) tms by (simp add: secure_mintimer_remove_def cleared_def)
  moreover have "t \<notin> set (remove1 t T @ remove1 t V @ remove1 t L)"
    using inv by (auto simp: tm_inv_def)
  then have "tm_order ord (s1\<lparr>timers := (timers s)(t := cleared (timers s t))\<rparr>) (remove1 t T) (remove1 t V) (remove1 t L)"
    by (intro tm_inv_timers_cong [OF s1(3)]) (auto simp: tms)
  ultimately show ?thesis using s1(2) True by (auto simp: rem_def)
next
  case False
  then have "secure_mintimer_remove t s = Some (s\<lparr>timers := (timers s)(t := cleared (timers s t))\<rparr>)"
    using ok by (simp add: secure_mintimer_remove_def cleared_idem)
  with False inv show ?thesis
    by (intro exI [of _ s]) (auto simp: rem_def cleared_idem)
qed

section \<open>Insertion\<close>

lemma add_to_long:
  assumes inv: "tm_order ord s T V L" and ok: "timer_ok t" and new: "t \<notin> set (T @ V @ L)"
  shows "\<exists>s'. add_timer_to_long_list Long_list t s = Some s' \<and> lists_only s s'
    \<and> tm_order ord s' T V (placed (\<lambda>x. long_before (timers s x) (timers s t)) t L)"
proof -
  obtain n p where r: "insert_loop long_before Long_list t s = Some (put Long_list p (s\<lparr>tm_next := n\<rparr>))"
      "lseg n p (placed (\<lambda>x. long_before (timers s x) (timers s t)) t L) None"
      "\<forall>r. r \<notin> insert t (set L) \<longrightarrow> n r = tm_next s r"
    using insert_loop_placed [OF tm_inv_tlist(3) [OF inv] ok, of long_before] new by auto
  have "lseg n (timer_list_head s) T None" "lseg n (overflow_list_head s) V None"
    by (rule lseg_other [OF _ r(3)]; use inv new in \<open>auto simp: tm_inv_def\<close>)+
  then have "tm_order ord (put Long_list p (s\<lparr>tm_next := n\<rparr>)) T V (placed (\<lambda>x. long_before (timers s x) (timers s t)) t L)"
    using inv new ok r(2) sorted_placed [where R = long_before and f = "timers s", OF _ long_before_order]
    by (auto simp: tm_inv_def)
  with r(1) show ?thesis by (auto simp: add_timer_to_long_list_def)
qed

lemma add_to_overflow:
  assumes inv: "tm_order ord s T V L" and ok: "timer_ok t" and new: "t \<notin> set (T @ V @ L)"
  shows "\<exists>s'. add_timer_to_list Overflow_list t s = Some s' \<and> lists_only s s'
    \<and> tm_order ord s' T (placed (\<lambda>x. short_before (timers s x) (timers s t)) t V) L"
proof -
  obtain n p where r: "insert_loop short_before Overflow_list t s = Some (put Overflow_list p (s\<lparr>tm_next := n\<rparr>))"
      "lseg n p (placed (\<lambda>x. short_before (timers s x) (timers s t)) t V) None"
      "\<forall>r. r \<notin> insert t (set V) \<longrightarrow> n r = tm_next s r"
    using insert_loop_placed [OF tm_inv_tlist(2) [OF inv] ok, of short_before] new by auto
  have "lseg n (timer_list_head s) T None" "lseg n (long_list_head s) L None"
    by (rule lseg_other [OF _ r(3)]; use inv new in \<open>auto simp: tm_inv_def\<close>)+
  then have "tm_order ord (put Overflow_list p (s\<lparr>tm_next := n\<rparr>)) T (placed (\<lambda>x. short_before (timers s x) (timers s t)) t V) L"
    using inv new ok r(2) sorted_placed [where R = short_before and f = "timers s", OF _ short_before_order]
    by (auto simp: tm_inv_def)
  with r(1) show ?thesis by (auto simp: add_timer_to_list_def)
qed

lemma add_to_current:
  assumes inv: "tm_order ord s T V L" and ok: "timer_ok t" and new: "t \<notin> set (T @ V @ L)"
  shows "\<exists>s'. add_timer_to_list Timer_list t s = Some s' \<and> lists_only s s'
    \<and> (\<forall>v. lists_only s (lltimer_set v s'))
    \<and> tm_order ord s' (placed (\<lambda>x. short_before (timers s x) (timers s t)) t T) V L"
proof -
  obtain n p where r: "insert_loop short_before Timer_list t s = Some (put Timer_list p (s\<lparr>tm_next := n\<rparr>))"
      "lseg n p (placed (\<lambda>x. short_before (timers s x) (timers s t)) t T) None"
      "\<forall>r. r \<notin> insert t (set T) \<longrightarrow> n r = tm_next s r"
    using insert_loop_placed [OF tm_inv_tlist(1) [OF inv] ok, of short_before] new by auto
  have "lseg n (overflow_list_head s) V None" "lseg n (long_list_head s) L None"
    by (rule lseg_other [OF _ r(3)]; use inv new in \<open>auto simp: tm_inv_def\<close>)+
  then have "tm_order ord (put Timer_list p (s\<lparr>tm_next := n\<rparr>)) (placed (\<lambda>x. short_before (timers s x) (timers s t)) t T) V L"
    using inv new ok r(2) sorted_placed [where R = short_before and f = "timers s", OF _ short_before_order]
    by (auto simp: tm_inv_def)
  with r(1) show ?thesis by (auto simp: add_timer_to_list_def)
qed

text \<open>Where \<open>_secure_mintimer_set_absolute_explicit\<close> puts a timer, and its long target then.\<close>

definition rolled_over :: "secure_mintimer_t \<Rightarrow> u32 \<Rightarrow> secure_mintimer_t" where
  "rolled_over t now =
     t\<lparr>long_target := long_target t + (if target t - SECURE_MINTIMER_OVERHEAD < now then 1 else 0)\<rparr>"

definition destination :: "sm_timer_state \<Rightarrow> secure_mintimer_t \<Rightarrow> u32 \<Rightarrow> list_loc" where
  "destination s t now =
     (if long_target (rolled_over t now) > long_cnt s
         \<or> \<not> this_high_period (target t - SECURE_MINTIMER_OVERHEAD) s then Long_list
      else if secure_mintimer_lltimer_mask now \<ge> target t - SECURE_MINTIMER_OVERHEAD then Overflow_list
      else Timer_list)"

definition entered :: "(secure_mintimer_t \<Rightarrow> secure_mintimer_t \<Rightarrow> bool) \<Rightarrow> bool \<Rightarrow> sm_timer_state \<Rightarrow>
    timer_ref \<Rightarrow> timer_ref list \<Rightarrow> timer_ref list" where
  "entered before here s t xs =
     (if here then placed (\<lambda>x. before (timers s x) (timers s t)) t xs else xs)"

lemma long_target_upd: "long_target_update f t = t\<lparr>long_target := f (long_target t)\<rparr>"
  by (cases t) simp

lemma entered_cong: "timers s = timers s' \<Longrightarrow> entered b h s t xs = entered b h s' t xs"
  by (simp add: entered_def)

lemma set_absolute_explicit_spec:
  fixes s now t
  defines "s0 \<equiv> s\<lparr>timers := (timers s)(t := rolled_over (timers s t) now)\<rparr>"
    and "d \<equiv> destination s (timers s t) now"
  assumes inv: "tm_order ord s T V L" and ok: "timer_ok t" and new: "t \<notin> set (T @ V @ L)"
  shows "\<exists>s'. secure_mintimer_set_absolute_explicit t now s = Some (0, s') \<and> lists_only s0 s'
    \<and> tm_order ord s' (entered short_before (d = Timer_list) s0 t T)
                (entered short_before (d = Overflow_list) s0 t V)
                (entered long_before (d = Long_list) s0 t L)"
proof -
  let ?tgt = "target (timers s t) - SECURE_MINTIMER_OVERHEAD"
  have inv0: "tm_order ord s0 T V L" using new by (intro tm_inv_timers_cong [OF inv]) (auto simp: s0_def)
  have up: "(if ?tgt < now then upd_timer (long_target_update (\<lambda>v. v + 1)) t s else Some s) = Some s0"
    using ok by (auto simp: s0_def rolled_over_def long_target_upd [where f = "\<lambda>v. v + 1"])
  have f: "timers s0 t = rolled_over (timers s t) now" "long_cnt s0 = long_cnt s" "this_high_period x s0 = this_high_period x s" for x
    by (simp_all add: s0_def this_high_period_def)
  define u where "u = (if d = Long_list then add_timer_to_long_list Long_list t s0
      else if d = Overflow_list then add_timer_to_list Overflow_list t s0
      else do { s2 \<leftarrow> add_timer_to_list Timer_list t s0;
                Some (if timer_list_head s2 = Some t then lltimer_set ?tgt s2 else s2) })"
  have eq: "secure_mintimer_set_absolute_explicit t now s = do { s2 \<leftarrow> u; Some (0, s2) }"
    using ok up f by (auto simp: secure_mintimer_set_absolute_explicit_def u_def d_def destination_def)
  show ?thesis
  proof (cases d)
    case Timer_list
    with add_to_current [OF inv0 ok new] show ?thesis
      by (fastforce simp: eq u_def entered_def)
  next
    case Overflow_list
    with add_to_overflow [OF inv0 ok new] show ?thesis by (auto simp: eq u_def entered_def)
  next
    case Long_list
    with add_to_long [OF inv0 ok new] show ?thesis by (auto simp: eq u_def entered_def)
  next
    case (Next_of r)
    then show ?thesis by (auto simp: d_def destination_def split: if_splits)
  qed
qed

lemma set_absolute_spec:
  fixes s t tgt
  defines "now \<equiv> high_cnt s OR ucast (hw_reads s (hw_k s))"
    and "t0 \<equiv> (timers s t)\<lparr>target := tgt, long_target := long_cnt s\<rparr>"
  assumes inv: "tm_order ord s T V L" and ok: "timer_ok t" and new: "t \<notin> set (T @ V @ L)"
    and unset: "\<not> is_set (timers s t)" and far: "tgt - now > SECURE_MINTIMER_BACKOFF"
  defines "s0 \<equiv> s\<lparr>hw_k := Suc (hw_k s), timers := (timers s)(t := rolled_over t0 now)\<rparr>"
    and "d \<equiv> destination s t0 now"
  shows "\<exists>s'. secure_mintimer_set_absolute t tgt s = Some (0, s') \<and> lists_only s0 s'
    \<and> tm_order ord s' (entered short_before (d = Timer_list) s0 t T)
                (entered short_before (d = Overflow_list) s0 t V)
                (entered long_before (d = Long_list) s0 t L)"
proof -
  define s1 where "s1 = s\<lparr>hw_k := Suc (hw_k s), tm_next := (tm_next s)(t := None), timers := (timers s)(t := t0)\<rparr>"
  have "tm_order ord (s\<lparr>hw_k := Suc (hw_k s), tm_next := (tm_next s)(t := None)\<rparr>) T V L"
    using inv new by (auto simp: tm_inv_def)
  then have inv1: "tm_order ord s1 T V L"
    by (rule tm_inv_timers_cong) (use new in \<open>auto simp: s1_def\<close>)
  have st: "secure_mintimer_set_absolute t tgt s = secure_mintimer_set_absolute_explicit t now s1"
    using ok unset far [unfolded now_def not_le [symmetric]]
    by (simp add: secure_mintimer_set_absolute_def secure_mintimer_now_eq store_def s1_def t0_def now_def)
  have d1: "destination s1 (timers s1 t) now = d" "rolled_over (timers s1 t) now = rolled_over t0 now"
    by (simp_all add: d_def s1_def destination_def this_high_period_def)
  obtain s' where s': "secure_mintimer_set_absolute_explicit t now s1 = Some (0, s')"
      "lists_only (s1\<lparr>timers := (timers s1)(t := rolled_over t0 now)\<rparr>) s'"
      "tm_order ord s' (entered short_before (d = Timer_list) (s1\<lparr>timers := (timers s1)(t := rolled_over t0 now)\<rparr>) t T)
                (entered short_before (d = Overflow_list) (s1\<lparr>timers := (timers s1)(t := rolled_over t0 now)\<rparr>) t V)
                (entered long_before (d = Long_list) (s1\<lparr>timers := (timers s1)(t := rolled_over t0 now)\<rparr>) t L)"
    using set_absolute_explicit_spec [OF inv1 ok new, of now] unfolding d1 by blast
  have "lists_only s0 s'" using s'(2) by (simp add: lists_only_def s0_def s1_def)
  moreover have "entered b h (s1\<lparr>timers := (timers s1)(t := rolled_over t0 now)\<rparr>) t xs = entered b h s0 t xs" for b h xs
    by (rule entered_cong) (simp add: s0_def s1_def)
  ultimately show ?thesis using s' st by simp
qed

end
