(* ===== verification/Mintimer_Period.thy ===== *)
theory Mintimer_Period
  imports Mintimer_Queue
begin

text \<open>
  The timer interrupt: the change to the next 16-bit period, the selection of long timers, the
  merge of two lists, and the loop that fires expired timers.
\<close>

section \<open>Merging\<close>

text \<open>
  \<open>_merge_lists\<close> advances both lists in every round and links only the earlier of the two
  timers, so it keeps one timer of each pair and then the rest of the longer list.
\<close>

definition earlier :: "sm_timer_state \<Rightarrow> timer_ref \<Rightarrow> timer_ref \<Rightarrow> timer_ref" where
  "earlier s a b = (if target (timers s a) \<le> target (timers s b) then a else b)"

definition merged :: "sm_timer_state \<Rightarrow> timer_ref list \<Rightarrow> timer_ref list \<Rightarrow> timer_ref list" where
  "merged s xs ys = map2 (earlier s) xs ys @ drop (length ys) xs @ drop (length xs) ys"

lemma merged_Cons [simp]: "merged s (x # xs) (y # ys) = earlier s x y # merged s xs ys"
  by (simp add: merged_def)

lemma merged_Nil [simp]: "merged s [] ys = ys" "merged s xs [] = xs"
  by (simp_all add: merged_def)

lemma length_merged: "length (merged s xs ys) = max (length xs) (length ys)"
  by (auto simp: merged_def)

lemma merged_nth: "i < length xs \<Longrightarrow> i < length ys \<Longrightarrow> merged s xs ys ! i = earlier s (xs ! i) (ys ! i)"
  by (simp add: merged_def nth_append)

lemma merged_rest:
  "drop (min (length xs) (length ys)) (merged s xs ys) = drop (min (length xs) (length ys)) xs @ drop (min (length xs) (length ys)) ys"
  by (simp add: merged_def min_def)

lemma set_merged: "set (merged s xs ys) \<subseteq> set xs \<union> set ys"
proof (induction xs arbitrary: ys)
  case (Cons x xs)
  show ?case
  proof (cases ys)
    case (Cons y ys')
    then show ?thesis using \<open>\<And>ys. set (merged s xs ys) \<subseteq> set xs \<union> set ys\<close> [of ys'] by (auto simp: earlier_def)
  qed simp
qed simp

lemma distinct_merged: "distinct (xs @ ys) \<Longrightarrow> distinct (merged s xs ys)"
proof (induction xs arbitrary: ys)
  case (Cons x xs)
  show ?case
  proof (cases ys)
    case (Cons y ys')
    then have "distinct (merged s xs ys')" using Cons.IH [of ys'] \<open>distinct ((x # xs) @ ys)\<close> by simp
    moreover have "earlier s x y \<notin> set (merged s xs ys')"
      using set_merged [of s xs ys'] \<open>distinct ((x # xs) @ ys)\<close> Cons by (auto simp: earlier_def)
    ultimately show ?thesis using Cons by simp
  qed (use Cons.prems in simp)
qed simp

text \<open>The later of each pair is gone.\<close>

lemma merged_loses:
  assumes "distinct (xs @ ys)" and "i < length xs" and "i < length ys"
  shows "(if target (timers s (xs ! i)) \<le> target (timers s (ys ! i)) then ys ! i else xs ! i) \<notin> set (merged s xs ys)"
  using assms
proof (induction i arbitrary: xs ys)
  case 0
  then obtain x xs' y ys' where e: "xs = x # xs'" "ys = y # ys'" by (cases xs; cases ys) auto
  then show ?case using 0 set_merged [of s xs' ys'] by (auto simp: earlier_def)
next
  case (Suc i)
  then obtain x xs' y ys' where e: "xs = x # xs'" "ys = y # ys'" by (cases xs; cases ys) auto
  have "xs' ! i \<in> set xs'" "ys' ! i \<in> set ys'" using Suc.prems e by simp_all
  then show ?case using Suc.IH [of xs' ys'] Suc.prems e by (auto simp: earlier_def)
qed

lemma tm_compare_earlier:
  "timer_ok a \<Longrightarrow> timer_ok b \<Longrightarrow> tm_compare (Some a) (Some b) s = Some (Some (earlier s a b))"
  by (simp add: tm_compare_def earlier_def)

lemma merge_loop_merged:
  assumes "lseg (tm_next s) (tm_next s a) xs None" and "lseg (tm_next s) (tm_next s b) ys None"
    and "distinct (a # xs @ b # ys)" and "\<forall>x \<in> set (a # xs @ b # ys). timer_ok x" and "p \<in> {a, b}"
  shows "\<exists>n'. merge_loop (Some p) (Some a) (Some b) s = Some (s\<lparr>tm_next := n'\<rparr>)
    \<and> lseg n' (n' p) (merged s xs ys) None \<and> (\<forall>r. r \<notin> insert p (set xs \<union> set ys) \<longrightarrow> n' r = tm_next s r)"
  using assms
proof (induction xs arbitrary: s a b ys p)
  case Nil
  define n' where "n' = (tm_next s)(p := tm_next s b)"
  from Nil have "merge_loop (Some p) (Some a) (Some b) s = Some (s\<lparr>tm_next := n'\<rparr>)"
    by (subst merge_loop.simps) (auto simp: load_def store_def n'_def)
  moreover have "lseg n' (n' p) ys None" "\<forall>r. r \<noteq> p \<longrightarrow> n' r = tm_next s r" using Nil by (auto simp: n'_def)
  ultimately show ?case by (intro exI [of _ n']) simp
next
  case (Cons a' xs')
  have na: "tm_next s a = Some a'" "lseg (tm_next s) (tm_next s a') xs' None" using Cons.prems(1) by auto
  have okp: "timer_ok a" "timer_ok b" "timer_ok p" using Cons.prems(4,5) by auto
  show ?case
  proof (cases ys)
    case Nil
    then have nb: "tm_next s b = None" using Cons.prems(2) by simp
    define n' where "n' = (tm_next s)(p := Some a')"
    have "merge_loop (Some p) (Some a) (Some b) s = Some (s\<lparr>tm_next := n'\<rparr>)"
      using okp na nb by (subst merge_loop.simps) (simp add: load_def store_def n'_def)
    moreover have "lseg n' (n' p) (a' # xs') None" "\<forall>r. r \<noteq> p \<longrightarrow> n' r = tm_next s r"
      using na Cons.prems(3,5) Nil by (auto simp: n'_def)
    ultimately show ?thesis using Nil by (intro exI [of _ n']) simp
  next
    case (Cons b' ys')
    have nb: "tm_next s b = Some b'" "lseg (tm_next s) (tm_next s b') ys' None"
      using Cons.prems(2) Cons by auto
    define c where "c = earlier s a' b'"
    define s1 where "s1 = s\<lparr>tm_next := (tm_next s)(p := Some c)\<rparr>"
    have pn: "p \<noteq> a'" "p \<noteq> b'" "p \<notin> set xs'" "p \<notin> set ys'"
      using Cons.prems(3,5) Cons by auto
    have step: "merge_loop (Some p) (Some a) (Some b) s = merge_loop (Some c) (Some a') (Some b') s1"
      using okp na nb Cons.prems(4) Cons
      by (subst merge_loop.simps) (simp add: load_def store_def tm_compare_earlier s1_def c_def)
    have "lseg (tm_next s1) (tm_next s1 a') xs' None" "lseg (tm_next s1) (tm_next s1 b') ys' None"
      using na nb pn by (simp_all add: s1_def)
    moreover have "distinct (a' # xs' @ b' # ys')" "\<forall>x \<in> set (a' # xs' @ b' # ys'). timer_ok x"
      using Cons.prems Cons by auto
    moreover have c: "c \<in> {a', b'}" by (simp add: c_def earlier_def)
    ultimately obtain n' where n': "merge_loop (Some c) (Some a') (Some b') s1 = Some (s1\<lparr>tm_next := n'\<rparr>)"
        "lseg n' (n' c) (merged s1 xs' ys') None"
        "\<forall>r. r \<notin> insert c (set xs' \<union> set ys') \<longrightarrow> n' r = tm_next s1 r"
      using Cons.IH [of s1 a' b' ys' c] by blast
    have "n' p = Some c" using n'(3) pn c by (auto simp: s1_def)
    moreover have "merged s1 xs' ys' = merged s xs' ys'" by (simp add: merged_def earlier_def s1_def)
    moreover have "s1\<lparr>tm_next := n'\<rparr> = s\<lparr>tm_next := n'\<rparr>" by (simp add: s1_def)
    moreover have "n' r = tm_next s r" if "r \<notin> insert p (set (a' # xs') \<union> set ys)" for r
      using n'(3) that c Cons by (auto simp: s1_def)
    ultimately show ?thesis
      using step n' Cons by (intro exI [of _ n']) (simp add: c_def)
  qed
qed

lemma merge_lists_merged:
  assumes "lseg (tm_next s) (Some a) xs None" and "lseg (tm_next s) (Some b) ys None"
    and "distinct (xs @ ys)" and "\<forall>x \<in> set (xs @ ys). timer_ok x"
  shows "\<exists>n' p. merge_lists (Some a) (Some b) s = Some (p, s\<lparr>tm_next := n'\<rparr>)
    \<and> lseg n' p (merged s xs ys) None \<and> (\<forall>r. r \<notin> set xs \<union> set ys \<longrightarrow> n' r = tm_next s r)"
proof -
  obtain xs' ys' where x: "xs = a # xs'" "ys = b # ys'"
    using assms(1,2) by (cases xs; cases ys) auto
  define c where "c = earlier s a b"
  have c: "c \<in> {a, b}" by (simp add: c_def earlier_def)
  have "lseg (tm_next s) (tm_next s a) xs' None" "lseg (tm_next s) (tm_next s b) ys' None"
    "distinct (a # xs' @ b # ys')" "\<forall>x \<in> set (a # xs' @ b # ys'). timer_ok x"
    using assms x by auto
  from merge_loop_merged [OF this c] obtain n' where
    n': "merge_loop (Some c) (Some a) (Some b) s = Some (s\<lparr>tm_next := n'\<rparr>)"
    "lseg n' (n' c) (merged s xs' ys') None" "\<forall>r. r \<notin> insert c (set xs' \<union> set ys') \<longrightarrow> n' r = tm_next s r"
    by blast
  have "tm_compare (Some a) (Some b) s = Some (Some c)"
    using assms(4) x by (simp add: tm_compare_earlier c_def)
  then have "merge_lists (Some a) (Some b) s = Some (Some c, s\<lparr>tm_next := n'\<rparr>)"
    using n'(1) by (simp add: merge_lists_def)
  moreover have "lseg n' (Some c) (merged s xs ys) None" using n'(2) x by (simp add: c_def)
  ultimately show ?thesis using n'(3) x c by (intro exI [of _ n'] exI [of _ "Some c"] conjI) auto
qed

section \<open>Selecting the long timers of a period\<close>

definition due :: "sm_timer_state \<Rightarrow> timer_ref \<Rightarrow> bool" where
  "due s r \<longleftrightarrow> long_target (timers s r) \<le> long_cnt s \<and> this_high_period (target (timers s r)) s"

lemma select_loop_due:
  assumes "lseg (tm_next s) (long_list_head s) xs None" and "\<forall>x \<in> set xs. timer_ok x"
  shows "\<exists>p. select_loop l s =
      Some (if takeWhile (due s) xs = [] then l else Some (last (takeWhile (due s) xs)), s\<lparr>long_list_head := p\<rparr>)
    \<and> lseg (tm_next s) p (dropWhile (due s) xs) None
    \<and> lseg (tm_next s) (long_list_head s) (takeWhile (due s) xs) p"
  using assms
proof (induction xs arbitrary: s l)
  case Nil
  then have h: "long_list_head s = None" by simp
  have "s\<lparr>long_list_head := long_list_head s\<rparr> = s" by simp
  then have "s\<lparr>long_list_head := None\<rparr> = s" unfolding h .
  moreover have "select_loop l s = Some (l, s)" by (subst select_loop.simps) (simp add: h)
  ultimately show ?case using h by (intro exI [of _ None]) simp
next
  case (Cons x xs)
  then have h: "long_list_head s = Some x" "timer_ok x" "lseg (tm_next s) (tm_next s x) xs None" by auto
  show ?case
  proof (cases "due s x")
    case True
    let ?s1 = "s\<lparr>long_list_head := tm_next s x\<rparr>"
    have step: "select_loop l s = select_loop (Some x) ?s1"
      using h True by (subst select_loop.simps) (simp add: due_def)
    have d: "due ?s1 = due s" by (auto simp: due_def this_high_period_def fun_eq_iff)
    from Cons.IH [of ?s1 "Some x"] h Cons.prems(2) obtain p where
      "select_loop (Some x) ?s1 =
         Some (if takeWhile (due s) xs = [] then Some x else Some (last (takeWhile (due s) xs)), s\<lparr>long_list_head := p\<rparr>)"
      "lseg (tm_next s) p (dropWhile (due s) xs) None" "lseg (tm_next s) (tm_next s x) (takeWhile (due s) xs) p"
      unfolding d by auto
    with step True h show ?thesis by (intro exI [of _ p] conjI) simp_all
  next
    case False
    then have "select_loop l s = Some (l, s)"
      using h by (subst select_loop.simps) (auto simp: due_def)
    moreover have "s\<lparr>long_list_head := long_list_head s\<rparr> = s" by simp
    then have "s\<lparr>long_list_head := Some x\<rparr> = s" unfolding h(1) .
    ultimately show ?thesis using False h by (intro exI [of _ "Some x"]) simp
  qed
qed

lemma lseg_cut:
  "lseg h p xs q \<Longrightarrow> distinct xs \<Longrightarrow> xs \<noteq> [] \<Longrightarrow> lseg (h(last xs := None)) p xs None"
  by (cases xs rule: rev_cases) auto

lemma select_long_timers_spec:
  assumes T: "lseg (tm_next s) (timer_list_head s) T None" and V: "lseg (tm_next s) (overflow_list_head s) V None"
    and L: "lseg (tm_next s) (long_list_head s) L None"
    and d: "distinct (T @ V @ L)" and ok: "\<forall>x \<in> set (T @ V @ L). timer_ok x"
  defines "sel \<equiv> takeWhile (due s) L"
  shows "\<exists>s'. select_long_timers s = Some s' \<and> lists_only s s'
    \<and> lseg (tm_next s') (timer_list_head s') (merged s T sel) None
    \<and> lseg (tm_next s') (overflow_list_head s') V None
    \<and> lseg (tm_next s') (long_list_head s') (dropWhile (due s) L) None"
proof -
  have "\<forall>x \<in> set L. timer_ok x" using ok by simp
  from select_loop_due [OF L this, of None] obtain p where
    loop: "select_loop None s = Some (if sel = [] then None else Some (last sel), s\<lparr>long_list_head := p\<rparr>)"
    and rest: "lseg (tm_next s) p (dropWhile (due s) L) None" and seg: "lseg (tm_next s) (long_list_head s) sel p"
    unfolding sel_def by blast
  have "distinct (takeWhile (due s) L @ dropWhile (due s) L)" using d by simp
  then have dd: "distinct (takeWhile (due s) L)" "set (takeWhile (due s) L) \<inter> set (dropWhile (due s) L) = {}"
    unfolding distinct_append by auto
  have sub: "set sel \<subseteq> set L" "distinct sel" "set sel \<inter> set (dropWhile (due s) L) = {}"
    using dd by (auto simp: sel_def dest: set_takeWhileD)
  show ?thesis
  proof (cases "sel = []")
    case True
    then have "select_long_timers s = Some (s\<lparr>long_list_head := p\<rparr>)"
      using loop by (simp add: select_long_timers_def Let_def)
    with True T V rest show ?thesis by (simp add: lists_only_def)
  next
    case False
    define n1 where "n1 = (tm_next s)(last sel := None)"
    have lin: "last sel \<in> set sel" "last sel \<in> set L" using False sub(1) by auto
    have okl: "timer_ok (last sel)" using ok lin by simp
    have notin: "last sel \<notin> set (dropWhile (due s) L)" "last sel \<notin> set T" "last sel \<notin> set V"
      using d lin sub(3) by auto
    have segs: "lseg n1 (long_list_head s) sel None" "lseg n1 p (dropWhile (due s) L) None"
      "lseg n1 (timer_list_head s) T None" "lseg n1 (overflow_list_head s) V None"
      using lseg_cut [OF seg sub(2) False] rest T V notin by (simp_all add: n1_def)
    define s2 where "s2 = s\<lparr>long_list_head := p, tm_next := n1\<rparr>"
    have st: "select_long_timers s = (if timer_list_head s \<noteq> None
        then do { (h, s3) \<leftarrow> merge_lists (timer_list_head s) (long_list_head s) s2; Some (s3\<lparr>timer_list_head := h\<rparr>) }
        else Some (s2\<lparr>timer_list_head := long_list_head s\<rparr>))"
      using loop False okl by (simp add: select_long_timers_def store_def s2_def n1_def)
    show ?thesis
    proof (cases "timer_list_head s")
      case None
      then have "T = []" using T by simp
      with st None segs show ?thesis by (auto simp: lists_only_def s2_def)
    next
      case (Some a)
      obtain b where b: "long_list_head s = Some b" using segs(1) False by (cases sel) auto
      have "lseg (tm_next s2) (Some a) T None" "lseg (tm_next s2) (Some b) sel None"
        "distinct (T @ sel)" "\<forall>x \<in> set (T @ sel). timer_ok x"
        using segs Some b d ok sub by (auto simp: s2_def)
      from merge_lists_merged [OF this] obtain n2 q where
        m: "merge_lists (Some a) (Some b) s2 = Some (q, s2\<lparr>tm_next := n2\<rparr>)" "lseg n2 q (merged s2 T sel) None"
        and fr: "\<forall>r. r \<notin> set T \<union> set sel \<longrightarrow> n2 r = n1 r"
        by (auto simp: s2_def)
      have "set V \<inter> (set T \<union> set sel) = {}" "set (dropWhile (due s) L) \<inter> (set T \<union> set sel) = {}"
        using d sub by (auto dest: set_dropWhileD)
      then have "lseg n2 (overflow_list_head s) V None" "lseg n2 p (dropWhile (due s) L) None"
        using lseg_other [OF segs(4) fr] lseg_other [OF segs(2) fr] by auto
      moreover have "merged s2 T sel = merged s T sel" by (simp add: merged_def earlier_def s2_def)
      ultimately show ?thesis
        using st Some b m by (simp add: lists_only_def s2_def)
    qed
  qed
qed

section \<open>The next period\<close>

definition advanced :: "sm_timer_state \<Rightarrow> sm_timer_state" where
  "advanced s = s\<lparr>high_cnt := high_cnt s + 0x10000,
                  long_cnt := (if high_cnt s + 0x10000 = 0 then long_cnt s + 1 else long_cnt s)\<rparr>"

lemma next_period_spec:
  assumes inv: "tm_order ord s T V L"
  defines "s0 \<equiv> advanced s"
  shows "\<exists>s'. next_period s = Some s' \<and> lists_only s0 s'
    \<and> lseg (tm_next s') (timer_list_head s') (merged s V (takeWhile (due s0) L)) None
    \<and> overflow_list_head s' = None
    \<and> lseg (tm_next s') (long_list_head s') (dropWhile (due s0) L) None"
proof -
  define s4 where "s4 = s0\<lparr>timer_list_head := overflow_list_head s, overflow_list_head := None\<rparr>"
  have np: "next_period s = select_long_timers s4"
    unfolding next_period_def mask_values(2) by (simp add: s4_def s0_def advanced_def)
  have "lseg (tm_next s4) (timer_list_head s4) V None" "lseg (tm_next s4) (overflow_list_head s4) [] None"
    "lseg (tm_next s4) (long_list_head s4) L None" "distinct (V @ [] @ L)" "\<forall>x \<in> set (V @ [] @ L). timer_ok x"
    using inv by (auto simp: tm_inv_def s4_def s0_def advanced_def)
  from select_long_timers_spec [OF this] obtain s' where s': "select_long_timers s4 = Some s'" "lists_only s4 s'"
    "lseg (tm_next s') (timer_list_head s') (merged s4 V (takeWhile (due s4) L)) None"
    "lseg (tm_next s') (overflow_list_head s') [] None"
    "lseg (tm_next s') (long_list_head s') (dropWhile (due s4) L) None"
    by blast
  have "due s4 = due s0" by (auto simp: due_def this_high_period_def s4_def fun_eq_iff)
  moreover have "merged s4 = merged s" by (auto simp: merged_def earlier_def s4_def s0_def advanced_def fun_eq_iff)
  moreover have "lists_only s0 s'" using s'(2) by (simp add: lists_only_def s4_def)
  ultimately show ?thesis using s' np by auto
qed

text \<open>With an empty overflow list, the due long timers become the current list, in order.\<close>

lemma next_period_inv:
  assumes inv: "tm_order ord s T [] L"
    and fresh: "\<forall>x \<in> set L. long_target (timers s x) \<ge> long_cnt (advanced s)"
  shows "\<exists>s'. next_period s = Some s' \<and> lists_only (advanced s) s'
    \<and> tm_order ord s' (takeWhile (due (advanced s)) L) [] (dropWhile (due (advanced s)) L)"
proof -
  let ?sel = "takeWhile (due (advanced s)) L" and ?rest = "dropWhile (due (advanced s)) L"
  from next_period_spec [OF inv] obtain s' where s': "next_period s = Some s'" "lists_only (advanced s) s'"
    "lseg (tm_next s') (timer_list_head s') ?sel None" "overflow_list_head s' = None"
    "lseg (tm_next s') (long_list_head s') ?rest None"
    by auto
  have tms: "timers s' = timers s" using lists_only_fields(1) [OF s'(2)] by (simp add: advanced_def)
  have split: "?sel @ ?rest = L" by simp
  have "sorted_wrt (\<lambda>a b. long_before (timers s a) (timers s b)) (?sel @ ?rest)"
    using inv by (simp add: tm_inv_def)
  then have so: "sorted_wrt (\<lambda>a b. long_before (timers s a) (timers s b)) ?sel"
      "sorted_wrt (\<lambda>a b. long_before (timers s a) (timers s b)) ?rest"
    unfolding sorted_wrt_append by auto
  have "long_target (timers s x) = long_cnt (advanced s)" if "x \<in> set ?sel" for x
    using set_takeWhileD [OF that] fresh by (force simp: due_def advanced_def)
  then have "sorted_wrt (\<lambda>a b. short_before (timers s a) (timers s b)) ?sel"
    by (intro sorted_wrt_mono_rel [OF _ so(1)]) (auto simp: long_before_def short_before_def)
  moreover have "distinct (?sel @ ?rest)" "\<forall>x \<in> set (?sel @ ?rest). timer_ok x"
    using inv unfolding split by (auto simp: tm_inv_def)
  ultimately have "tm_order ord s' ?sel [] ?rest"
    using s' so(2) by (simp add: tm_inv_def tms)
  with s' show ?thesis by blast
qed

text \<open>\<open>_long_cnt\<close> and \<open>_secure_mintimer_high_cnt\<close> count periods of \<open>2^16\<close> ticks as one 64-bit number.\<close>

definition period_start :: "sm_timer_state \<Rightarrow> nat" where
  "period_start s = unat (long_cnt s) * 2 ^ 32 + unat (high_cnt s)"

lemma advanced_period:
  assumes "high_ok s"
  shows "high_ok (advanced s)" and "period_start (advanced s) = (period_start s + 2 ^ 16) mod 2 ^ 64"
proof -
  obtain k where k: "unat (high_cnt s) = 2 ^ 16 * k" using assms high_ok_dvd by (auto elim: dvdE)
  have "unat (high_cnt s) < 2 ^ LENGTH(32)" "unat (long_cnt s) < 2 ^ LENGTH(32)" by (rule unsigned_less)+
  then have b: "k < 2 ^ 16" "unat (long_cnt s) < 2 ^ 32" using k by simp_all
  have u: "unat (high_cnt s + 0x10000) = (2 ^ 16 * k + 2 ^ 16) mod 2 ^ 32"
    by (simp add: unat_word_ariths k)
  have z: "high_cnt s + 0x10000 = 0 \<longleftrightarrow> k = 2 ^ 16 - 1"
  proof (cases "k = 2 ^ 16 - 1")
    case True
    then show ?thesis using u unat_eq_0 [of "high_cnt s + 0x10000"] by simp
  next
    case False
    then have "2 ^ 16 * k + 2 ^ 16 < (2 ^ 32 :: nat)" using b by simp
    then have "unat (high_cnt s + 0x10000) \<noteq> 0" unfolding u by simp
    then show ?thesis using False by auto
  qed
  show "high_ok (advanced s)"
    unfolding high_ok_dvd using u by (simp add: advanced_def dvd_mod_iff dvd_add)
  show "period_start (advanced s) = (period_start s + 2 ^ 16) mod 2 ^ 64"
  proof (cases "k = 2 ^ 16 - 1")
    case True
    have "Suc (unat (long_cnt s)) mod 2 ^ 32 * 2 ^ 32 = (Suc (unat (long_cnt s)) * 2 ^ 32) mod (2 ^ 32 * 2 ^ 32)"
      by (rule mult_mod_left)
    with True show ?thesis using z u k b by (simp add: period_start_def advanced_def unat_word_ariths)
  next
    case False
    then show ?thesis using z u k b by (simp add: period_start_def advanced_def)
  qed
qed

section \<open>Firing\<close>

text \<open>A wake-up touches the run queues, thread states and the switch request only.\<close>

definition wake_only :: "sm_timer_state \<Rightarrow> sm_timer_state \<Rightarrow> bool" where
  "wake_only s s' \<longleftrightarrow>
     s' = s\<lparr>rq_entry := rq_entry s', sched_runqueues := sched_runqueues s', runqueue_bitcache := runqueue_bitcache s',
            sched_threads := sched_threads s', sched_context_switch_request := True\<rparr>
     \<and> (\<forall>i. priority (sched_threads s' i) = priority (sched_threads s i)
            \<and> (on_rq (sched_threads s i) \<longrightarrow> on_rq (sched_threads s' i)))"

text \<open>\<open>only_woken A th th'\<close>: the threads outside \<open>A\<close> are unchanged, those in it at most set pending.\<close>

definition only_woken :: "nat set \<Rightarrow> (nat \<Rightarrow> thread_t) \<Rightarrow> (nat \<Rightarrow> thread_t) \<Rightarrow> bool" where
  "only_woken A th th' \<longleftrightarrow> (\<forall>i. th' i = th i \<or> i \<in> A \<and> th' i = (th i)\<lparr>status := STATUS_PENDING\<rparr>)"

lemma only_woken_refl [simp]: "only_woken A th th"
  by (simp add: only_woken_def)

lemma only_woken_trans:
  assumes "only_woken A a b" and "only_woken B b c"
  shows "only_woken (A \<union> B) a c"
  unfolding only_woken_def
proof
  fix i
  have "b i = a i \<or> i \<in> A \<and> b i = (a i)\<lparr>status := STATUS_PENDING\<rparr>"
    and "c i = b i \<or> i \<in> B \<and> c i = (b i)\<lparr>status := STATUS_PENDING\<rparr>"
    using assms unfolding only_woken_def by blast+
  then show "c i = a i \<or> i \<in> A \<union> B \<and> c i = (a i)\<lparr>status := STATUS_PENDING\<rparr>" by auto
qed

lemma only_woken_fields:
  assumes "only_woken A th th'"
  shows "in_use (th' i) = in_use (th i)" "priority (th' i) = priority (th i)" "pid (th' i) = pid (th i)"
proof -
  from assms have "th' i = th i \<or> th' i = (th i)\<lparr>status := STATUS_PENDING\<rparr>" unfolding only_woken_def by blast
  then show "in_use (th' i) = in_use (th i)" "priority (th' i) = priority (th i)" "pid (th' i) = pid (th i)" by auto
qed

text \<open>Wake-ups only append to the run queues.\<close>

definition extends :: "(nat \<Rightarrow> nat list) \<Rightarrow> (nat \<Rightarrow> nat list) \<Rightarrow> bool" where
  "extends Q Q' \<longleftrightarrow> (\<forall>p. \<exists>ys. Q' p = Q p @ ys)"

lemma extends_refl [simp]: "extends Q Q"
  by (simp add: extends_def)

lemma extends_trans: "extends Q Q1 \<Longrightarrow> extends Q1 Q2 \<Longrightarrow> extends Q Q2"
  unfolding extends_def by (metis append.assoc)

lemma extends_requeue: "extends Q (Q(p := requeue was True i (Q p)))"
  by (auto simp: extends_def requeue_def)

definition same_ctx :: "sm_timer_state \<Rightarrow> sm_timer_state \<Rightarrow> bool" where
  "same_ctx s s' \<longleftrightarrow> sched_active_thread s' = sched_active_thread s \<and> sched_active_pid s' = sched_active_pid s
     \<and> null_priority s' = null_priority s \<and> sched_num_threads s' = sched_num_threads s"

lemma same_ctx_refl [simp]: "same_ctx s s"
  by (simp add: same_ctx_def)

lemma same_ctx_trans: "same_ctx s s1 \<Longrightarrow> same_ctx s1 s2 \<Longrightarrow> same_ctx s s2"
  by (simp add: same_ctx_def)

lemma wake_only_fields:
  assumes "wake_only s s'"
  shows "timers s' = timers s" "tm_next s' = tm_next s" "timer_list_head s' = timer_list_head s"
    "overflow_list_head s' = overflow_list_head s" "long_list_head s' = long_list_head s"
    "hw_reads s' = hw_reads s" "hw_k s' = hw_k s" "high_cnt s' = high_cnt s" "long_cnt s' = long_cnt s"
    "sched_context_switch_request s'" "same_ctx s s'"
  unfolding same_ctx_def
  by (subst assms [unfolded wake_only_def, THEN conjunct1], simp)+

text \<open>The thread of a timer, if any, is a table entry with a valid priority.\<close>

definition wakeable :: "sm_timer_state \<Rightarrow> timer_ref \<Rightarrow> bool" where
  "wakeable s t \<longleftrightarrow> (\<forall>th. thread (timers s t) = Some th \<longrightarrow>
     th \<le> MAXTHREADS \<and> unat (priority (sched_threads s th)) < SCHED_PRIO_LEVELS)"

definition woken :: "sm_timer_state \<Rightarrow> secure_mintimer_t \<Rightarrow> bool" where
  "woken s t \<longleftrightarrow> (\<forall>th. thread t = Some th \<longrightarrow> on_rq (sched_threads s th))"

lemma shoot_timer_spec:
  assumes inv: "rq_inv s Q" and ok: "timer_ok t" and wk: "wakeable s t"
  shows "\<exists>s' Q'. shoot_timer t s = Some s' \<and> rq_inv s' Q' \<and> extends Q Q' \<and> wake_only s s' \<and> woken s' (timers s t)
    \<and> only_woken (set_option (thread (timers s t))) (sched_threads s) (sched_threads s')"
proof (cases "thread (timers s t)")
  case None
  have "wake_only s (s\<lparr>sched_context_switch_request := True\<rparr>)" by (simp add: wake_only_def)
  moreover have "rq_inv (s\<lparr>sched_context_switch_request := True\<rparr>) Q"
    using inv by (simp add: rq_inv_def queued_def)
  ultimately show ?thesis using None ok extends_refl by (fastforce simp: shoot_timer_def woken_def)
next
  case (Some th)
  have on: "STATUS_PENDING \<ge> STATUS_ON_RUNQUEUE" by (simp add: STATUS_ON_RUNQUEUE_def status_order)
  have th: "th \<le> MAXTHREADS" "unat (priority (sched_threads s th)) < SCHED_PRIO_LEVELS"
    using wk Some by (auto simp: wakeable_def)
  let ?p = "unat (priority (sched_threads s th))"
  let ?Q = "Q(?p := requeue (on_rq (sched_threads s th)) True th (Q ?p))"
  from sched_set_status_requeue [OF inv th, of STATUS_PENDING] on obtain s1 where
    s1: "sched_set_status th STATUS_PENDING s = Some s1" "rq_inv s1 ?Q"
      "\<exists>h q b. s1 = s\<lparr>rq_entry := h, sched_runqueues := (sched_runqueues s)(?p := q), runqueue_bitcache := b,
                     sched_threads := (sched_threads s)(th := (sched_threads s th)\<lparr>status := STATUS_PENDING\<rparr>)\<rparr>"
    by auto
  have "rq_inv (s1\<lparr>sched_context_switch_request := True\<rparr>) ?Q"
    using s1(2) by (simp add: rq_inv_def queued_def)
  moreover have "wake_only s (s1\<lparr>sched_context_switch_request := True\<rparr>)"
    using s1(3) on by (auto simp: wake_only_def on_rq_def)
  moreover have "on_rq (sched_threads s1 th)" using s1(3) on by (auto simp: on_rq_def)
  moreover have "only_woken {th} (sched_threads s) (sched_threads s1)" using s1(3) by (auto simp: only_woken_def split: if_splits)
  ultimately show ?thesis
    using s1(1) Some ok extends_requeue by (fastforce simp: shoot_timer_def woken_def)
qed

lemma tm_inv_wake: "wake_only s s' \<Longrightarrow> tm_order ord s' T V L \<longleftrightarrow> tm_order ord s T V L"
  by (simp add: tm_inv_def wake_only_fields [of s s'])

lemma fire_head_spec:
  assumes rq: "rq_inv s Q" and tm: "tm_order ord s (t # T) V L" and wk: "wakeable s t"
  shows "\<exists>s' Q'. fire_head t s = Some s' \<and> rq_inv s' Q' \<and> extends Q Q' \<and> tm_order ord s' T V L
    \<and> wake_only (s\<lparr>timer_list_head := tm_next s t, timers := (timers s)(t := cleared (timers s t))\<rparr>) s'
    \<and> woken s' (timers s t)
    \<and> only_woken (set_option (thread (timers s t))) (sched_threads s) (sched_threads s')"
proof -
  have ok: "timer_ok t" using tm by (simp add: tm_inv_def)
  define s1 where "s1 = s\<lparr>timer_list_head := tm_next s t, timers := (timers s)(t := cleared (timers s t))\<rparr>"
  have fh: "fire_head t s = shoot_timer t s1"
    using ok by (simp add: fire_head_def load_def s1_def cleared_def)
  have "rq_inv s1 Q" using rq by (simp add: rq_inv_def queued_def s1_def)
  moreover have "wakeable s1 t" using wk by (simp add: wakeable_def s1_def)
  ultimately obtain s' Q' where s': "shoot_timer t s1 = Some s'" "rq_inv s' Q'" "wake_only s1 s'" "woken s' (timers s1 t)"
      and ow: "only_woken (set_option (thread (timers s1 t))) (sched_threads s1) (sched_threads s')"
      and ex: "extends Q Q'"
    using shoot_timer_spec [OF _ ok] by blast
  have "tm_order ord (s\<lparr>timer_list_head := tm_next s t\<rparr>) T V L" using tm by (auto simp: tm_inv_def)
  then have "tm_order ord s1 T V L"
    by (rule tm_inv_timers_cong) (use tm in \<open>auto simp: s1_def tm_inv_def\<close>)
  moreover have "woken s' (timers s t)" using s'(4) by (simp add: woken_def s1_def)
  moreover have "only_woken (set_option (thread (timers s t))) (sched_threads s) (sched_threads s')"
    using ow by (simp add: s1_def)
  ultimately show ?thesis
    using s' ex fh tm_inv_wake [OF s'(3)] by (auto simp: s1_def)
qed

text \<open>A reading at which a timer counts as expired: its target is reached, or the counter wrapped.\<close>

definition expired_at :: "u32 \<Rightarrow> u32 \<Rightarrow> u16 \<Rightarrow> bool" where
  "expired_at reference tgt v \<longleftrightarrow> ucast v < reference \<or> secure_mintimer_lltimer_mask tgt \<le> ucast v"

lemma time_left_zero:
  "time_left (secure_mintimer_lltimer_mask tgt) reference s = (l, s1) \<Longrightarrow>
     s1 = s\<lparr>hw_k := Suc (hw_k s)\<rparr> \<and> (l = 0 \<longleftrightarrow> expired_at reference tgt (hw_reads s (hw_k s)))"
  by (auto simp: time_left_def expired_at_def Let_def split: if_splits)

lemma wait_time_left_first:
  assumes "expired_at reference (target (timers s r)) (hw_reads s (hw_k s + n))"
    and "\<And>i. i < n \<Longrightarrow> \<not> expired_at reference (target (timers s r)) (hw_reads s (hw_k s + i))" and "timer_ok r"
  shows "wait_time_left r reference s = Some (s\<lparr>hw_k := Suc (hw_k s + n)\<rparr>)"
  using assms(1,2)
proof (induction n arbitrary: s)
  case 0
  obtain l s1 where l: "time_left (secure_mintimer_lltimer_mask (target (timers s r))) reference s = (l, s1)" by fastforce
  with time_left_zero [OF l] 0 assms(3) show ?case by (subst wait_time_left.simps) simp
next
  case (Suc n)
  obtain l s1 where l: "time_left (secure_mintimer_lltimer_mask (target (timers s r))) reference s = (l, s1)" by fastforce
  have s1: "s1 = s\<lparr>hw_k := Suc (hw_k s)\<rparr>" "l \<noteq> 0"
    using time_left_zero [OF l] Suc.prems(2) [of 0] by auto
  have "wait_time_left r reference s1 = Some (s\<lparr>hw_k := Suc (hw_k s + Suc n)\<rparr>)"
    using Suc.IH [of s1] Suc.prems(1) Suc.prems(2) [of "Suc i" for i] by (simp add: s1)
  then show ?case using l s1 assms(3) by (subst wait_time_left.simps) simp
qed

end
