(* ===== verification/Mintimer_Expire.thy ===== *)
theory Mintimer_Expire
  imports Mintimer_Period
begin

text \<open>
  The loop of the timer interrupt that fires expired timers, the whole interrupt on its usual
  path, and what a timer that is entered twice does to both.
\<close>

section \<open>The expiry loop\<close>

text \<open>A waiting loop that returns has only read the counter, the last time at a value that ends it.\<close>

lemma wait_time_left_Some:
  assumes ret: "wait_time_left r reference s = Some s'" and "timer_ok r"
  shows "\<exists>n. s' = s\<lparr>hw_k := Suc (hw_k s + n)\<rparr> \<and> expired_at reference (target (timers s r)) (hw_reads s (hw_k s + n))"
proof (rule wait_time_left.raw_induct [where P = "\<lambda>r reference s s'. timer_ok r \<longrightarrow>
    (\<exists>n. s' = s\<lparr>hw_k := Suc (hw_k s + n)\<rparr> \<and> expired_at reference (target (timers s r)) (hw_reads s (hw_k s + n)))",
    OF _ ret, THEN mp, OF _ assms(2)])
  fix f :: "timer_ref \<Rightarrow> u32 \<Rightarrow> sm_timer_state \<Rightarrow> sm_timer_state option" and r reference s s'
  assume ih: "\<And>r reference s s'. f r reference s = Some s' \<Longrightarrow> timer_ok r \<longrightarrow>
      (\<exists>n. s' = s\<lparr>hw_k := Suc (hw_k s + n)\<rparr> \<and> expired_at reference (target (timers s r)) (hw_reads s (hw_k s + n)))"
    and body: "do { t \<leftarrow> timer_at s r;
      (case time_left (secure_mintimer_lltimer_mask (target t)) reference s of
         (left, s1) \<Rightarrow> if left \<noteq> 0 then f r reference s1 else Some s1) } = Some s'"
  show "timer_ok r \<longrightarrow> (\<exists>n. s' = s\<lparr>hw_k := Suc (hw_k s + n)\<rparr> \<and> expired_at reference (target (timers s r)) (hw_reads s (hw_k s + n)))"
  proof
    assume ok: "timer_ok r"
    obtain l s1 where l: "time_left (secure_mintimer_lltimer_mask (target (timers s r))) reference s = (l, s1)" by fastforce
    note z = time_left_zero [OF l]
    show "\<exists>n. s' = s\<lparr>hw_k := Suc (hw_k s + n)\<rparr> \<and> expired_at reference (target (timers s r)) (hw_reads s (hw_k s + n))"
    proof (cases "l = 0")
      case True
      then show ?thesis using body l z ok by (intro exI [of _ 0]) simp
    next
      case False
      then have "f r reference s1 = Some s'" using body l ok by simp
      from ih [OF this] obtain n where "s' = s1\<lparr>hw_k := Suc (hw_k s1 + n)\<rparr>"
          "expired_at reference (target (timers s1 r)) (hw_reads s1 (hw_k s1 + n))" using ok by blast
      then show ?thesis using z by (intro exI [of _ "Suc n"]) simp
    qed
  qed
qed

lemma wait_while_Some:
  assumes ret: "wait_while P s = Some s'"
  shows "\<exists>k \<ge> hw_k s. s' = s\<lparr>hw_k := Suc k\<rparr> \<and> \<not> P (ucast (hw_reads s k))"
proof -
  define R where "R = (\<lambda>(P :: u32 \<Rightarrow> bool, s :: sm_timer_state) s'. \<exists>k \<ge> hw_k s. s' = s\<lparr>hw_k := Suc k\<rparr> \<and> \<not> P (ucast (hw_reads s k)))"
  have "R (P, s) s'"
  proof (rule wait_while.raw_induct [where Pa = R, OF _ ret])
    fix f :: "(u32 \<Rightarrow> bool) \<Rightarrow> sm_timer_state \<Rightarrow> sm_timer_state option" and P s s'
    assume ih: "\<And>P s s'. f P s = Some s' \<Longrightarrow> R (P, s) s'"
      and body: "(case secure_mintimer_lltimer_now s of (v, s1) \<Rightarrow> if P (ucast v) then f P s1 else Some s1) = Some s'"
    show "R (P, s) s'"
    proof (cases "P (ucast (hw_reads s (hw_k s)))")
      case True
      then have "f P (s\<lparr>hw_k := Suc (hw_k s)\<rparr>) = Some s'" using body by simp
      from ih [OF this] show ?thesis by (auto simp: R_def dest: Suc_leD)
    next
      case False
      then show ?thesis using body by (auto simp: R_def)
    qed
  qed
  then show ?thesis by (simp add: R_def)
qed

text \<open>
  \<open>fired\<close> timers were at the front of the list; each had expired at a reading taken by the loop,
  is marked as not set, and its thread is on the run queue. The loop stops at a timer that has
  at least the back-off left at the last reading.
\<close>

definition owners :: "sm_timer_state \<Rightarrow> timer_ref list \<Rightarrow> nat set" where
  "owners s T = (\<Union>t \<in> set T. set_option (thread (timers s t)))"

lemma owners_simps [simp]:
  "owners s [] = {}" "owners s (t # T) = set_option (thread (timers s t)) \<union> owners s T"
  "owners s (A @ B) = owners s A \<union> owners s B"
  by (auto simp: owners_def)

lemma owners_cong: "(\<And>t. t \<in> set T \<Longrightarrow> thread (timers s t) = thread (timers s' t)) \<Longrightarrow> owners s T = owners s' T"
  by (auto simp: owners_def)

definition expire_post :: "u32 \<Rightarrow> sm_timer_state \<Rightarrow> timer_ref list \<Rightarrow> timer_ref list \<Rightarrow> sm_timer_state \<Rightarrow> bool" where
  "expire_post reference s T1 T2 s' \<longleftrightarrow>
     hw_reads s' = hw_reads s \<and> hw_k s \<le> hw_k s' \<and> high_cnt s' = high_cnt s \<and> long_cnt s' = long_cnt s
     \<and> (\<forall>t \<in> set T1. timers s' t = cleared (timers s t) \<and> woken s' (timers s t)
          \<and> (\<exists>k. hw_k s \<le> k \<and> k < hw_k s' \<and> expired_at reference (target (timers s t)) (hw_reads s k)))
     \<and> (\<forall>t. t \<notin> set T1 \<longrightarrow> timers s' t = timers s t)
     \<and> (\<forall>i. priority (sched_threads s' i) = priority (sched_threads s i)
            \<and> (on_rq (sched_threads s i) \<longrightarrow> on_rq (sched_threads s' i)))
     \<and> same_ctx s s' \<and> only_woken (owners s T1) (sched_threads s) (sched_threads s')
     \<and> (T2 \<noteq> [] \<longrightarrow> hw_k s < hw_k s' \<and>
          unat (secure_mintimer_lltimer_mask (target (timers s (hd T2))))
            \<ge> unat (hw_reads s (hw_k s' - 1)) + 200)"

lemma expire_stop:
  assumes "time_left (secure_mintimer_lltimer_mask tgt) reference s = (l, s1)" and "\<not> l < 200"
  shows "unat (secure_mintimer_lltimer_mask tgt) \<ge> unat (hw_reads s (hw_k s)) + 200"
proof -
  let ?t = "secure_mintimer_lltimer_mask tgt" and ?v = "ucast (hw_reads s (hw_k s)) :: u32"
  from assms have l: "l = ?t - ?v" "?t > ?v"
    by (auto simp: time_left_def Let_def split: if_splits)
  then have "unat l = unat ?t - unat ?v" by (simp add: unat_sub)
  moreover have "unat l \<ge> 200" using assms(2) by (simp add: word_less_nat_alt)
  ultimately show ?thesis by (simp add: unat_ucast_up)
qed

lemma expire_post_Cons:
  assumes p: "expire_post reference s3 T1 T2 s'"
    and tms: "timers s3 = (timers s)(t := cleared (timers s t))"
    and hw: "hw_reads s3 = hw_reads s" "hw_k s \<le> m" "m < hw_k s3"
    and cn: "high_cnt s3 = high_cnt s" "long_cnt s3 = long_cnt s"
    and tn: "t \<notin> set T1" "t \<notin> set T2"
    and ex: "expired_at reference (target (timers s t)) (hw_reads s m)" and wk: "woken s3 (timers s t)"
    and pr: "\<forall>i. priority (sched_threads s3 i) = priority (sched_threads s i)
          \<and> (on_rq (sched_threads s i) \<longrightarrow> on_rq (sched_threads s3 i))"
    and ctx: "same_ctx s s3" and ow: "only_woken (set_option (thread (timers s t))) (sched_threads s) (sched_threads s3)"
  shows "expire_post reference s (t # T1) T2 s'"
proof -
  have "owners s3 T1 = owners s T1" by (rule owners_cong) (auto simp: tms cleared_def)
  then have E: "only_woken (owners s (t # T1)) (sched_threads s) (sched_threads s')"
    using only_woken_trans [OF ow] p by (simp add: expire_post_def)
  have F: "same_ctx s s'" using p ctx by (auto simp: expire_post_def intro: same_ctx_trans)
  have le: "hw_k s3 \<le> hw_k s'" and rd: "hw_reads s' = hw_reads s" using p hw(1) by (auto simp: expire_post_def)
  have A: "timers s' x = cleared (timers s x) \<and> woken s' (timers s x)
      \<and> (\<exists>k. hw_k s \<le> k \<and> k < hw_k s' \<and> expired_at reference (target (timers s x)) (hw_reads s k))"
    if x: "x \<in> set T1" for x
  proof -
    have xt: "timers s3 x = timers s x" using x tn tms by auto
    obtain k where "hw_k s3 \<le> k" "k < hw_k s'" "expired_at reference (target (timers s x)) (hw_reads s k)"
      using p x unfolding expire_post_def xt [symmetric] hw(1) [symmetric] by blast
    moreover have "timers s' x = cleared (timers s x)" "woken s' (timers s x)"
      using p x xt by (auto simp: expire_post_def)
    ultimately show ?thesis using hw by (auto intro!: exI [of _ k])
  qed
  have "timers s' t = cleared (timers s t)" using p tn tms by (simp add: expire_post_def)
  moreover have "woken s' (timers s t)" using p wk by (auto simp: expire_post_def woken_def)
  ultimately have B: "timers s' t = cleared (timers s t) \<and> woken s' (timers s t)
      \<and> (\<exists>k. hw_k s \<le> k \<and> k < hw_k s' \<and> expired_at reference (target (timers s t)) (hw_reads s k))"
    using ex hw le by (auto intro!: exI [of _ m])
  have C: "timers s' x = timers s x" if "x \<notin> set (t # T1)" for x
    using p that tms by (auto simp: expire_post_def)
  have D: "T2 \<noteq> [] \<longrightarrow> hw_k s < hw_k s' \<and> unat (secure_mintimer_lltimer_mask (target (timers s (hd T2))))
      \<ge> unat (hw_reads s (hw_k s' - 1)) + 200"
  proof
    assume ne: "T2 \<noteq> []"
    then have "timers s3 (hd T2) = timers s (hd T2)" using tn tms by auto
    then show "hw_k s < hw_k s' \<and> unat (secure_mintimer_lltimer_mask (target (timers s (hd T2))))
      \<ge> unat (hw_reads s (hw_k s' - 1)) + 200"
      using p ne hw le unfolding expire_post_def by auto
  qed
  show ?thesis
    unfolding expire_post_def using A B C D E F rd hw le cn pr p
    by (intro conjI) (auto simp: expire_post_def)
qed

text \<open>The part of a round that fires the head, once the waiting loop has returned.\<close>

lemma fire_round:
  assumes rq: "rq_inv s Q" and tm: "tm_order ord s (t # T) V L" and wk: "\<forall>x \<in> set (t # T). wakeable s x"
    and ex: "expired_at reference (target (timers s t)) (hw_reads s m)" and m: "hw_k s \<le> m"
  shows "\<exists>s3 Q3. fire_head t (s\<lparr>hw_k := Suc m\<rparr>) = Some s3 \<and> rq_inv s3 Q3 \<and> tm_order ord s3 T V L \<and> extends Q Q3
    \<and> hw_k s3 = Suc m \<and> hw_reads s3 = hw_reads s \<and> (\<forall>x \<in> set T. wakeable s3 x \<and> timers s3 x = timers s x)
    \<and> high_cnt s3 = high_cnt s
    \<and> (\<forall>T1 T2 s'. expire_post reference s3 T1 T2 s' \<longrightarrow> set T = set (T1 @ T2) \<longrightarrow> expire_post reference s (t # T1) T2 s')"
proof -
  define s2 where "s2 = s\<lparr>hw_k := Suc m\<rparr>"
  have "rq_inv s2 Q" "tm_order ord s2 (t # T) V L" "wakeable s2 t"
    using rq tm wk by (auto simp: s2_def rq_inv_def queued_def tm_inv_def wakeable_def)
  from fire_head_spec [OF this] obtain s3 Q3 where
    s3: "fire_head t s2 = Some s3" "rq_inv s3 Q3" "tm_order ord s3 T V L" "woken s3 (timers s t)" "extends Q Q3"
    and ow: "only_woken (set_option (thread (timers s t))) (sched_threads s) (sched_threads s3)"
    and w: "wake_only (s2\<lparr>timer_list_head := tm_next s2 t, timers := (timers s2)(t := cleared (timers s2 t))\<rparr>) s3"
    by (auto simp: s2_def)
  note wf = wake_only_fields [OF w, simplified]
  have tn: "t \<notin> set T" using tm by (auto simp: tm_inv_def)
  have pr: "\<forall>i. priority (sched_threads s3 i) = priority (sched_threads s i)
        \<and> (on_rq (sched_threads s i) \<longrightarrow> on_rq (sched_threads s3 i))"
    using w by (simp add: wake_only_def s2_def)
  have tms: "timers s3 = (timers s)(t := cleared (timers s t))" using wf(1) by (simp add: s2_def)
  have ctx: "same_ctx s s3" using wf by (simp add: s2_def same_ctx_def)
  have hw: "hw_reads s3 = hw_reads s" "hw_k s3 = Suc m" using wf by (simp_all add: s2_def)
  have cn: "high_cnt s3 = high_cnt s" "long_cnt s3 = long_cnt s" using wf by (simp_all add: s2_def)
  have "\<forall>x \<in> set T. wakeable s3 x \<and> timers s3 x = timers s x" using wk tn pr by (auto simp: wakeable_def tms)
  moreover have "expire_post reference s (t # T1) T2 s'" if "expire_post reference s3 T1 T2 s'" "set T = set (T1 @ T2)" for T1 T2 s'
    using that tn m by (intro expire_post_Cons [OF that(1) tms hw(1) _ _ cn _ _ ex s3(4) pr ctx ow]) (auto simp: hw)
  ultimately show ?thesis using s3 hw cn by (auto simp: s2_def)
qed

text \<open>Whatever the counter shows, a loop that returns has fired a leading part of the list.\<close>

lemma expire_loop_partial:
  assumes "rq_inv s Q" and "tm_order ord s T V L" and "\<forall>t \<in> set T. wakeable s t" and "expire_loop reference s = Some s'"
  shows "\<exists>T1 T2 Q'. T = T1 @ T2 \<and> rq_inv s' Q' \<and> tm_order ord s' T2 V L \<and> extends Q Q' \<and> expire_post reference s T1 T2 s'"
  using assms
proof (induction T arbitrary: s Q)
  case Nil
  then have "s' = s" by (subst (asm) expire_loop.simps) (auto simp: tm_inv_def)
  then show ?case using Nil by (intro exI [of _ "[]"] exI [of _ Q]) (auto simp: expire_post_def)
next
  case (Cons t T)
  have hd: "timer_list_head s = Some t" and ok: "timer_ok t" using Cons.prems(2) by (auto simp: tm_inv_def)
  obtain l s1 where l: "time_left (secure_mintimer_lltimer_mask (target (timers s t))) reference s = (l, s1)" by fastforce
  have s1: "s1 = s\<lparr>hw_k := Suc (hw_k s)\<rparr>" using time_left_zero [OF l] by blast
  have step: "(if l < 200 then do { s2 \<leftarrow> wait_time_left t reference s1; s3 \<leftarrow> fire_head t s2; expire_loop reference s3 } else Some s1) = Some s'"
    using Cons.prems(4) hd ok l by (subst (asm) expire_loop.simps) (simp add: SECURE_MINTIMER_ISR_BACKOFF_def)
  show ?case
  proof (cases "l < 200")
    case False
    then have e: "s' = s1" using step by simp
    have "rq_inv s1 Q" "tm_order ord s1 (t # T) V L"
      using Cons.prems(1,2) by (simp_all add: s1 rq_inv_def queued_def tm_inv_def)
    moreover have "expire_post reference s [] (t # T) s1"
      using expire_stop [OF l False] by (simp add: expire_post_def s1 same_ctx_def)
    ultimately show ?thesis unfolding e by (intro exI [of _ "[]"] exI [of _ "t # T"] exI [of _ Q]) simp
  next
    case True
    obtain s2 s3 where r: "wait_time_left t reference s1 = Some s2" "fire_head t s2 = Some s3" "expire_loop reference s3 = Some s'"
      using step True by (auto split: bind_splits)
    obtain n where n: "s2 = s1\<lparr>hw_k := Suc (hw_k s1 + n)\<rparr>"
        "expired_at reference (target (timers s1 t)) (hw_reads s1 (hw_k s1 + n))"
      using wait_time_left_Some [OF r(1) ok] by blast
    have s2: "s2 = s\<lparr>hw_k := Suc (Suc (hw_k s) + n)\<rparr>" using n(1) by (simp add: s1)
    have ex: "expired_at reference (target (timers s t)) (hw_reads s (Suc (hw_k s) + n))" using n(2) by (simp add: s1)
    obtain Q3 where f: "rq_inv s3 Q3" "tm_order ord s3 T V L" "extends Q Q3" "\<forall>x \<in> set T. wakeable s3 x"
        "\<forall>T1 T2 s'. expire_post reference s3 T1 T2 s' \<longrightarrow> set T = set (T1 @ T2) \<longrightarrow> expire_post reference s (t # T1) T2 s'"
      using fire_round [OF Cons.prems(1-3) ex] r(2) unfolding s2 by auto
    obtain T1 T2 Q' where ih: "T = T1 @ T2" "rq_inv s' Q'" "tm_order ord s' T2 V L" "extends Q3 Q'" "expire_post reference s3 T1 T2 s'"
      using Cons.IH [OF f(1,2,4) r(3)] by blast
    have "expire_post reference s (t # T1) T2 s'" "extends Q Q'" using f(5) ih extends_trans [OF f(3) ih(4)] by auto
    then show ?thesis using ih by (intro exI [of _ "t # T1"] exI [of _ T2] exI [of _ Q']) simp
  qed
qed

text \<open>
  The loop returns when the readings up to \<open>N\<close> show the timers in \<open>A\<close> as expired from \<open>J\<close> on and the first timer behind
  them as having the back-off left: it reads the counter at most twice for each timer that it fires after \<open>J\<close>.
\<close>

lemma expire_loop_returns:
  assumes "rq_inv s Q" and "tm_order ord s (A @ B) V L" and "\<forall>t \<in> set (A @ B). wakeable s t"
    and "\<And>t j. t \<in> set A \<Longrightarrow> J \<le> j \<Longrightarrow> j \<le> N \<Longrightarrow> expired_at reference (target (timers s t)) (hw_reads s j)"
    and "\<And>j. B \<noteq> [] \<Longrightarrow> hw_k s \<le> j \<Longrightarrow> j \<le> N \<Longrightarrow> reference \<le> ucast (hw_reads s j)
      \<and> unat (hw_reads s j) + 200 \<le> unat (secure_mintimer_lltimer_mask (target (timers s (hd B))))"
    and "max (Suc J) (hw_k s) + 2 * length A \<le> N"
  shows "\<exists>s'. expire_loop reference s = Some s' \<and> hw_k s' \<le> max (Suc J) (hw_k s) + 2 * length A + 1"
  using assms
proof (induction A arbitrary: s Q)
  case Nil
  show ?case
  proof (cases B)
    case Nil
    then have "timer_list_head s = None" using Nil.prems(2) by (simp add: tm_inv_def)
    then show ?thesis by (subst expire_loop.simps) simp
  next
    case (Cons t B')
    then have hd: "timer_list_head s = Some t" and ok: "timer_ok t" using Nil.prems(2) by (auto simp: tm_inv_def)
    let ?v = "ucast (hw_reads s (hw_k s)) :: u32" and ?m = "secure_mintimer_lltimer_mask (target (timers s t))"
    have f: "\<not> ?v < reference" "unat ?v + 200 \<le> unat ?m"
      using Nil.prems(5) [of "hw_k s"] Nil.prems(6) Cons by (auto simp: unat_ucast_up)
    then have g: "?v < ?m" "unat (?m - ?v) = unat ?m - unat ?v" by (simp_all add: word_less_nat_alt unat_sub word_le_nat_alt)
    then have "\<not> ?m - ?v < 200" using f(2) by (simp add: word_less_nat_alt)
    then have "expire_loop reference s = Some (s\<lparr>hw_k := Suc (hw_k s)\<rparr>)"
      using hd ok f g by (subst expire_loop.simps) (simp add: SECURE_MINTIMER_ISR_BACKOFF_def time_left_def Let_def)
    then show ?thesis by simp
  qed
next
  case (Cons t A)
  have hd: "timer_list_head s = Some t" and ok: "timer_ok t" using Cons.prems(2) by (auto simp: tm_inv_def)
  obtain l s1 where l: "time_left (secure_mintimer_lltimer_mask (target (timers s t))) reference s = (l, s1)" by fastforce
  have s1: "s1 = s\<lparr>hw_k := Suc (hw_k s)\<rparr>" using time_left_zero [OF l] by blast
  have step: "expire_loop reference s =
      (if l < 200 then do { s2 \<leftarrow> wait_time_left t reference s1; s3 \<leftarrow> fire_head t s2; expire_loop reference s3 } else Some s1)"
    using hd ok l by (subst expire_loop.simps) (simp add: SECURE_MINTIMER_ISR_BACKOFF_def)
  show ?case
  proof (cases "l < 200")
    case False
    then show ?thesis using step by (simp add: s1)
  next
    case True
    let ?P = "\<lambda>n. expired_at reference (target (timers s t)) (hw_reads s (Suc (hw_k s) + n))"
    have "J \<le> N" "Suc (hw_k s) \<le> N" using Cons.prems(6) by auto
    then have P: "?P (max J (Suc (hw_k s)) - Suc (hw_k s))" using Cons.prems(4) [of t "max J (Suc (hw_k s))"] by simp
    define n where "n = (LEAST n. ?P n)"
    have n: "?P n" "\<And>i. i < n \<Longrightarrow> \<not> ?P i" "n \<le> max J (Suc (hw_k s)) - Suc (hw_k s)"
      using LeastI [of ?P, OF P] not_less_Least [of _ ?P] Least_le [of ?P, OF P] by (auto simp: n_def)
    define m where "m = Suc (hw_k s) + n"
    have w: "wait_time_left t reference s1 = Some (s\<lparr>hw_k := Suc m\<rparr>)"
      using wait_time_left_first [of reference s1 t n] n(1,2) ok by (simp add: s1 m_def)
    obtain s3 Q3 where f: "fire_head t (s\<lparr>hw_k := Suc m\<rparr>) = Some s3" "rq_inv s3 Q3" "tm_order ord s3 (A @ B) V L"
        "hw_k s3 = Suc m" "hw_reads s3 = hw_reads s" "\<forall>x \<in> set (A @ B). wakeable s3 x \<and> timers s3 x = timers s x"
      using fire_round [OF Cons.prems(1) _ _ n(1), of ord "A @ B" V L] Cons.prems(2,3) by (auto simp: m_def)
    have m: "Suc m \<le> max (Suc J) (hw_k s) + 2" "hw_k s \<le> Suc m" using n(3) by (auto simp: m_def)
    have "\<exists>s'. expire_loop reference s3 = Some s' \<and> hw_k s' \<le> max (Suc J) (hw_k s3) + 2 * length A + 1"
    proof (rule Cons.IH [OF f(2,3)])
      show "\<forall>t \<in> set (A @ B). wakeable s3 t" using f(6) by blast
      show "expired_at reference (target (timers s3 x)) (hw_reads s3 j)" if "x \<in> set A" "J \<le> j" "j \<le> N" for x j
        using Cons.prems(4) [of x j] that f(5,6) by simp
      show "reference \<le> ucast (hw_reads s3 j) \<and> unat (hw_reads s3 j) + 200 \<le> unat (secure_mintimer_lltimer_mask (target (timers s3 (hd B))))"
        if "B \<noteq> []" "hw_k s3 \<le> j" "j \<le> N" for j
        using Cons.prems(5) [of j] that f(4,5,6) m(2) by simp
      show "max (Suc J) (hw_k s3) + 2 * length A \<le> N" using Cons.prems(6) m(1) f(4) by auto
    qed
    then show ?thesis using step True w f(1,4) m(1) by (auto intro: order_trans)
  qed
qed

section \<open>The interrupt within one counter period\<close>

definition fired_post :: "sm_timer_state \<Rightarrow> timer_ref list \<Rightarrow> sm_timer_state \<Rightarrow> bool" where
  "fired_post s T1 s' \<longleftrightarrow>
     hw_reads s' = hw_reads s \<and> hw_k s \<le> hw_k s' \<and> high_cnt s' = high_cnt s \<and> long_cnt s' = long_cnt s
     \<and> (\<forall>t \<in> set T1. timers s' t = cleared (timers s t) \<and> woken s' (timers s t)
          \<and> (\<exists>k \<ge> hw_k s. k < hw_k s' \<and> secure_mintimer_lltimer_mask (target (timers s t)) \<le> ucast (hw_reads s k)))
     \<and> (\<forall>t. t \<notin> set T1 \<longrightarrow> timers s' t = timers s t)
     \<and> (\<forall>i. priority (sched_threads s' i) = priority (sched_threads s i)
            \<and> (on_rq (sched_threads s i) \<longrightarrow> on_rq (sched_threads s' i)))
     \<and> same_ctx s s' \<and> only_woken (owners s T1) (sched_threads s) (sched_threads s')"

lemma woken_mono: "woken s t \<Longrightarrow> \<forall>i. on_rq (sched_threads s i) \<longrightarrow> on_rq (sched_threads s' i) \<Longrightarrow> woken s' t"
  by (auto simp: woken_def)

lemma fired_post_trans:
  assumes a: "fired_post s A s1" and b: "fired_post s1 B s2" and d: "set A \<inter> set B = {}"
  shows "fired_post s (A @ B) s2"
proof -
  have le: "hw_k s \<le> hw_k s1" "hw_k s1 \<le> hw_k s2" using a b by (auto simp: fired_post_def)
  have A: "timers s2 t = cleared (timers s t) \<and> woken s2 (timers s t)
      \<and> (\<exists>k \<ge> hw_k s. k < hw_k s2 \<and> secure_mintimer_lltimer_mask (target (timers s t)) \<le> ucast (hw_reads s k))" if t: "t \<in> set A" for t
  proof -
    have "timers s1 t = cleared (timers s t)" "woken s1 (timers s t)"
      "\<exists>k \<ge> hw_k s. k < hw_k s2 \<and> secure_mintimer_lltimer_mask (target (timers s t)) \<le> ucast (hw_reads s k)"
      using a t le(2) by (auto simp: fired_post_def) (meson less_le_trans)
    moreover have "timers s2 t = timers s1 t" using b t d by (auto simp: fired_post_def)
    moreover have "\<forall>i. on_rq (sched_threads s1 i) \<longrightarrow> on_rq (sched_threads s2 i)" using b by (simp add: fired_post_def)
    ultimately show ?thesis using woken_mono by metis
  qed
  have B: "timers s2 t = cleared (timers s t) \<and> woken s2 (timers s t)
      \<and> (\<exists>k \<ge> hw_k s. k < hw_k s2 \<and> secure_mintimer_lltimer_mask (target (timers s t)) \<le> ucast (hw_reads s k))" if t: "t \<in> set B" for t
  proof -
    have e: "timers s1 t = timers s t" using a t d by (auto simp: fired_post_def)
    have rd: "hw_reads s1 = hw_reads s" "hw_k s \<le> hw_k s1" using a by (auto simp: fired_post_def)
    have "timers s2 t = cleared (timers s t)" "woken s2 (timers s t)"
      "\<exists>k \<ge> hw_k s1. k < hw_k s2 \<and> secure_mintimer_lltimer_mask (target (timers s t)) \<le> ucast (hw_reads s k)"
      using b t unfolding fired_post_def e [symmetric] rd(1) [symmetric] by blast+
    then show ?thesis using rd(2) order_trans by blast
  qed
  have "owners s1 B = owners s B" using a d by (intro owners_cong) (auto simp: fired_post_def)
  then have ow: "only_woken (owners s (A @ B)) (sched_threads s) (sched_threads s2)"
    using a b unfolding fired_post_def owners_simps by (metis only_woken_trans)
  show ?thesis
    unfolding fired_post_def
  proof (intro conjI)
    show "same_ctx s s2" using a b by (auto simp: fired_post_def intro: same_ctx_trans)
    show "only_woken (owners s (A @ B)) (sched_threads s) (sched_threads s2)" by (rule ow)
    show "\<forall>t \<in> set (A @ B). timers s2 t = cleared (timers s t) \<and> woken s2 (timers s t)
      \<and> (\<exists>k \<ge> hw_k s. k < hw_k s2 \<and> secure_mintimer_lltimer_mask (target (timers s t)) \<le> ucast (hw_reads s k))"
      using A B by (metis set_append UnE)
  qed (use a b in \<open>auto simp: fired_post_def\<close>)
qed

lemma fired_post_read: "fired_post s [] (s\<lparr>hw_k := hw_k s + n\<rparr>)"
  by (simp add: fired_post_def same_ctx_def)

text \<open>
  The readings from the current one to the one with number \<open>N\<close> are in order, not before the reference and not in the last
  200 ticks of the period of the counter.
\<close>

definition in_period :: "u32 \<Rightarrow> nat \<Rightarrow> sm_timer_state \<Rightarrow> bool" where
  "in_period reference N s \<longleftrightarrow>
     (\<forall>i \<ge> hw_k s. i \<le> N \<longrightarrow> reference \<le> ucast (hw_reads s i) \<and> hw_reads s i < 65336
        \<and> (\<forall>j \<ge> i. j \<le> N \<longrightarrow> hw_reads s i \<le> hw_reads s j))"

lemma expired_in_period: "in_period reference N s \<Longrightarrow> k \<ge> hw_k s \<Longrightarrow> k \<le> N \<Longrightarrow>
    expired_at reference tgt (hw_reads s k) \<longleftrightarrow> secure_mintimer_lltimer_mask tgt \<le> ucast (hw_reads s k)"
  by (auto simp: in_period_def expired_at_def not_less)

lemma expire_post_fired:
  assumes "expire_post reference s T1 T2 s'" and "in_period reference N s" and "hw_k s' \<le> Suc N"
  shows "fired_post s T1 s'"
  unfolding fired_post_def
proof (intro conjI ballI)
  fix t assume "t \<in> set T1"
  then obtain k where k: "hw_k s \<le> k" "k < hw_k s'" "expired_at reference (target (timers s t)) (hw_reads s k)"
    using assms(1) unfolding expire_post_def by blast
  then show "\<exists>k \<ge> hw_k s. k < hw_k s' \<and> secure_mintimer_lltimer_mask (target (timers s t)) \<le> ucast (hw_reads s k)"
    using expired_in_period [OF assms(2) k(1)] assms(3) by auto
qed (use assms(1) in \<open>auto simp: expire_post_def\<close>)

lemma in_period_no_wrap:
  assumes "in_period reference N s" and "i \<ge> hw_k s" and "i \<le> N"
  shows "\<not> ucast (hw_reads s i + SECURE_MINTIMER_ISR_BACKOFF) < reference"
    and "\<not> ucast (hw_reads s i) < reference"
    and "\<not> secure_mintimer_lltimer_mask (ucast (hw_reads s i) + ucast SECURE_MINTIMER_ISR_BACKOFF) < ucast (hw_reads s i)"
proof -
  let ?v = "hw_reads s i"
  have r: "reference \<le> ucast ?v" "?v < 65336" using assms by (auto simp: in_period_def)
  have v: "unat ?v < 65336" using r(2) by (simp add: word_less_nat_alt)
  have a: "unat (?v + SECURE_MINTIMER_ISR_BACKOFF) = unat ?v + 200"
    using v by (simp add: SECURE_MINTIMER_ISR_BACKOFF_def unat_word_ariths)
  have "unat reference \<le> unat ?v" using r(1) by (simp add: word_le_nat_alt unat_ucast_up)
  then show "\<not> ucast (?v + SECURE_MINTIMER_ISR_BACKOFF) < reference"
    using a by (simp add: word_less_nat_alt unat_ucast_up)
  show "\<not> ucast ?v < reference" using r(1) by simp
  show "\<not> secure_mintimer_lltimer_mask (ucast ?v + ucast SECURE_MINTIMER_ISR_BACKOFF) < ucast ?v"
    using v unfolding word_less_nat_alt lltimer_mask_unat
    by (simp add: SECURE_MINTIMER_ISR_BACKOFF_def unat_word_ariths unat_ucast_up)
qed

definition next_target_of :: "sm_timer_state \<Rightarrow> timer_ref list \<Rightarrow> u32" where
  "next_target_of s T =
     (if T = [] then secure_mintimer_lltimer_mask 0xFFFFFFFF
      else target (timers s (hd T)) - SECURE_MINTIMER_OVERHEAD)"

lemma rq_inv_hw_k [simp]: "rq_inv (s\<lparr>hw_k := k\<rparr>) Q \<longleftrightarrow> rq_inv s Q"
  by (simp add: rq_inv_def queued_def)

lemma tm_inv_hw_k [simp]: "tm_order ord (s\<lparr>hw_k := k\<rparr>) T V L \<longleftrightarrow> tm_order ord s T V L"
  by (simp add: tm_inv_def)

lemma in_period_mono:
  "in_period reference N s \<Longrightarrow> hw_reads s' = hw_reads s \<Longrightarrow> hw_k s \<le> hw_k s' \<Longrightarrow> in_period reference N s'"
  by (auto simp: in_period_def)

text \<open>A timer that is not near at a reading: neither the expiry loop nor the test for the next interrupt concerns it.\<close>

definition far_off :: "sm_timer_state \<Rightarrow> timer_ref \<Rightarrow> u16 \<Rightarrow> bool" where
  "far_off s t v \<longleftrightarrow> unat v + 200 \<le> unat (secure_mintimer_lltimer_mask (target (timers s t)))
     \<and> (high_cnt s OR ucast v) + 200 \<le> target (timers s t) - SECURE_MINTIMER_OVERHEAD"

text \<open>
  What the interrupt relies on within a period: at the readings from \<open>J\<close> to \<open>N\<close> the timers \<open>A\<close> at the front have expired, and
  at no reading up to \<open>N\<close> the first timer behind them is near.
\<close>

definition window :: "u32 \<Rightarrow> nat \<Rightarrow> nat \<Rightarrow> timer_ref list \<Rightarrow> timer_ref list \<Rightarrow> sm_timer_state \<Rightarrow> bool" where
  "window reference J N A B s \<longleftrightarrow> in_period reference N s
     \<and> (\<forall>t \<in> set A. \<forall>j. J \<le> j \<longrightarrow> j \<le> N \<longrightarrow> secure_mintimer_lltimer_mask (target (timers s t)) \<le> ucast (hw_reads s j))
     \<and> (B \<noteq> [] \<longrightarrow> (\<forall>j \<ge> hw_k s. j \<le> N \<longrightarrow> far_off s (hd B) (hw_reads s j)))
     \<and> max (J + 2) (hw_k s) + 2 * length A + 2 \<le> N"

lemma expire_loop_window:
  assumes rq: "rq_inv s Q" and tm: "tm_order ord s (A @ B) V L" and wk: "\<forall>t \<in> set (A @ B). wakeable s t"
    and w: "window reference J N A B s"
  shows "\<exists>T1 T2 s' Q'. A = T1 @ T2 \<and> expire_loop reference s = Some s' \<and> rq_inv s' Q' \<and> tm_order ord s' (T2 @ B) V L
    \<and> extends Q Q' \<and> expire_post reference s T1 (T2 @ B) s' \<and> hw_k s' \<le> max (J + 2) (hw_k s) + 2 * length A + 1"
proof -
  have ip: "in_period reference N s" and A: "\<And>t j. t \<in> set A \<Longrightarrow> J \<le> j \<Longrightarrow> j \<le> N \<Longrightarrow>
        secure_mintimer_lltimer_mask (target (timers s t)) \<le> ucast (hw_reads s j)"
    and B: "\<And>j. B \<noteq> [] \<Longrightarrow> hw_k s \<le> j \<Longrightarrow> j \<le> N \<Longrightarrow> far_off s (hd B) (hw_reads s j)"
    and N: "max (J + 2) (hw_k s) + 2 * length A + 2 \<le> N"
    using w by (auto simp: window_def)
  have far: "reference \<le> ucast (hw_reads s j)
      \<and> unat (hw_reads s j) + 200 \<le> unat (secure_mintimer_lltimer_mask (target (timers s (hd B))))"
    if "B \<noteq> []" "hw_k s \<le> j" "j \<le> N" for j
    using B [OF that] ip that by (auto simp: far_off_def in_period_def)
  have "expired_at reference (target (timers s t)) (hw_reads s j)" if "t \<in> set A" "J \<le> j" "j \<le> N" for t j
    using A [OF that] by (simp add: expired_at_def)
  moreover have "max (Suc J) (hw_k s) + 2 * length A \<le> N" using N by simp
  ultimately obtain s' where s': "expire_loop reference s = Some s'" "hw_k s' \<le> max (Suc J) (hw_k s) + 2 * length A + 1"
    using expire_loop_returns [OF rq tm wk, of J N reference] far by blast
  obtain U1 U2 Q' where u: "A @ B = U1 @ U2" "rq_inv s' Q'" "tm_order ord s' U2 V L" "extends Q Q'" "expire_post reference s U1 U2 s'"
    using expire_loop_partial [OF rq tm wk s'(1)] by blast
  have le: "hw_k s' \<le> max (J + 2) (hw_k s) + 2 * length A + 1" using s'(2) by simp
  have "length U1 \<le> length A"
  proof (rule ccontr)
    assume g: "\<not> length U1 \<le> length A"
    then have ne: "B \<noteq> []" using arg_cong [OF u(1), of length] by (cases B) simp_all
    have "U1 ! length A = hd B" using g u(1) ne by (metis hd_conv_nth length_0_conv not_le nth_append nth_append_length_plus add_0_right length_greater_0_conv)
    then have "hd B \<in> set U1" using g by (metis not_le nth_mem)
    then obtain k where "hw_k s \<le> k" "k < hw_k s'" "expired_at reference (target (timers s (hd B))) (hw_reads s k)"
      using u(5) unfolding expire_post_def by blast
    then show False using far [OF ne, of k] le N by (auto simp: expired_at_def word_le_nat_alt word_less_nat_alt unat_ucast_up)
  qed
  then obtain T2 where "A = U1 @ T2" "U2 = T2 @ B" using u(1) by (auto simp: append_eq_append_conv2)
  then show ?thesis using s'(1) u le by blast
qed

lemma window_later:
  assumes w: "window reference J N (T1 @ T2) B s" and rd: "hw_reads s' = hw_reads s" "high_cnt s' = high_cnt s"
    and k: "hw_k s \<le> hw_k s'" "hw_k s' \<le> max (J + 2) (hw_k s) + 2 * length T1"
    and same: "\<And>t. t \<in> set (T2 @ B) \<Longrightarrow> timers s' t = timers s t"
  shows "window reference J N T2 B s'"
proof -
  have "in_period reference N s'" using w in_period_mono [OF _ rd(1) k(1)] by (simp add: window_def)
  moreover have "max (J + 2) (hw_k s') + 2 * length T2 + 2 \<le> N" using w k(2) by (auto simp: window_def)
  ultimately show ?thesis using w k(1) same by (auto simp: window_def rd far_off_def)
qed

text \<open>
  Within a window the loop at \<open>overflow\<close> returns, having fired a leading part of \<open>A\<close>; the first timer that it leaves is not near
  at the last reading.
\<close>

definition not_due :: "sm_timer_state \<Rightarrow> sm_timer_state \<Rightarrow> timer_ref \<Rightarrow> bool" where
  "not_due s s' t \<longleftrightarrow> (\<exists>k \<ge> hw_k s. k < hw_k s'
     \<and> unat (hw_reads s k) + 200 \<le> unat (secure_mintimer_lltimer_mask (target (timers s t))))"

lemma callback_overflow_in_period:
  assumes "rq_inv s Q" and "tm_order ord s (A @ B) V L" and "\<forall>t \<in> set (A @ B). wakeable s t" and "window reference J N A B s"
  shows "\<exists>T1 T2 s' Q'. A = T1 @ T2 \<and> callback_overflow reference s = Some (next_target_of s (T2 @ B), s')
    \<and> rq_inv s' Q' \<and> tm_order ord s' (T2 @ B) V L \<and> extends Q Q' \<and> fired_post s T1 s' \<and> hw_k s' \<le> Suc N
    \<and> (T2 @ B \<noteq> [] \<longrightarrow> (high_cnt s OR ucast (hw_reads s (hw_k s' - 1))) + 200 \<le> next_target_of s (T2 @ B))
    \<and> (T2 = [] \<or> not_due s s' (hd T2))"
  using assms
proof (induction "J - hw_k s" arbitrary: s Q A rule: less_induct)
  case less
  obtain T1 T2 s1 Q1 where e: "A = T1 @ T2" "expire_loop reference s = Some s1" "rq_inv s1 Q1" "tm_order ord s1 (T2 @ B) V L" "extends Q Q1"
      and post: "expire_post reference s T1 (T2 @ B) s1" and le: "hw_k s1 \<le> max (J + 2) (hw_k s) + 2 * length A + 1"
    using expire_loop_window [OF less.prems] by blast
  have w: "in_period reference N s" and N: "max (J + 2) (hw_k s) + 2 * length A + 2 \<le> N"
    using less.prems(4) by (auto simp: window_def)
  have fp: "fired_post s T1 s1" using expire_post_fired [OF post w] le N by simp
  have rd: "hw_reads s1 = hw_reads s" "hw_k s \<le> hw_k s1" "high_cnt s1 = high_cnt s" using fp by (auto simp: fired_post_def)
  have ip: "in_period reference N s1" by (rule in_period_mono [OF w rd(1,2)])
  have "hw_k s1 \<le> N" "Suc (hw_k s1) \<le> N" using le N by auto
  note nw = in_period_no_wrap [OF ip order_refl this(1)] and nw2 = in_period_no_wrap [OF ip le_SucI [OF order_refl] this(2)]
  define s3 where "s3 = s1\<lparr>hw_k := hw_k s1 + 2\<rparr>"
  have f3: "fired_post s (T1 @ []) s3"
    unfolding s3_def by (rule fired_post_trans [OF fp fired_post_read]) simp
  have k3: "hw_k s3 \<le> Suc N" "hw_k s3 - 1 = Suc (hw_k s1)" using le N by (auto simp: s3_def)
  have nd: "T2 = [] \<or> not_due s s3 (hd T2)"
  proof (cases T2)
    case (Cons r R)
    then have "hw_k s < hw_k s1" "unat (hw_reads s (hw_k s1 - 1)) + 200 \<le> unat (secure_mintimer_lltimer_mask (target (timers s r)))"
      using post by (auto simp: expire_post_def)
    then show ?thesis using Cons by (auto simp: not_due_def s3_def intro!: exI [of _ "hw_k s1 - 1"])
  qed simp
  show ?case
  proof (cases "T2 @ B")
    case Nil
    then have "timer_list_head s1 = None" using e(4) by (simp add: tm_inv_def)
    then have "callback_overflow reference s = Some (next_target_of s (T2 @ B), s3)"
      using e(2) nw nw2 Nil by (subst callback_overflow.simps) (simp add: next_target_of_def s3_def)
    then show ?thesis
      using e f3 k3 nd Nil by (intro exI [of _ T1] exI [of _ T2] exI [of _ s3] exI [of _ Q1]) (simp add: s3_def)
  next
    case (Cons r R)
    have h: "timer_list_head s1 = Some r" "timer_ok r" using e(4) Cons by (auto simp: tm_inv_def)
    have "distinct (A @ B)" using less.prems(2) by (auto simp: tm_inv_def)
    then have d: "set T1 \<inter> set (T2 @ B) = {}" using e(1) by auto
    have same: "timers s1 t = timers s t" if "t \<in> set (T2 @ B)" for t using fp d that by (auto simp: fired_post_def)
    have sr: "timers s1 r = timers s r" using same [of r] Cons by simp
    define nt where "nt = target (timers s r) - SECURE_MINTIMER_OVERHEAD"
    define now where "now = high_cnt s OR ucast (hw_reads s (Suc (hw_k s1)))"
    have ntT: "next_target_of s (T2 @ B) = nt" using Cons by (simp add: next_target_of_def nt_def)
    have step: "callback_overflow reference s =
        (if nt < now + ucast SECURE_MINTIMER_ISR_BACKOFF then callback_overflow reference s3 else Some (nt, s3))"
      using e(2) nw h sr rd
      by (subst callback_overflow.simps) (simp add: secure_mintimer_now_eq nt_def now_def s3_def)
    show ?thesis
    proof (cases "nt < now + ucast SECURE_MINTIMER_ISR_BACKOFF")
      case False
      then have "callback_overflow reference s = Some (next_target_of s (T2 @ B), s3)" using step ntT by simp
      moreover have "(high_cnt s OR ucast (hw_reads s (hw_k s3 - 1))) + 200 \<le> next_target_of s (T2 @ B)"
        using False unfolding ntT k3(2) by (simp add: now_def SECURE_MINTIMER_ISR_BACKOFF_def not_less)
      ultimately show ?thesis
        using e f3 k3(1) nd by (intro exI [of _ T1] exI [of _ T2] exI [of _ s3] exI [of _ Q1]) (simp add: s3_def)
    next
      case True
      have k: "hw_k s < hw_k s1" "unat (secure_mintimer_lltimer_mask (target (timers s r)))
            \<ge> unat (hw_reads s (hw_k s1 - 1)) + 200"
        using post Cons by (auto simp: expire_post_def)
      have "T2 \<noteq> []"
      proof
        assume "T2 = []"
        then have "B \<noteq> []" "hd B = r" using Cons by auto
        then have "far_off s r (hw_reads s (Suc (hw_k s1)))" using less.prems(4) rd(2) \<open>Suc (hw_k s1) \<le> N\<close> by (auto simp: window_def)
        then show False using True by (simp add: far_off_def nt_def now_def SECURE_MINTIMER_ISR_BACKOFF_def leD)
      qed
      then have rA: "r \<in> set A" using Cons e(1) by (cases T2) auto
      have J: "hw_k s1 - 1 < J"
      proof (rule ccontr)
        assume "\<not> hw_k s1 - 1 < J"
        then have "secure_mintimer_lltimer_mask (target (timers s r)) \<le> ucast (hw_reads s (hw_k s1 - 1))"
          using less.prems(4) rA \<open>hw_k s1 \<le> N\<close> by (auto simp: window_def)
        with k(2) show False by (simp add: word_le_nat_alt unat_ucast_up)
      qed
      then have "J - hw_k s3 < J - hw_k s" using k(1) by (simp add: s3_def)
      moreover have "rq_inv s3 Q1" "tm_order ord s3 (T2 @ B) V L" using e by (simp_all add: s3_def)
      moreover have "\<forall>t \<in> set (T2 @ B). wakeable s3 t"
        using less.prems(3) e(1) same fp by (auto simp: wakeable_def s3_def fired_post_def)
      moreover have "window reference J N T2 B s3"
      proof (rule window_later [where s = s])
        show "window reference J N (T1 @ T2) B s" using less.prems(4) e(1) by simp
        show "hw_k s3 \<le> max (J + 2) (hw_k s) + 2 * length T1" using J by (simp add: s3_def)
      qed (use rd same in \<open>auto simp: s3_def\<close>)
      ultimately obtain U1 U2 s' Q' where ih: "T2 = U1 @ U2"
          "callback_overflow reference s3 = Some (next_target_of s3 (U2 @ B), s')"
          "rq_inv s' Q'" "tm_order ord s' (U2 @ B) V L" "fired_post s3 U1 s'" "extends Q1 Q'" "hw_k s' \<le> Suc N"
          "U2 @ B \<noteq> [] \<longrightarrow> (high_cnt s3 OR ucast (hw_reads s3 (hw_k s' - 1))) + 200 \<le> next_target_of s3 (U2 @ B)"
          "U2 = [] \<or> not_due s3 s' (hd U2)"
        using less.hyps [of s3 Q1 T2] by blast
      have st: "timers s3 t = timers s t" if "t \<in> set (U2 @ B)" for t using same [of t] that ih(1) by (auto simp: s3_def)
      have ndU: "U2 = [] \<or> not_due s s' (hd U2)"
      proof (cases "U2 = []")
        case False
        then have "timers s3 (hd U2) = timers s (hd U2)" by (intro st) simp
        with ih(9) False obtain k where "hw_k s3 \<le> k" "k < hw_k s'"
            "unat (hw_reads s k) + 200 \<le> unat (secure_mintimer_lltimer_mask (target (timers s (hd U2))))"
          by (auto simp: not_due_def s3_def rd)
        then show ?thesis using rd(2) by (auto simp: not_due_def s3_def intro!: exI [of _ k])
      qed simp
      from st have nx: "next_target_of s3 (U2 @ B) = next_target_of s (U2 @ B)"
        using hd_in_set [of "U2 @ B"] by (simp only: next_target_of_def split: if_splits) metis
      moreover have "fired_post s (T1 @ U1) s'"
        using fired_post_trans [OF f3 ih(5)] d ih(1) by auto
      moreover have "U2 @ B \<noteq> [] \<longrightarrow> (high_cnt s OR ucast (hw_reads s (hw_k s' - 1))) + 200 \<le> next_target_of s (U2 @ B)"
        using ih(8) unfolding nx by (simp add: s3_def rd)
      ultimately show ?thesis
        using step True ih e(1) ndU extends_trans [OF e(5) ih(6)]
        by (intro exI [of _ "T1 @ U1"] exI [of _ U2] exI [of _ s'] exI [of _ Q']) simp
    qed
  qed
qed

lemma timer_callback_in_period:
  assumes rq: "rq_inv s Q" and tm: "tm_order ord s (A @ B) V L" and ne: "A @ B \<noteq> []" and wk: "\<forall>t \<in> set (A @ B). wakeable s t"
    and ip: "in_period (ucast (hw_reads s (hw_k s))) N s" and J: "hw_k s \<le> J" "J + 2 * length A + 4 \<le> N"
    and A: "\<forall>t \<in> set A. secure_mintimer_lltimer_mask (target (timers s t)) \<le> ucast (hw_reads s J)"
    and B: "B \<noteq> [] \<longrightarrow> (\<forall>j \<ge> hw_k s. j \<le> N \<longrightarrow> far_off s (hd B) (hw_reads s j))"
  shows "\<exists>T1 T2 s' Q'. A = T1 @ T2 \<and> timer_callback s = Some s' \<and> rq_inv s' Q' \<and> tm_order ord s' (T2 @ B) V L
    \<and> extends Q Q' \<and> fired_post s T1 s' \<and> \<not> in_handler s' \<and> hw_k s' \<le> Suc N
    \<and> TIMER_CCR s' 0 = ucast (secure_mintimer_lltimer_mask (next_target_of s (T2 @ B)))
    \<and> (T2 @ B \<noteq> [] \<longrightarrow> (high_cnt s OR ucast (hw_reads s (hw_k s' - 1))) + 200 \<le> next_target_of s (T2 @ B))
    \<and> (J = hw_k s \<longrightarrow> T1 = A)"
proof -
  define s2 where "s2 = s\<lparr>in_handler := True, hw_k := Suc (hw_k s)\<rparr>"
  let ?r = "ucast (hw_reads s (hw_k s)) :: u32"
  obtain h where hd: "timer_list_head s = Some h" using tm ne by (cases "A @ B") (auto simp: tm_inv_def)
  have due: "secure_mintimer_lltimer_mask (target (timers s t)) \<le> ucast (hw_reads s j)" if "t \<in> set A" "J \<le> j" "j \<le> N" for t j
  proof -
    have "hw_reads s J \<le> hw_reads s j" using ip J(1) that by (auto simp: in_period_def)
    then have "(ucast (hw_reads s J) :: u32) \<le> ucast (hw_reads s j)" by (simp add: word_le_nat_alt unat_ucast_up)
    then show ?thesis using A that(1) by (blast intro: order_trans)
  qed
  from due have "window ?r J N A B s2"
    using ip J B by (auto simp: window_def in_period_def far_off_def s2_def)
  moreover have "rq_inv s2 Q" "tm_order ord s2 (A @ B) V L" "\<forall>t \<in> set (A @ B). wakeable s2 t"
    using assms by (auto simp: s2_def rq_inv_def queued_def tm_inv_def wakeable_def)
  ultimately obtain T1 T2 s3 Q' where
    c: "A = T1 @ T2" "callback_overflow ?r s2 = Some (next_target_of s2 (T2 @ B), s3)" "rq_inv s3 Q'" "tm_order ord s3 (T2 @ B) V L"
      "fired_post s2 T1 s3" "extends Q Q'" "hw_k s3 \<le> Suc N"
      "T2 @ B \<noteq> [] \<longrightarrow> (high_cnt s2 OR ucast (hw_reads s2 (hw_k s3 - 1))) + 200 \<le> next_target_of s2 (T2 @ B)"
      "T2 = [] \<or> not_due s2 s3 (hd T2)"
    using callback_overflow_in_period [of s2 Q ord A B V L ?r J N] by blast
  define s' where "s' = (lltimer_set (next_target_of s (T2 @ B)) (s3\<lparr>in_handler := False\<rparr>))
    \<lparr>TIMER_CTL := TIMER_CTL (lltimer_set (next_target_of s (T2 @ B)) (s3\<lparr>in_handler := False\<rparr>)) AND NOT TIMER_CTL_IFG\<rparr>"
  have nt: "next_target_of s2 (T2 @ B) = next_target_of s (T2 @ B)" by (simp add: next_target_of_def s2_def)
  have k: "hw_k s' = hw_k s3" by (simp add: s'_def lltimer_set_def sm_timer_set_absolute_def Let_def)
  have "timer_callback s = Some s'"
    using hd c(2) nt by (simp add: timer_callback_def s2_def s'_def Let_def)
  moreover have "rq_inv s' Q'" using c(3) by (simp add: s'_def rq_inv_def queued_def)
  moreover have "tm_order ord s' (T2 @ B) V L" using c(4) by (simp add: s'_def tm_inv_def)
  moreover have "fired_post s T1 s3"
    using fired_post_trans [of s "[]" s2 T1 s3] c(5) by (simp add: s2_def fired_post_def same_ctx_def)
  then have "fired_post s T1 s'"
    by (simp add: fired_post_def woken_def s'_def same_ctx_def lltimer_set_def sm_timer_set_absolute_def Let_def)
  moreover have "\<not> in_handler s'" "TIMER_CCR s' 0 = ucast (secure_mintimer_lltimer_mask (next_target_of s (T2 @ B)))"
    by (simp_all add: s'_def lltimer_set_def sm_timer_set_absolute_def Let_def)
  moreover have "T2 @ B \<noteq> [] \<longrightarrow> (high_cnt s OR ucast (hw_reads s (hw_k s' - 1))) + 200 \<le> next_target_of s (T2 @ B)"
    using c(8) unfolding nt k by (simp add: s2_def)
  moreover have "J = hw_k s \<longrightarrow> T1 = A"
  proof
    assume J0: "J = hw_k s"
    have False if ne: "T2 \<noteq> []"
    proof -
      obtain j where j: "hw_k s2 \<le> j" "j < hw_k s3"
          "unat (hw_reads s j) + 200 \<le> unat (secure_mintimer_lltimer_mask (target (timers s (hd T2))))"
        using c(9) ne by (auto simp: not_due_def s2_def)
      have "hd T2 \<in> set A" "J \<le> j" "j \<le> N" using ne c(1,7) j J0 by (simp_all add: s2_def)
      from due [OF this] j(3) show False by (simp add: word_le_nat_alt unat_ucast_up)
    qed
    then show "T1 = A" using c(1) by auto
  qed
  ultimately show ?thesis using c(1,6,7) k by metis
qed

section \<open>A timer entered twice\<close>

text \<open>
  Entering a timer that already heads the current list links it to itself. An expiry loop that
  has fired such a timer once never ends: the list always has it as head, with target 0.
\<close>

lemma insert_twice_cycles:
  assumes "lseg (tm_next s) (timer_list_head s) [r] None" and "timer_ok r"
  shows "add_timer_to_list Timer_list r s = Some (s\<lparr>tm_next := (tm_next s)(r := Some r)\<rparr>)"
  using assms
  by (simp add: add_timer_to_list_def insert_loop.simps [of _ Timer_list] insert_loop.simps [of _ "Next_of r"]
      load_def store_def short_before_def)

definition self_cycle :: "timer_ref \<Rightarrow> sm_timer_state \<Rightarrow> bool" where
  "self_cycle r s \<longleftrightarrow> timer_list_head s = Some r \<and> tm_next s r = Some r \<and> target (timers s r) = 0
     \<and> thread (timers s r) = None"

lemma lltimer_mask_0 [simp]: "secure_mintimer_lltimer_mask 0 = 0"
  by (simp add: secure_mintimer_lltimer_mask_def)

lemma time_left_0: "time_left 0 reference s = (0, s\<lparr>hw_k := Suc (hw_k s)\<rparr>)"
  by (simp add: time_left_def Let_def)

lemma timer_list_head_same: "timer_list_head s = x \<Longrightarrow> s\<lparr>timer_list_head := x\<rparr> = s"
  by auto

lemma expire_loop_cycle_None:
  assumes "self_cycle r s"
  shows "expire_loop reference s = None"
proof (rule ccontr)
  assume "expire_loop reference s \<noteq> None"
  then obtain y where "expire_loop reference s = Some y" by blast
  then have "\<not> self_cycle r s"
  proof (rule expire_loop.raw_induct [rotated, where P = "\<lambda>reference s y. \<not> self_cycle r s"])
    fix f :: "u32 \<Rightarrow> sm_timer_state \<Rightarrow> sm_timer_state option" and ref s y
    assume ih: "\<And>ref s y. f ref s = Some y \<Longrightarrow> \<not> self_cycle r s"
      and body: "(case timer_list_head s of None \<Rightarrow> Some s
        | Some r \<Rightarrow> do {
            t \<leftarrow> timer_at s r;
            (case time_left (secure_mintimer_lltimer_mask (target t)) ref s of
               (left, s1) \<Rightarrow>
                 if left < ucast SECURE_MINTIMER_ISR_BACKOFF then do {
                   s2 \<leftarrow> wait_time_left r ref s1; s3 \<leftarrow> fire_head r s2; f ref s3 }
                 else Some s1) }) = Some y"
    show "\<not> self_cycle r s"
    proof
      assume c: "self_cycle r s"
      define s3 where "s3 = s\<lparr>hw_k := Suc (Suc (hw_k s)), timers := (timers s)(r := cleared (timers s r)),
          sched_context_switch_request := True\<rparr>"
      have w: "timer_ok r \<Longrightarrow> wait_time_left r ref (s\<lparr>hw_k := Suc (hw_k s)\<rparr>) = Some (s\<lparr>hw_k := Suc (Suc (hw_k s))\<rparr>)"
        using c by (subst wait_time_left.simps) (simp add: self_cycle_def time_left_0)
      have "fire_head r (s\<lparr>hw_k := Suc (Suc (hw_k s))\<rparr>) = Some s3" if "timer_ok r"
      proof -
        have "s\<lparr>hw_k := k, timer_list_head := Some r\<rparr> = s\<lparr>hw_k := k\<rparr>" for k
          using c by (intro timer_list_head_same) (simp add: self_cycle_def)
        then show ?thesis
          using c that by (simp add: fire_head_def load_def shoot_timer_def self_cycle_def s3_def cleared_def)
      qed
      with body c w have "f ref s3 = Some y"
        by (auto simp: self_cycle_def timer_at_def time_left_0 SECURE_MINTIMER_ISR_BACKOFF_def split: if_splits)
      then have "\<not> self_cycle r s3" by (rule ih)
      then show False using c by (simp add: self_cycle_def s3_def cleared_def)
    qed
  qed
  with assms show False by blast
qed

end
