(* ===== verification/Sched.thy ===== *)
theory Sched
  imports Mintimer_Expire
begin

text \<open>
  The scheduler of \<open>core/sched.c\<close> and the two routines of \<open>cpu/msp430-sancus/cpu.c\<close> that it
  shares control with. A function that may hand the processor to another thread and not return
  to its caller has the result type \<open>control\<close>: \<open>Return\<close> for a normal return, \<open>Resume\<close>
  for a restored context of \<open>sched_active_thread\<close>. The debug output is not modelled.
\<close>

section \<open>Definitions\<close>

datatype control = Return sm_timer_state | Resume sm_timer_state

definition SCHEDULER_OVERHEAD_RUN :: u32 where "SCHEDULER_OVERHEAD_RUN = 300"

text \<open>A \<open>kernel_pid_t\<close> used as an index of \<open>sched_threads\<close>.\<close>

definition pid_index :: "int \<Rightarrow> nat option" where
  "pid_index p = (if 0 \<le> p \<and> p \<le> KERNEL_PID_LAST then Some (nat p) else None)"

definition scheduler_init :: "u16 \<Rightarrow> sm_timer_state \<Rightarrow> sm_timer_state" where
  "scheduler_init entry s =
     (if \<not> initialization_done s then
        let s1 = secure_mintimer_init s;
            s2 = s1\<lparr>scheduler_entry := entry\<rparr>;
            s3 = s2\<lparr>timers := (timers s2)(Scheduler_timer := (timers s2 Scheduler_timer)\<lparr>thread := None\<rparr>)\<rparr>;
            s4 = s3\<lparr>tm_next := (tm_next s3)(Scheduler_timer := None)\<rparr>
        in s4\<lparr>initialization_done := True\<rparr>
      else s)"

text \<open>The reference point moves in steps of the period; a period of 0 never gets there.\<close>

partial_function (option) next_reference :: "u32 \<Rightarrow> u32 \<Rightarrow> u32 \<Rightarrow> u32 option" where
  "next_reference last_ref per current_time =
     (if last_ref < current_time \<and> current_time - last_ref < current_time
      then next_reference (last_ref + per) per current_time else Some last_ref)"

definition periodic_thread_schedule_next_timer :: "nat \<Rightarrow> u32 \<Rightarrow> sm_timer_state \<Rightarrow> sm_timer_state option" where
  "periodic_thread_schedule_next_timer periodic_thread current_time s = do {
     t \<leftarrow> thread_at s periodic_thread;
     r \<leftarrow> next_reference (last_reference t) (period t) current_time;
     s1 \<leftarrow> upd_thread (last_reference_update (\<lambda>_. r)) periodic_thread s;
     (tmr, s2) \<leftarrow> get_available_timer (pid t) s1;
     s3 \<leftarrow> sched_set_status periodic_thread STATUS_SLEEPING s2;
     tm \<leftarrow> tmr;
     (_, s4) \<leftarrow> secure_mintimer_set_absolute tm r s3;
     s5 \<leftarrow> upd_thread (\<lambda>t. t\<lparr>sm_idx := original_idx t\<rparr>) periodic_thread s4;
     upd_thread (last_runtime_update (\<lambda>_. 0)) periodic_thread s5
   }"

text \<open>The part of \<open>sched_run_internal\<close> after the label \<open>end\<close>.\<close>

definition sched_run_end :: "int \<Rightarrow> sm_timer_state \<Rightarrow> (int \<times> sm_timer_state) option" where
  "sched_run_end changed_thread s = do {
     a \<leftarrow> sched_active_thread s;
     t \<leftarrow> thread_at s a;
     if priority t = SCHED_PERIODIC_PRIO_LEVEL then do {
       let p = unat SCHED_PERIODIC_PRIO_LEVEL;
       let s1 = s\<lparr>sched_runqueues := (sched_runqueues s)(p := sm_clist_lpoprpush (rq_entry s) (sched_runqueues s p))\<rparr>;
       let ((short_term, long_term), s2) = secure_mintimer_now_internal s1;
       s3 \<leftarrow> upd_timer (target_update (\<lambda>_. short_term + runtime t - last_runtime t)) Scheduler_timer s2;
       s4 \<leftarrow> upd_timer (long_target_update (\<lambda>_. long_term)) Scheduler_timer s3;
       (_, s5) \<leftarrow> secure_mintimer_set_absolute_explicit Scheduler_timer short_term s4;
       Some (changed_thread, s5)
     }
     else Some (changed_thread, s)
   }"

text \<open>The choice of the next thread, after the check of a periodic thread's budget.\<close>

definition sched_select :: "nat option \<Rightarrow> sm_timer_state \<Rightarrow> (int \<times> sm_timer_state) option" where
  "sched_select active_thread s = do {
     let s1 = s\<lparr>sched_context_switch_request := False\<rparr>;
     nextrq \<leftarrow> bitarithm_lsb_sm_timer (ucast (runqueue_bitcache s1));
     l \<leftarrow> sched_runqueues s1 nextrq;
     next_thread \<leftarrow> rq_entry s1 l;
     nt \<leftarrow> thread_at s1 next_thread;
     if active_thread = Some next_thread then sched_run_end 0 s1
     else do {
       s2 \<leftarrow> (case active_thread of
                 Some a \<Rightarrow> do {
                   t \<leftarrow> thread_at s1 a;
                   if status t = STATUS_RUNNING then upd_thread (status_update (\<lambda>_. STATUS_PENDING)) a s1
                   else Some s1
                 }
               | None \<Rightarrow> Some s1);
       s3 \<leftarrow> upd_thread (status_update (\<lambda>_. STATUS_RUNNING)) next_thread s2;
       sched_run_end 1 (s3\<lparr>sched_active_pid := pid nt, sched_active_thread := Some next_thread\<rparr>)
     }
   }"

definition sched_run_internal :: "sm_timer_state \<Rightarrow> (int \<times> sm_timer_state) option" where
  "sched_run_internal s =
     (case sched_active_thread s of
        Some a \<Rightarrow> do {
          t \<leftarrow> thread_at s a;
          if status t = STATUS_RUNNING \<and> priority t = SCHED_PERIODIC_PRIO_LEVEL
             \<and> \<not> sched_context_switch_request s
          then do {
            let ((current_time, long_term), s1) = secure_mintimer_now_internal s;
            let rt = last_runtime t - SCHEDULER_OVERHEAD_RUN;
            let rt = rt + (current_time - last_reference t);
            if rt \<ge> runtime t then do {
              s2 \<leftarrow> periodic_thread_schedule_next_timer a current_time s1;
              sched_select (Some a) s2
            }
            else do {
              s2 \<leftarrow> upd_thread (last_runtime_update (\<lambda>_. rt)) a s1;
              sched_run_end 0 s2
            }
          }
          else sched_select (Some a) s
        }
      | None \<Rightarrow> sched_select None s)"

definition sched_run :: "sm_timer_state \<Rightarrow> (int \<times> sm_timer_state) option" where
  "sched_run s = sched_run_internal s"

definition sched_set_own_status :: "thread_status_t \<Rightarrow> sm_timer_state \<Rightarrow> sm_timer_state option" where
  "sched_set_own_status st s = do { me \<leftarrow> sched_active_thread s; sched_set_status me st s }"

text \<open>
  \<open>me->priority\<close> is read even when \<open>me\<close> is \<open>NULL\<close>, as it is at boot and after a thread
  exits; the MSP430 does not trap it, and the byte found there is \<open>null_priority\<close>.
\<close>

definition sched_yield :: "sm_timer_state \<Rightarrow> sm_timer_state option" where
  "sched_yield s =
     (case sched_active_thread s of
        None \<Rightarrow> if null_priority s = SCHED_PERIODIC_PRIO_LEVEL then None else Some s
      | Some me \<Rightarrow> do {
          t \<leftarrow> thread_at s me;
          s1 \<leftarrow> (if status t \<ge> STATUS_ON_RUNQUEUE then do {
                    q \<leftarrow> runqueue_at s (priority t);
                    Some (s\<lparr>sched_runqueues := (sched_runqueues s)(unat (priority t) := sm_clist_lpoprpush (rq_entry s) q)\<rparr>)
                  }
                  else Some s);
          if priority t = SCHED_PERIODIC_PRIO_LEVEL then do {
            s2 \<leftarrow> secure_mintimer_remove Scheduler_timer s1;
            let ((short_term, long_term), s3) = secure_mintimer_now_internal s2;
            s4 \<leftarrow> periodic_thread_schedule_next_timer me short_term s3;
            Some (s4\<lparr>sched_context_switch_request := True\<rparr>)
          }
          else Some s1
        })"

definition sched_task_exit_internal :: "sm_timer_state \<Rightarrow> sm_timer_state option" where
  "sched_task_exit_internal s =
     (if sched_active_pid s \<noteq> KERNEL_PID_UNDEF then do {
        i \<leftarrow> pid_index (sched_active_pid s);
        s1 \<leftarrow> upd_thread (in_use_update (\<lambda>_. False)) i s;
        let s2 = s1\<lparr>sched_num_threads := sched_num_threads s1 - 1\<rparr>;
        a \<leftarrow> sched_active_thread s2;
        s3 \<leftarrow> sched_set_status a STATUS_STOPPED s2;
        Some (s3\<lparr>sched_active_thread := None\<rparr>)
      }
      else Some s)"

section \<open>Switching context\<close>

text \<open>
  Resuming an unprotected thread pops its twelve registers off its stack before the stack pointer
  becomes the unprotected one again.
\<close>

definition restore_context :: "sm_timer_state \<Rightarrow> control option" where
  "restore_context s = do {
     a \<leftarrow> sched_active_thread s;
     t \<leftarrow> thread_at s a;
     Some (Resume (s\<lparr>unprotected_sp := (if is_sm t then sp t else sp t + 24)\<rparr>))
   }"

definition thread_yield_higher_internal :: "bool \<Rightarrow> sm_timer_state \<Rightarrow> control option" where
  "thread_yield_higher_internal do_thread_yield s = do {
     s1 \<leftarrow> (if do_thread_yield then sched_yield s else Some s);
     (_, s2) \<leftarrow> sched_run_internal s1;
     restore_context s2
   }"

definition sm_irq_is_in :: "sm_timer_state \<Rightarrow> bool" where
  "sm_irq_is_in s = sm_irq_is_in_flag s"

definition sched_switch_internal_allow_yield :: "u16 \<Rightarrow> bool \<Rightarrow> sm_timer_state \<Rightarrow> control option" where
  "sched_switch_internal_allow_yield other_prio yield_allowed s = do {
     a \<leftarrow> sched_active_thread s;
     t \<leftarrow> thread_at s a;
     let current_prio = ucast (priority t);
     let on_runqueue = (status t \<ge> STATUS_ON_RUNQUEUE);
     if \<not> on_runqueue \<or> current_prio > other_prio then do {
       let s1 = s\<lparr>sched_context_switch_request := True\<rparr>;
       if sm_irq_is_in s1 then Some (Return s1)
       else if yield_allowed then thread_yield_higher_internal True s1
       else Some (Return s1)
     }
     else Some (Return s)
   }"

definition sched_switch_internal :: "u16 \<Rightarrow> sm_timer_state \<Rightarrow> control option" where
  "sched_switch_internal other_prio s = sched_switch_internal_allow_yield other_prio True s"

section \<open>Choosing a thread\<close>

definition top :: "(nat \<Rightarrow> nat list) \<Rightarrow> nat \<Rightarrow> bool" where
  "top Q p \<longleftrightarrow> p < SCHED_PRIO_LEVELS \<and> Q p \<noteq> [] \<and> (\<forall>r < p. Q r = [])"

lemma top_exists: "p < SCHED_PRIO_LEVELS \<Longrightarrow> Q p \<noteq> [] \<Longrightarrow> \<exists>r \<le> p. top Q r"
proof -
  assume p: "p < SCHED_PRIO_LEVELS" "Q p \<noteq> []"
  define r where "r = (LEAST r. Q r \<noteq> [])"
  have "Q r \<noteq> []" unfolding r_def by (rule LeastI [of "\<lambda>r. Q r \<noteq> []", OF p(2)])
  moreover have "r \<le> p" unfolding r_def by (rule Least_le [of "\<lambda>r. Q r \<noteq> []", OF p(2)])
  moreover have "Q i = []" if "i < r" for i
    using not_less_Least [of i "\<lambda>r. Q r \<noteq> []"] that by (simp add: r_def)
  ultimately show ?thesis using p(1) by (auto simp: top_def)
qed

lemma lsb_bitcache:
  assumes inv: "rq_inv s Q" and top: "top Q p"
  shows "bitarithm_lsb_sm_timer (ucast (runqueue_bitcache s)) = Some p"
proof -
  let ?w = "ucast (runqueue_bitcache s) :: u16"
  have b: "bit ?w r \<longleftrightarrow> Q r \<noteq> []" if "r < SCHED_PRIO_LEVELS" for r
    using rq_invD(3) [OF inv that] that by (simp add: bit_ucast_iff kernel_consts)
  have "bit ?w p" "\<And>i. i < p \<Longrightarrow> \<not> bit ?w i"
    using top b by (auto simp: top_def)
  then show ?thesis using lsb_loop_spec [of ?w p 0] by (simp add: bitarithm_lsb_sm_timer_def)
qed

lemma no_top_stuck:
  assumes inv: "rq_inv s Q" and none: "\<forall>p. \<not> top Q p"
  shows "sched_select act s = None"
proof -
  have "Q r = []" if "r < SCHED_PRIO_LEVELS" for r using top_exists [OF that] none by blast
  then have "\<not> bit (runqueue_bitcache s) r" if "r < SCHED_PRIO_LEVELS" for r
    using rq_invD(3) [OF inv that] that by simp
  then have "ucast (runqueue_bitcache s) = (0 :: u16)"
    by (intro bit_eqI) (simp add: bit_ucast_iff kernel_consts)
  then show ?thesis by (simp add: sched_select_def bitarithm_lsb_sm_timer_def lsb_loop_zero)
qed

lemma top_head:
  assumes "rq_inv s Q" and "top Q p"
  shows "hd (Q p) \<le> MAXTHREADS" "on_rq (sched_threads s (hd (Q p)))"
    "unat (priority (sched_threads s (hd (Q p)))) = p"
proof -
  have "hd (Q p) \<in> queued s p"
    using assms(2) rq_invD(2) [OF assms(1), of p] hd_in_set [of "Q p"] by (simp add: top_def)
  then show "hd (Q p) \<le> MAXTHREADS" "on_rq (sched_threads s (hd (Q p)))"
    "unat (priority (sched_threads s (hd (Q p)))) = p" by (auto simp: queued_def)
qed

text \<open>The state in which control goes from \<open>act\<close>, if any, to the thread \<open>n\<close>.\<close>

definition preempted :: "nat option \<Rightarrow> (nat \<Rightarrow> thread_t) \<Rightarrow> nat \<Rightarrow> thread_t" where
  "preempted act th =
     (case act of
        Some a \<Rightarrow> if status (th a) = STATUS_RUNNING then th(a := (th a)\<lparr>status := STATUS_PENDING\<rparr>) else th
      | None \<Rightarrow> th)"

definition handed_over :: "nat option \<Rightarrow> nat \<Rightarrow> sm_timer_state \<Rightarrow> sm_timer_state" where
  "handed_over act n s =
     (if act = Some n then s\<lparr>sched_context_switch_request := False\<rparr>
      else s\<lparr>sched_context_switch_request := False,
             sched_threads := (preempted act (sched_threads s))(n := (sched_threads s n)\<lparr>status := STATUS_RUNNING\<rparr>),
             sched_active_pid := pid (sched_threads s n), sched_active_thread := Some n\<rparr>)"

lemma preempted_other: "act \<noteq> Some i \<Longrightarrow> preempted act th i = th i"
  by (auto simp: preempted_def split: option.splits)

lemma preempted_fields:
  "priority (preempted act th i) = priority (th i)" "pid (preempted act th i) = pid (th i)"
  "on_rq (preempted act th i) = on_rq (th i)"
  by (auto simp: preempted_def on_rq_def STATUS_ON_RUNQUEUE_def status_order split: option.splits)

lemma handed_over_fields:
  "priority (sched_threads (handed_over act n s) i) = priority (sched_threads s i)"
  "pid (sched_threads (handed_over act n s) i) = pid (sched_threads s i)"
  "on_rq (sched_threads s n) \<Longrightarrow> on_rq (sched_threads (handed_over act n s) i) = on_rq (sched_threads s i)"
  "rq_entry (handed_over act n s) = rq_entry s" "sched_runqueues (handed_over act n s) = sched_runqueues s"
  "runqueue_bitcache (handed_over act n s) = runqueue_bitcache s"
  using preempted_fields(3) [of act "sched_threads s" i]
  by (auto simp: handed_over_def preempted_fields on_rq_def STATUS_ON_RUNQUEUE_def)

lemma rq_inv_handed_over:
  "rq_inv s Q \<Longrightarrow> on_rq (sched_threads s n) \<Longrightarrow> rq_inv (handed_over act n s) Q"
  by (simp add: rq_inv_def queued_def handed_over_fields)

lemma sched_run_end_plain:
  "sched_active_thread s = Some a \<Longrightarrow> a \<le> MAXTHREADS \<Longrightarrow>
     priority (sched_threads s a) \<noteq> SCHED_PERIODIC_PRIO_LEVEL \<Longrightarrow> sched_run_end c s = Some (c, s)"
  by (simp add: sched_run_end_def)

lemma upd_preempted:
  assumes "\<forall>a. act = Some a \<longrightarrow> a \<le> MAXTHREADS"
  shows "(case act of
           Some a \<Rightarrow> do {
             t \<leftarrow> thread_at s a;
             if status t = STATUS_RUNNING then upd_thread (status_update (\<lambda>_. STATUS_PENDING)) a s else Some s }
         | None \<Rightarrow> Some s) = Some (s\<lparr>sched_threads := preempted act (sched_threads s)\<rparr>)"
  using assms by (cases act) (auto simp: preempted_def)

lemma sched_select_spec:
  assumes inv: "rq_inv s Q" and top: "top Q p" and act: "\<forall>a. sched_active_thread s = Some a \<longrightarrow> a \<le> MAXTHREADS"
    and per: "p \<noteq> unat SCHED_PERIODIC_PRIO_LEVEL"
  defines "act \<equiv> sched_active_thread s"
  shows "sched_select act s = Some (if act = Some (hd (Q p)) then 0 else 1, handed_over act (hd (Q p)) s)"
proof -
  define n where "n = hd (Q p)"
  note th = top_head [OF inv top, folded n_def]
  have p: "p < SCHED_PRIO_LEVELS" "Q p \<noteq> []" using top by (auto simp: top_def)
  note ring = rq_invD(1) [OF inv p(1)]
  have q: "sched_runqueues s p = Some (last (Q p))" "rq_entry s (last (Q p)) = Some n"
    using cring_last [OF ring p(2)] cring_first [OF ring p(2)] by (auto simp: n_def)
  have np: "priority (sched_threads s n) \<noteq> SCHED_PERIODIC_PRIO_LEVEL" using th(3) per by auto
  show ?thesis
  proof (cases "act = Some n")
    case True
    then show ?thesis
      using lsb_bitcache [OF inv top] q th(1) np
      by (simp add: sched_select_def sched_run_end_plain handed_over_def act_def n_def [symmetric])
  next
    case False
    let ?s1 = "s\<lparr>sched_context_switch_request := False\<rparr>"
    have "preempted act (sched_threads s) n = sched_threads s n" by (rule preempted_other [OF False])
    then show ?thesis
      using False lsb_bitcache [OF inv top] q th(1) np upd_preempted [OF act, of ?s1]
      by (simp add: sched_select_def handed_over_def act_def [symmetric] n_def [symmetric])
         (simp add: sched_run_end_plain)
  qed
qed

end
