(* ===== verification/Linked_List.thy ===== *)
theory Linked_List
  imports Prelude
begin

text \<open>
  The singly linked list of \<open>core/include/list.h\<close>. A \<open>list_node_t *\<close> argument is either the
  head, which is not an element, or the node of an element; a list is the head's \<open>next\<close> field
  and the heap of element nodes.
\<close>

section \<open>Definitions\<close>

datatype 'n node_loc = List_head | Entry 'n

definition node_next :: "'n option \<Rightarrow> 'n heap \<Rightarrow> 'n node_loc \<Rightarrow> 'n option" where
  "node_next lh h l = (case l of List_head \<Rightarrow> lh | Entry i \<Rightarrow> h i)"

definition set_node_next ::
    "'n node_loc \<Rightarrow> 'n option \<Rightarrow> 'n option \<times> 'n heap \<Rightarrow> 'n option \<times> 'n heap" where
  "set_node_next l v = (\<lambda>(lh, h). (case l of List_head \<Rightarrow> (v, h) | Entry i \<Rightarrow> (lh, h(i := v))))"

definition list_add :: "'n node_loc \<Rightarrow> 'n \<Rightarrow> 'n option \<times> 'n heap \<Rightarrow> 'n option \<times> 'n heap" where
  "list_add node new_node lh =
     set_node_next node (Some new_node)
       (set_node_next (Entry new_node) (node_next (fst lh) (snd lh) node) lh)"

definition list_remove_head :: "'n option \<times> 'n heap \<Rightarrow> 'n option \<times> 'n option" where
  "list_remove_head lh =
     (case fst lh of Some i \<Rightarrow> (Some i, snd lh i) | None \<Rightarrow> (None, fst lh))"

partial_function (option) list_remove ::
    "'n option \<times> 'n heap \<Rightarrow> 'n node_loc \<Rightarrow> 'n \<Rightarrow> ('n option \<times> ('n option \<times> 'n heap)) option" where
  "list_remove lh l node =
     (case node_next (fst lh) (snd lh) l of
        None \<Rightarrow> Some (None, lh)
      | Some i \<Rightarrow>
          if i = node then Some (Some node, set_node_next l (snd lh node) lh)
          else list_remove lh (Entry i) node)"

section \<open>Correctness\<close>

definition loc_after :: "'n node_loc \<Rightarrow> 'n list \<Rightarrow> 'n node_loc" where
  "loc_after l xs = (if xs = [] then l else Entry (last xs))"

lemma loc_after_Cons: "loc_after l (x # xs) = loc_after (Entry x) xs"
  by (simp add: loc_after_def)

text \<open>Linking a node behind a prefix of a list.\<close>

lemma link_after:
  assumes W: "lseg h lh (xs @ ys) None" and th: "th \<notin> set (xs @ ys)"
  defines "l \<equiv> loc_after List_head xs"
  shows "\<exists>h' lh'. list_add l th (lh, h) = (lh', h') \<and> lseg h' lh' (xs @ th # ys) None
    \<and> (\<forall>x. x \<noteq> th \<longrightarrow> x \<notin> set xs \<longrightarrow> h' x = h x)"
proof (cases xs rule: rev_cases)
  case Nil
  then show ?thesis using assms by (simp add: list_add_def set_node_next_def node_next_def loc_after_def)
next
  case (snoc zs z)
  have d: "distinct (xs @ ys)" by (rule lseg_NULL_distinct [OF W])
  then have z: "z \<notin> set zs" "z \<notin> set ys" "z \<noteq> th" using snoc th by auto
  have "lseg h lh zs (Some z)" "lseg h (h z) ys None" using W snoc by auto
  then show ?thesis using z th snoc
    by (simp add: list_add_def set_node_next_def node_next_def loc_after_def l_def)
qed

lemma list_remove_spec:
  assumes "lseg h (node_next lh h l) W None" and "node \<in> set W" and "\<forall>x. l = Entry x \<longrightarrow> x \<notin> set W"
  shows "\<exists>lh' h'. list_remove (lh, h) l node = Some (Some node, (lh', h'))
    \<and> lseg h' (node_next lh' h' l) (remove1 node W) None
    \<and> (\<forall>x. x \<notin> set W \<longrightarrow> l \<noteq> Entry x \<longrightarrow> h' x = h x) \<and> (l \<noteq> List_head \<longrightarrow> lh' = lh)"
  using assms
proof (induction W arbitrary: l)
  case Nil
  then show ?case by simp
next
  case (Cons i W)
  have n: "node_next lh h l = Some i" and rest: "lseg h (h i) W None" using Cons.prems by simp_all
  have d: "i \<notin> set W" using lseg_NULL_distinct [OF Cons.prems(1)] by simp
  show ?case
  proof (cases "i = node")
    case True
    have "list_remove (lh, h) l node = Some (Some node, set_node_next l (h node) (lh, h))"
      using n True by (subst list_remove.simps) simp
    then show ?thesis
      using True rest Cons.prems(3) by (cases l) (auto simp: set_node_next_def node_next_def)
  next
    case False
    have l: "list_remove (lh, h) l node = list_remove (lh, h) (Entry i) node"
      using n False by (subst list_remove.simps) simp
    obtain lh' h' where r: "list_remove (lh, h) (Entry i) node = Some (Some node, (lh', h'))"
        "lseg h' (h' i) (remove1 node W) None" "\<forall>x. x \<notin> set W \<longrightarrow> i \<noteq> x \<longrightarrow> h' x = h x" "lh' = lh"
      using Cons.IH [of "Entry i"] rest Cons.prems(2) False d by (auto simp: node_next_def)
    have "node_next lh' h' l = Some i" using n r(3,4) Cons.prems(3) by (cases l) (auto simp: node_next_def)
    then show ?thesis using l r False by auto
  qed
qed

end
