(* ===== verification/Thread.thy ===== *)
theory Thread
  imports Sched Linked_List "HOL-Library.Signed_Division"
begin

text \<open>
  The thread table operations of \<open>core/thread.c\<close> that run inside the protected module, and the
  construction of an initial stack in \<open>cpu/msp430-sancus/cpu.c\<close>. A \<open>thread_t *\<close> result
  of \<open>NULL\<close> and the status \<open>STATUS_NOT_FOUND\<close> are \<open>None\<close>; error numbers are
  those of \<open>cpu/msp430-sancus/include/msp430_types.h\<close>.
\<close>

section \<open>Definitions\<close>

definition EINVAL :: int where "EINVAL = 28"
definition EOVERFLOW :: int where "EOVERFLOW = 65"

definition thread_get :: "int \<Rightarrow> nat option" where
  "thread_get p = (if pid_is_valid p then Some (nat p) else None)"

definition thread_getstatus :: "int \<Rightarrow> sm_timer_state \<Rightarrow> thread_status_t option" where
  "thread_getstatus p s =
     (case thread_get p of Some i \<Rightarrow> Some (status (sched_threads s i)) | None \<Rightarrow> None)"

definition thread_getpid :: "sm_timer_state \<Rightarrow> int" where
  "thread_getpid s = sched_active_pid s"

text \<open>\<open>thread_wakeup\<close> returns 1, or \<open>(int) STATUS_NOT_FOUND\<close>, which is -1.\<close>

definition thread_wakeup :: "int \<Rightarrow> sm_timer_state \<Rightarrow> (int \<times> sm_timer_state) option" where
  "thread_wakeup p s =
     (case thread_get p of
        None \<Rightarrow> Some (-1, s)
      | Some i \<Rightarrow> do {
          t \<leftarrow> thread_at s i;
          if status t = STATUS_SLEEPING then do {
            s1 \<leftarrow> sched_set_status i STATUS_RUNNING s;
            Some (1, s1)
          }
          else Some (-1, s)
        })"

text \<open>
  \<open>thread_add_to_list\<close> walks a \<open>NULL\<close>-terminated list of \<open>rq_entry\<close> nodes; the
  \<open>list\<close> pointer is the head node or a thread's node.
\<close>

partial_function (option) add_to_list_loop ::
    "sm_timer_state \<Rightarrow> u16 \<Rightarrow> nat option \<Rightarrow> nat node_loc \<Rightarrow> nat node_loc option" where
  "add_to_list_loop s my_prio lh l =
     (case node_next lh (rq_entry s) l of
        None \<Rightarrow> Some l
      | Some i \<Rightarrow> do {
          list_entry \<leftarrow> thread_at s i;
          if ucast (priority list_entry) > my_prio then Some l
          else add_to_list_loop s my_prio lh (Entry i)
        })"

definition thread_add_to_list :: "nat option \<Rightarrow> nat \<Rightarrow> sm_timer_state \<Rightarrow> (nat option \<times> sm_timer_state) option" where
  "thread_add_to_list lh th s = do {
     t \<leftarrow> thread_at s th;
     if \<not> status t < STATUS_ON_RUNQUEUE then None
     else do {
       l \<leftarrow> add_to_list_loop s (ucast (priority t)) lh List_head;
       let n = node_next lh (rq_entry s) l;
       let (lh1, h1) = set_node_next (Entry th) n (lh, rq_entry s);
       let (lh2, h2) = set_node_next l (Some th) (lh1, h1);
       Some (lh2, s\<lparr>rq_entry := h2\<rparr>)
     }
   }"

definition first_free :: "sm_timer_state \<Rightarrow> nat option" where
  "first_free s = find (\<lambda>i. \<not> in_use (sched_threads s i)) [nat KERNEL_PID_FIRST ..< Suc (nat KERNEL_PID_LAST)]"

definition thread_create_scheduler_internal ::
    "u8 \<Rightarrow> bool \<Rightarrow> u16 \<Rightarrow> sm_timer_state \<Rightarrow> (int \<times> sm_timer_state) option" where
  "thread_create_scheduler_internal prio sm thread_sp_init s =
     (case first_free s of
        None \<Rightarrow> Some (- EOVERFLOW, s)
      | Some i \<Rightarrow> do {
          s1 \<leftarrow> upd_thread (\<lambda>t. t\<lparr>in_use := True, pid := int i, priority := prio, is_sm := sm,
                                  sp := thread_sp_init\<rparr>) i s;
          let s2 = s1\<lparr>rq_entry := (rq_entry s1)(i := None)\<rparr>;
          let s3 = s2\<lparr>sched_num_threads := sched_num_threads s2 + 1\<rparr>;
          s4 \<leftarrow> sched_set_status i STATUS_PENDING s3;
          Some (int i, s4)
        })"

definition thread_create_protected_in_scheduler ::
    "u8 \<Rightarrow> u16 \<Rightarrow> u16 \<Rightarrow> u16 \<Rightarrow> sm_timer_state \<Rightarrow> (int \<times> sm_timer_state) option" where
  "thread_create_protected_in_scheduler prio thread_sp_init thread_entry thread_idx s = do {
     (p, s1) \<leftarrow> thread_create_scheduler_internal prio True thread_sp_init s;
     if p = KERNEL_PID_UNDEF then Some (p, s1)
     else do {
       i \<leftarrow> pid_index p;
       s2 \<leftarrow> upd_thread (sm_idx_update (\<lambda>_. thread_idx)) i s1;
       s3 \<leftarrow> upd_thread (sm_entry_update (\<lambda>_. thread_entry)) i s2;
       Some (p, s3)
     }
   }"

definition thread_create_unprotected_in_scheduler ::
    "u8 \<Rightarrow> u16 \<Rightarrow> sm_timer_state \<Rightarrow> (int \<times> sm_timer_state) option" where
  "thread_create_unprotected_in_scheduler prio thread_sp_init s =
     (if prio < SCHED_MAX_PRIO_LEVEL_UNPROTECTED then Some (- EINVAL, s)
      else thread_create_scheduler_internal prio False thread_sp_init s)"

definition thread_change_to_periodical :: "int \<Rightarrow> u16 \<Rightarrow> u32 \<Rightarrow> sm_timer_state \<Rightarrow> sm_timer_state option" where
  "thread_change_to_periodical p rt per s = do {
     i \<leftarrow> pid_index p;
     s1 \<leftarrow> sched_set_status i STATUS_SLEEPING s;
     s2 \<leftarrow> upd_thread (priority_update (\<lambda>_. SCHED_PERIODIC_PRIO_LEVEL)) i s1;
     s3 \<leftarrow> upd_thread (period_update (\<lambda>_. per)) i s2;
     let ((short_term, long_term), s4) = secure_mintimer_now_internal s3;
     s5 \<leftarrow> upd_thread (last_reference_update (\<lambda>_. short_term)) i s4;
     s6 \<leftarrow> upd_thread (last_runtime_update (\<lambda>_. 0)) i s5;
     s7 \<leftarrow> upd_thread (runtime_update (\<lambda>_. ucast rt)) i s6;
     s8 \<leftarrow> upd_thread (\<lambda>t. t\<lparr>original_idx := sm_idx t\<rparr>) i s7;
     secure_mintimer_tsleep_specific_pid per p s8
   }"

section \<open>Initial stacks\<close>

text \<open>
  The stack grows down in 16-bit words; \<open>mem\<close> is the memory as words at byte addresses. The
  pushes are, from the top: an unused word, the address of \<open>sched_task_exit\<close>, the task,
  the status register with interrupts enabled, the argument, and the numbers 4 to 14.
\<close>

definition GIE :: u16 where "GIE = 8"

definition push :: "u16 \<Rightarrow> u16 \<times> (u16 \<Rightarrow> u16) \<Rightarrow> u16 \<times> (u16 \<Rightarrow> u16)" where
  "push v = (\<lambda>(p, mem). (p - 2, mem(p - 2 := v)))"

definition thread_stack_init ::
    "u16 \<Rightarrow> u16 \<Rightarrow> u16 \<Rightarrow> u16 \<Rightarrow> u16 \<Rightarrow> (u16 \<Rightarrow> u16) \<Rightarrow> u16 \<times> (u16 \<Rightarrow> u16)" where
  "thread_stack_init task_exit task_func arg stack_start stack_size mem =
     (let stk = (stack_start + stack_size) AND 0xfffe;
          st0 = (stk - 2, mem);
          st1 = push task_exit st0;
          st2 = push task_func st1;
          st3 = push GIE st2;
          st4 = push arg st3
      in fold (\<lambda>i st. push (of_nat i) st) [4..<15] st4)"

definition thread_unprotected_stack_init :: "u16 \<Rightarrow> u16 \<Rightarrow> u16" where
  "thread_unprotected_stack_init stack_start stack_size =
     (let stk = (stack_start + stack_size) AND 0xfffe in stk - 2)"

text \<open>
  The alignment step shared by both creators: a two-byte boundary, the size rounded to it; the size
  is a signed number and C division truncates.
\<close>

definition align_stack :: "u16 \<Rightarrow> u16 \<Rightarrow> u16 \<times> u16" where
  "align_stack stack stacksize =
     (let misalignment = stack mod 2;
          (stack, stacksize) =
            (if misalignment \<noteq> 0 then (stack + (2 - misalignment), stacksize - (2 - misalignment))
             else (stack, stacksize))
      in (stack, stacksize - word_of_int (sint stacksize smod 2)))"

end
