(* ===== verification/Cpu.thy ===== *)
theory Cpu
  imports Thread
begin

text \<open>
  Entries into the protected module: \<open>exitless_entry\<close> of \<open>cpu/msp430-sancus/cpu.c\<close> with the
  context macros of \<open>include/cpu.h\<close>, the timer interrupt of \<open>periph/timer.c\<close>, and the
  unprotected functions of \<open>core/thread.c\<close> and \<open>core/kernel_init.c\<close> that call it. Registers are
  arguments; the identity of the caller, which the hardware reports, is one of them.
\<close>

datatype entry_type =
    EXITLESS_FUNCTION_TYPE_BOOT
  | EXITLESS_FUNCTION_TYPE_YIELD
  | EXITLESS_FUNCTION_TYPE_EXIT
  | EXITLESS_FUNCTION_TYPE_SCHED_SWITCH
  | EXITLESS_FUNCTION_TYPE_SLEEP

definition SM_ID_UNPROTECTED :: u16 where "SM_ID_UNPROTECTED = 0"

definition exit_isr :: "sm_timer_state \<Rightarrow> control option" where
  "exit_isr s = do {
     s1 \<leftarrow> (if sched_context_switch_request s then do { (_, s1) \<leftarrow> sched_run_internal s; Some s1 } else Some s);
     restore_context (s1\<lparr>sm_irq_is_in_flag := False\<rparr>)
   }"

text \<open>The first half of \<open>exitless_entry\<close>: storing the context of the active thread.\<close>

definition entry_store_context ::
    "entry_type \<Rightarrow> u16 \<Rightarrow> u16 \<Rightarrow> sm_timer_state \<Rightarrow> sm_timer_state option" where
  "entry_store_context ft sp_or_return caller_id s =
     (case sched_active_thread s of
        None \<Rightarrow> Some s
      | Some a \<Rightarrow>
          if ft = EXITLESS_FUNCTION_TYPE_EXIT then Some s
          else do {
            s1 \<leftarrow> upd_thread (sp_update (\<lambda>_. sp_or_return)) a s;
            if caller_id \<noteq> SM_ID_UNPROTECTED then
              upd_thread (\<lambda>t. t\<lparr>is_sm := True, sm_idx := 0xffff\<rparr>) a s1
            else upd_thread (is_sm_update (\<lambda>_. False)) a s1
          })"

definition entry_default :: "sm_timer_state \<Rightarrow> control option" where
  "entry_default s =
     (if TIMER_CTL s AND TIMER_CTL_IFG \<noteq> 0 \<or> TIMER_CCTL s 0 AND TIMER_CCTL_CCIFG \<noteq> 0 then do {
        s1 \<leftarrow> secure_mintimer_timer_callback (s\<lparr>sm_irq_is_in_flag := True\<rparr>);
        exit_isr (s1\<lparr>sched_context_switch_request := True\<rparr>)
      }
      else thread_yield_higher_internal True s)"

definition exitless_entry ::
    "u16 \<Rightarrow> entry_type \<Rightarrow> u16 \<Rightarrow> u16 \<Rightarrow> u32 \<Rightarrow> u16 \<Rightarrow> sm_timer_state \<Rightarrow> control option" where
  "exitless_entry sm_entry_addr ft sp_or_return prio_arg offset_arg caller_id s = do {
     s1 \<leftarrow> entry_store_context ft sp_or_return caller_id s;
     (case ft of
        EXITLESS_FUNCTION_TYPE_BOOT \<Rightarrow> entry_default (scheduler_init sm_entry_addr s1)
      | EXITLESS_FUNCTION_TYPE_EXIT \<Rightarrow> do { s2 \<leftarrow> sched_task_exit_internal s1; entry_default s2 }
      | EXITLESS_FUNCTION_TYPE_SCHED_SWITCH \<Rightarrow> do {
          c \<leftarrow> sched_switch_internal prio_arg s1;
          (case c of Return s2 \<Rightarrow> restore_context s2 | Resume s2 \<Rightarrow> Some (Resume s2))
        }
      | EXITLESS_FUNCTION_TYPE_SLEEP \<Rightarrow> do { s2 \<leftarrow> secure_mintimer_tsleep_internal offset_arg s1; entry_default s2 }
      | EXITLESS_FUNCTION_TYPE_YIELD \<Rightarrow> entry_default s1)
   }"

section \<open>The timer interrupt\<close>

text \<open>
  What was interrupted: unprotected code with its stack pointer after the registers were saved,
  a protected module, or a thread the scheduler had just resumed.
\<close>

datatype interrupted = From_unprotected u16 | From_sm | From_resume u16

definition save_context :: "interrupted \<Rightarrow> sm_timer_state \<Rightarrow> sm_timer_state option" where
  "save_context c s = do {
     a \<leftarrow> sched_active_thread s;
     t \<leftarrow> thread_at s a;
     (case c of
        From_unprotected r1 \<Rightarrow> do {
          s1 \<leftarrow> upd_thread (\<lambda>t. t\<lparr>is_sm := False, sp := r1\<rparr>) a s;
          Some (s1\<lparr>unprotected_sp := r1\<rparr>)
        }
      | From_sm \<Rightarrow> upd_thread (\<lambda>t. t\<lparr>is_sm := True, sp := unprotected_sp s\<rparr>) a s
      | From_resume r1 \<Rightarrow>
          if is_sm t then Some s
          else do { s1 \<leftarrow> upd_thread (sp_update (\<lambda>_. r1)) a s; Some (s1\<lparr>unprotected_sp := r1\<rparr>) })
   }"

definition isr_body :: "sm_timer_state \<Rightarrow> control option" where
  "isr_body s = do {
     let s1 = s\<lparr>TIMER_CCTL := (TIMER_CCTL s)(0 := TIMER_CCTL s 0 AND NOT TIMER_CCTL_CCIE)\<rparr>;
     s2 \<leftarrow> (if isr_cb_set s1 then periph_timer_callback 0 s1 else None);
     exit_isr s2
   }"

definition sm_timer_isr_func :: "bool \<Rightarrow> interrupted \<Rightarrow> sm_timer_state \<Rightarrow> control option" where
  "sm_timer_isr_func violation c s =
     (if violation then do {
        s1 \<leftarrow> sched_task_exit_internal s;
        if TIMER_CTL s1 AND TIMER_CTL_IFG \<noteq> 0 then isr_body (s1\<lparr>sm_irq_is_in_flag := True\<rparr>)
        else thread_yield_higher_internal True s1
      }
      else do {
        s1 \<leftarrow> save_context c s;
        isr_body (s1\<lparr>sm_irq_is_in_flag := True\<rparr>)
      })"

section \<open>Unprotected callers\<close>

definition thread_yield_higher :: "u16 \<Rightarrow> u16 \<Rightarrow> sm_timer_state \<Rightarrow> control option" where
  "thread_yield_higher r1 caller_id s = exitless_entry 0 EXITLESS_FUNCTION_TYPE_YIELD r1 0 0 caller_id s"

definition thread_yield :: "u16 \<Rightarrow> u16 \<Rightarrow> sm_timer_state \<Rightarrow> control option" where
  "thread_yield r1 caller_id s = thread_yield_higher r1 caller_id s"

definition sched_switch :: "u16 \<Rightarrow> u16 \<Rightarrow> u16 \<Rightarrow> sm_timer_state \<Rightarrow> control option" where
  "sched_switch other_prio r1 caller_id s =
     exitless_entry 0 EXITLESS_FUNCTION_TYPE_SCHED_SWITCH r1 other_prio 0 caller_id s"

definition cpu_switch_context_exit :: "u16 \<Rightarrow> u16 \<Rightarrow> sm_timer_state \<Rightarrow> control option" where
  "cpu_switch_context_exit r1 caller_id s = exitless_entry 0 EXITLESS_FUNCTION_TYPE_EXIT r1 0 0 caller_id s"

definition sched_task_exit :: "u16 \<Rightarrow> u16 \<Rightarrow> sm_timer_state \<Rightarrow> control option" where
  "sched_task_exit r1 caller_id s = cpu_switch_context_exit r1 caller_id s"

definition scheduler_kernel_init :: "u16 \<Rightarrow> u16 \<Rightarrow> u16 \<Rightarrow> sm_timer_state \<Rightarrow> control option" where
  "scheduler_kernel_init entry r1 caller_id s =
     exitless_entry entry EXITLESS_FUNCTION_TYPE_BOOT r1 0 0 caller_id s"

definition secure_mintimer_tsleep :: "u32 \<Rightarrow> u32 \<Rightarrow> u16 \<Rightarrow> u16 \<Rightarrow> sm_timer_state \<Rightarrow> control option" where
  "secure_mintimer_tsleep offset long_offset r1 caller_id s =
     exitless_entry 0 EXITLESS_FUNCTION_TYPE_SLEEP r1 0 offset caller_id s"

definition thread_sleep :: "bool \<Rightarrow> u16 \<Rightarrow> u16 \<Rightarrow> sm_timer_state \<Rightarrow> control option" where
  "thread_sleep irq_is_in r1 caller_id s =
     (if irq_is_in then Some (Return s)
      else do { s1 \<leftarrow> sched_set_own_status STATUS_SLEEPING s; thread_yield_higher r1 caller_id s1 })"

definition THREAD_CREATE_WOUT_YIELD :: u16 where "THREAD_CREATE_WOUT_YIELD = 4"
definition THREAD_CREATE_STACKTEST :: u16 where "THREAD_CREATE_STACKTEST = 8"
definition THREAD_PRIORITY_MIN :: u8 where "THREAD_PRIORITY_MIN = of_nat SCHED_PRIO_LEVELS - 1"
definition THREAD_PRIORITY_IDLE :: u8 where "THREAD_PRIORITY_IDLE = THREAD_PRIORITY_MIN"
definition THREAD_PRIORITY_MAIN :: u8 where
  "THREAD_PRIORITY_MAIN = THREAD_PRIORITY_MIN - of_nat SCHED_PRIO_LEVELS div 2"

text \<open>
  \<open>exit_addr\<close> is the address of \<open>sched_task_exit\<close>. The result is the pid the caller will see and
  where control is; with \<open>THREAD_CREATE_WOUT_YIELD\<close> it is always with the caller.
\<close>

definition thread_create ::
    "u16 \<Rightarrow> u16 \<Rightarrow> u16 \<Rightarrow> u8 \<Rightarrow> u16 \<Rightarrow> u16 \<Rightarrow> u16 \<Rightarrow> u16 \<Rightarrow> u16 \<Rightarrow> (u16 \<Rightarrow> u16) \<Rightarrow> sm_timer_state \<Rightarrow>
       (int \<times> (u16 \<Rightarrow> u16) \<times> control) option" where
  "thread_create exit_addr stack stacksize prio flags func arg r1 caller_id mem s =
     (if prio < SCHED_MAX_PRIO_LEVEL_UNPROTECTED then Some (- EINVAL, mem, Return s)
      else do {
        let (stack', size') = align_stack stack stacksize;
        let (thread_sp_init, mem') = thread_stack_init exit_addr func arg stack' size' mem;
        (p, s1) \<leftarrow> thread_create_unprotected_in_scheduler prio thread_sp_init s;
        if flags AND THREAD_CREATE_WOUT_YIELD = 0 then do {
          c \<leftarrow> sched_switch (ucast prio) r1 caller_id s1;
          Some (p, mem', c)
        }
        else Some (p, mem', Return s1)
      })"

definition thread_create_protected ::
    "u16 \<Rightarrow> u16 \<Rightarrow> u8 \<Rightarrow> u16 \<Rightarrow> u16 \<Rightarrow> u16 \<Rightarrow> u16 \<Rightarrow> u16 \<Rightarrow> sm_timer_state \<Rightarrow> (int \<times> control) option" where
  "thread_create_protected stack stacksize prio flags entry idx r1 caller_id s = do {
     let (stack', size') = align_stack stack stacksize;
     let thread_sp_init = thread_unprotected_stack_init stack' size';
     (p, s1) \<leftarrow> thread_create_protected_in_scheduler prio thread_sp_init entry idx s;
     if flags AND THREAD_CREATE_WOUT_YIELD = 0 then do {
       c \<leftarrow> sched_switch (ucast prio) r1 caller_id s1;
       Some (p, c)
     }
     else Some (p, Return s1)
   }"

definition kernel_init ::
    "u16 \<Rightarrow> u16 \<Rightarrow> u16 \<times> u16 \<Rightarrow> u16 \<times> u16 \<Rightarrow> u16 \<Rightarrow> u16 \<Rightarrow> u16 \<Rightarrow> (u16 \<Rightarrow> u16) \<Rightarrow> sm_timer_state \<Rightarrow>
       ((u16 \<Rightarrow> u16) \<times> control) option" where
  "kernel_init exit_addr entry idle_stack main_stack idle_thread main_trampoline r1 mem s = do {
     (_, mem1, c1) \<leftarrow> thread_create exit_addr (fst idle_stack) (snd idle_stack) THREAD_PRIORITY_IDLE
        (THREAD_CREATE_WOUT_YIELD OR THREAD_CREATE_STACKTEST) idle_thread 0 r1 SM_ID_UNPROTECTED mem s;
     s1 \<leftarrow> (case c1 of Return s1 \<Rightarrow> Some s1 | Resume _ \<Rightarrow> None);
     (_, mem2, c2) \<leftarrow> thread_create exit_addr (fst main_stack) (snd main_stack) THREAD_PRIORITY_MAIN
        (THREAD_CREATE_WOUT_YIELD OR THREAD_CREATE_STACKTEST) main_trampoline 0 r1 SM_ID_UNPROTECTED mem1 s1;
     s2 \<leftarrow> (case c2 of Return s2 \<Rightarrow> Some s2 | Resume _ \<Rightarrow> None);
     c3 \<leftarrow> scheduler_kernel_init entry r1 SM_ID_UNPROTECTED s2;
     Some (mem2, c3)
   }"

end
