(* ===== verification/Sched_Inv.thy ===== *)
theory Sched_Inv
  imports Cpu
begin

text \<open>
  The invariant that the entries of the protected module keep while no thread is periodic: the
  run queues hold exactly the runnable threads, every table slot in use describes its own index,
  a pending timer belongs to a sleeping thread, and the running thread is first in its queue.
\<close>

section \<open>The invariant\<close>

definition slot_ok :: "sm_timer_state \<Rightarrow> nat \<Rightarrow> bool" where
  "slot_ok s i \<longleftrightarrow> pid (sched_threads s i) = int i \<and> 1 \<le> i
     \<and> unat (priority (sched_threads s i)) < SCHED_PRIO_LEVELS
     \<and> priority (sched_threads s i) \<noteq> SCHED_PERIODIC_PRIO_LEVEL"

definition thr_inv :: "sm_timer_state \<Rightarrow> bool" where
  "thr_inv s \<longleftrightarrow>
     (\<forall>i \<le> MAXTHREADS. in_use (sched_threads s i) \<longrightarrow> slot_ok s i)
     \<and> (\<forall>i \<le> MAXTHREADS. on_rq (sched_threads s i) \<longrightarrow> in_use (sched_threads s i))
     \<and> (\<forall>a. sched_active_thread s = Some a \<longrightarrow>
            a \<le> MAXTHREADS \<and> in_use (sched_threads s a) \<and> sched_active_pid s = int a)"

definition timers_inv :: "sm_timer_state \<Rightarrow> timer_ref list \<Rightarrow> bool" where
  "timers_inv s Ts \<longleftrightarrow>
     (Scheduler_timer \<in> set Ts \<longrightarrow> thread (timers s Scheduler_timer) = None)
     \<and> (\<forall>th. Pool th \<in> set Ts \<longrightarrow> thread (timers s (Pool th)) = Some th \<and> th \<le> MAXTHREADS
          \<and> in_use (sched_threads s th) \<and> \<not> on_rq (sched_threads s th))"

lemma timers_inv_cong:
  assumes "timers_inv s Ts" and "\<And>t. t \<in> set Ts \<Longrightarrow> thread (timers s' t) = thread (timers s t)"
    and "\<And>th. Pool th \<in> set Ts \<Longrightarrow> in_use (sched_threads s' th) = in_use (sched_threads s th)
      \<and> on_rq (sched_threads s' th) = on_rq (sched_threads s th)"
  shows "timers_inv s' Ts"
  using assms unfolding timers_inv_def by simp

lemma timers_invD: "timers_inv s Ts \<Longrightarrow> Pool th \<in> set Ts \<Longrightarrow>
    thread (timers s (Pool th)) = Some th \<and> th \<le> MAXTHREADS \<and> in_use (sched_threads s th) \<and> \<not> on_rq (sched_threads s th)"
  by (auto simp: timers_inv_def)

definition sys_order :: "bool \<Rightarrow> sm_timer_state \<Rightarrow> (nat \<Rightarrow> nat list) \<Rightarrow> timer_ref list \<Rightarrow> timer_ref list \<Rightarrow> timer_ref list \<Rightarrow> bool" where
  "sys_order ord s Q T V L \<longleftrightarrow> rq_inv s Q \<and> tm_order ord s T V L \<and> thr_inv s \<and> timers_inv s (T @ V @ L)"

definition head_ok :: "sm_timer_state \<Rightarrow> (nat \<Rightarrow> nat list) \<Rightarrow> bool" where
  "head_ok s Q \<longleftrightarrow>
     (\<forall>a. sched_active_thread s = Some a \<longrightarrow>
        on_rq (sched_threads s a) \<and> hd (Q (unat (priority (sched_threads s a)))) = a)"

definition sys_inv_order :: "bool \<Rightarrow> sm_timer_state \<Rightarrow> (nat \<Rightarrow> nat list) \<Rightarrow> timer_ref list \<Rightarrow> timer_ref list \<Rightarrow> timer_ref list \<Rightarrow> bool" where
  "sys_inv_order ord s Q T V L \<longleftrightarrow> sys_order ord s Q T V L \<and> head_ok s Q"

text \<open>The invariants with the current list of timers in order.\<close>

abbreviation sys_pre :: "sm_timer_state \<Rightarrow> (nat \<Rightarrow> nat list) \<Rightarrow> timer_ref list \<Rightarrow> timer_ref list \<Rightarrow> timer_ref list \<Rightarrow> bool" where
  "sys_pre \<equiv> sys_order True"

abbreviation sys_inv :: "sm_timer_state \<Rightarrow> (nat \<Rightarrow> nat list) \<Rightarrow> timer_ref list \<Rightarrow> timer_ref list \<Rightarrow> timer_ref list \<Rightarrow> bool" where
  "sys_inv \<equiv> sys_inv_order True"

lemmas sys_pre_def = sys_order_def
lemmas sys_inv_def = sys_inv_order_def

lemma sys_inv_order_weaken: "sys_inv_order ord s Q T V L \<Longrightarrow> sys_inv_order False s Q T V L"
  by (auto simp: sys_inv_order_def sys_order_def intro: tm_order_weaken)

lemma sys_preD:
  assumes "sys_order ord s Q T V L"
  shows "rq_inv s Q" "tm_order ord s T V L" "thr_inv s" "timers_inv s (T @ V @ L)"
  using assms by (auto simp: sys_pre_def)

lemma thr_invI:
  assumes "\<And>i. i \<le> MAXTHREADS \<Longrightarrow> in_use (sched_threads s i) \<Longrightarrow> slot_ok s i"
    and "\<And>i. i \<le> MAXTHREADS \<Longrightarrow> on_rq (sched_threads s i) \<Longrightarrow> in_use (sched_threads s i)"
    and "\<And>a. sched_active_thread s = Some a \<Longrightarrow>
      a \<le> MAXTHREADS \<and> in_use (sched_threads s a) \<and> sched_active_pid s = int a"
  shows "thr_inv s"
  using assms by (simp add: thr_inv_def)

lemma thr_invD:
  assumes "thr_inv s" and "i \<le> MAXTHREADS" and "in_use (sched_threads s i)"
  shows "slot_ok s i" "unat (priority (sched_threads s i)) < SCHED_PRIO_LEVELS"
    "priority (sched_threads s i) \<noteq> SCHED_PERIODIC_PRIO_LEVEL" "pid (sched_threads s i) = int i"
  using assms by (auto simp: thr_inv_def slot_ok_def)

lemma periodic_level_empty: "sys_order ord s Q T V L \<Longrightarrow> Q (unat SCHED_PERIODIC_PRIO_LEVEL) = []"
proof -
  assume pre: "sys_order ord s Q T V L"
  let ?p = "unat SCHED_PERIODIC_PRIO_LEVEL"
  have p: "?p < SCHED_PRIO_LEVELS" by (simp add: kernel_consts)
  have "queued s ?p = {}"
    using sys_preD(3) [OF pre] by (auto simp: queued_def thr_inv_def slot_ok_def word_unat_eq_iff)
  then show ?thesis using rq_invD(2) [OF sys_preD(1) [OF pre] p] by simp
qed

lemma head_ok_extends:
  assumes pre: "sys_order ord s Q T V L" and ho: "head_ok s Q" and ex: "extends Q Q'"
    and act: "sched_active_thread s' = sched_active_thread s"
    and same: "\<And>a. sched_active_thread s = Some a \<Longrightarrow>
      priority (sched_threads s' a) = priority (sched_threads s a) \<and> (on_rq (sched_threads s a) \<longrightarrow> on_rq (sched_threads s' a))"
  shows "head_ok s' Q'"
  unfolding head_ok_def
proof (intro allI impI)
  fix a assume a: "sched_active_thread s' = Some a"
  then have ai: "sched_active_thread s = Some a" "on_rq (sched_threads s a)"
    and e: "priority (sched_threads s' a) = priority (sched_threads s a)" "on_rq (sched_threads s' a)"
    using act same ho by (auto simp: head_ok_def)
  note iv = sys_preD [OF pre]
  have al: "a \<le> MAXTHREADS" "in_use (sched_threads s a)" using iv(3) ai by (auto simp: thr_inv_def)
  let ?p = "unat (priority (sched_threads s a))"
  have "a \<in> set (Q ?p)"
    using rq_invD(2) [OF iv(1) thr_invD(2) [OF iv(3) al]] ai al by (auto simp: queued_def)
  moreover have "hd (Q ?p) = a" using ho ai by (simp add: head_ok_def)
  moreover obtain ys where "Q' ?p = Q ?p @ ys" using ex by (auto simp: extends_def)
  ultimately show "on_rq (sched_threads s' a) \<and> hd (Q' (unat (priority (sched_threads s' a)))) = a"
    by (cases "Q ?p") (auto simp: e)
qed

text \<open>The invariant only depends on these parts of the state.\<close>

lemma sys_pre_cong:
  assumes "sys_order ord s Q T V L"
    and "sched_threads s' = sched_threads s" "rq_entry s' = rq_entry s" "sched_runqueues s' = sched_runqueues s"
      "runqueue_bitcache s' = runqueue_bitcache s" "timers s' = timers s" "tm_next s' = tm_next s"
      "timer_list_head s' = timer_list_head s" "overflow_list_head s' = overflow_list_head s"
      "long_list_head s' = long_list_head s" "sched_active_thread s' = sched_active_thread s"
      "sched_active_pid s' = sched_active_pid s"
  shows "sys_order ord s' Q T V L"
  using assms unfolding sys_pre_def rq_inv_def queued_def tm_inv_def thr_inv_def timers_inv_def slot_ok_def
  by simp

section \<open>Dispatch\<close>

lemma sched_run_sys:
  assumes pre: "sys_order ord s Q T V L" and top: "top Q p"
  shows "sched_run_internal s =
      Some (if sched_active_thread s = Some (hd (Q p)) then 0 else 1,
            handed_over (sched_active_thread s) (hd (Q p)) s)"
    and "sys_inv_order ord (handed_over (sched_active_thread s) (hd (Q p)) s) Q T V L"
    and "sched_active_thread (handed_over (sched_active_thread s) (hd (Q p)) s) = Some (hd (Q p))"
proof -
  note inv = sys_preD [OF pre]
  define n where "n = hd (Q p)"
  define s' where "s' = handed_over (sched_active_thread s) n s"
  note th = top_head [OF inv(1) top, folded n_def]
  have act: "\<forall>a. sched_active_thread s = Some a \<longrightarrow> a \<le> MAXTHREADS" using inv(3) by (auto simp: thr_inv_def)
  have iu: "in_use (sched_threads s n)" using th inv(3) by (auto simp: thr_inv_def)
  have np: "p \<noteq> unat SCHED_PERIODIC_PRIO_LEVEL" using periodic_level_empty [OF pre] top by (auto simp: top_def)
  have "sched_run_internal s = sched_select (sched_active_thread s) s"
    using inv(3) by (auto simp: sched_run_internal_def thr_inv_def slot_ok_def split: option.splits)
  then show "sched_run_internal s =
      Some (if sched_active_thread s = Some (hd (Q p)) then 0 else 1,
            handed_over (sched_active_thread s) (hd (Q p)) s)"
    using sched_select_spec [OF inv(1) top act np] by simp
  have iu': "in_use (sched_threads s' i) = in_use (sched_threads s i)" for i
    by (auto simp: s'_def handed_over_def preempted_def split: option.splits)
  have f: "rq_inv s' Q" unfolding s'_def by (rule rq_inv_handed_over [OF inv(1) th(2)])
  have a': "sched_active_thread s' = Some n" by (auto simp: s'_def handed_over_def)
  then show "sched_active_thread (handed_over (sched_active_thread s) (hd (Q p)) s) = Some (hd (Q p))"
    by (simp add: s'_def n_def)
  have pid': "sched_active_pid s' = int n"
    using inv(3) thr_invD(4) [OF inv(3) th(1) iu] by (auto simp: s'_def handed_over_def thr_inv_def)
  have fl: "priority (sched_threads s' i) = priority (sched_threads s i)"
    "pid (sched_threads s' i) = pid (sched_threads s i)"
    "on_rq (sched_threads s' i) = on_rq (sched_threads s i)" for i
    unfolding s'_def by (simp_all add: handed_over_fields th(2))
  have "thr_inv s'" using inv(3) a' pid' iu th(1) by (auto simp: thr_inv_def slot_ok_def fl iu')
  moreover have "tm_order ord s' T V L" using inv(2) by (auto simp: tm_inv_def s'_def handed_over_def)
  moreover have "timers_inv s' (T @ V @ L)"
    by (rule timers_inv_cong [OF inv(4)]) (auto simp: fl iu', auto simp: s'_def handed_over_def)
  moreover have "head_ok s' Q" using a' th by (simp add: head_ok_def fl n_def)
  ultimately show "sys_inv_order ord (handed_over (sched_active_thread s) (hd (Q p)) s) Q T V L"
    using f by (simp add: sys_inv_def sys_pre_def s'_def n_def)
qed

text \<open>A yield moves the running thread to the end of its queue.\<close>

definition yielded :: "sm_timer_state \<Rightarrow> (nat \<Rightarrow> nat list) \<Rightarrow> nat \<Rightarrow> nat list" where
  "yielded s Q =
     (case sched_active_thread s of
        Some a \<Rightarrow>
          if on_rq (sched_threads s a)
          then Q(unat (priority (sched_threads s a)) := rotate1 (Q (unat (priority (sched_threads s a))))) else Q
      | None \<Rightarrow> Q)"

lemma yielded_set [simp]: "set (yielded s Q p) = set (Q p)" "yielded s Q p = [] \<longleftrightarrow> Q p = []"
  by (auto simp: yielded_def split: option.splits)

lemma sched_yield_sys:
  assumes pre: "sys_order ord s Q T V L" and nul: "sched_active_thread s = None \<longrightarrow> null_priority s \<noteq> SCHED_PERIODIC_PRIO_LEVEL"
  shows "\<exists>q. sched_yield s = Some (s\<lparr>sched_runqueues := q\<rparr>) \<and> sys_order ord (s\<lparr>sched_runqueues := q\<rparr>) (yielded s Q) T V L"
proof (cases "\<exists>a. sched_active_thread s = Some a \<and> on_rq (sched_threads s a)")
  case True
  then obtain a where a: "sched_active_thread s = Some a" "on_rq (sched_threads s a)" by blast
  note inv = sys_preD [OF pre]
  have al: "a \<le> MAXTHREADS" "in_use (sched_threads s a)" using inv(3) a by (auto simp: thr_inv_def)
  note sl = thr_invD [OF inv(3) al]
  let ?p = "unat (priority (sched_threads s a))"
  define q where "q = (sched_runqueues s)(?p := sm_clist_lpoprpush (rq_entry s) (sched_runqueues s ?p))"
  have "sched_yield s = Some (s\<lparr>sched_runqueues := q\<rparr>)"
    using a al sl(2,3) by (simp add: sched_yield_def runqueue_at_def on_rq_def q_def)
  moreover have "rq_inv (s\<lparr>sched_runqueues := q\<rparr>) (yielded s Q)"
    using rq_invD [OF inv(1)] rq.rotate_rep [OF rq_invD(1) [OF inv(1) sl(2)]]
    by (auto simp: rq_inv_def queued_def q_def) (auto simp: yielded_def a)
  moreover have "sys_order ord (s\<lparr>sched_runqueues := q\<rparr>) (yielded s Q) T V L"
    using inv calculation(2)
    by (simp add: sys_pre_def tm_inv_def thr_inv_def timers_inv_def slot_ok_def)
  ultimately show ?thesis by blast
next
  case False
  then have y: "yielded s Q = Q" by (auto simp: yielded_def split: option.splits)
  have "sched_yield s = Some s"
    using False nul sys_preD(3) [OF pre]
    by (auto simp: sched_yield_def thr_inv_def slot_ok_def on_rq_def split: option.splits)
  then show ?thesis using pre y by (intro exI [of _ "sched_runqueues s"]) simp
qed

lemma thread_yield_higher_shape:
  assumes pre: "sys_order ord s Q T V L" and top: "top Q p"
    and nul: "sched_active_thread s = None \<longrightarrow> null_priority s \<noteq> SCHED_PERIODIC_PRIO_LEVEL"
  shows "\<exists>s' q v. thread_yield_higher_internal True s = Some (Resume s') \<and> sys_inv_order ord s' (yielded s Q) T V L
    \<and> sched_active_thread s' = Some (hd (yielded s Q p))
    \<and> s' = (handed_over (sched_active_thread s) (hd (yielded s Q p)) (s\<lparr>sched_runqueues := q\<rparr>))\<lparr>unprotected_sp := v\<rparr>"
proof -
  obtain q where q: "sched_yield s = Some (s\<lparr>sched_runqueues := q\<rparr>)"
    "sys_order ord (s\<lparr>sched_runqueues := q\<rparr>) (yielded s Q) T V L"
    using sched_yield_sys [OF pre nul] by blast
  have top': "top (yielded s Q) p" using top by (simp add: top_def)
  let ?s1 = "s\<lparr>sched_runqueues := q\<rparr>"
  define s2 where "s2 = handed_over (sched_active_thread ?s1) (hd (yielded s Q p)) ?s1"
  note run = sched_run_sys [OF q(2) top', folded s2_def]
  have al: "hd (yielded s Q p) \<le> MAXTHREADS" using top_head(1) [OF sys_preD(1) [OF q(2)] top'] .
  define v where "v = (if is_sm (sched_threads s2 (hd (yielded s Q p))) then sp (sched_threads s2 (hd (yielded s Q p)))
      else sp (sched_threads s2 (hd (yielded s Q p))) + 24)"
  define s' where "s' = s2\<lparr>unprotected_sp := v\<rparr>"
  have "thread_yield_higher_internal True s = Some (Resume s')"
    using q(1) run(1,3) al by (simp add: thread_yield_higher_internal_def restore_context_def s'_def v_def)
  moreover have "sys_inv_order ord s' (yielded s Q) T V L"
    using run(2) unfolding sys_inv_def
    by (auto simp: s'_def head_ok_def intro: sys_pre_cong)
  moreover have "sched_active_thread s' = Some (hd (yielded s Q p))" using run(3) by (simp add: s'_def)
  moreover have "s' = (handed_over (sched_active_thread s) (hd (yielded s Q p)) (s\<lparr>sched_runqueues := q\<rparr>))
      \<lparr>unprotected_sp := v\<rparr>" by (simp add: s'_def s2_def)
  ultimately show ?thesis by blast
qed

lemma thread_yield_higher_sys:
  assumes "sys_order ord s Q T V L" and "top Q p"
    and "sched_active_thread s = None \<longrightarrow> null_priority s \<noteq> SCHED_PERIODIC_PRIO_LEVEL"
  shows "\<exists>s'. thread_yield_higher_internal True s = Some (Resume s') \<and> sys_inv_order ord s' (yielded s Q) T V L
    \<and> sched_active_thread s' = Some (hd (yielded s Q p))"
  using thread_yield_higher_shape [OF assms] by blast

text \<open>Threads that are not runnable keep their table entry, and no node of a list is relinked.\<close>

lemma handed_over_blocked:
  "on_rq (sched_threads s n) \<Longrightarrow> \<not> on_rq (sched_threads s i) \<Longrightarrow>
     sched_threads (handed_over act n s) i = sched_threads s i"
  by (auto simp: handed_over_def preempted_def on_rq_def STATUS_ON_RUNQUEUE_def split: option.splits)

section \<open>Exit\<close>

lemma sched_task_exit_sys:
  assumes inv: "sys_inv_order ord s Q T V L" and act: "sched_active_thread s = Some a"
  defines "p \<equiv> unat (priority (sched_threads s a))"
  shows "\<exists>s'. sched_task_exit_internal s = Some s' \<and> sys_order ord s' (Q(p := tl (Q p))) T V L
    \<and> sched_active_thread s' = None \<and> \<not> in_use (sched_threads s' a)
    \<and> status (sched_threads s' a) = STATUS_STOPPED \<and> null_priority s' = null_priority s
    \<and> (\<forall>i. i \<noteq> a \<longrightarrow> sched_threads s' i = sched_threads s i)
    \<and> sched_num_threads s' = sched_num_threads s - 1"
proof -
  have pre: "sys_order ord s Q T V L" and hd: "hd (Q p) = a" and on: "on_rq (sched_threads s a)"
    using inv act by (auto simp: sys_inv_def head_ok_def p_def)
  note i = sys_preD [OF pre]
  have a: "a \<le> MAXTHREADS" "in_use (sched_threads s a)" "sched_active_pid s = int a"
    using i(3) act by (auto simp: thr_inv_def)
  note sl = thr_invD [OF i(3) a(1,2)]
  have a1: "1 \<le> a" using sl(1) by (simp add: slot_ok_def)
  define s2 where "s2 = s\<lparr>sched_threads := (sched_threads s)(a := (sched_threads s a)\<lparr>in_use := False\<rparr>),
      sched_num_threads := sched_num_threads s - 1\<rparr>"
  have rq2: "rq_inv s2 Q" using i(1) by (auto simp: rq_inv_def queued_def s2_def on_rq_def)
  have t2: "sched_threads s2 a = (sched_threads s a)\<lparr>in_use := False\<rparr>" by (simp add: s2_def)
  have off: "\<not> STATUS_STOPPED \<ge> STATUS_ON_RUNQUEUE" by (simp add: STATUS_ON_RUNQUEUE_def status_order)
  obtain h q b where st: "sched_set_status a STATUS_STOPPED s2 = Some (s2\<lparr>rq_entry := h,
        sched_runqueues := (sched_runqueues s2)(p := q), runqueue_bitcache := b,
        sched_threads := (sched_threads s2)(a := (sched_threads s2 a)\<lparr>status := STATUS_STOPPED\<rparr>)\<rparr>)"
      and rq3: "rq_inv (s2\<lparr>rq_entry := h, sched_runqueues := (sched_runqueues s2)(p := q), runqueue_bitcache := b,
        sched_threads := (sched_threads s2)(a := (sched_threads s2 a)\<lparr>status := STATUS_STOPPED\<rparr>)\<rparr>) (Q(p := tl (Q p)))"
    using sched_set_status_dequeue [OF rq2 a(1), of STATUS_STOPPED] on off sl(2) hd t2
    by (auto simp: on_rq_def p_def)
  define s' where "s' = s2\<lparr>rq_entry := h, sched_runqueues := (sched_runqueues s2)(p := q), runqueue_bitcache := b,
        sched_threads := (sched_threads s2)(a := (sched_threads s2 a)\<lparr>status := STATUS_STOPPED\<rparr>),
        sched_active_thread := None\<rparr>"
  have ex: "sched_task_exit_internal s = Some s'"
    using a a1 act st
    by (simp add: sched_task_exit_internal_def pid_index_def kernel_consts Let_def s2_def s'_def)
  have oth: "sched_threads s' i = sched_threads s i" if "i \<noteq> a" for i using that by (simp add: s'_def s2_def)
  have ta: "sched_threads s' a = (sched_threads s a)\<lparr>in_use := False, status := STATUS_STOPPED\<rparr>"
    by (simp add: s'_def s2_def)
  have "rq_inv s' (Q(p := tl (Q p)))" using rq3 by (simp add: s'_def rq_inv_def queued_def)
  moreover have "tm_order ord s' T V L" using i(2) by (simp add: tm_inv_def s'_def s2_def)
  moreover have "thr_inv s'"
  proof (rule thr_invI)
    fix j assume j: "j \<le> MAXTHREADS"
    show "slot_ok s' j" if "in_use (sched_threads s' j)"
    proof -
      have "j \<noteq> a" using that ta by auto
      then show ?thesis using that j i(3) oth [of j] by (simp add: thr_inv_def slot_ok_def)
    qed
    show "in_use (sched_threads s' j)" if "on_rq (sched_threads s' j)"
    proof -
      have "j \<noteq> a" using that ta off by (auto simp: on_rq_def)
      then show ?thesis using that j i(3) oth [of j] by (simp add: thr_inv_def)
    qed
  qed (simp add: s'_def)
  moreover have "timers_inv s' (T @ V @ L)"
  proof (rule timers_inv_cong [OF i(4)])
    show "thread (timers s' t) = thread (timers s t)" for t by (simp add: s'_def s2_def)
    fix th assume "Pool th \<in> set (T @ V @ L)"
    then have "th \<noteq> a" using timers_invD [OF i(4)] on by blast
    then show "in_use (sched_threads s' th) = in_use (sched_threads s th)
        \<and> on_rq (sched_threads s' th) = on_rq (sched_threads s th)" by (simp add: oth)
  qed
  ultimately have "sys_order ord s' (Q(p := tl (Q p))) T V L" by (simp add: sys_pre_def)
  then show ?thesis using ex ta oth by (auto simp: s'_def s2_def)
qed

section \<open>Creation\<close>

lemma first_free_Some:
  assumes "first_free s = Some i"
  shows "1 \<le> i" "i \<le> MAXTHREADS" "\<not> in_use (sched_threads s i)"
    "\<And>j. 1 \<le> j \<Longrightarrow> j < i \<Longrightarrow> in_use (sched_threads s j)"
proof -
  obtain k where k: "k < length [1..<33]" "i = [1..<33::nat] ! k" "\<not> in_use (sched_threads s i)"
      "\<forall>j<k. in_use (sched_threads s ([1..<33] ! j))"
    using assms unfolding first_free_def find_Some_iff by (auto simp: kernel_consts eval_nat_numeral)
  then have i: "i = k + 1" "k < 32" by (simp_all add: nth_upt)
  show "1 \<le> i" "i \<le> MAXTHREADS" "\<not> in_use (sched_threads s i)" using i k(3) by (simp_all add: kernel_consts)
  show "in_use (sched_threads s j)" if "1 \<le> j" "j < i" for j
    using k(4) [rule_format, of "j - 1"] that i by (simp add: nth_upt)
qed

text \<open>The table entry that creation writes, before the thread is made runnable.\<close>

definition new_slot :: "u8 \<Rightarrow> bool \<Rightarrow> u16 \<Rightarrow> nat \<Rightarrow> thread_t \<Rightarrow> thread_t" where
  "new_slot prio sm sp0 i t = t\<lparr>in_use := True, pid := int i, priority := prio, is_sm := sm, sp := sp0\<rparr>"

lemma thread_create_sys:
  assumes inv: "sys_inv_order ord s Q T V L" and free: "first_free s = Some i"
    and lv: "unat prio < SCHED_PRIO_LEVELS" "prio \<noteq> SCHED_PERIODIC_PRIO_LEVEL"
  shows "\<exists>s'. thread_create_scheduler_internal prio sm sp0 s = Some (int i, s')
    \<and> sys_inv_order ord s' (Q(unat prio := Q (unat prio) @ [i])) T V L
    \<and> sched_threads s' = (sched_threads s)(i := (new_slot prio sm sp0 i (sched_threads s i))\<lparr>status := STATUS_PENDING\<rparr>)
    \<and> sched_active_thread s' = sched_active_thread s \<and> null_priority s' = null_priority s
    \<and> sched_num_threads s' = sched_num_threads s + 1"
proof -
  have pre: "sys_order ord s Q T V L" and ho: "head_ok s Q" using inv by (auto simp: sys_inv_def)
  note iv = sys_preD [OF pre]
  note fr = first_free_Some [OF free]
  have off: "\<not> on_rq (sched_threads s i)" using iv(3) fr by (auto simp: thr_inv_def)
  have notq: "i \<notin> set (Q r)" if "r < SCHED_PRIO_LEVELS" for r
    using rq_invD(2) [OF iv(1) that] off by (auto simp: queued_def)
  define s3 where "s3 = s\<lparr>sched_threads := (sched_threads s)(i := new_slot prio sm sp0 i (sched_threads s i)),
      rq_entry := (rq_entry s)(i := None), sched_num_threads := sched_num_threads s + 1\<rparr>"
  have t3: "sched_threads s3 i = new_slot prio sm sp0 i (sched_threads s i)" by (simp add: s3_def)
  have off3: "\<not> on_rq (sched_threads s3 i)" using off by (simp add: t3 on_rq_def new_slot_def)
  have qd: "queued s3 = queued s"
    using off off3 by (auto simp: queued_def s3_def fun_eq_iff)
  have rq3: "rq_inv s3 Q"
    using rq_invD [OF iv(1)] notq unfolding rq_inv_def qd by (auto simp: s3_def cring_frame)
  have on: "STATUS_PENDING \<ge> STATUS_ON_RUNQUEUE" by (simp add: STATUS_ON_RUNQUEUE_def status_order)
  obtain h q b where st: "sched_set_status i STATUS_PENDING s3 = Some (s3\<lparr>rq_entry := h,
        sched_runqueues := (sched_runqueues s3)(unat prio := q), runqueue_bitcache := b,
        sched_threads := (sched_threads s3)(i := (sched_threads s3 i)\<lparr>status := STATUS_PENDING\<rparr>)\<rparr>)"
      and rq4: "rq_inv (s3\<lparr>rq_entry := h, sched_runqueues := (sched_runqueues s3)(unat prio := q), runqueue_bitcache := b,
        sched_threads := (sched_threads s3)(i := (sched_threads s3 i)\<lparr>status := STATUS_PENDING\<rparr>)\<rparr>)
        (Q(unat prio := Q (unat prio) @ [i]))"
    using sched_set_status_enqueue [OF rq3 fr(2) off3 on] lv(1) by (auto simp: t3 new_slot_def)
  define s' where "s' = s3\<lparr>rq_entry := h, sched_runqueues := (sched_runqueues s3)(unat prio := q), runqueue_bitcache := b,
        sched_threads := (sched_threads s3)(i := (sched_threads s3 i)\<lparr>status := STATUS_PENDING\<rparr>)\<rparr>"
  have cr: "thread_create_scheduler_internal prio sm sp0 s = Some (int i, s')"
    using free fr(2) st by (simp add: thread_create_scheduler_internal_def Let_def s3_def s'_def new_slot_def)
  have oth: "sched_threads s' j = sched_threads s j" if "j \<noteq> i" for j using that by (simp add: s'_def s3_def)
  have ti: "sched_threads s' = (sched_threads s)(i := (new_slot prio sm sp0 i (sched_threads s i))\<lparr>status := STATUS_PENDING\<rparr>)"
    by (simp add: s'_def s3_def)
  have act: "sched_active_thread s' = sched_active_thread s" "sched_active_pid s' = sched_active_pid s"
    by (simp_all add: s'_def s3_def)
  have ne: "a \<noteq> i" if "sched_active_thread s = Some a" for a using that iv(3) fr(3) by (auto simp: thr_inv_def)
  have "thr_inv s'"
  proof (rule thr_invI)
    show "slot_ok s' j" if "j \<le> MAXTHREADS" "in_use (sched_threads s' j)" for j
      using that iv(3) oth [of j] fr(1) lv ti by (cases "j = i") (auto simp: thr_inv_def slot_ok_def new_slot_def)
    show "in_use (sched_threads s' j)" if "j \<le> MAXTHREADS" "on_rq (sched_threads s' j)" for j
      using that iv(3) oth [of j] ti by (cases "j = i") (auto simp: thr_inv_def new_slot_def)
    show "a \<le> MAXTHREADS \<and> in_use (sched_threads s' a) \<and> sched_active_pid s' = int a"
      if "sched_active_thread s' = Some a" for a
      using that iv(3) oth [of a] ne [of a] by (simp add: thr_inv_def act)
  qed
  moreover have "timers_inv s' (T @ V @ L)"
  proof (rule timers_inv_cong [OF iv(4)])
    show "thread (timers s' t) = thread (timers s t)" for t by (simp add: s'_def s3_def)
    fix th assume "Pool th \<in> set (T @ V @ L)"
    then have "th \<noteq> i" using timers_invD [OF iv(4)] fr(3) by blast
    then show "in_use (sched_threads s' th) = in_use (sched_threads s th)
        \<and> on_rq (sched_threads s' th) = on_rq (sched_threads s th)" by (simp add: oth)
  qed
  moreover have "tm_order ord s' T V L" using iv(2) by (simp add: tm_inv_def s'_def s3_def)
  moreover have "rq_inv s' (Q(unat prio := Q (unat prio) @ [i]))" using rq4 by (simp add: s'_def)
  moreover have "head_ok s' (Q(unat prio := Q (unat prio) @ [i]))"
    by (rule head_ok_extends [OF pre ho]) (use act ne oth in \<open>auto simp: extends_def\<close>)
  ultimately have "sys_inv_order ord s' (Q(unat prio := Q (unat prio) @ [i])) T V L"
    by (simp add: sys_inv_def sys_pre_def)
  then show ?thesis using cr ti act by (auto simp: s'_def s3_def)
qed

end
