(* ===== verification/Sched_Steps.thy ===== *)
theory Sched_Steps
  imports Sched_Inv
begin

text \<open>
  The remaining entries of the protected module (wake-up, sleep, timer interrupt) and the system
  as a step relation: in every state reachable by these entries, the invariant of
  \<open>Sched_Inv\<close> holds.
\<close>

section \<open>Wake-up\<close>

lemma set_runnable_pre:
  assumes pre: "sys_order ord s Q T V L" and i: "i \<le> MAXTHREADS" "in_use (sched_threads s i)" and off: "\<not> on_rq (sched_threads s i)"
    and on: "st \<ge> STATUS_ON_RUNQUEUE" and nt: "Pool i \<notin> set (T @ V @ L)"
  defines "lv \<equiv> unat (priority (sched_threads s i))"
  shows "\<exists>h q b. sched_set_status i st s = Some (s\<lparr>rq_entry := h,
        sched_runqueues := (sched_runqueues s)(lv := q), runqueue_bitcache := b,
        sched_threads := (sched_threads s)(i := (sched_threads s i)\<lparr>status := st\<rparr>)\<rparr>)
    \<and> sys_order ord (s\<lparr>rq_entry := h, sched_runqueues := (sched_runqueues s)(lv := q), runqueue_bitcache := b,
        sched_threads := (sched_threads s)(i := (sched_threads s i)\<lparr>status := st\<rparr>)\<rparr>) (Q(lv := Q lv @ [i])) T V L"
proof -
  note iv = sys_preD [OF pre]
  obtain h q b where st: "sched_set_status i st s = Some (s\<lparr>rq_entry := h,
        sched_runqueues := (sched_runqueues s)(lv := q), runqueue_bitcache := b,
        sched_threads := (sched_threads s)(i := (sched_threads s i)\<lparr>status := st\<rparr>)\<rparr>)"
      and rq: "rq_inv (s\<lparr>rq_entry := h, sched_runqueues := (sched_runqueues s)(lv := q), runqueue_bitcache := b,
        sched_threads := (sched_threads s)(i := (sched_threads s i)\<lparr>status := st\<rparr>)\<rparr>)
        (Q(lv := Q lv @ [i]))"
    using sched_set_status_enqueue [OF iv(1) i(1) off on thr_invD(2) [OF iv(3) i]] by (auto simp: lv_def)
  define s' where "s' = s\<lparr>rq_entry := h, sched_runqueues := (sched_runqueues s)(lv := q), runqueue_bitcache := b,
        sched_threads := (sched_threads s)(i := (sched_threads s i)\<lparr>status := st\<rparr>)\<rparr>"
  have th: "in_use (sched_threads s' j) = in_use (sched_threads s j)" "priority (sched_threads s' j) = priority (sched_threads s j)"
    "pid (sched_threads s' j) = pid (sched_threads s j)" "on_rq (sched_threads s' j) \<longleftrightarrow> j = i \<or> on_rq (sched_threads s j)" for j
    using on by (auto simp: s'_def on_rq_def)
  have act: "sched_active_thread s' = sched_active_thread s" "sched_active_pid s' = sched_active_pid s" by (simp_all add: s'_def)
  have "thr_inv s'" using iv(3) i unfolding thr_inv_def slot_ok_def th act by blast
  moreover have "timers_inv s' (T @ V @ L)"
  proof (rule timers_inv_cong [OF iv(4)])
    show "thread (timers s' t) = thread (timers s t)" for t by (simp add: s'_def)
    show "in_use (sched_threads s' th) = in_use (sched_threads s th) \<and> on_rq (sched_threads s' th) = on_rq (sched_threads s th)"
      if "Pool th \<in> set (T @ V @ L)" for th
      using that nt unfolding th by auto
  qed
  moreover have "tm_order ord s' T V L" using iv(2) by (simp add: tm_inv_def s'_def)
  ultimately have "sys_order ord s' (Q(lv := Q lv @ [i])) T V L" using rq by (simp add: sys_pre_def s'_def)
  then show ?thesis using st unfolding s'_def by blast
qed

lemma set_runnable_sys:
  assumes inv: "sys_inv_order ord s Q T V L" and i: "i \<le> MAXTHREADS" "in_use (sched_threads s i)" and off: "\<not> on_rq (sched_threads s i)"
    and on: "st \<ge> STATUS_ON_RUNQUEUE" and nt: "Pool i \<notin> set (T @ V @ L)"
  defines "lv \<equiv> unat (priority (sched_threads s i))"
  shows "\<exists>h q b. sched_set_status i st s = Some (s\<lparr>rq_entry := h,
        sched_runqueues := (sched_runqueues s)(lv := q), runqueue_bitcache := b,
        sched_threads := (sched_threads s)(i := (sched_threads s i)\<lparr>status := st\<rparr>)\<rparr>)
    \<and> sys_inv_order ord (s\<lparr>rq_entry := h, sched_runqueues := (sched_runqueues s)(lv := q), runqueue_bitcache := b,
        sched_threads := (sched_threads s)(i := (sched_threads s i)\<lparr>status := st\<rparr>)\<rparr>) (Q(lv := Q lv @ [i])) T V L"
proof -
  have pre: "sys_order ord s Q T V L" and ho: "head_ok s Q" using inv by (auto simp: sys_inv_def)
  obtain h q b where st: "sched_set_status i st s = Some (s\<lparr>rq_entry := h,
        sched_runqueues := (sched_runqueues s)(lv := q), runqueue_bitcache := b,
        sched_threads := (sched_threads s)(i := (sched_threads s i)\<lparr>status := st\<rparr>)\<rparr>)"
      and so: "sys_order ord (s\<lparr>rq_entry := h, sched_runqueues := (sched_runqueues s)(lv := q), runqueue_bitcache := b,
        sched_threads := (sched_threads s)(i := (sched_threads s i)\<lparr>status := st\<rparr>)\<rparr>) (Q(lv := Q lv @ [i])) T V L"
    using set_runnable_pre [OF pre i off on nt] unfolding lv_def by blast
  have "head_ok (s\<lparr>rq_entry := h, sched_runqueues := (sched_runqueues s)(lv := q), runqueue_bitcache := b,
        sched_threads := (sched_threads s)(i := (sched_threads s i)\<lparr>status := st\<rparr>)\<rparr>) (Q(lv := Q lv @ [i]))"
    by (rule head_ok_extends [OF pre ho]) (use on in \<open>auto simp: extends_def on_rq_def\<close>)
  then show ?thesis using st so unfolding sys_inv_def by blast
qed

lemma thread_wakeup_sys:
  assumes inv: "sys_inv_order ord s Q T V L" and p: "thread_get p = Some i" and sl: "status (sched_threads s i) = STATUS_SLEEPING"
    and iu: "in_use (sched_threads s i)" and nt: "Pool i \<notin> set (T @ V @ L)"
  defines "lv \<equiv> unat (priority (sched_threads s i))"
  shows "\<exists>s'. thread_wakeup p s = Some (1, s') \<and> sys_inv_order ord s' (Q(lv := Q lv @ [i])) T V L
    \<and> sched_active_thread s' = sched_active_thread s \<and> null_priority s' = null_priority s
    \<and> sched_threads s' = (sched_threads s)(i := (sched_threads s i)\<lparr>status := STATUS_RUNNING\<rparr>)"
proof -
  have i: "i \<le> MAXTHREADS" using p by (auto simp: thread_get_def pid_is_valid_def kernel_consts split: if_splits)
  have off: "\<not> on_rq (sched_threads s i)" by (simp add: on_rq_def sl STATUS_ON_RUNQUEUE_def status_order)
  have on: "STATUS_RUNNING \<ge> STATUS_ON_RUNQUEUE" by (simp add: STATUS_ON_RUNQUEUE_def)
  show ?thesis
    using set_runnable_sys [OF inv i iu off on nt] p i sl by (auto simp: thread_wakeup_def lv_def)
qed

section \<open>Blocking\<close>

lemma block_sys:
  assumes inv: "sys_inv_order ord s Q T V L" and act: "sched_active_thread s = Some a" and off: "\<not> st \<ge> STATUS_ON_RUNQUEUE"
  defines "p \<equiv> unat (priority (sched_threads s a))"
  shows "\<exists>h q b. sched_set_status a st s = Some (s\<lparr>rq_entry := h,
        sched_runqueues := (sched_runqueues s)(p := q), runqueue_bitcache := b,
        sched_threads := (sched_threads s)(a := (sched_threads s a)\<lparr>status := st\<rparr>)\<rparr>)
    \<and> sys_order ord (s\<lparr>rq_entry := h, sched_runqueues := (sched_runqueues s)(p := q), runqueue_bitcache := b,
        sched_threads := (sched_threads s)(a := (sched_threads s a)\<lparr>status := st\<rparr>)\<rparr>) (Q(p := tl (Q p))) T V L"
proof -
  have pre: "sys_order ord s Q T V L" and hd: "hd (Q p) = a" and on: "on_rq (sched_threads s a)"
    using inv act by (auto simp: sys_inv_def head_ok_def p_def)
  note iv = sys_preD [OF pre]
  have a: "a \<le> MAXTHREADS" "in_use (sched_threads s a)" "sched_active_pid s = int a"
    using iv(3) act by (auto simp: thr_inv_def)
  have nin: "Pool a \<notin> set (T @ V @ L)" using timers_invD [OF iv(4)] on by blast
  obtain h q b where st: "sched_set_status a st s = Some (s\<lparr>rq_entry := h,
        sched_runqueues := (sched_runqueues s)(p := q), runqueue_bitcache := b,
        sched_threads := (sched_threads s)(a := (sched_threads s a)\<lparr>status := st\<rparr>)\<rparr>)"
      and rq: "rq_inv (s\<lparr>rq_entry := h, sched_runqueues := (sched_runqueues s)(p := q), runqueue_bitcache := b,
        sched_threads := (sched_threads s)(a := (sched_threads s a)\<lparr>status := st\<rparr>)\<rparr>) (Q(p := tl (Q p)))"
    using sched_set_status_dequeue [OF iv(1) a(1) on off thr_invD(2) [OF iv(3) a(1,2)]] hd by (auto simp: p_def)
  define s' where "s' = s\<lparr>rq_entry := h, sched_runqueues := (sched_runqueues s)(p := q), runqueue_bitcache := b,
        sched_threads := (sched_threads s)(a := (sched_threads s a)\<lparr>status := st\<rparr>)\<rparr>"
  have "thr_inv s'"
    by (rule thr_invI; use iv(3) off in \<open>auto simp: s'_def thr_inv_def slot_ok_def on_rq_def split: if_splits\<close>)
  moreover have "timers_inv s' (T @ V @ L)"
    by (rule timers_inv_cong [OF iv(4)]) (use nin in \<open>auto simp: s'_def\<close>)
  moreover have "tm_order ord s' T V L" using iv(2) by (simp add: tm_inv_def s'_def)
  ultimately have "sys_order ord s' (Q(p := tl (Q p))) T V L" using rq by (simp add: sys_pre_def s'_def)
  then show ?thesis using st unfolding s'_def by blast
qed

section \<open>The timer interrupt\<close>

lemma wakeable_sys:
  assumes "sys_order ord s Q T V L" and "t \<in> set (T @ V @ L)"
  shows "wakeable s t"
  using sys_preD(4) [OF assms(1)] thr_invD(2) [OF sys_preD(3) [OF assms(1)]] assms(2)
  by (cases t) (auto simp: timers_inv_def wakeable_def)

lemma owners_sys: "sys_order ord s Q T V L \<Longrightarrow> set T1 \<subseteq> set (T @ V @ L) \<Longrightarrow> i \<in> owners s T1 \<longleftrightarrow> Pool i \<in> set T1"
proof -
  assume pre: "sys_order ord s Q T V L" and sub: "set T1 \<subseteq> set (T @ V @ L)"
  have "thread (timers s t) = Some i \<longleftrightarrow> t = Pool i" if "t \<in> set T1" for t
    using sys_preD(4) [OF pre] sub that by (cases t) (auto simp: timers_inv_def)
  then show ?thesis by (auto simp: owners_def)
qed

text \<open>Firing a leading part of the current list keeps the invariant.\<close>

lemma fired_sys:
  assumes inv: "sys_inv_order ord s Q (T1 @ T2) V L" and rq: "rq_inv s' Q'" and tm: "tm_order ord s' T2 V L" and ex: "extends Q Q'"
    and ctx: "same_ctx s s'" and ow: "only_woken (owners s T1) (sched_threads s) (sched_threads s')"
    and tms: "\<And>t. t \<notin> set T1 \<Longrightarrow> timers s' t = timers s t" and onr: "\<And>i. on_rq (sched_threads s i) \<Longrightarrow> on_rq (sched_threads s' i)"
  shows "sys_inv_order ord s' Q' T2 V L"
proof -
  have pre: "sys_order ord s Q (T1 @ T2) V L" and ho: "head_ok s Q" using inv by (auto simp: sys_inv_def)
  note iv = sys_preD [OF pre]
  have owi: "i \<in> owners s T1 \<longleftrightarrow> Pool i \<in> set T1" for i using owners_sys [OF pre, of T1] by auto
  have th: "in_use (sched_threads s' i) = in_use (sched_threads s i)" "priority (sched_threads s' i) = priority (sched_threads s i)"
    "pid (sched_threads s' i) = pid (sched_threads s i)" for i
    by (rule only_woken_fields [OF ow])+
  have onr': "on_rq (sched_threads s' i) \<Longrightarrow> on_rq (sched_threads s i) \<or> Pool i \<in> set T1" for i
    using ow owi unfolding only_woken_def by metis
  have act: "sched_active_thread s' = sched_active_thread s" "sched_active_pid s' = sched_active_pid s"
    using ctx by (simp_all add: same_ctx_def)
  have "in_use (sched_threads s i)" if "i \<le> MAXTHREADS" "on_rq (sched_threads s' i)" for i
    using onr' [OF that(2)] iv(3,4) that(1) by (auto simp: thr_inv_def timers_inv_def)
  then have "thr_inv s'" using iv(3) unfolding thr_inv_def slot_ok_def th act by blast
  moreover have "timers_inv s' (T2 @ V @ L)"
  proof (rule timers_inv_cong [where s = s])
    show "timers_inv s (T2 @ V @ L)" using iv(4) by (auto simp: timers_inv_def)
    have "distinct (T1 @ T2 @ V @ L)" using iv(2) by (auto simp: tm_inv_def)
    then have d: "t \<notin> set T1" if "t \<in> set (T2 @ V @ L)" for t using that by auto
    show "thread (timers s' t) = thread (timers s t)" if "t \<in> set (T2 @ V @ L)" for t using tms d [OF that] by simp
    show "in_use (sched_threads s' i) = in_use (sched_threads s i) \<and> on_rq (sched_threads s' i) = on_rq (sched_threads s i)"
      if "Pool i \<in> set (T2 @ V @ L)" for i
      using d [OF that] onr onr' th by blast
  qed
  moreover have "head_ok s' Q'"
    by (rule head_ok_extends [OF pre ho ex act(1)]) (simp add: th onr)
  ultimately show ?thesis using rq tm by (simp add: sys_inv_def sys_pre_def)
qed

lemma timer_callback_sys:
  assumes inv: "sys_inv_order ord s Q (A @ B) V L" and ne: "A @ B \<noteq> []"
    and ip: "in_period (ucast (hw_reads s (hw_k s))) N s" and J: "hw_k s \<le> J" "J + 2 * length A + 4 \<le> N"
    and A: "\<forall>t \<in> set A. secure_mintimer_lltimer_mask (target (timers s t)) \<le> ucast (hw_reads s J)"
    and B: "B \<noteq> [] \<longrightarrow> (\<forall>j \<ge> hw_k s. j \<le> N \<longrightarrow> far_off s (hd B) (hw_reads s j))"
  shows "\<exists>T1 T2 s' Q'. A = T1 @ T2 \<and> timer_callback s = Some s' \<and> sys_inv_order ord s' Q' (T2 @ B) V L \<and> fired_post s T1 s'
    \<and> extends Q Q' \<and> (\<forall>i. Pool i \<in> set T1 \<longrightarrow> on_rq (sched_threads s' i)) \<and> hw_k s' \<le> Suc N
    \<and> TIMER_CCR s' 0 = ucast (secure_mintimer_lltimer_mask (next_target_of s (T2 @ B)))
    \<and> (T2 @ B \<noteq> [] \<longrightarrow> (high_cnt s OR ucast (hw_reads s (hw_k s' - 1))) + 200 \<le> next_target_of s (T2 @ B))
    \<and> (J = hw_k s \<longrightarrow> T1 = A)"
proof -
  have pre: "sys_order ord s Q (A @ B) V L" using inv by (auto simp: sys_inv_def)
  note iv = sys_preD [OF pre]
  have wk: "\<forall>t \<in> set (A @ B). wakeable s t" using wakeable_sys [OF pre] by auto
  from timer_callback_in_period [OF iv(1,2) ne wk ip J A B]
  obtain T1 T2 s' Q' where r: "A = T1 @ T2" "timer_callback s = Some s'" "rq_inv s' Q'" "tm_order ord s' (T2 @ B) V L"
      "extends Q Q'" "hw_k s' \<le> Suc N" "TIMER_CCR s' 0 = ucast (secure_mintimer_lltimer_mask (next_target_of s (T2 @ B)))"
      "T2 @ B \<noteq> [] \<longrightarrow> (high_cnt s OR ucast (hw_reads s (hw_k s' - 1))) + 200 \<le> next_target_of s (T2 @ B)"
        "J = hw_k s \<longrightarrow> T1 = A"
      and fp: "fired_post s T1 s'"
    by (elim exE conjE) (rule that)
  have "sys_inv_order ord s Q (T1 @ (T2 @ B)) V L" using inv r(1) by simp
  then have inv': "sys_inv_order ord s' Q' (T2 @ B) V L"
    by (rule fired_sys [OF _ r(3,4,5)]) (use fp in \<open>auto simp: fired_post_def\<close>)
  have wake: "\<forall>i. Pool i \<in> set T1 \<longrightarrow> on_rq (sched_threads s' i)"
  proof (intro allI impI)
    fix i assume that: "Pool i \<in> set T1"
    have "thread (timers s (Pool i)) = Some i" using iv(4) that r(1) by (auto simp: timers_inv_def)
    moreover have "woken s' (timers s (Pool i))" using fp that by (auto simp: fired_post_def)
    ultimately show "on_rq (sched_threads s' i)" by (simp add: woken_def)
  qed
  show ?thesis
    using r(1,2) inv' fp r(5) wake r(6,7,8,9)
    by (intro exI [of _ T1] exI [of _ T2] exI [of _ s'] exI [of _ Q']) (intro conjI; assumption)
qed

text \<open>
  Whatever the counter shows, and also when periods end during the interrupt, a handler that returns keeps the invariant. The
  order of the current list is given up here.
\<close>

lemma sys_inv_cong:
  assumes inv: "sys_inv_order ord s Q T V L"
    and th: "sched_threads s' = sched_threads s" and "rq_entry s' = rq_entry s" "sched_runqueues s' = sched_runqueues s"
      "runqueue_bitcache s' = runqueue_bitcache s" "timers s' = timers s" "tm_next s' = tm_next s"
      "timer_list_head s' = timer_list_head s" "overflow_list_head s' = overflow_list_head s" "long_list_head s' = long_list_head s"
    and act: "sched_active_thread s' = sched_active_thread s" and "sched_active_pid s' = sched_active_pid s"
  shows "sys_inv_order ord s' Q T V L"
proof -
  have "sys_order ord s Q T V L" "head_ok s Q" using inv by (simp_all add: sys_inv_def)
  moreover have "head_ok s' Q" using calculation(2) by (simp add: head_ok_def th act)
  ultimately show ?thesis using sys_pre_cong assms by (simp add: sys_inv_def)
qed

lemma sys_inv_hw_k: "sys_inv_order ord s Q T V L \<Longrightarrow> sys_inv_order ord (s\<lparr>hw_k := k\<rparr>) Q T V L"
  unfolding sys_inv_def by (auto simp: head_ok_def intro: sys_pre_cong)

lemma next_period_sys:
  assumes inv: "sys_inv_order ord s Q T V L" and np: "next_period s = Some s'"
  shows "\<exists>T' L'. sys_inv_order False s' Q T' [] L'"
proof -
  have pre: "sys_order ord s Q T V L" and ho: "head_ok s Q" using inv by (auto simp: sys_inv_def)
  note iv = sys_preD [OF pre]
  define D R where "D = takeWhile (due (advanced s)) L" and "R = dropWhile (due (advanced s)) L"
  have n: "lists_only (advanced s) s'" "lseg (tm_next s') (timer_list_head s') (merged s V D) None"
    "overflow_list_head s' = None" "lseg (tm_next s') (long_list_head s') R None"
    using next_period_spec [OF iv(2)] np unfolding D_def R_def by auto
  note f = lists_only_fields [OF n(1), unfolded advanced_def, simplified]
  have dr: "D @ R = L" by (simp add: D_def R_def)
  have "distinct (V @ D @ R)" using iv(2) unfolding tm_inv_def dr by simp
  then have "distinct (V @ D)" "(set V \<union> set D) \<inter> set R = {}" "distinct R" by auto
  then have d: "distinct (merged s V D @ R)" "set (merged s V D @ R) \<subseteq> set (V @ L)"
    using distinct_merged [of V D s] set_merged [of s V D] dr by auto
  have "sorted_wrt (\<lambda>a b. long_before (timers s a) (timers s b)) (D @ R)" using iv(2) unfolding dr by (simp add: tm_inv_def)
  then have "tm_order False s' (merged s V D) [] R"
    using n d iv(2) by (auto simp: tm_inv_def f sorted_wrt_append)
  moreover have "rq_inv s' Q" "thr_inv s'" using iv(1,3) by (simp_all add: rq_inv_def queued_def thr_inv_def slot_ok_def f)
  moreover have "timers_inv s' (merged s V D @ [] @ R)"
    using iv(4) d(2) by (auto simp: timers_inv_def f)
  ultimately have "sys_inv_order False s' Q (merged s V D) [] R" using ho by (simp add: sys_inv_def sys_pre_def head_ok_def f)
  then show ?thesis by blast
qed

lemma expire_loop_sys:
  assumes inv: "sys_inv_order ord s Q T V L" and e: "expire_loop reference s = Some s'"
  shows "\<exists>Q' T'. sys_inv_order ord s' Q' T' V L"
proof -
  have pre: "sys_order ord s Q T V L" using inv by (simp add: sys_inv_def)
  note iv = sys_preD [OF pre]
  have "\<forall>t \<in> set T. wakeable s t" using wakeable_sys [OF pre] by simp
  then obtain T1 T2 Q' where r: "T = T1 @ T2" "rq_inv s' Q'" "tm_order ord s' T2 V L" "extends Q Q'" "expire_post reference s T1 T2 s'"
    using expire_loop_partial [OF iv(1,2) _ e] by blast
  have "sys_inv_order ord s' Q' T2 V L"
    by (rule fired_sys [OF inv [unfolded r(1)] r(2-4)]) (use r(5) in \<open>auto simp: expire_post_def\<close>)
  then show ?thesis by blast
qed

definition kept :: "sm_timer_state \<Rightarrow> sm_timer_state \<Rightarrow> bool" where
  "kept s s' \<longleftrightarrow> ((\<exists>Q T V L. sys_inv_order False s Q T V L) \<longrightarrow> (\<exists>Q T V L. sys_inv_order False s' Q T V L))"

lemma kept_trans: "kept s s1 \<Longrightarrow> kept s1 s2 \<Longrightarrow> kept s s2"
  by (simp add: kept_def)

lemma kept_hw_k: "kept s (s\<lparr>hw_k := k\<rparr>)"
  unfolding kept_def using sys_inv_hw_k by blast

lemma kept_parts:
  "next_period s = Some s' \<Longrightarrow> kept s s'" "expire_loop reference s = Some s' \<Longrightarrow> kept s s'" "wait_while P s = Some s' \<Longrightarrow> kept s s'"
proof -
  show "next_period s = Some s' \<Longrightarrow> kept s s'" unfolding kept_def using next_period_sys by blast
  show "expire_loop reference s = Some s' \<Longrightarrow> kept s s'" unfolding kept_def using expire_loop_sys by blast
  show "wait_while P s = Some s' \<Longrightarrow> kept s s'" using wait_while_Some kept_hw_k by blast
qed

lemma callback_overflow_kept:
  assumes ret: "callback_overflow reference s = Some r"
  shows "kept s (snd r)"
proof (rule callback_overflow.raw_induct [where P = "\<lambda>reference s r. kept s (snd r)", OF _ ret])
  fix f :: "u32 \<Rightarrow> sm_timer_state \<Rightarrow> (u32 \<times> sm_timer_state) option" and reference s r
  assume ih: "\<And>reference s r. f reference s = Some r \<Longrightarrow> kept s (snd r)"
    and body: "do {
     s1 \<leftarrow> expire_loop reference s;
     (case secure_mintimer_lltimer_now s1 of
        (v, s2) \<Rightarrow>
          if ucast (v + SECURE_MINTIMER_ISR_BACKOFF) < reference then do {
            s3 \<leftarrow> next_period s2;
            s4 \<leftarrow> wait_while (\<lambda>v. reference < v) s3;
            f 0 s4
          }
          else (case timer_list_head s2 of
            Some r \<Rightarrow> do {
              t \<leftarrow> timer_at s2 r;
              (now, s3) \<leftarrow> secure_mintimer_now s2;
              if target t - SECURE_MINTIMER_OVERHEAD < now + ucast SECURE_MINTIMER_ISR_BACKOFF
              then f reference s3
              else Some (target t - SECURE_MINTIMER_OVERHEAD, s3)
            }
          | None \<Rightarrow>
              (case secure_mintimer_lltimer_now s2 of
                 (v, s3) \<Rightarrow>
                   if ucast v < reference then do { s4 \<leftarrow> next_period s3; f 0 s4 }
                   else if secure_mintimer_lltimer_mask (ucast v + ucast SECURE_MINTIMER_ISR_BACKOFF) < ucast v
                   then do {
                     s4 \<leftarrow> wait_while (\<lambda>w. w \<ge> ucast v) s3;
                     s5 \<leftarrow> next_period s4;
                     f 0 s5
                   }
                   else Some (secure_mintimer_lltimer_mask 0xFFFFFFFF, s3)))) } = Some r"
  obtain s1 where s1: "expire_loop reference s = Some s1" using body by (auto split: bind_splits)
  define s2 where "s2 = s1\<lparr>hw_k := Suc (hw_k s1)\<rparr>"
  define s3 where "s3 = s2\<lparr>hw_k := Suc (hw_k s2)\<rparr>"
  have k2: "kept s s2" "kept s s3"
    using kept_trans [OF kept_parts(2) [OF s1] kept_hw_k] kept_trans [OF _ kept_hw_k, of s s2] by (simp_all add: s2_def s3_def)
  have later: "kept s (snd r)" if "kept s a" "f reference' a = Some r" for a reference'
    using kept_trans [OF that(1) ih [OF that(2)]] .
  have wrap: "kept s (snd r)" if "kept s a" "do { b \<leftarrow> next_period a; c \<leftarrow> wait_while P b; f 0 c } = Some r" for a P
  proof -
    note H = that
    obtain b c where b: "next_period a = Some b" "wait_while P b = Some c" "f 0 c = Some r" using H(2) by (auto split: bind_splits)
    show ?thesis by (rule later [OF kept_trans [OF kept_trans [OF H(1) kept_parts(1) [OF b(1)]] kept_parts(3) [OF b(2)]] b(3)])
  qed
  have spin: "kept s (snd r)" if "kept s a" "do { b \<leftarrow> wait_while P a; c \<leftarrow> next_period b; f 0 c } = Some r" for a P
  proof -
    note H = that
    obtain b c where b: "wait_while P a = Some b" "next_period b = Some c" "f 0 c = Some r" using H(2) by (auto split: bind_splits)
    show ?thesis by (rule later [OF kept_trans [OF kept_trans [OF H(1) kept_parts(3) [OF b(1)]] kept_parts(1) [OF b(2)]] b(3)])
  qed
  have step: "kept s (snd r)" if "kept s a" "do { b \<leftarrow> next_period a; f 0 b } = Some r" for a
  proof -
    note H = that
    obtain b where b: "next_period a = Some b" "f 0 b = Some r" using H(2) by (auto split: bind_splits)
    show ?thesis by (rule later [OF kept_trans [OF H(1) kept_parts(1) [OF b(1)]] b(2)])
  qed
  show "kept s (snd r)"
    using body s1 k2 wrap [OF k2(1)] spin [OF k2(2)] step [OF k2(2)] later [OF k2(2)]
    by (auto simp: s2_def [symmetric] s3_def [symmetric] secure_mintimer_now_eq split: if_splits option.splits bind_splits)
qed

lemma timer_callback_kept:
  assumes "timer_callback s = Some s'"
  shows "kept s s'"
proof -
  have flag: "kept s (s\<lparr>in_handler := b\<rparr>)" for s b
    unfolding kept_def by (intro impI, elim exE, intro exI, erule sys_inv_cong) simp_all
  have set: "kept s ((lltimer_set v s)\<lparr>TIMER_CTL := w\<rparr>)" for s v w
    unfolding kept_def
    by (intro impI, elim exE, intro exI, erule sys_inv_cong) (simp_all add: lltimer_set_def sm_timer_set_absolute_def Let_def)
  let ?s1 = "s\<lparr>in_handler := True\<rparr>"
  obtain reference s2 nt s3 where r: "(if timer_list_head ?s1 = None then do {
          s2 \<leftarrow> next_period ?s1;
          s3 \<leftarrow> wait_while (\<lambda>v. v = secure_mintimer_lltimer_mask 0xFFFFFFFF) s2;
          Some (0, s3)
        }
        else (case secure_mintimer_lltimer_now ?s1 of (v, s2) \<Rightarrow> Some (ucast v, s2))) = Some (reference, s2)"
      "callback_overflow reference s2 = Some (nt, s3)"
      "s' = (lltimer_set nt (s3\<lparr>in_handler := False\<rparr>))\<lparr>TIMER_CTL := TIMER_CTL (lltimer_set nt (s3\<lparr>in_handler := False\<rparr>)) AND NOT TIMER_CTL_IFG\<rparr>"
    using assms by (auto simp: timer_callback_def Let_def split: bind_splits)
  have "kept ?s1 s2"
    using r(1) kept_hw_k kept_trans [OF kept_parts(1) kept_parts(3)] by (fastforce split: if_splits bind_splits)
  moreover have "kept s2 s3" using callback_overflow_kept [OF r(2)] by simp
  ultimately have "kept s (s3\<lparr>in_handler := False\<rparr>)" using flag kept_trans by metis
  then show ?thesis unfolding r(3) using set kept_trans by blast
qed

section \<open>Sleep\<close>

text \<open>
  The sleeping thread's timer goes to the list its target asks for; with the target more than the
  back-off ahead there is no busy wait.
\<close>

lemma tsleep_prepare:
  assumes pre: "sys_order ord s Q T V L" and ok: "timer_ok (Pool a)" and nin: "Pool a \<notin> set (T @ V @ L)"
  shows "\<exists>s1. lists_only s s1 \<and> get_available_timer (int a) s =
      Some (Some (Pool a), s1\<lparr>timers := (timers s)(Pool a := cleared (timers s (Pool a)))\<rparr>)
    \<and> tm_order ord (s1\<lparr>timers := (timers s)(Pool a := cleared (timers s (Pool a)))\<rparr>) T V L"
proof -
  have rem: "(if is_set (timers s (Pool a)) then remove1 (Pool a) xs else xs) = xs"
    if "set xs \<subseteq> set (T @ V @ L)" for xs
  proof -
    have "Pool a \<notin> set xs" using nin that by blast
    then show ?thesis by (simp add: remove1_idem)
  qed
  have r: "(if is_set (timers s (Pool a)) then remove1 (Pool a) T else T) = T"
    "(if is_set (timers s (Pool a)) then remove1 (Pool a) V else V) = V"
    "(if is_set (timers s (Pool a)) then remove1 (Pool a) L else L) = L"
    by (rule rem [of T], simp, rule rem [of V], force, rule rem [of L], force)
  obtain s1 where "lists_only s s1"
      "secure_mintimer_remove (Pool a) s = Some (s1\<lparr>timers := (timers s)(Pool a := cleared (timers s (Pool a)))\<rparr>)"
      "tm_order ord (s1\<lparr>timers := (timers s)(Pool a := cleared (timers s (Pool a)))\<rparr>) T V L"
    using secure_mintimer_remove_spec [OF sys_preD(2) [OF pre] ok] unfolding r by blast
  moreover have "int a \<le> int SECURE_MINTIMER_TIMER_LIST_LENGTH"
    using ok by (simp add: SECURE_MINTIMER_TIMER_LIST_LENGTH_def)
  ultimately show ?thesis by (auto simp: get_available_timer_def)
qed

lemma mset_entered:
  "mset (entered b h s t xs) = (if h then add_mset t (mset xs) else mset xs)"
  using arg_cong [OF takeWhile_dropWhile_id [of "\<lambda>x. b (timers s x) (timers s t)" xs], of mset]
  by (simp add: entered_def placed_def del: takeWhile_dropWhile_id)

text \<open>What a sleep does before the timer is set: the thread leaves its queue, and its timer, which is on no list, is cleared.\<close>

lemma tsleep_until_set:
  fixes off :: u32
  assumes inv: "sys_inv_order ord s Q T V L" and act: "sched_active_thread s = Some a" and slot: "timer_ok (Pool a)"
  defines "p \<equiv> unat (priority (sched_threads s a))"
    and "tgt \<equiv> (high_cnt s OR ucast (hw_reads s (hw_k s))) + off"
  shows "\<exists>s5. secure_mintimer_tsleep_internal off s = do { (_, s') \<leftarrow> secure_mintimer_set_absolute (Pool a) tgt s5; Some s' }
    \<and> sys_order ord s5 (Q(p := tl (Q p))) T V L \<and> Pool a \<notin> set (T @ V @ L) \<and> \<not> is_set (timers s5 (Pool a))
    \<and> high_cnt s5 = high_cnt s \<and> hw_reads s5 = hw_reads s \<and> hw_k s5 = Suc (hw_k s)
    \<and> thread (timers s5 (Pool a)) = Some a \<and> (\<forall>t. t \<noteq> Pool a \<longrightarrow> timers s5 t = timers s t)
    \<and> sched_threads s5 = (sched_threads s)(a := (sched_threads s a)\<lparr>status := STATUS_SLEEPING\<rparr>)
    \<and> sched_active_thread s5 = Some a \<and> sched_active_pid s5 = sched_active_pid s"
proof -
  have pre: "sys_order ord s Q T V L" and hd: "hd (Q p) = a" and on: "on_rq (sched_threads s a)"
    using inv act by (auto simp: sys_inv_def head_ok_def p_def)
  note iv = sys_preD [OF pre]
  have a: "a \<le> MAXTHREADS" "in_use (sched_threads s a)" "sched_active_pid s = int a"
    using iv(3) act by (auto simp: thr_inv_def)
  note sl = thr_invD [OF iv(3) a(1,2)]
  have nin: "Pool a \<notin> set (T @ V @ L)" using timers_invD [OF iv(4)] on by blast
  obtain s1 where lo: "lists_only s s1" and get: "get_available_timer (int a) s =
      Some (Some (Pool a), s1\<lparr>timers := (timers s)(Pool a := cleared (timers s (Pool a)))\<rparr>)"
    and tmA: "tm_order ord (s1\<lparr>timers := (timers s)(Pool a := cleared (timers s (Pool a)))\<rparr>) T V L"
    using tsleep_prepare [OF pre slot nin] by blast
  note lf = lists_only_fields [OF lo]
  define ta where "ta = (cleared (timers s (Pool a)))\<lparr>thread := Some a\<rparr>"
  define s3 where "s3 = s1\<lparr>timers := (timers s)(Pool a := ta)\<rparr>"
  have rq3: "rq_inv s3 Q" using iv(1) lf by (simp add: rq_inv_def queued_def s3_def)
  have th3: "sched_threads s3 = sched_threads s" by (simp add: s3_def lf)
  have off: "\<not> STATUS_SLEEPING \<ge> STATUS_ON_RUNQUEUE" by (simp add: STATUS_ON_RUNQUEUE_def status_order)
  obtain h q b where st: "sched_set_status a STATUS_SLEEPING s3 = Some (s3\<lparr>rq_entry := h,
        sched_runqueues := (sched_runqueues s3)(p := q), runqueue_bitcache := b,
        sched_threads := (sched_threads s)(a := (sched_threads s a)\<lparr>status := STATUS_SLEEPING\<rparr>)\<rparr>)"
      and rq4: "rq_inv (s3\<lparr>rq_entry := h, sched_runqueues := (sched_runqueues s3)(p := q), runqueue_bitcache := b,
        sched_threads := (sched_threads s)(a := (sched_threads s a)\<lparr>status := STATUS_SLEEPING\<rparr>)\<rparr>) (Q(p := tl (Q p)))"
    using sched_set_status_dequeue [OF rq3 a(1), of STATUS_SLEEPING] on off sl(2) hd
    by (auto simp: th3 p_def)
  define s4 where "s4 = s3\<lparr>rq_entry := h, sched_runqueues := (sched_runqueues s3)(p := q), runqueue_bitcache := b,
        sched_threads := (sched_threads s)(a := (sched_threads s a)\<lparr>status := STATUS_SLEEPING\<rparr>)\<rparr>"
  define s5 where "s5 = s4\<lparr>hw_k := Suc (hw_k s)\<rparr>"
  have f5: "high_cnt s5 = high_cnt s" "hw_reads s5 = hw_reads s" "hw_k s5 = Suc (hw_k s)" "timers s5 = (timers s)(Pool a := ta)"
    "sched_threads s5 = (sched_threads s)(a := (sched_threads s a)\<lparr>status := STATUS_SLEEPING\<rparr>)"
    "sched_active_thread s5 = Some a" "sched_active_pid s5 = sched_active_pid s"
    using act by (simp_all add: s5_def s4_def s3_def lf)
  have unset: "\<not> is_set (timers s5 (Pool a))" by (simp add: f5 ta_def cleared_def is_set_def)
  have ts: "secure_mintimer_tsleep_internal off s = do { (_, s') \<leftarrow> secure_mintimer_set_absolute (Pool a) tgt s5; Some s' }"
  proof -
    have "secure_mintimer_remove (Pool a) s4 = Some s4"
      using unset slot by (simp add: secure_mintimer_remove_def s5_def)
    moreover have "secure_mintimer_now s4 = Some (high_cnt s OR ucast (hw_reads s (hw_k s)), s5)"
      by (simp add: secure_mintimer_now_eq s5_def s4_def s3_def lf)
    ultimately have "secure_mintimer_set (Pool a) off s4 =
        do { (_, s') \<leftarrow> secure_mintimer_set_absolute (Pool a) tgt s5; Some s' }"
      by (simp add: secure_mintimer_set_def tgt_def)
    moreover have "secure_mintimer_tsleep_specific_pid off (int a) s =
        do { s4' \<leftarrow> sched_set_status a STATUS_SLEEPING s3; secure_mintimer_set (Pool a) off s4' }"
      using slot by (simp add: secure_mintimer_tsleep_specific_pid_def get s3_def ta_def cleared_def)
    ultimately show ?thesis
      using act a(1) sl(4) st by (simp add: secure_mintimer_tsleep_internal_def s4_def)
  qed
  have "tm_order ord s3 T V L"
    by (rule tm_inv_timers_cong [OF tmA]) (use nin in \<open>auto simp: s3_def\<close>)
  then have "tm_order ord s5 T V L" by (simp add: tm_inv_def s5_def s4_def)
  moreover have "rq_inv s5 (Q(p := tl (Q p)))" using rq4 by (simp add: rq_inv_def queued_def s5_def s4_def)
  moreover have "thr_inv s5"
    by (rule thr_invI; use iv(3) off act in \<open>auto simp: f5 thr_inv_def slot_ok_def on_rq_def split: if_splits\<close>)
  moreover have "timers_inv s5 (T @ V @ L)"
    by (rule timers_inv_cong [OF iv(4)]) (use nin in \<open>auto simp: f5\<close>)
  ultimately have "sys_order ord s5 (Q(p := tl (Q p))) T V L" by (simp add: sys_pre_def)
  moreover have "thread (timers s5 (Pool a)) = Some a" "\<forall>t. t \<noteq> Pool a \<longrightarrow> timers s5 t = timers s t" by (simp_all add: f5 ta_def)
  ultimately show ?thesis using ts nin unset f5 by blast
qed

lemma tsleep_sys:
  assumes inv: "sys_inv_order ord s Q T V L" and act: "sched_active_thread s = Some a" and slot: "timer_ok (Pool a)"
    and far: "(high_cnt s OR ucast (hw_reads s (hw_k s))) + off
      - (high_cnt s OR ucast (hw_reads s (Suc (hw_k s)))) > SECURE_MINTIMER_BACKOFF"
  defines "p \<equiv> unat (priority (sched_threads s a))"
  shows "\<exists>s' T' V' L'. secure_mintimer_tsleep_internal off s = Some s' \<and> sys_order ord s' (Q(p := tl (Q p))) T' V' L'
    \<and> mset (T' @ V' @ L') = add_mset (Pool a) (mset (T @ V @ L))
    \<and> sched_active_thread s' = Some a
    \<and> sched_threads s' = (sched_threads s)(a := (sched_threads s a)\<lparr>status := STATUS_SLEEPING\<rparr>)"
proof -
  define tgt where "tgt = (high_cnt s OR ucast (hw_reads s (hw_k s))) + off"
  obtain s5 where ts: "secure_mintimer_tsleep_internal off s = do { (_, s') \<leftarrow> secure_mintimer_set_absolute (Pool a) tgt s5; Some s' }"
      and pre5: "sys_order ord s5 (Q(p := tl (Q p))) T V L" and nin: "Pool a \<notin> set (T @ V @ L)" and unset: "\<not> is_set (timers s5 (Pool a))"
      and f5: "high_cnt s5 = high_cnt s" "hw_reads s5 = hw_reads s" "hw_k s5 = Suc (hw_k s)"
        "thread (timers s5 (Pool a)) = Some a" "\<forall>t. t \<noteq> Pool a \<longrightarrow> timers s5 t = timers s t"
        "sched_threads s5 = (sched_threads s)(a := (sched_threads s a)\<lparr>status := STATUS_SLEEPING\<rparr>)"
        "sched_active_thread s5 = Some a" "sched_active_pid s5 = sched_active_pid s"
    using tsleep_until_set [OF inv act slot, of off] unfolding p_def tgt_def by blast
  note iv = sys_preD [OF pre5]
  have far5: "tgt - (high_cnt s5 OR ucast (hw_reads s5 (hw_k s5))) > SECURE_MINTIMER_BACKOFF"
    using far by (simp add: f5 tgt_def)
  define now where "now = high_cnt s5 OR ucast (hw_reads s5 (hw_k s5))"
  define t0 where "t0 = (timers s5 (Pool a))\<lparr>target := tgt, long_target := long_cnt s5\<rparr>"
  define s0 where "s0 = s5\<lparr>hw_k := Suc (hw_k s5), timers := (timers s5)(Pool a := rolled_over t0 now)\<rparr>"
  define d where "d = destination s5 t0 now"
  obtain s' where s': "secure_mintimer_set_absolute (Pool a) tgt s5 = Some (0, s')" "lists_only s0 s'"
      "tm_order ord s' (entered short_before (d = Timer_list) s0 (Pool a) T)
        (entered short_before (d = Overflow_list) s0 (Pool a) V) (entered long_before (d = Long_list) s0 (Pool a) L)"
    using set_absolute_spec [OF iv(2) slot nin unset far5] unfolding s0_def d_def t0_def now_def by blast
  have tx: "thread (rolled_over t0 now) = Some a" by (simp add: rolled_over_def t0_def f5)
  have d: "d \<in> {Timer_list, Overflow_list, Long_list}" by (simp add: d_def destination_def)
  note lf' = lists_only_fields [OF s'(2)]
  let ?T = "entered short_before (d = Timer_list) s0 (Pool a) T" and ?V = "entered short_before (d = Overflow_list) s0 (Pool a) V"
    and ?L = "entered long_before (d = Long_list) s0 (Pool a) L"
  have ms: "mset (?T @ ?V @ ?L) = add_mset (Pool a) (mset (T @ V @ L))" using d by (auto simp: mset_entered)
  have sets: "set (?T @ ?V @ ?L) = insert (Pool a) (set (T @ V @ L))"
    using arg_cong [OF ms, of set_mset] by (simp only: set_mset_mset set_mset_add_mset_insert)
  have ths: "sched_threads s' = sched_threads s5" "sched_active_thread s' = sched_active_thread s5" "sched_active_pid s' = sched_active_pid s5"
    using lf' by (simp_all add: s0_def)
  have tms: "thread (timers s' (Pool a)) = Some a" "\<And>t. t \<noteq> Pool a \<Longrightarrow> timers s' t = timers s5 t"
    using lf'(1) tx by (simp_all add: s0_def)
  have a: "a \<le> MAXTHREADS" "in_use (sched_threads s5 a)" using iv(3) f5(7) by (auto simp: thr_inv_def)
  have off: "\<not> on_rq (sched_threads s5 a)" by (simp add: f5 on_rq_def STATUS_ON_RUNQUEUE_def status_order)
  have "rq_inv s' (Q(p := tl (Q p)))" using iv(1) lf' by (simp add: rq_inv_def queued_def s0_def)
  moreover have "thr_inv s'" using iv(3) by (simp add: thr_inv_def slot_ok_def ths)
  moreover have "timers_inv s' (?T @ ?V @ ?L)"
  proof -
    have "thread (timers s' t) = thread (timers s5 t)" for t using tms f5(4) by (cases "t = Pool a") simp_all
    then show ?thesis unfolding timers_inv_def sets using iv(4) a off f5(4) unfolding timers_inv_def ths by simp
  qed
  ultimately have "sys_order ord s' (Q(p := tl (Q p))) ?T ?V ?L" using s'(3) by (simp add: sys_pre_def)
  then show ?thesis using ts s'(1) ms ths f5 by (intro exI [of _ s'] exI [of _ ?T] exI [of _ ?V] exI [of _ ?L]) simp
qed

text \<open>
  A sleep within the back-off spins until the target and makes the thread runnable again, behind the others of its
  priority; no timer is entered.
\<close>

lemma spin_until_Some:
  assumes "secure_mintimer_spin_until tgt s = Some s'"
  shows "\<exists>k \<ge> hw_k s. s' = s\<lparr>hw_k := Suc k\<rparr> \<and> secure_mintimer_lltimer_mask tgt \<le> ucast (hw_reads s k)"
proof -
  let ?m = "secure_mintimer_lltimer_mask tgt"
  obtain s1 where s1: "wait_while (\<lambda>v. v > ?m) s = Some s1" "wait_while (\<lambda>v. v < ?m) s1 = Some s'"
    using assms by (auto simp: secure_mintimer_spin_until_def Let_def split: bind_splits)
  obtain k where k: "k \<ge> hw_k s" "s1 = s\<lparr>hw_k := Suc k\<rparr>" using wait_while_Some [OF s1(1)] by blast
  obtain j where "j \<ge> hw_k s1" "s' = s1\<lparr>hw_k := Suc j\<rparr>" "\<not> ucast (hw_reads s1 j) < ?m" using wait_while_Some [OF s1(2)] by blast
  then show ?thesis using k by (intro exI [of _ j]) simp
qed

lemma spin_until_returns:
  assumes "\<forall>k. \<exists>i \<ge> k. ucast (hw_reads s i) \<le> secure_mintimer_lltimer_mask tgt"
    and "\<forall>k. \<exists>i \<ge> k. secure_mintimer_lltimer_mask tgt \<le> ucast (hw_reads s i)"
  shows "\<exists>s'. secure_mintimer_spin_until tgt s = Some s'"
proof -
  have ends: "\<exists>k. wait_while P s = Some (s\<lparr>hw_k := k\<rparr>)" if "\<exists>i \<ge> hw_k s. \<not> P (ucast (hw_reads s i))" for P s
  proof -
    let ?Q = "\<lambda>n. \<not> P (ucast (hw_reads s (hw_k s + n)))"
    note H = that
    obtain i where i: "i \<ge> hw_k s" "\<not> P (ucast (hw_reads s i))" using H by blast
    then have "?Q (i - hw_k s)" by simp
    then have "?Q (LEAST n. ?Q n)" by (rule LeastI)
    moreover have "\<not> ?Q i" if "i < (LEAST n. ?Q n)" for i using not_less_Least [OF that] .
    ultimately have "wait_while P s = Some (s\<lparr>hw_k := Suc (hw_k s + (LEAST n. ?Q n))\<rparr>)" by (intro wait_while_first) blast+
    then show ?thesis by blast
  qed
  let ?m = "secure_mintimer_lltimer_mask tgt"
  have "\<exists>i \<ge> hw_k s. \<not> ucast (hw_reads s i) > ?m" using assms(1) by (simp add: not_less)
  from ends [OF this] obtain k where k: "wait_while (\<lambda>v. v > ?m) s = Some (s\<lparr>hw_k := k\<rparr>)" by blast
  have "\<exists>i \<ge> hw_k (s\<lparr>hw_k := k\<rparr>). \<not> ucast (hw_reads (s\<lparr>hw_k := k\<rparr>) i) < ?m" using assms(2) by (simp add: not_less)
  from ends [OF this] obtain j where "wait_while (\<lambda>v. v < ?m) (s\<lparr>hw_k := k\<rparr>) = Some (s\<lparr>hw_k := j\<rparr>)" by auto
  then show ?thesis using k by (simp add: secure_mintimer_spin_until_def Let_def)
qed

lemma tsleep_short:
  fixes off :: u32
  assumes inv: "sys_inv_order ord s Q T V L" and act: "sched_active_thread s = Some a" and slot: "timer_ok (Pool a)"
  defines "p \<equiv> unat (priority (sched_threads s a))" and "tgt \<equiv> (high_cnt s OR ucast (hw_reads s (hw_k s))) + off"
  assumes near: "\<not> tgt - (high_cnt s OR ucast (hw_reads s (Suc (hw_k s)))) > SECURE_MINTIMER_BACKOFF"
  shows "secure_mintimer_tsleep_internal off s = Some s' \<Longrightarrow> sys_order ord s' (Q(p := tl (Q p) @ [a])) T V L
      \<and> sched_threads s' = (sched_threads s)(a := (sched_threads s a)\<lparr>status := STATUS_PENDING\<rparr>)
      \<and> (\<exists>k > hw_k s. k < hw_k s' \<and> secure_mintimer_lltimer_mask tgt \<le> ucast (hw_reads s k))"
    and "\<forall>k. \<exists>i \<ge> k. ucast (hw_reads s i) \<le> secure_mintimer_lltimer_mask tgt \<Longrightarrow>
      \<forall>k. \<exists>i \<ge> k. secure_mintimer_lltimer_mask tgt \<le> ucast (hw_reads s i) \<Longrightarrow> secure_mintimer_tsleep_internal off s \<noteq> None"
proof -
  obtain s5 where ts: "secure_mintimer_tsleep_internal off s = do { (_, s') \<leftarrow> secure_mintimer_set_absolute (Pool a) tgt s5; Some s' }"
      and pre5: "sys_order ord s5 (Q(p := tl (Q p))) T V L" and nin: "Pool a \<notin> set (T @ V @ L)"
      and f5: "high_cnt s5 = high_cnt s" "hw_reads s5 = hw_reads s" "hw_k s5 = Suc (hw_k s)" "thread (timers s5 (Pool a)) = Some a"
        "sched_threads s5 = (sched_threads s)(a := (sched_threads s a)\<lparr>status := STATUS_SLEEPING\<rparr>)" "sched_active_thread s5 = Some a"
    using tsleep_until_set [OF inv act slot, of off] unfolding p_def tgt_def by blast
  define s6 where "s6 = s5\<lparr>hw_k := Suc (Suc (hw_k s)), tm_next := (tm_next s5)(Pool a := None)\<rparr>"
  have set: "secure_mintimer_set_absolute (Pool a) tgt s5 =
      do { s7 \<leftarrow> secure_mintimer_spin_until tgt s6; s8 \<leftarrow> shoot_timer (Pool a) s7; Some (0, s8) }"
    using slot near [unfolded not_less [symmetric] not_not] f5
    by (simp add: secure_mintimer_set_absolute_def secure_mintimer_now_eq store_def s6_def not_less)
  note iv = sys_preD [OF pre5]
  have a: "a \<le> MAXTHREADS" "in_use (sched_threads s5 a)" using iv(3) f5(6) by (auto simp: thr_inv_def)
  have off: "\<not> on_rq (sched_threads s5 a)" by (simp add: f5 on_rq_def STATUS_ON_RUNQUEUE_def status_order)
  have on: "STATUS_PENDING \<ge> STATUS_ON_RUNQUEUE" by (simp add: STATUS_ON_RUNQUEUE_def status_order)
  have tm6: "tm_order ord (s6\<lparr>hw_k := k\<rparr>) T V L" for k using iv(2) nin by (auto simp: tm_inv_def s6_def)
  have pre7: "sys_order ord (s6\<lparr>hw_k := k\<rparr>) (Q(p := tl (Q p))) T V L" for k
    using iv tm6 [of k] by (simp add: sys_pre_def rq_inv_def queued_def thr_inv_def slot_ok_def timers_inv_def s6_def)
  have shoot: "\<exists>s8. shoot_timer (Pool a) (s6\<lparr>hw_k := k\<rparr>) = Some s8 \<and> sys_order ord s8 (Q(p := tl (Q p) @ [a])) T V L
      \<and> sched_threads s8 = (sched_threads s)(a := (sched_threads s a)\<lparr>status := STATUS_PENDING\<rparr>) \<and> hw_k s8 = k" for k
  proof -
    have th: "sched_threads (s6\<lparr>hw_k := k\<rparr>) = sched_threads s5" by (simp add: s6_def)
    have lv: "unat (priority (sched_threads s5 a)) = p" by (simp add: f5 p_def)
    obtain h q b where r: "sched_set_status a STATUS_PENDING (s6\<lparr>hw_k := k\<rparr>) = Some (s6\<lparr>hw_k := k, rq_entry := h,
        sched_runqueues := (sched_runqueues (s6\<lparr>hw_k := k\<rparr>))(p := q), runqueue_bitcache := b,
        sched_threads := (sched_threads s5)(a := (sched_threads s5 a)\<lparr>status := STATUS_PENDING\<rparr>)\<rparr>)"
      "sys_order ord (s6\<lparr>hw_k := k, rq_entry := h,
        sched_runqueues := (sched_runqueues (s6\<lparr>hw_k := k\<rparr>))(p := q), runqueue_bitcache := b,
        sched_threads := (sched_threads s5)(a := (sched_threads s5 a)\<lparr>status := STATUS_PENDING\<rparr>)\<rparr>)
        ((Q(p := tl (Q p)))(p := (Q(p := tl (Q p))) p @ [a])) T V L"
      using set_runnable_pre [OF pre7 [of k] a(1) _ _ on nin, unfolded th, OF a(2) off, unfolded lv] by blast
    define s8 where "s8 = s6\<lparr>hw_k := k, rq_entry := h, sched_runqueues := (sched_runqueues (s6\<lparr>hw_k := k\<rparr>))(p := q), runqueue_bitcache := b,
        sched_threads := (sched_threads s5)(a := (sched_threads s5 a)\<lparr>status := STATUS_PENDING\<rparr>)\<rparr>"
    have "sys_order ord s8 (Q(p := tl (Q p) @ [a])) T V L" using r(2) by (simp add: s8_def)
    then have "sys_order ord (s8\<lparr>sched_context_switch_request := True\<rparr>) (Q(p := tl (Q p) @ [a])) T V L" by (rule sys_pre_cong) simp_all
    moreover have "shoot_timer (Pool a) (s6\<lparr>hw_k := k\<rparr>) = Some (s8\<lparr>sched_context_switch_request := True\<rparr>)"
      using r(1) [folded s8_def] slot f5(4) by (simp add: shoot_timer_def s6_def)
    ultimately show ?thesis by (simp add: s8_def f5(5))
  qed
  { assume r: "secure_mintimer_tsleep_internal off s = Some s'"
    then obtain s7 where s7: "secure_mintimer_spin_until tgt s6 = Some s7" "shoot_timer (Pool a) s7 = Some s'"
      using ts set by (auto split: bind_splits)
    obtain k where k: "k \<ge> hw_k s6" "s7 = s6\<lparr>hw_k := Suc k\<rparr>" "secure_mintimer_lltimer_mask tgt \<le> ucast (hw_reads s6 k)"
      using spin_until_Some [OF s7(1)] by blast
    have g: "hw_reads s6 = hw_reads s" "hw_k s6 = Suc (Suc (hw_k s))" using f5 by (simp_all add: s6_def)
    show "sys_order ord s' (Q(p := tl (Q p) @ [a])) T V L
      \<and> sched_threads s' = (sched_threads s)(a := (sched_threads s a)\<lparr>status := STATUS_PENDING\<rparr>)
      \<and> (\<exists>k > hw_k s. k < hw_k s' \<and> secure_mintimer_lltimer_mask tgt \<le> ucast (hw_reads s k))"
      using shoot [of "Suc k"] s7(2) k g by (auto intro!: exI [of _ k]) }
  { assume "\<forall>k. \<exists>i \<ge> k. ucast (hw_reads s i) \<le> secure_mintimer_lltimer_mask tgt"
      "\<forall>k. \<exists>i \<ge> k. secure_mintimer_lltimer_mask tgt \<le> ucast (hw_reads s i)"
    moreover have "hw_reads s6 = hw_reads s" using f5 by (simp add: s6_def)
    ultimately obtain s7 where s7: "secure_mintimer_spin_until tgt s6 = Some s7" using spin_until_returns [of s6 tgt] by auto
    obtain k where "s7 = s6\<lparr>hw_k := Suc k\<rparr>" using spin_until_Some [OF s7] by blast
    then show "secure_mintimer_tsleep_internal off s \<noteq> None" using shoot [of "Suc k"] ts set s7 by auto }
qed

text \<open>Above the table of timers the thread does not sleep; the pid just above it is taken for one inside.\<close>

lemma tsleep_no_slot:
  assumes pre: "sys_order ord s Q T V L" and act: "sched_active_thread s = Some a" and no: "\<not> timer_ok (Pool a)"
  shows "secure_mintimer_tsleep_internal off s = (if a = SECURE_MINTIMER_TIMER_LIST_LENGTH then None else Some s)"
proof -
  have a: "a \<le> MAXTHREADS" "in_use (sched_threads s a)" using sys_preD(3) [OF pre] act by (auto simp: thr_inv_def)
  note sl = thr_invD [OF sys_preD(3) [OF pre] a]
  have "a \<ge> SECURE_MINTIMER_TIMER_LIST_LENGTH" using no by (simp add: timer_ok_def)
  then show ?thesis
    using act a(1) sl(4) no
    by (auto simp: secure_mintimer_tsleep_internal_def secure_mintimer_tsleep_specific_pid_def get_available_timer_def
        secure_mintimer_remove_def timer_at_def)
qed

lemma tsleep_kept:
  assumes inv: "sys_inv_order ord s Q T V L" and act: "sched_active_thread s = Some a" and r: "secure_mintimer_tsleep_internal off s = Some s'"
  shows "\<exists>Q' T' V' L'. sys_order ord s' Q' T' V' L'"
proof (cases "timer_ok (Pool a)")
  case False
  have pre: "sys_order ord s Q T V L" using inv by (simp add: sys_inv_def)
  then show ?thesis using tsleep_no_slot [OF pre act False, of off] r by (auto split: if_splits)
next
  case True
  then show ?thesis using tsleep_sys [OF inv act True, of off] tsleep_short(1) [OF inv act True, of off s'] r by (metis option.inject)
qed

section \<open>The system\<close>

text \<open>
  One step is one entry into the protected module that ends with a thread resumed (or returns to the caller); an operation that
  does not return, or leaves an array, is no step. Guards on the choice of a next thread say that some thread, the idle thread in
  practice, is runnable. \<open>Create\<close> is restricted to priorities that are not periodic, which is what an unprotected caller may ask
  for, and \<open>Wakeup\<close> to existing threads without a pending timer: a thread that is woken while its timer is on a list
  breaks the invariant. Sleeping and the timer interrupt have no guard: any duration, any thread, any values of the counter.
\<close>

inductive sys_step :: "sm_timer_state \<Rightarrow> sm_timer_state \<Rightarrow> bool" where
  Yield: "thread_yield_higher_internal True s = Some (Resume s') \<Longrightarrow> sys_step s s'"
| Exit: "sched_active_thread s \<noteq> None \<Longrightarrow> sched_task_exit_internal s = Some s1 \<Longrightarrow>
    thread_yield_higher_internal True s1 = Some (Resume s') \<Longrightarrow> sys_step s s'"
| Create: "SCHED_MAX_PRIO_LEVEL_UNPROTECTED \<le> prio \<Longrightarrow> unat prio < SCHED_PRIO_LEVELS \<Longrightarrow>
    thread_create_unprotected_in_scheduler prio sp0 s = Some (r, s') \<Longrightarrow> sys_step s s'"
| Wakeup: "thread_get p = Some i \<Longrightarrow> \<forall>T V L. tm_order False s T V L \<longrightarrow> Pool i \<notin> set (T @ V @ L) \<Longrightarrow> in_use (sched_threads s i) \<Longrightarrow>
    thread_wakeup p s = Some (r, s') \<Longrightarrow> sys_step s s'"
| Switch_return: "sched_active_thread s \<noteq> None \<Longrightarrow> sched_switch_internal prio s = Some (Return s') \<Longrightarrow> sys_step s s'"
| Switch_yield: "sched_active_thread s \<noteq> None \<Longrightarrow> sched_switch_internal prio s = Some (Resume s') \<Longrightarrow> sys_step s s'"
| Sleep: "secure_mintimer_tsleep_internal off s = Some s1 \<Longrightarrow> thread_yield_higher_internal True s1 = Some (Resume s') \<Longrightarrow> sys_step s s'"
| Tick: "timer_callback s = Some s1 \<Longrightarrow> exit_isr s1 = Some (Resume s') \<Longrightarrow> sys_step s s'"

lemma run_sys:
  assumes pre: "sys_order ord s Q T V L" and run: "sched_run_internal s = Some (c, s')"
  shows "sys_inv_order ord s' Q T V L"
proof -
  have "\<exists>p. top Q p"
  proof (rule ccontr)
    assume "\<nexists>p. top Q p"
    then have "sched_select act s = None" for act using no_top_stuck [OF sys_preD(1) [OF pre]] by blast
    moreover have "sched_run_internal s = sched_select (sched_active_thread s) s"
      using sys_preD(3) [OF pre] by (auto simp: sched_run_internal_def thr_inv_def slot_ok_def split: option.splits)
    ultimately show False using run by simp
  qed
  then obtain p where "top Q p" ..
  from sched_run_sys(1,2) [OF pre this] run show ?thesis by auto
qed

lemma restore_context_sys:
  assumes "sys_inv_order ord s Q T V L" and "restore_context s = Some c"
  shows "\<exists>s'. c = Resume s' \<and> sys_inv_order ord s' Q T V L \<and> sched_active_thread s' = sched_active_thread s"
proof -
  from assms(2) obtain v where "c = Resume (s\<lparr>unprotected_sp := v\<rparr>)"
    by (auto simp: restore_context_def bind_eq_Some_conv)
  moreover have "sys_inv_order ord (s\<lparr>unprotected_sp := v\<rparr>) Q T V L" for v
    using assms(1) unfolding sys_inv_def by (auto simp: head_ok_def intro: sys_pre_cong)
  ultimately show ?thesis by auto
qed

lemma yield_sys:
  assumes pre: "sys_order ord s Q T V L" and y: "thread_yield_higher_internal True s = Some c"
  shows "\<exists>s'. c = Resume s' \<and> sys_inv_order ord s' (yielded s Q) T V L"
proof -
  have nul: "sched_active_thread s = None \<longrightarrow> null_priority s \<noteq> SCHED_PERIODIC_PRIO_LEVEL"
    using y by (auto simp: thread_yield_higher_internal_def sched_yield_def)
  obtain q where q: "sched_yield s = Some (s\<lparr>sched_runqueues := q\<rparr>)"
    "sys_order ord (s\<lparr>sched_runqueues := q\<rparr>) (yielded s Q) T V L"
    using sched_yield_sys [OF pre nul] by blast
  with y obtain r s2 where "sched_run_internal (s\<lparr>sched_runqueues := q\<rparr>) = Some (r, s2)" "restore_context s2 = Some c"
    by (auto simp: thread_yield_higher_internal_def split: bind_splits)
  then show ?thesis using run_sys [OF q(2)] restore_context_sys by blast
qed

lemma exit_isr_sys:
  assumes inv: "sys_inv_order ord s Q T V L" and e: "exit_isr s = Some c"
  shows "\<exists>s'. c = Resume s' \<and> sys_inv_order ord s' Q T V L"
proof -
  obtain s1 where s1: "(if sched_context_switch_request s then do { (_, s1) \<leftarrow> sched_run_internal s; Some s1 } else Some s) = Some s1"
      "restore_context (s1\<lparr>sm_irq_is_in_flag := False\<rparr>) = Some c"
    using e by (auto simp: exit_isr_def split: bind_splits)
  have "sys_inv_order ord s1 Q T V L"
    using s1(1) inv run_sys [of ord s Q T V L] by (auto simp: sys_inv_def split: if_splits bind_splits)
  then have "sys_inv_order ord (s1\<lparr>sm_irq_is_in_flag := False\<rparr>) Q T V L"
    unfolding sys_inv_def by (auto simp: head_ok_def intro: sys_pre_cong)
  then show ?thesis using restore_context_sys s1(2) by blast
qed

lemma sys_inv_request: "sys_inv_order ord s Q T V L \<Longrightarrow> sys_inv_order ord (s\<lparr>sched_context_switch_request := b\<rparr>) Q T V L"
  unfolding sys_inv_def by (auto simp: head_ok_def intro: sys_pre_cong)

lemma switch_cases:
  assumes "sched_switch_internal prio s = Some c"
  shows "c = Return s \<or> c = Return (s\<lparr>sched_context_switch_request := True\<rparr>)
    \<or> thread_yield_higher_internal True (s\<lparr>sched_context_switch_request := True\<rparr>) = Some c"
  using assms
  by (auto simp: sched_switch_internal_def sched_switch_internal_allow_yield_def Let_def split: bind_splits if_splits)

theorem sys_step_inv:
  assumes "sys_step s s'" and "sys_inv_order False s Q T V L"
  shows "\<exists>Q' T' V' L'. sys_inv_order False s' Q' T' V' L'"
  using assms
proof (induction arbitrary: Q T V L rule: sys_step.induct)
  case (Yield s s')
  then show ?case using yield_sys [of False s Q T V L] by (auto simp: sys_inv_def)
next
  case (Exit s s1 s')
  then show ?case using sched_task_exit_sys [OF Exit.prems] yield_sys [of False s1] by (metis control.inject(2) option.inject option.exhaust)
next
  case (Create prio sp0 s r s')
  have np: "prio \<noteq> SCHED_PERIODIC_PRIO_LEVEL" and ok: "\<not> prio < SCHED_MAX_PRIO_LEVEL_UNPROTECTED"
    using Create.hyps(1) by (auto simp: kernel_consts word_le_nat_alt word_less_nat_alt)
  show ?case
  proof (cases "first_free s")
    case None
    then show ?thesis using Create ok
      by (auto simp: thread_create_unprotected_in_scheduler_def thread_create_scheduler_internal_def)
  next
    case (Some i)
    then show ?thesis using thread_create_sys [OF Create.prems Some Create.hyps(2) np, of False sp0] Create.hyps(3) ok
      by (auto simp: thread_create_unprotected_in_scheduler_def)
  qed
next
  case (Wakeup p i s r s')
  then have nt: "Pool i \<notin> set (T @ V @ L)" by (auto simp: sys_inv_def sys_pre_def)
  show ?case
  proof (cases "status (sched_threads s i) = STATUS_SLEEPING")
    case True
    then show ?thesis using thread_wakeup_sys [OF Wakeup.prems Wakeup.hyps(1) True Wakeup.hyps(3) nt] Wakeup.hyps(4) by auto
  next
    case False
    then have "s' = s" using Wakeup.hyps(1,4) by (auto simp: thread_wakeup_def bind_eq_Some_conv thread_at_Some)
    then show ?thesis using Wakeup.prems by blast
  qed
next
  case (Switch_return s prio s')
  then show ?case using switch_cases [of prio s] sys_inv_request yield_sys by (metis control.distinct(1) control.inject(1) sys_inv_def)
next
  case (Switch_yield s prio s')
  then show ?case using switch_cases [of prio s] sys_inv_request yield_sys by (metis control.distinct(1) control.inject(2) sys_inv_def)
next
  case (Sleep off s s1 s')
  obtain a where a: "sched_active_thread s = Some a" using Sleep.hyps(1) by (auto simp: secure_mintimer_tsleep_internal_def split: bind_splits)
  then show ?case using tsleep_kept [OF Sleep.prems a Sleep.hyps(1)] yield_sys [of False s1] Sleep.hyps(2) by (metis control.inject(2))
next
  case (Tick s s1 s')
  obtain Q' T' V' L' where "sys_inv_order False s1 Q' T' V' L'"
    using timer_callback_kept [OF Tick.hyps(1)] Tick.prems unfolding kept_def by blast
  then show ?case using exit_isr_sys [OF _ Tick.hyps(2)] by blast
qed

text \<open>Reachable states, from the state before the first thread is created.\<close>

inductive reachable :: "sm_timer_state \<Rightarrow> sm_timer_state \<Rightarrow> bool" for s0 where
  Start: "reachable s0 s0"
| Step: "reachable s0 s \<Longrightarrow> sys_step s s' \<Longrightarrow> reachable s0 s'"

definition cold :: "sm_timer_state \<Rightarrow> bool" where
  "cold s \<longleftrightarrow> (\<forall>i. status (sched_threads s i) = STATUS_STOPPED \<and> \<not> in_use (sched_threads s i))
     \<and> (\<forall>p. sched_runqueues s p = None) \<and> runqueue_bitcache s = 0 \<and> sched_active_thread s = None
     \<and> timer_list_head s = None \<and> overflow_list_head s = None \<and> long_list_head s = None"

lemma cold_inv: "cold s \<Longrightarrow> sys_inv s (\<lambda>_. []) [] [] []"
  by (auto simp: cold_def sys_inv_def sys_pre_def rq_inv_def queued_def on_rq_def tm_inv_def thr_inv_def
      timers_inv_def head_ok_def STATUS_ON_RUNQUEUE_def status_order)

theorem reachable_inv: "reachable s0 s \<Longrightarrow> cold s0 \<Longrightarrow> \<exists>Q T V L. sys_inv_order False s Q T V L"
proof (induction rule: reachable.induct)
  case Start
  then show ?case using cold_inv sys_inv_order_weaken by blast
next
  case (Step s s')
  then show ?case using sys_step_inv by blast
qed

end
