(* ===== verification/Mutex.thy ===== *)
theory Mutex
  imports Sched_Steps
begin

text \<open>
  The mutex of \<open>core/mutex.c\<close> and \<open>core/include/mutex.h\<close> on top of
  \<open>Linked_List\<close>. The waiters of a mutex are a \<open>NULL\<close>-terminated list
  threaded through the \<open>rq_entry\<close> nodes that also make up the run queues, so a waiter must be
  off its run queue while it waits. The one pointer of a mutex is \<open>NULL\<close> when it is unlocked,
  the constant \<open>mutex_LOCKED\<close> when nobody waits, and otherwise the first waiter.
\<close>

section \<open>Definitions\<close>

datatype mutex_t = Mutex_NULL | mutex_LOCKED | First_waiter nat

definition mutex_init :: "mutex_t" where
  "mutex_init = Mutex_NULL"

text \<open>The list operations on the pointer of a locked mutex, which is never the constant there.\<close>

definition waiters_of :: "nat option \<Rightarrow> mutex_t" where
  "waiters_of lh = (case lh of None \<Rightarrow> Mutex_NULL | Some i \<Rightarrow> First_waiter i)"

definition mutex_enqueue :: "mutex_t \<Rightarrow> nat \<Rightarrow> sm_timer_state \<Rightarrow> (mutex_t \<times> sm_timer_state) option" where
  "mutex_enqueue mutex me s =
     (case mutex of
        mutex_LOCKED \<Rightarrow> Some (First_waiter me, s\<lparr>rq_entry := (rq_entry s)(me := None)\<rparr>)
      | First_waiter i \<Rightarrow> do {
          (lh, s1) \<leftarrow> thread_add_to_list (Some i) me s;
          Some (waiters_of lh, s1)
        }
      | Mutex_NULL \<Rightarrow> do {
          (lh, s1) \<leftarrow> thread_add_to_list None me s;
          Some (waiters_of lh, s1)
        })"

text \<open>
  The result is the mutex, the value the caller sees when it runs again, and where control is.
  \<open>r1\<close> and \<open>caller_id\<close> are the registers of the entry made by \<open>thread_yield_higher\<close>.
\<close>

definition mutex_lock_gen ::
    "mutex_t \<Rightarrow> bool \<Rightarrow> u16 \<Rightarrow> u16 \<Rightarrow> sm_timer_state \<Rightarrow> (mutex_t \<times> int \<times> control) option" where
  "mutex_lock_gen mutex blocking r1 caller_id s =
     (if mutex = Mutex_NULL then Some (mutex_LOCKED, 1, Return s)
      else if blocking then do {
        me \<leftarrow> sched_active_thread s;
        s1 \<leftarrow> sched_set_status me STATUS_MUTEX_BLOCKED s;
        (mutex', s2) \<leftarrow> mutex_enqueue mutex me s1;
        c \<leftarrow> thread_yield_higher r1 caller_id s2;
        Some (mutex', 1, c)
      }
      else Some (mutex, 0, Return s))"

definition mutex_trylock :: "mutex_t \<Rightarrow> u16 \<Rightarrow> u16 \<Rightarrow> sm_timer_state \<Rightarrow> (mutex_t \<times> int \<times> control) option" where
  "mutex_trylock mutex r1 caller_id s = mutex_lock_gen mutex False r1 caller_id s"

definition mutex_lock :: "mutex_t \<Rightarrow> u16 \<Rightarrow> u16 \<Rightarrow> sm_timer_state \<Rightarrow> (mutex_t \<times> control) option" where
  "mutex_lock mutex r1 caller_id s = do { (m, _, c) \<leftarrow> mutex_lock_gen mutex True r1 caller_id s; Some (m, c) }"

text \<open>Waking the first waiter, common to both ways of unlocking.\<close>

definition mutex_wake :: "nat \<Rightarrow> sm_timer_state \<Rightarrow> (mutex_t \<times> nat \<times> sm_timer_state) option" where
  "mutex_wake i s = do {
     let (removed, queue_next) = list_remove_head (Some i, rq_entry s);
     process \<leftarrow> removed;
     s1 \<leftarrow> sched_set_status process STATUS_PENDING s;
     Some ((if queue_next = None then mutex_LOCKED else waiters_of queue_next), process, s1)
   }"

definition mutex_unlock :: "mutex_t \<Rightarrow> sm_timer_state \<Rightarrow> (mutex_t \<times> control) option" where
  "mutex_unlock mutex s =
     (case mutex of
        Mutex_NULL \<Rightarrow> Some (mutex, Return s)
      | mutex_LOCKED \<Rightarrow> Some (Mutex_NULL, Return s)
      | First_waiter i \<Rightarrow> do {
          (m, process, s1) \<leftarrow> mutex_wake i s;
          t \<leftarrow> thread_at s1 process;
          c \<leftarrow> sched_switch_internal_allow_yield (ucast (priority t)) False s1;
          Some (m, c)
        })"

definition mutex_unlock_and_sleep :: "mutex_t \<Rightarrow> u16 \<Rightarrow> u16 \<Rightarrow> sm_timer_state \<Rightarrow> (mutex_t \<times> control) option" where
  "mutex_unlock_and_sleep mutex r1 caller_id s = do {
     (m, s1) \<leftarrow>
       (case mutex of
          Mutex_NULL \<Rightarrow> Some (mutex, s)
        | mutex_LOCKED \<Rightarrow> Some (Mutex_NULL, s)
        | First_waiter i \<Rightarrow> do { (m, _, s1) \<leftarrow> mutex_wake i s; Some (m, s1) });
     me \<leftarrow> sched_active_thread s1;
     s2 \<leftarrow> sched_set_status me STATUS_SLEEPING s1;
     c \<leftarrow> thread_yield_higher r1 caller_id s2;
     Some (m, c)
   }"

section \<open>Lists threaded through the run-queue nodes\<close>

abbreviation not_above :: "sm_timer_state \<Rightarrow> u16 \<Rightarrow> nat \<Rightarrow> bool" where
  "not_above s pr i \<equiv> (ucast (priority (sched_threads s i)) :: u16) \<le> pr"

lemma add_to_list_loop_spec:
  assumes "lseg (rq_entry s) (node_next lh (rq_entry s) l) W None" and "\<forall>i \<in> set W. i \<le> MAXTHREADS"
  shows "add_to_list_loop s pr lh l = Some (loc_after l (takeWhile (not_above s pr) W))"
  using assms
proof (induction W arbitrary: l)
  case Nil
  then show ?case by (simp add: loc_after_def add_to_list_loop.simps)
next
  case (Cons i W)
  then have "node_next lh (rq_entry s) l = Some i" "add_to_list_loop s pr lh (Entry i) =
      Some (loc_after (Entry i) (takeWhile (not_above s pr) W))"
    by (simp_all add: node_next_def)
  with Cons.prems show ?case
    by (subst add_to_list_loop.simps) (auto simp: loc_after_Cons loc_after_def [of l "[]"] not_le)
qed

lemma thread_add_to_list_spec:
  assumes W: "lseg (rq_entry s) lh W None" and ok: "\<forall>i \<in> set W. i \<le> MAXTHREADS" and th: "th \<notin> set W" "th \<le> MAXTHREADS"
    and st: "status (sched_threads s th) < STATUS_ON_RUNQUEUE"
  defines "W' \<equiv> placed (not_above s (ucast (priority (sched_threads s th)))) th W"
  shows "\<exists>lh' h'. thread_add_to_list lh th s = Some (lh', s\<lparr>rq_entry := h'\<rparr>) \<and> lseg h' lh' W' None
    \<and> (\<forall>x. x \<noteq> th \<longrightarrow> x \<notin> set W \<longrightarrow> h' x = rq_entry s x)"
proof -
  let ?k = "not_above s (ucast (priority (sched_threads s th)))"
  define xs ys where "xs = takeWhile ?k W" and "ys = dropWhile ?k W"
  have xy: "W = xs @ ys" "set xs \<subseteq> set W" by (auto simp: xs_def ys_def dest: set_takeWhileD)
  have loop: "add_to_list_loop s (ucast (priority (sched_threads s th))) lh List_head = Some (loc_after List_head xs)"
    using add_to_list_loop_spec [of s lh List_head W] W ok by (simp add: node_next_def xs_def)
  obtain h' lh' where r: "list_add (loc_after List_head xs) th (lh, rq_entry s) = (lh', h')"
      "lseg h' lh' (xs @ th # ys) None" "\<forall>x. x \<noteq> th \<longrightarrow> x \<notin> set xs \<longrightarrow> h' x = rq_entry s x"
    using link_after [of "rq_entry s" lh xs ys th] W th xy by auto
  have "thread_add_to_list lh th s = Some (lh', s\<lparr>rq_entry := h'\<rparr>)"
    using r(1) loop th st
    by (simp add: thread_add_to_list_def list_add_def Let_def split: prod.splits)
  moreover have "W' = xs @ th # ys" by (simp add: W'_def placed_def xs_def ys_def)
  ultimately show ?thesis using r xy(2) by blast
qed

section \<open>The entry made by a blocked thread\<close>

definition timer_quiet :: "sm_timer_state \<Rightarrow> bool" where
  "timer_quiet s \<longleftrightarrow> TIMER_CTL s AND TIMER_CTL_IFG = 0 \<and> TIMER_CCTL s 0 AND TIMER_CCTL_CCIFG = 0"

text \<open>What a thread's table entry keeps when its context is saved.\<close>

definition same_slots :: "sm_timer_state \<Rightarrow> sm_timer_state \<Rightarrow> bool" where
  "same_slots s s' \<longleftrightarrow> (\<forall>i. in_use (sched_threads s' i) = in_use (sched_threads s i)
     \<and> status (sched_threads s' i) = status (sched_threads s i)
     \<and> priority (sched_threads s' i) = priority (sched_threads s i)
     \<and> pid (sched_threads s' i) = pid (sched_threads s i))"

lemma entry_store_sys:
  assumes pre: "sys_pre s Q T V L" and act: "sched_active_thread s = Some a"
  shows "\<exists>th. entry_store_context EXITLESS_FUNCTION_TYPE_YIELD r1 cid s = Some (s\<lparr>sched_threads := th\<rparr>)
    \<and> sys_pre (s\<lparr>sched_threads := th\<rparr>) Q T V L \<and> same_slots s (s\<lparr>sched_threads := th\<rparr>)"
proof -
  have a: "a \<le> MAXTHREADS" using sys_preD(3) [OF pre] act by (auto simp: thr_inv_def)
  define f where "f = (\<lambda>t :: thread_t. if cid \<noteq> SM_ID_UNPROTECTED then t\<lparr>sp := r1, is_sm := True, sm_idx := 0xffff\<rparr>
      else t\<lparr>sp := r1, is_sm := False\<rparr>)"
  define th where "th = (sched_threads s)(a := f (sched_threads s a))"
  have ss: "same_slots s (s\<lparr>sched_threads := th\<rparr>)" by (simp add: same_slots_def th_def f_def)
  have "entry_store_context EXITLESS_FUNCTION_TYPE_YIELD r1 cid s = Some (s\<lparr>sched_threads := th\<rparr>)"
    using act a by (simp add: entry_store_context_def th_def f_def)
  moreover have "sys_pre (s\<lparr>sched_threads := th\<rparr>) Q T V L"
    using pre ss
    unfolding sys_pre_def rq_inv_def queued_def tm_inv_def thr_inv_def timers_inv_def slot_ok_def same_slots_def on_rq_def
    by simp
  ultimately show ?thesis using ss by blast
qed

lemma yield_entry_sys:
  assumes pre: "sys_pre s Q T V L" and act: "sched_active_thread s = Some a" and off: "\<not> on_rq (sched_threads s a)"
    and top: "top Q p" and quiet: "timer_quiet s"
  shows "\<exists>s'. thread_yield_higher r1 cid s = Some (Resume s') \<and> sys_inv s' Q T V L
    \<and> sched_active_thread s' = Some (hd (Q p)) \<and> rq_entry s' = rq_entry s
    \<and> (\<forall>i. \<not> on_rq (sched_threads s i) \<longrightarrow> in_use (sched_threads s' i) = in_use (sched_threads s i)
          \<and> status (sched_threads s' i) = status (sched_threads s i) \<and> priority (sched_threads s' i) = priority (sched_threads s i))"
proof -
  obtain th where en: "entry_store_context EXITLESS_FUNCTION_TYPE_YIELD r1 cid s = Some (s\<lparr>sched_threads := th\<rparr>)"
      and pre1: "sys_pre (s\<lparr>sched_threads := th\<rparr>) Q T V L" and ss: "same_slots s (s\<lparr>sched_threads := th\<rparr>)"
    using entry_store_sys [OF pre act] by blast
  let ?s1 = "s\<lparr>sched_threads := th\<rparr>"
  have y: "yielded ?s1 Q = Q" using act off ss by (simp add: yielded_def same_slots_def on_rq_def)
  obtain s' q v where s': "thread_yield_higher_internal True ?s1 = Some (Resume s')" "sys_inv s' Q T V L"
      "sched_active_thread s' = Some (hd (Q p))"
      "s' = (handed_over (sched_active_thread ?s1) (hd (Q p)) (?s1\<lparr>sched_runqueues := q\<rparr>))\<lparr>unprotected_sp := v\<rparr>"
    using thread_yield_higher_shape [OF pre1 top] act unfolding y by auto
  have hd: "on_rq (sched_threads ?s1 (hd (Q p)))" using top_head [OF sys_preD(1) [OF pre1] top] by simp
  have "thread_yield_higher r1 cid s = Some (Resume s')"
    using quiet en s'(1) by (simp add: thread_yield_higher_def exitless_entry_def entry_default_def timer_quiet_def)
  moreover have "rq_entry s' = rq_entry s" by (simp add: s'(4) handed_over_fields)
  moreover have "sched_threads s' i = sched_threads ?s1 i" if "\<not> on_rq (sched_threads s i)" for i
    using handed_over_blocked [of "?s1\<lparr>sched_runqueues := q\<rparr>" "hd (Q p)" i] hd that ss
    by (simp add: s'(4) same_slots_def on_rq_def)
  ultimately show ?thesis using s'(2,3) ss by (auto simp: same_slots_def)
qed

section \<open>What a mutex represents\<close>

text \<open>
  \<open>mutex_inv s m W\<close>: the threads waiting for the mutex are \<open>W\<close>, first in line first; they are
  blocked and in order of priority.
\<close>

definition mutex_rep :: "sm_timer_state \<Rightarrow> mutex_t \<Rightarrow> nat list \<Rightarrow> bool" where
  "mutex_rep s m W \<longleftrightarrow>
     (case m of First_waiter i \<Rightarrow> W \<noteq> [] \<and> lseg (rq_entry s) (Some i) W None | _ \<Rightarrow> W = [])"

definition waits :: "sm_timer_state \<Rightarrow> nat \<Rightarrow> bool" where
  "waits s i \<longleftrightarrow> i \<le> MAXTHREADS \<and> in_use (sched_threads s i) \<and> status (sched_threads s i) = STATUS_MUTEX_BLOCKED"

definition prio_of :: "sm_timer_state \<Rightarrow> nat \<Rightarrow> nat" where
  "prio_of s i = unat (priority (sched_threads s i))"

definition mutex_inv :: "sm_timer_state \<Rightarrow> mutex_t \<Rightarrow> nat list \<Rightarrow> bool" where
  "mutex_inv s m W \<longleftrightarrow> mutex_rep s m W \<and> (\<forall>i \<in> set W. waits s i) \<and> sorted (map (prio_of s) W)"

lemma waits_off: "waits s i \<Longrightarrow> \<not> on_rq (sched_threads s i)"
  by (simp add: waits_def on_rq_def STATUS_ON_RUNQUEUE_def status_order)

lemma blocked_off: "\<not> STATUS_MUTEX_BLOCKED \<ge> STATUS_ON_RUNQUEUE" "\<not> STATUS_SLEEPING \<ge> STATUS_ON_RUNQUEUE"
  by (simp_all add: STATUS_ON_RUNQUEUE_def status_order)

lemma pending_on: "STATUS_PENDING \<ge> STATUS_ON_RUNQUEUE"
  by (simp add: STATUS_ON_RUNQUEUE_def status_order)

lemma not_above_prio: "not_above s (ucast (priority (sched_threads s t))) i \<longleftrightarrow> prio_of s i \<le> prio_of s t"
  by (simp add: prio_of_def word_le_nat_alt unat_ucast_up)

lemma waiters_placed_sorted:
  "sorted (map f xs) \<Longrightarrow> sorted (map f (placed (\<lambda>x. f x \<le> (f t :: nat)) t xs))"
proof (induction xs)
  case Nil
  then show ?case by simp
next
  case (Cons x xs)
  then show ?case by (auto simp: less_imp_le dest: order_trans)
qed

lemma mutex_inv_cong:
  assumes "mutex_inv s m W" and "\<And>i. i \<in> set W \<Longrightarrow> rq_entry s' i = rq_entry s i"
    and "\<And>i. i \<in> set W \<Longrightarrow> in_use (sched_threads s' i) = in_use (sched_threads s i)
      \<and> status (sched_threads s' i) = status (sched_threads s i) \<and> priority (sched_threads s' i) = priority (sched_threads s i)"
  shows "mutex_inv s' m W"
proof -
  have "lseg (rq_entry s') p W None \<longleftrightarrow> lseg (rq_entry s) p W None" for p by (rule lseg_cong) (rule assms(2))
  moreover have "sorted (map (prio_of s') W)"
  proof -
    have "map (prio_of s') W = map (prio_of s) W" using assms(3) by (simp add: prio_of_def)
    then show ?thesis using assms(1) unfolding mutex_inv_def by argo
  qed
  moreover have "waits s' i" if "i \<in> set W" for i
    using assms(1) assms(3) [OF that] that by (simp add: mutex_inv_def waits_def)
  ultimately show ?thesis using assms(1) by (simp add: mutex_inv_def mutex_rep_def split: mutex_t.splits)
qed

text \<open>A status change relinks the thread's own node and the end of its run queue, nothing else.\<close>

lemma sched_set_status_frame:
  assumes "sched_set_status i st s = Some s'" and "x \<noteq> i"
    and "sched_runqueues s (unat (priority (sched_threads s i))) \<noteq> Some x"
  shows "rq_entry s' x = rq_entry s x"
  using assms
  by (auto simp: sched_set_status_def bind_eq_Some_conv thread_at_Some runqueue_at_def upd_thread_def
      sm_clist_rpush_def sm_clist_lpop_def Let_def split: if_splits option.splits prod.splits)

lemma off_not_last:
  assumes inv: "rq_inv s Q" and p: "p < SCHED_PRIO_LEVELS" and off: "\<not> on_rq (sched_threads s x)"
  shows "sched_runqueues s p \<noteq> Some x"
proof
  assume x: "sched_runqueues s p = Some x"
  then have "Q p \<noteq> []" using cring_empty_iff [OF rq_invD(1) [OF inv p]] by auto
  then have "last (Q p) \<in> queued s p" "x = last (Q p)"
    using rq_invD(2) [OF inv p] last_in_set [of "Q p"] cring_last [OF rq_invD(1) [OF inv p]] x by auto
  then show False using off by (simp add: queued_def)
qed

section \<open>Locking\<close>

text \<open>Changing the nodes of threads that are off the run queues leaves the queues alone.\<close>

lemma sys_pre_relink:
  assumes pre: "sys_pre s Q T V L" and off: "\<And>x. on_rq (sched_threads s x) \<Longrightarrow> h x = rq_entry s x"
  shows "sys_pre (s\<lparr>rq_entry := h\<rparr>) Q T V L"
proof -
  note iv = sys_preD [OF pre]
  have "cring h (sched_runqueues s p) (Q p)" if p: "p < SCHED_PRIO_LEVELS" for p
  proof -
    have "rq_entry s x = h x" if "x \<in> set (Q p)" for x
      using rq_invD(2) [OF iv(1) p] that off by (auto simp: queued_def)
    then show ?thesis using cring_cong [of "Q p" "rq_entry s" h] rq_invD(1) [OF iv(1) p] by blast
  qed
  then have "rq_inv (s\<lparr>rq_entry := h\<rparr>) Q" using iv(1) by (simp add: rq_inv_def queued_def)
  then show ?thesis using iv by (simp add: sys_pre_def tm_inv_def thr_inv_def timers_inv_def slot_ok_def)
qed

lemma mutex_enqueue_spec:
  assumes m: "mutex_inv s m W" "m \<noteq> Mutex_NULL" and w: "waits s a" "a \<notin> set W"
  defines "W' \<equiv> placed (\<lambda>i. prio_of s i \<le> prio_of s a) a W"
  shows "\<exists>m' h'. mutex_enqueue m a s = Some (m', s\<lparr>rq_entry := h'\<rparr>) \<and> mutex_inv (s\<lparr>rq_entry := h'\<rparr>) m' W'
    \<and> m' \<noteq> Mutex_NULL \<and> (\<forall>x. on_rq (sched_threads s x) \<longrightarrow> h' x = rq_entry s x)"
proof -
  have ws: "\<forall>i \<in> set W. waits s i" and so: "sorted (map (prio_of s) W)" using m(1) by (auto simp: mutex_inv_def)
  have so': "sorted (map (prio_of s) W')" using waiters_placed_sorted [OF so] by (simp add: W'_def)
  have inv': "mutex_inv (s\<lparr>rq_entry := h'\<rparr>) (First_waiter i) W'" if "lseg h' (Some i) W' None" for h' i
  proof -
    have "prio_of (s\<lparr>rq_entry := h'\<rparr>) = prio_of s" "waits (s\<lparr>rq_entry := h'\<rparr>) = waits s"
      by (auto simp: fun_eq_iff prio_of_def waits_def)
    moreover have "W' \<noteq> []" by (simp add: W'_def placed_def)
    ultimately show ?thesis using that ws w so' by (simp add: mutex_inv_def mutex_rep_def) (simp add: W'_def)
  qed
  show ?thesis
  proof (cases m)
    case mutex_LOCKED
    then have "W = []" using m(1) by (simp add: mutex_inv_def mutex_rep_def)
    then have "mutex_inv (s\<lparr>rq_entry := (rq_entry s)(a := None)\<rparr>) (First_waiter a) W'"
      by (intro inv') (simp add: W'_def)
    moreover have "\<not> on_rq (sched_threads s a)" by (rule waits_off [OF w(1)])
    ultimately show ?thesis using mutex_LOCKED by (auto simp: mutex_enqueue_def)
  next
    case (First_waiter i)
    have lw: "lseg (rq_entry s) (Some i) W None" using m(1) First_waiter by (simp add: mutex_inv_def mutex_rep_def)
    have st: "status (sched_threads s a) < STATUS_ON_RUNQUEUE" using waits_off [OF w(1)] by (simp add: on_rq_def)
    have al: "a \<le> MAXTHREADS" "\<forall>i \<in> set W. i \<le> MAXTHREADS" using w ws by (auto simp: waits_def)
    obtain lh' h' where r: "thread_add_to_list (Some i) a s = Some (lh', s\<lparr>rq_entry := h'\<rparr>)" "lseg h' lh' W' None"
        "\<forall>x. x \<noteq> a \<longrightarrow> x \<notin> set W \<longrightarrow> h' x = rq_entry s x"
      using thread_add_to_list_spec [OF lw al(2) w(2) al(1) st] unfolding not_above_prio W'_def by blast
    have "W' \<noteq> []" by (simp add: W'_def placed_def)
    then obtain j where j: "lh' = Some j" using r(2) by (cases W') auto
    have fr: "h' x = rq_entry s x" if "on_rq (sched_threads s x)" for x
    proof -
      have "x \<noteq> a" "x \<notin> set W" using waits_off w ws that by blast+
      then show ?thesis using r(3) by blast
    qed
    have "mutex_enqueue m a s = Some (First_waiter j, s\<lparr>rq_entry := h'\<rparr>)"
      using r(1) First_waiter j by (simp add: mutex_enqueue_def waiters_of_def)
    then show ?thesis using inv' [of h' j] r(2) j fr by blast
  qed (use m in simp)
qed

lemma mutex_lock_blocks:
  assumes inv: "sys_inv s Q T V L" and act: "sched_active_thread s = Some a"
    and m: "mutex_inv s m W" "m \<noteq> Mutex_NULL" and quiet: "timer_quiet s"
  defines "Q' \<equiv> Q(prio_of s a := tl (Q (prio_of s a)))"
  assumes top: "top Q' r"
  shows "\<exists>m' s'. mutex_lock_gen m True r1 cid s = Some (m', 1, Resume s') \<and> m' \<noteq> Mutex_NULL
    \<and> sys_inv s' Q' T V L \<and> sched_active_thread s' = Some (hd (Q' r))
    \<and> mutex_inv s' m' (placed (\<lambda>i. prio_of s i \<le> prio_of s a) a W)"
proof -
  have pre: "sys_pre s Q T V L" and on: "on_rq (sched_threads s a)" using inv act by (auto simp: sys_inv_def head_ok_def)
  note iv = sys_preD [OF pre]
  have a: "a \<le> MAXTHREADS" "in_use (sched_threads s a)" using iv(3) act by (auto simp: thr_inv_def)
  have aW: "a \<notin> set W" using m(1) waits_off on by (auto simp: mutex_inv_def)
  obtain h q b where st: "sched_set_status a STATUS_MUTEX_BLOCKED s = Some (s\<lparr>rq_entry := h,
        sched_runqueues := (sched_runqueues s)(prio_of s a := q), runqueue_bitcache := b,
        sched_threads := (sched_threads s)(a := (sched_threads s a)\<lparr>status := STATUS_MUTEX_BLOCKED\<rparr>)\<rparr>)"
      and pre1: "sys_pre (s\<lparr>rq_entry := h, sched_runqueues := (sched_runqueues s)(prio_of s a := q), runqueue_bitcache := b,
        sched_threads := (sched_threads s)(a := (sched_threads s a)\<lparr>status := STATUS_MUTEX_BLOCKED\<rparr>)\<rparr>) Q' T V L"
    using block_sys [OF inv act blocked_off(1)] unfolding Q'_def prio_of_def by blast
  define s1 where "s1 = s\<lparr>rq_entry := h, sched_runqueues := (sched_runqueues s)(prio_of s a := q), runqueue_bitcache := b,
        sched_threads := (sched_threads s)(a := (sched_threads s a)\<lparr>status := STATUS_MUTEX_BLOCKED\<rparr>)\<rparr>"
  have st1: "sched_set_status a STATUS_MUTEX_BLOCKED s = Some s1" using st by (simp add: s1_def)
  have m1: "mutex_inv s1 m W"
  proof (rule mutex_inv_cong [OF m(1)])
    fix i assume i: "i \<in> set W"
    then have "waits s i" "i \<noteq> a" using m(1) aW by (auto simp: mutex_inv_def)
    then show "rq_entry s1 i = rq_entry s i"
      by (intro sched_set_status_frame [OF st1] off_not_last [OF iv(1) thr_invD(2) [OF iv(3) a]]) (auto dest: waits_off)
    show "in_use (sched_threads s1 i) = in_use (sched_threads s i)
      \<and> status (sched_threads s1 i) = status (sched_threads s i) \<and> priority (sched_threads s1 i) = priority (sched_threads s i)"
      using \<open>i \<noteq> a\<close> by (simp add: s1_def)
  qed
  have w1: "waits s1 a" using a by (simp add: waits_def s1_def)
  have pr: "prio_of s1 = prio_of s" by (auto simp: prio_of_def s1_def fun_eq_iff)
  obtain m' h' where e: "mutex_enqueue m a s1 = Some (m', s1\<lparr>rq_entry := h'\<rparr>)" "m' \<noteq> Mutex_NULL"
      "mutex_inv (s1\<lparr>rq_entry := h'\<rparr>) m' (placed (\<lambda>i. prio_of s i \<le> prio_of s a) a W)"
      "\<forall>x. on_rq (sched_threads s1 x) \<longrightarrow> h' x = rq_entry s1 x"
    using mutex_enqueue_spec [OF m1 m(2) w1 aW] unfolding pr by blast
  have pre2: "sys_pre (s1\<lparr>rq_entry := h'\<rparr>) Q' T V L"
    by (rule sys_pre_relink) (use pre1 e(4) in \<open>auto simp: s1_def\<close>)
  have "sched_active_thread (s1\<lparr>rq_entry := h'\<rparr>) = Some a" "\<not> on_rq (sched_threads (s1\<lparr>rq_entry := h'\<rparr>) a)"
      "timer_quiet (s1\<lparr>rq_entry := h'\<rparr>)"
    using act waits_off [OF w1] quiet by (simp_all add: s1_def timer_quiet_def)
  from yield_entry_sys [OF pre2 this(1,2) top this(3)]
  obtain s' where s': "thread_yield_higher r1 cid (s1\<lparr>rq_entry := h'\<rparr>) = Some (Resume s')" "sys_inv s' Q' T V L"
      "sched_active_thread s' = Some (hd (Q' r))" "rq_entry s' = h'"
      "\<forall>i. \<not> on_rq (sched_threads s1 i) \<longrightarrow> in_use (sched_threads s' i) = in_use (sched_threads s1 i)
          \<and> status (sched_threads s' i) = status (sched_threads s1 i) \<and> priority (sched_threads s' i) = priority (sched_threads s1 i)"
    by auto
  have "mutex_inv s' m' (placed (\<lambda>i. prio_of s i \<le> prio_of s a) a W)"
  proof (rule mutex_inv_cong [OF e(3)])
    fix i assume "i \<in> set (placed (\<lambda>i. prio_of s i \<le> prio_of s a) a W)"
    then have "waits s1 i" using w1 m1 by (auto simp: mutex_inv_def)
    then show "in_use (sched_threads s' i) = in_use (sched_threads (s1\<lparr>rq_entry := h'\<rparr>) i)
      \<and> status (sched_threads s' i) = status (sched_threads (s1\<lparr>rq_entry := h'\<rparr>) i)
      \<and> priority (sched_threads s' i) = priority (sched_threads (s1\<lparr>rq_entry := h'\<rparr>) i)"
      using s'(5) waits_off by simp
  qed (simp add: s'(4))
  moreover have "mutex_lock_gen m True r1 cid s = Some (m', 1, Resume s')"
    using m(2) act st1 e(1) s'(1) by (simp add: mutex_lock_gen_def)
  ultimately show ?thesis using e(2) s'(2,3) by blast
qed

section \<open>Unlocking\<close>

lemma mutex_wake_spec:
  assumes inv: "sys_inv s Q T V L" and m: "mutex_inv s (First_waiter i) (w # W)" and nt: "Pool w \<notin> set (T @ V @ L)"
  shows "\<exists>m' s'. mutex_wake i s = Some (m', w, s') \<and> m' \<noteq> Mutex_NULL \<and> mutex_inv s' m' W
    \<and> sys_inv s' (Q(prio_of s w := Q (prio_of s w) @ [w])) T V L
    \<and> sched_threads s' = (sched_threads s)(w := (sched_threads s w)\<lparr>status := STATUS_PENDING\<rparr>)
    \<and> sched_active_thread s' = sched_active_thread s \<and> timer_quiet s' = timer_quiet s"
proof -
  have i: "i = w" "lseg (rq_entry s) (rq_entry s w) W None" and ww: "waits s w" and so: "sorted (map (prio_of s) W)"
    and wW: "\<forall>j \<in> set W. waits s j"
    using m by (auto simp: mutex_inv_def mutex_rep_def)
  have "lseg (rq_entry s) (Some i) (w # W) None" using m by (simp add: mutex_inv_def mutex_rep_def)
  then have d: "w \<notin> set W" using lseg_NULL_distinct by fastforce
  have w: "w \<le> MAXTHREADS" "in_use (sched_threads s w)" using ww by (auto simp: waits_def)
  obtain h q b where st: "sched_set_status w STATUS_PENDING s = Some (s\<lparr>rq_entry := h,
        sched_runqueues := (sched_runqueues s)(prio_of s w := q), runqueue_bitcache := b,
        sched_threads := (sched_threads s)(w := (sched_threads s w)\<lparr>status := STATUS_PENDING\<rparr>)\<rparr>)"
      and sys: "sys_inv (s\<lparr>rq_entry := h, sched_runqueues := (sched_runqueues s)(prio_of s w := q), runqueue_bitcache := b,
        sched_threads := (sched_threads s)(w := (sched_threads s w)\<lparr>status := STATUS_PENDING\<rparr>)\<rparr>)
        (Q(prio_of s w := Q (prio_of s w) @ [w])) T V L"
    using set_runnable_sys [OF inv w waits_off [OF ww] pending_on nt] unfolding prio_of_def by blast
  define s' where "s' = s\<lparr>rq_entry := h, sched_runqueues := (sched_runqueues s)(prio_of s w := q), runqueue_bitcache := b,
        sched_threads := (sched_threads s)(w := (sched_threads s w)\<lparr>status := STATUS_PENDING\<rparr>)\<rparr>"
  have st': "sched_set_status w STATUS_PENDING s = Some s'" using st by (simp add: s'_def)
  define m' where "m' = (if rq_entry s w = None then mutex_LOCKED else waiters_of (rq_entry s w))"
  have wk: "mutex_wake i s = Some (m', w, s')"
    using st' by (simp add: mutex_wake_def list_remove_head_def i(1) m'_def)
  have rep: "mutex_rep s m' W"
    using i(2) by (cases W) (auto simp: mutex_rep_def m'_def waiters_of_def)
  have ne: "m' \<noteq> Mutex_NULL" by (auto simp: m'_def waiters_of_def split: option.splits)
  note iv = sys_preD [of True s Q T V L]
  have pre: "sys_pre s Q T V L" using inv by (simp add: sys_inv_def)
  have "mutex_inv s' m' W"
  proof (rule mutex_inv_cong [where s = s])
    show "mutex_inv s m' W" using rep wW so by (simp add: mutex_inv_def)
    fix j assume j: "j \<in> set W"
    then have jw: "j \<noteq> w" "waits s j" using d wW by auto
    then show "rq_entry s' j = rq_entry s j"
      by (intro sched_set_status_frame [OF st'] off_not_last [OF iv(1) [OF pre] thr_invD(2) [OF iv(3) [OF pre] w]])
         (auto dest: waits_off)
    show "in_use (sched_threads s' j) = in_use (sched_threads s j) \<and> status (sched_threads s' j) = status (sched_threads s j)
      \<and> priority (sched_threads s' j) = priority (sched_threads s j)"
      using jw by (simp add: s'_def)
  qed
  then show ?thesis using wk ne sys by (auto simp: s'_def timer_quiet_def)
qed

lemma mutex_unlock_hands_over:
  assumes inv: "sys_inv s Q T V L" and act: "sched_active_thread s = Some a"
    and m: "mutex_inv s (First_waiter i) (w # W)" and nt: "Pool w \<notin> set (T @ V @ L)"
  shows "\<exists>m' s'. mutex_unlock (First_waiter i) s = Some (m', Return s') \<and> m' \<noteq> Mutex_NULL \<and> mutex_inv s' m' W
    \<and> sys_inv s' (Q(prio_of s w := Q (prio_of s w) @ [w])) T V L
    \<and> sched_threads s' = (sched_threads s)(w := (sched_threads s w)\<lparr>status := STATUS_PENDING\<rparr>)
    \<and> (prio_of s w < prio_of s a \<longrightarrow> sched_context_switch_request s')"
proof -
  obtain m' s1 where r: "mutex_wake i s = Some (m', w, s1)" "m' \<noteq> Mutex_NULL" "mutex_inv s1 m' W"
      "sys_inv s1 (Q(prio_of s w := Q (prio_of s w) @ [w])) T V L"
      "sched_threads s1 = (sched_threads s)(w := (sched_threads s w)\<lparr>status := STATUS_PENDING\<rparr>)"
      "sched_active_thread s1 = sched_active_thread s"
    using mutex_wake_spec [OF inv m nt] by blast
  have a: "a \<le> MAXTHREADS" "on_rq (sched_threads s a)" and ww: "waits s w"
    using inv act m by (auto simp: sys_inv_def sys_pre_def thr_inv_def head_ok_def mutex_inv_def)
  have aw: "a \<noteq> w" "w \<le> MAXTHREADS" using ww waits_off a by (auto simp: waits_def)
  define s' where "s' = (if prio_of s w < prio_of s a then s1\<lparr>sched_context_switch_request := True\<rparr> else s1)"
  have "mutex_unlock (First_waiter i) s = Some (m', Return s')"
    using r(1,5,6) act a aw
    by (simp add: mutex_unlock_def sched_switch_internal_allow_yield_def s'_def prio_of_def on_rq_def Let_def
        word_less_nat_alt unat_ucast_up)
  moreover have "sys_inv s' (Q(prio_of s w := Q (prio_of s w) @ [w])) T V L"
    using r(4) sys_inv_request by (simp add: s'_def)
  moreover have "mutex_inv s' m' W" by (rule mutex_inv_cong [OF r(3)]) (simp_all add: s'_def)
  ultimately show ?thesis using r(2,5) by (auto simp: s'_def)
qed

end
