(* ===== verification/Boot.thy ===== *)
theory Boot
  imports Sched_Steps
begin

text \<open>
  From reset to the first thread: \<open>kernel_init\<close> of \<open>core/kernel_init.c\<close> creates the idle and the
  main thread and enters the module to start scheduling; and the initial stack that
  \<open>thread_stack_init\<close> of \<open>cpu/msp430-sancus/cpu.c\<close> builds for an unprotected thread.
\<close>

section \<open>Creation by the unprotected interface\<close>

lemma sched_set_status_init: "sched_set_status i st s = Some s' \<Longrightarrow> initialization_done s' = initialization_done s"
  by (auto simp: sched_set_status_def bind_eq_Some_conv upd_thread_def Let_def case_prod_beta split: if_splits)

lemma sched_set_status_hw: "sched_set_status i st s = Some s' \<Longrightarrow> hw_reads s' = hw_reads s"
  by (auto simp: sched_set_status_def bind_eq_Some_conv upd_thread_def Let_def case_prod_beta split: if_splits)

lemma thread_create_quiet:
  assumes inv: "sys_inv s Q T V L" and free: "first_free s = Some i"
    and lv: "SCHED_MAX_PRIO_LEVEL_UNPROTECTED \<le> prio" "unat prio < SCHED_PRIO_LEVELS"
    and fl: "flags AND THREAD_CREATE_WOUT_YIELD \<noteq> 0"
  shows "\<exists>mem' s'. thread_create ea stk sz prio flags func arg r1 cid mem s = Some (int i, mem', Return s')
    \<and> sys_inv s' (Q(unat prio := Q (unat prio) @ [i])) T V L
    \<and> (\<exists>sp0. sched_threads s' = (sched_threads s)(i := (new_slot prio False sp0 i (sched_threads s i))\<lparr>status := STATUS_PENDING\<rparr>))
    \<and> sched_active_thread s' = sched_active_thread s \<and> null_priority s' = null_priority s
    \<and> initialization_done s' = initialization_done s"
proof -
  have np: "prio \<noteq> SCHED_PERIODIC_PRIO_LEVEL" and ok: "\<not> prio < SCHED_MAX_PRIO_LEVEL_UNPROTECTED"
    using lv(1) by (auto simp: kernel_consts word_le_nat_alt word_less_nat_alt)
  obtain stk' sz' where al: "align_stack stk sz = (stk', sz')" by fastforce
  obtain sp0 mem' where st: "thread_stack_init ea func arg stk' sz' mem = (sp0, mem')" by fastforce
  obtain s' where s': "thread_create_scheduler_internal prio False sp0 s = Some (int i, s')"
      "sys_inv s' (Q(unat prio := Q (unat prio) @ [i])) T V L"
      "sched_threads s' = (sched_threads s)(i := (new_slot prio False sp0 i (sched_threads s i))\<lparr>status := STATUS_PENDING\<rparr>)"
      "sched_active_thread s' = sched_active_thread s" "null_priority s' = null_priority s"
    using thread_create_sys [OF inv free lv(2) np, of False sp0] by blast
  moreover have "initialization_done s' = initialization_done s"
    using s'(1) free
    by (auto simp: thread_create_scheduler_internal_def bind_eq_Some_conv upd_thread_def Let_def
        dest: sched_set_status_init split: if_splits)
  ultimately show ?thesis
    using ok al st fl by (auto simp: thread_create_def thread_create_unprotected_in_scheduler_def)
qed

section \<open>Boot\<close>

lemma first_pids: "[Suc 0..<33] = Suc 0 # 2 # [3..<33]"
  by (simp add: upt_rec [of "Suc 0"] flip: numeral_2_eq_2)

lemma first_free_1: "\<not> in_use (sched_threads s 1) \<Longrightarrow> first_free s = Some 1"
  by (simp add: first_free_def kernel_consts first_pids)

lemma first_free_2: "in_use (sched_threads s 1) \<Longrightarrow> \<not> in_use (sched_threads s 2) \<Longrightarrow> first_free s = Some 2"
  by (simp add: first_free_def kernel_consts first_pids)

lemma scheduler_init_sys:
  assumes "sys_inv s Q [] [] []" and "\<not> initialization_done s"
  shows "sys_inv (scheduler_init entry s) Q [] [] []"
    and "sched_threads (scheduler_init entry s) = sched_threads s"
    and "sched_active_thread (scheduler_init entry s) = sched_active_thread s"
    and "null_priority (scheduler_init entry s) = null_priority s"
    and "TIMER_CTL (scheduler_init entry s) AND TIMER_CTL_IFG = 0"
    and "TIMER_CCTL (scheduler_init entry s) 0 AND TIMER_CCTL_CCIFG = 0"
proof -
  let ?t = "scheduler_init entry s"
  note defs = scheduler_init_def secure_mintimer_init_def sm_timer_init_def lltimer_set_def sm_timer_set_absolute_def Let_def
  show th: "sched_threads ?t = sched_threads s" and act: "sched_active_thread ?t = sched_active_thread s"
    and "null_priority ?t = null_priority s" using assms(2) by (simp_all add: defs)
  have f: "rq_entry ?t = rq_entry s" "sched_runqueues ?t = sched_runqueues s" "runqueue_bitcache ?t = runqueue_bitcache s"
    "timer_list_head ?t = timer_list_head s" "overflow_list_head ?t = overflow_list_head s"
    "long_list_head ?t = long_list_head s" "sched_active_pid ?t = sched_active_pid s"
    using assms(2) by (simp_all add: defs)
  show "sys_inv ?t Q [] [] []"
    using assms(1) unfolding sys_inv_def sys_pre_def rq_inv_def queued_def tm_inv_def thr_inv_def timers_inv_def
      slot_ok_def head_ok_def th act f by simp
  show "TIMER_CTL ?t AND TIMER_CTL_IFG = 0" "TIMER_CCTL ?t 0 AND TIMER_CCTL_CCIFG = 0"
    using assms(2) by (simp_all add: defs timer_consts TIMER_CHAN_def upt_conv_Cons)
qed

lemma kernel_init_boots:
  assumes cold: "cold s" and fresh: "\<not> initialization_done s" and nul: "null_priority s \<noteq> SCHED_PERIODIC_PRIO_LEVEL"
  shows "\<exists>mem' s'. kernel_init ea entry idle_stk main_stk idle_f main_f r1 mem s = Some (mem', Resume s')
    \<and> sys_inv s' ((\<lambda>_. [])(15 := [1], 7 := [2])) [] [] [] \<and> sched_active_thread s' = Some 2"
proof -
  have mt: "(THREAD_CREATE_WOUT_YIELD OR THREAD_CREATE_STACKTEST) AND THREAD_CREATE_WOUT_YIELD \<noteq> 0"
    by (simp add: THREAD_CREATE_WOUT_YIELD_def THREAD_CREATE_STACKTEST_def)
  have pr: "THREAD_PRIORITY_IDLE = 15" "THREAD_PRIORITY_MAIN = 7"
    by (simp_all add: THREAD_PRIORITY_IDLE_def THREAD_PRIORITY_MAIN_def THREAD_PRIORITY_MIN_def kernel_consts)
  have lv: "SCHED_MAX_PRIO_LEVEL_UNPROTECTED \<le> 15" "unat (15 :: u8) < SCHED_PRIO_LEVELS"
      "SCHED_MAX_PRIO_LEVEL_UNPROTECTED \<le> 7" "unat (7 :: u8) < SCHED_PRIO_LEVELS" by (simp_all add: kernel_consts)
  have c: "\<not> in_use (sched_threads s i)" "sched_active_thread s = None" for i using cold by (auto simp: cold_def)
  obtain mem1 s1 where s1: "thread_create ea (fst idle_stk) (snd idle_stk) 15 (THREAD_CREATE_WOUT_YIELD OR THREAD_CREATE_STACKTEST)
        idle_f 0 r1 SM_ID_UNPROTECTED mem s = Some (int 1, mem1, Return s1)" "sys_inv s1 ((\<lambda>_. [])(15 := [1])) [] [] []"
      "\<exists>sp0. sched_threads s1 = (sched_threads s)(1 := (new_slot 15 False sp0 1 (sched_threads s 1))\<lparr>status := STATUS_PENDING\<rparr>)"
      "sched_active_thread s1 = None" "null_priority s1 = null_priority s" "\<not> initialization_done s1"
    using thread_create_quiet [OF cold_inv [OF cold] first_free_1 [OF c(1)] lv(1,2) mt, of ea "fst idle_stk" "snd idle_stk" idle_f 0 r1 SM_ID_UNPROTECTED mem]
      c(2) fresh by auto
  have iu: "in_use (sched_threads s1 1)" "\<not> in_use (sched_threads s1 2)"
    using s1(3) c by (auto simp: new_slot_def)
  obtain mem2 s2 where s2: "thread_create ea (fst main_stk) (snd main_stk) 7 (THREAD_CREATE_WOUT_YIELD OR THREAD_CREATE_STACKTEST)
        main_f 0 r1 SM_ID_UNPROTECTED mem1 s1 = Some (int 2, mem2, Return s2)" "sys_inv s2 ((\<lambda>_. [])(15 := [1], 7 := [2])) [] [] []"
      "sched_active_thread s2 = None" "null_priority s2 = null_priority s1" "\<not> initialization_done s2"
    using thread_create_quiet [OF s1(2) first_free_2 [OF iu] lv(3,4) mt, of ea "fst main_stk" "snd main_stk" main_f 0 r1 SM_ID_UNPROTECTED mem1]
      s1(4,6) by auto
  define s3 where "s3 = scheduler_init entry s2"
  note i3 = scheduler_init_sys [OF s2(2,5), of entry, folded s3_def]
  have pre: "sys_pre s3 ((\<lambda>_. [])(15 := [1], 7 := [2])) [] [] []" using i3(1) by (simp add: sys_inv_def)
  have top: "top ((\<lambda>_. [])(15 := [1], 7 := [2])) 7" by (auto simp: top_def kernel_consts)
  have y: "yielded s3 ((\<lambda>_. [])(15 := [1], 7 := [2])) = (\<lambda>_. [])(15 := [1], 7 := [2])"
    using i3(3) s2(3) by (simp add: yielded_def)
  have "null_priority s3 \<noteq> SCHED_PERIODIC_PRIO_LEVEL" using i3(4) s2(4) s1(5) nul by simp
  then obtain s' where s': "thread_yield_higher_internal True s3 = Some (Resume s')"
      "sys_inv s' ((\<lambda>_. [])(15 := [1], 7 := [2])) [] [] []" "sched_active_thread s' = Some 2"
    using thread_yield_higher_sys [OF pre top] y by (auto simp: yielded_def)
  have "scheduler_kernel_init entry r1 SM_ID_UNPROTECTED s2 = Some (Resume s')"
    using s2(3) i3(5,6) s'(1)
    by (simp add: scheduler_kernel_init_def exitless_entry_def entry_store_context_def entry_default_def s3_def)
  then have "kernel_init ea entry idle_stk main_stk idle_f main_f r1 mem s = Some (mem2, Resume s')"
    using s1(1) s2(1) by (simp add: kernel_init_def pr)
  then show ?thesis using s'(2,3) by blast
qed

section \<open>Initial stacks\<close>

text \<open>The words on a new stack, from the lowest address: R14 down to R4, then the argument and so on.\<close>

lemma thread_stack_init_layout:
  assumes "thread_stack_init ea func arg stack_start stack_size mem = (sp0, mem')"
  defines "stk \<equiv> (stack_start + stack_size) AND 0xfffe"
  shows "sp0 = stk - 32" "mem' (sp0 + 22) = arg" "mem' (sp0 + 24) = GIE" "mem' (sp0 + 26) = func" "mem' (sp0 + 28) = ea"
proof -
  have e: "(sp0, mem') = fold (\<lambda>i st. push (of_nat i) st) [4, 5, 6, 7, 8, 9, 10, 11, 12, 13, 14]
      (push arg (push GIE (push func (push ea (stk - 2, mem)))))"
    using assms(1) unfolding thread_stack_init_def Let_def stk_def [symmetric] by (simp add: upt_rec)
  show "sp0 = stk - 32" "mem' (sp0 + 22) = arg" "mem' (sp0 + 24) = GIE" "mem' (sp0 + 26) = func" "mem' (sp0 + 28) = ea"
    using e by (simp_all add: push_def)
qed

end
