(* ===== verification/Kernel_Examples.thy ===== *)
theory Kernel_Examples
  imports Mutex Boot
begin

text \<open>
  Concrete states of the protected module on which the properties of the kernel are instantiated:
  the state after reset, and a running system with the idle thread 1, two threads 2 and 3 of
  priority 7, of which 2 runs, and a thread 4 of priority 5 that is blocked, with or without a
  timer pending for it.
\<close>

definition no_thread :: thread_t where
  "no_thread = \<lparr>is_sm = False, sp = 0, sm_idx = 0, status = STATUS_STOPPED, priority = 0, pid = 0, in_use = False,
     sm_entry = 0, period = 0, runtime = 0, last_reference = 0, last_runtime = 0, original_idx = 0\<rparr>"

definition no_timer :: secure_mintimer_t where
  "no_timer = \<lparr>target = 0, long_target = 0, thread = None\<rparr>"

text \<open>Reset: all static variables are zero; the counter register reads \<open>r\<close>.\<close>

definition reset :: "(nat \<Rightarrow> u16) \<Rightarrow> sm_timer_state" where
  "reset r = \<lparr>sched_num_threads = 0, sched_context_switch_request = False, sched_threads = (\<lambda>_. no_thread),
     rq_entry = (\<lambda>_. None), sched_active_thread = None, sched_active_pid = 0, sched_runqueues = (\<lambda>_. None),
     runqueue_bitcache = 0, initialization_done = False, scheduler_entry = 0, sm_irq_is_in_flag = False,
     timers = (\<lambda>_. no_timer), tm_next = (\<lambda>_. None), in_handler = False, long_cnt = 0, high_cnt = 0,
     timer_list_head = None, overflow_list_head = None, long_list_head = None, TIMER_CTL = 0, TIMER_CCR = (\<lambda>_. 0),
     TIMER_CCTL = (\<lambda>_. 0), isr_cb_set = False, hw_reads = r, hw_k = 0, null_priority = 0, unprotected_sp = 0\<rparr>"

lemma cold_reset: "cold (reset r)"
  by (simp add: cold_def reset_def no_thread_def)

definition demo_thread :: "nat \<Rightarrow> u8 \<Rightarrow> thread_status_t \<Rightarrow> thread_t" where
  "demo_thread i pr st = no_thread\<lparr>status := st, priority := pr, pid := int i, in_use := True\<rparr>"

definition demo :: "thread_status_t \<Rightarrow> bool \<Rightarrow> sm_timer_state" where
  "demo st timed = (reset (\<lambda>_. 2000))\<lparr>sched_num_threads := 4,
     sched_threads := (\<lambda>_. no_thread)(1 := demo_thread 1 15 STATUS_PENDING, 2 := demo_thread 2 7 STATUS_RUNNING,
        3 := demo_thread 3 7 STATUS_PENDING, 4 := demo_thread 4 5 st),
     rq_entry := (\<lambda>_. None)(1 := Some 1, 2 := Some 3, 3 := Some 2),
     sched_active_thread := Some 2, sched_active_pid := 2,
     sched_runqueues := (\<lambda>_. None)(7 := Some 3, 15 := Some 1),
     runqueue_bitcache := 0x8080,
     timers := (\<lambda>_. no_timer)(Pool 4 := (if timed then \<lparr>target = 1000, long_target = 0, thread = Some 4\<rparr> else no_timer)),
     timer_list_head := (if timed then Some (Pool 4) else None)\<rparr>"

definition demo_queues :: "nat \<Rightarrow> nat list" where
  "demo_queues = (\<lambda>_. [])(7 := [2, 3], 15 := [1])"

lemmas demo_simps = demo_def demo_queues_def reset_def demo_thread_def no_thread_def no_timer_def

lemma demo_queued:
  assumes "\<not> st \<ge> STATUS_ON_RUNQUEUE"
  shows "queued (demo st timed) p = set (demo_queues p)"
  using assms by (auto simp: queued_def demo_simps on_rq_def kernel_consts STATUS_ON_RUNQUEUE_def status_order split: if_splits)

lemma demo_bits: "p < SCHED_PRIO_LEVELS \<Longrightarrow> bit (0x8080 :: u32) p \<longleftrightarrow> p = 7 \<or> p = 15"
proof -
  assume "p < SCHED_PRIO_LEVELS"
  then have "p \<in> set [0..<16]" by (simp add: kernel_consts)
  moreover have "\<forall>p \<in> set [0..<16]. bit (0x8080 :: u32) p \<longleftrightarrow> p = 7 \<or> p = 15" by code_simp
  ultimately show ?thesis by blast
qed

lemma demo_cache: "runqueue_bitcache (demo st timed) = 0x8080"
  by (simp add: demo_def)

lemma demo_queues_nonempty: "demo_queues p \<noteq> [] \<longleftrightarrow> p = 7 \<or> p = 15"
  by (simp add: demo_queues_def)

lemma demo_inv:
  assumes off: "\<not> st \<ge> STATUS_ON_RUNQUEUE"
  shows "sys_inv (demo st timed) demo_queues (if timed then [Pool 4] else []) [] []"
proof -
  have "cring (rq_entry (demo st timed)) (sched_runqueues (demo st timed) p) (demo_queues p)" for p
    by (auto simp: demo_simps cring_def)
  then have "rq_inv (demo st timed) demo_queues"
    using demo_queued [OF off] demo_bits by (simp add: rq_inv_def demo_cache demo_queues_nonempty)
  moreover have "tm_inv (demo st timed) (if timed then [Pool 4] else []) [] []"
    by (auto simp: tm_inv_def demo_simps)
  moreover have "thr_inv (demo st timed)"
    using off by (auto simp: thr_inv_def slot_ok_def demo_simps kernel_consts on_rq_def STATUS_ON_RUNQUEUE_def status_order)
  moreover have "timers_inv (demo st timed) (if timed then [Pool 4] else [])"
    using off by (auto simp: timers_inv_def demo_simps kernel_consts on_rq_def)
  moreover have "head_ok (demo st timed) demo_queues"
    by (auto simp: head_ok_def demo_simps on_rq_def STATUS_ON_RUNQUEUE_def)
  ultimately show ?thesis by (auto simp: sys_inv_def sys_pre_def)
qed

lemma sleeping_off: "\<not> STATUS_SLEEPING \<ge> STATUS_ON_RUNQUEUE" "\<not> STATUS_MUTEX_BLOCKED \<ge> STATUS_ON_RUNQUEUE"
  by (simp_all add: STATUS_ON_RUNQUEUE_def status_order)

lemmas demo_sleeping = demo_inv [OF sleeping_off(1), of False, simplified]
lemmas demo_timed = demo_inv [OF sleeping_off(1), of True, simplified]
lemmas demo_waiting = demo_inv [OF sleeping_off(2), of False, simplified]

lemma demo_top: "top demo_queues 7"
  by (auto simp: top_def demo_queues_def kernel_consts)

section \<open>The first steps after reset\<close>

lemma create_step:
  assumes inv: "sys_inv s Q T V L" and free: "first_free s = Some i" and lv: "SCHED_MAX_PRIO_LEVEL_UNPROTECTED \<le> prio" "unat prio < SCHED_PRIO_LEVELS"
  shows "\<exists>s'. sys_step s s' \<and> sys_inv s' (Q(unat prio := Q (unat prio) @ [i])) T V L
    \<and> sched_threads s' = (sched_threads s)(i := (new_slot prio False 0 i (sched_threads s i))\<lparr>status := STATUS_PENDING\<rparr>)
    \<and> sched_active_thread s' = sched_active_thread s \<and> null_priority s' = null_priority s \<and> hw_reads s' = hw_reads s"
proof -
  have np: "prio \<noteq> SCHED_PERIODIC_PRIO_LEVEL" and ok: "\<not> prio < SCHED_MAX_PRIO_LEVEL_UNPROTECTED"
    using lv(1) by (auto simp: kernel_consts word_le_nat_alt word_less_nat_alt)
  obtain s' where s': "thread_create_scheduler_internal prio False 0 s = Some (int i, s')"
      "sys_inv s' (Q(unat prio := Q (unat prio) @ [i])) T V L"
      "sched_threads s' = (sched_threads s)(i := (new_slot prio False 0 i (sched_threads s i))\<lparr>status := STATUS_PENDING\<rparr>)"
      "sched_active_thread s' = sched_active_thread s" "null_priority s' = null_priority s"
    using thread_create_sys [OF inv free lv(2) np, of False 0] by blast
  have "hw_reads s' = hw_reads s"
    using s'(1) free
    by (auto simp: thread_create_scheduler_internal_def bind_eq_Some_conv upd_thread_def Let_def dest: sched_set_status_hw split: if_splits)
  moreover have "sys_step s s'"
    using sys_step.Create [OF lv, of 0 s] s'(1) ok by (simp add: thread_create_unprotected_in_scheduler_def)
  ultimately show ?thesis using s' by blast
qed

lemma yielded_none: "sched_active_thread s = None \<Longrightarrow> yielded s Q = Q"
  by (simp add: yielded_def)

text \<open>
  The idle thread and a thread of priority 7 are created, the second is dispatched and goes to sleep; then the idle thread runs.
\<close>

lemma first_steps:
  "\<exists>s1 s2 s3 s4. sys_step (reset (\<lambda>_. v)) s1 \<and> sys_step s1 s2 \<and> sys_step s2 s3 \<and> sys_step s3 s4
     \<and> sched_active_thread s3 = Some 2 \<and> sched_active_thread s4 = Some 1 \<and> status (sched_threads s4 2) = STATUS_SLEEPING"
proof -
  let ?Q1 = "(\<lambda>_. [])(15 := [1])" and ?Q2 = "(\<lambda>_. [])(15 := [1], 7 := [2])"
  have lv: "SCHED_MAX_PRIO_LEVEL_UNPROTECTED \<le> 15" "unat (15 :: u8) < SCHED_PRIO_LEVELS"
      "SCHED_MAX_PRIO_LEVEL_UNPROTECTED \<le> 7" "unat (7 :: u8) < SCHED_PRIO_LEVELS" by (simp_all add: kernel_consts)
  have c: "\<not> in_use (sched_threads (reset (\<lambda>_. v)) i)" "sched_active_thread (reset (\<lambda>_. v)) = None" for i
    by (simp_all add: reset_def no_thread_def)
  obtain s1 where s1: "sys_step (reset (\<lambda>_. v)) s1" "sys_inv s1 ?Q1 [] [] []"
      "sched_threads s1 = (sched_threads (reset (\<lambda>_. v)))(1 := (new_slot 15 False 0 1 (sched_threads (reset (\<lambda>_. v)) 1))\<lparr>status := STATUS_PENDING\<rparr>)"
      "sched_active_thread s1 = None" "null_priority s1 = 0" "hw_reads s1 = (\<lambda>_. v)"
    using create_step [OF cold_inv [OF cold_reset] first_free_1 [OF c(1)] lv(1,2)] c(2) by (auto simp: reset_def)
  have iu: "in_use (sched_threads s1 1)" "\<not> in_use (sched_threads s1 2)" using s1(3) c by (auto simp: new_slot_def)
  obtain s2 where s2: "sys_step s1 s2" "sys_inv s2 ?Q2 [] [] []" "sched_active_thread s2 = None" "null_priority s2 = 0" "hw_reads s2 = (\<lambda>_. v)"
    using create_step [OF s1(2) first_free_2 [OF iu] lv(3,4)] s1 by auto
  have top: "top ?Q2 7" by (auto simp: top_def kernel_consts)
  have pre2: "sys_pre s2 ?Q2 [] [] []" using s2(2) by (simp add: sys_inv_def)
  obtain s3 where s3: "thread_yield_higher_internal True s2 = Some (Resume s3)" "sys_inv s3 ?Q2 [] [] []" "sched_active_thread s3 = Some 2"
      "hw_reads s3 = (\<lambda>_. v)"
    using thread_yield_higher_shape [OF pre2 top] s2(3-5) unfolding yielded_none [OF s2(3)]
    by (auto simp: kernel_consts handed_over_def)
  have p2: "unat (priority (sched_threads s3 2)) = 7"
    using s3(2,3) top_head(3) [of s3 ?Q2 7] top by (auto simp: sys_inv_def sys_pre_def)
  have "timer_ok (Pool 2)" "(5000 :: u32) > SECURE_MINTIMER_BACKOFF" by (simp_all add: SECURE_MINTIMER_BACKOFF_def)
  then obtain s4 T V L where s4: "secure_mintimer_tsleep_internal 5000 s3 = Some s4" "sys_pre s4 (?Q2(7 := [])) T V L"
      "sched_active_thread s4 = Some 2" "sched_threads s4 = (sched_threads s3)(2 := (sched_threads s3 2)\<lparr>status := STATUS_SLEEPING\<rparr>)"
    using tsleep_sys [OF s3(2,3), of 5000] s3(4) unfolding p2 by auto
  have off: "\<not> on_rq (sched_threads s4 2)" by (simp add: s4(4) on_rq_def STATUS_ON_RUNQUEUE_def status_order)
  then have y: "yielded s4 (?Q2(7 := [])) = ?Q2(7 := [])" using s4(3) by (simp add: yielded_def)
  have top': "top (?Q2(7 := [])) 15" by (auto simp: top_def kernel_consts)
  obtain s5 q w where s5: "thread_yield_higher_internal True s4 = Some (Resume s5)" "sched_active_thread s5 = Some 1"
      "s5 = (handed_over (Some 2) 1 (s4\<lparr>sched_runqueues := q\<rparr>))\<lparr>unprotected_sp := w\<rparr>"
    using thread_yield_higher_shape [OF s4(2) top'] s4(3) unfolding y by auto
  have "status (sched_threads s5 2) = STATUS_SLEEPING"
    unfolding s5(3) using s4(4) by (simp add: handed_over_def preempted_def)
  then show ?thesis using s1(1) s2(1) sys_step.Yield [OF s3(1)] sys_step.Sleep [OF s4(1) s5(1)] s3(3) s5(2) by blast
qed

end
