(* ===== verification/Kernel_Properties.thy ===== *)
theory Kernel_Properties
  imports Kernel_Examples Boot
begin

text \<open>
  The properties of the kernel proper: scheduling, the thread table, timers and mutexes, each with
  an instance on a concrete state of \<open>Kernel_Examples\<close>.
\<close>

section \<open>The system invariant\<close>

text \<open>C1: In every state the module reaches from reset by steps that return: yields, exits, creations of threads
  that are not periodic, wake-ups of existing threads that have no timer pending, switches, sleeps of any thread for any
  time, and timer interrupts at any readings of the counter, the run queues are well-formed rings holding exactly the
  runnable threads with one cache bit per occupied level, the three timer lists are disjoint, those of later periods
  sorted, every used table slot describes itself, every pending timer belongs to a blocked thread, and the running thread is
  first in its queue. The list of the current period is not claimed to be sorted: the merge at the end of a period does
  not keep the order.\<close>

theorem reachable_states_wf:
  assumes "cold s0" and "reachable s0 s"
  shows "\<exists>Q T V L. rq_inv s Q \<and> tm_order False s T V L \<and> thr_inv s \<and> timers_inv s (T @ V @ L) \<and> head_ok s Q"
  using reachable_inv [OF assms(2,1)] unfolding sys_inv_def sys_pre_def by blast

theorem reachable_states_wf_witness:
  "cold (reset (\<lambda>_. 2000)) \<and> (\<exists>s1 s2 s3 s4. sys_step (reset (\<lambda>_. 2000)) s1 \<and> sys_step s1 s2 \<and> sys_step s2 s3 \<and> sys_step s3 s4
     \<and> sched_active_thread s3 = Some 2 \<and> sched_active_thread s4 = Some 1 \<and> status (sched_threads s4 2) = STATUS_SLEEPING
     \<and> (\<exists>Q T V L. rq_inv s4 Q \<and> tm_order False s4 T V L \<and> thr_inv s4 \<and> timers_inv s4 (T @ V @ L) \<and> head_ok s4 Q))"
proof -
  obtain s1 s2 s3 s4 where s: "sys_step (reset (\<lambda>_. 2000)) s1" "sys_step s1 s2" "sys_step s2 s3" "sys_step s3 s4"
      "sched_active_thread s3 = Some 2" "sched_active_thread s4 = Some 1" "status (sched_threads s4 2) = STATUS_SLEEPING"
    using first_steps [of 2000] by metis
  note r = reachable.Step [OF reachable.Step [OF reachable.Step [OF reachable.Step [OF reachable.Start s(1)] s(2)] s(3)] s(4)]
  show ?thesis
    using s cold_reset reachable_states_wf [OF cold_reset r]
    by (intro conjI exI [of _ s1] exI [of _ s2] exI [of _ s3] exI [of _ s4]; assumption?)
qed

text \<open>C2: \<open>sched_run\<close> hands the processor to the head of the highest-priority non-empty queue: that
  thread becomes the active thread with status running, no runnable thread has a smaller priority
  number, the queues stay as they were, and the result tells whether the thread changed.\<close>

theorem sched_run_picks_highest:
  assumes "sys_pre s Q T V L" and "top Q p"
  shows "\<exists>s'. sched_run s = Some (if sched_active_thread s = Some (hd (Q p)) then 0 else 1, s')
    \<and> sys_inv s' Q T V L \<and> sched_active_thread s' = Some (hd (Q p))
    \<and> (sched_active_thread s \<noteq> Some (hd (Q p)) \<longrightarrow> status (sched_threads s' (hd (Q p))) = STATUS_RUNNING)
    \<and> (\<forall>i \<le> MAXTHREADS. on_rq (sched_threads s' i) \<longrightarrow> unat (priority (sched_threads s' i)) < SCHED_PRIO_LEVELS \<longrightarrow>
          priority (sched_threads s' (hd (Q p))) \<le> priority (sched_threads s' i))"
proof -
  define s' where "s' = handed_over (sched_active_thread s) (hd (Q p)) s"
  note r = sched_run_sys [OF assms, folded s'_def]
  have inv: "rq_inv s' Q" using r(2) by (simp add: sys_inv_def sys_pre_def)
  have "priority (sched_threads s' (hd (Q p))) \<le> priority (sched_threads s' i)"
    if "i \<le> MAXTHREADS" "on_rq (sched_threads s' i)" "unat (priority (sched_threads s' i)) < SCHED_PRIO_LEVELS" for i
  proof -
    have "i \<in> set (Q (unat (priority (sched_threads s' i))))"
      using rq_invD(2) [OF inv that(3)] that by (simp add: queued_def)
    then have "p \<le> unat (priority (sched_threads s' i))" using assms(2) by (force simp: top_def not_less [symmetric])
    then show ?thesis using top_head(3) [OF inv assms(2)] by (simp add: word_le_nat_alt)
  qed
  moreover have "status (sched_threads s' (hd (Q p))) = STATUS_RUNNING" if "sched_active_thread s \<noteq> Some (hd (Q p))"
    using that by (simp add: s'_def handed_over_def)
  ultimately show ?thesis using r by (simp add: sched_run_def)
qed

theorem sched_run_picks_highest_witness:
  "sys_pre (demo STATUS_SLEEPING False) demo_queues [] [] [] \<and> top demo_queues 7 \<and>
   (\<exists>s'. sched_run (demo STATUS_SLEEPING False) = Some (0, s') \<and> sched_active_thread s' = Some 2)"
proof -
  have pre: "sys_pre (demo STATUS_SLEEPING False) demo_queues [] [] []" using demo_sleeping by (simp add: sys_inv_def)
  have "hd (demo_queues 7) = 2" "sched_active_thread (demo STATUS_SLEEPING False) = Some 2"
    by (simp_all add: demo_queues_def demo_def)
  then show ?thesis using sched_run_picks_highest [OF pre demo_top] pre demo_top by auto
qed

text \<open>C3: A change of status refines the abstract run queues: becoming runnable appends the thread to
  the queue of its priority, ceasing to be runnable removes the queue's head (which must be that
  thread), any other change leaves the queues alone; nothing else of the state changes.\<close>

theorem sched_set_status_refines:
  assumes "rq_inv s Q" and "i \<le> MAXTHREADS" and "unat (priority (sched_threads s i)) < SCHED_PRIO_LEVELS"
    and "on_rq (sched_threads s i) \<Longrightarrow> \<not> st \<ge> STATUS_ON_RUNQUEUE \<Longrightarrow> hd (Q (unat (priority (sched_threads s i)))) = i"
  shows "\<exists>h q b. let p = unat (priority (sched_threads s i));
             s' = s\<lparr>rq_entry := h, sched_runqueues := (sched_runqueues s)(p := q), runqueue_bitcache := b,
                     sched_threads := (sched_threads s)(i := (sched_threads s i)\<lparr>status := st\<rparr>)\<rparr>
           in sched_set_status i st s = Some s'
            \<and> rq_inv s' (Q(p := requeue (on_rq (sched_threads s i)) (st \<ge> STATUS_ON_RUNQUEUE) i (Q p)))"
  using sched_set_status_requeue [OF assms(1-3)] assms(4) by (simp add: Let_def)

theorem sched_set_status_refines_witness:
  "\<exists>s'. sched_set_status 4 STATUS_PENDING (demo STATUS_SLEEPING False) = Some s'
     \<and> rq_inv s' (demo_queues(5 := [4]))"
proof -
  have inv: "rq_inv (demo STATUS_SLEEPING False) demo_queues" using demo_sleeping by (simp add: sys_inv_def sys_pre_def)
  have t: "unat (priority (sched_threads (demo STATUS_SLEEPING False) 4)) = 5" "\<not> on_rq (sched_threads (demo STATUS_SLEEPING False) 4)"
      "demo_queues 5 = []" "(4 :: nat) \<le> MAXTHREADS" "(5 :: nat) < SCHED_PRIO_LEVELS"
    by (simp_all add: demo_simps on_rq_def STATUS_ON_RUNQUEUE_def status_order kernel_consts)
  show ?thesis
    using sched_set_status_refines [of "demo STATUS_SLEEPING False" demo_queues 4 STATUS_PENDING] inv t pending_on
    by (auto simp: Let_def requeue_def)
qed

section \<open>Threads\<close>

text \<open>\<open>k\<close> yields in a row, each by whichever thread runs.\<close>

fun yields :: "nat \<Rightarrow> sm_timer_state \<Rightarrow> sm_timer_state option" where
  "yields 0 s = Some s"
| "yields (Suc k) s =
     (case thread_yield_higher_internal True s of Some (Resume s1) \<Rightarrow> yields k s1 | _ \<Rightarrow> None)"

lemma yields_rotate:
  "sys_inv s Q T V L \<Longrightarrow> top Q p \<Longrightarrow> sched_active_thread s = Some (hd (Q p)) \<Longrightarrow>
     \<exists>s'. yields k s = Some s' \<and> sys_inv s' (Q(p := rotate k (Q p))) T V L
        \<and> sched_active_thread s' = Some (hd (rotate k (Q p)))"
proof (induction k arbitrary: s Q)
  case 0
  then show ?case by simp
next
  case (Suc k)
  have pre: "sys_pre s Q T V L" using Suc.prems(1) by (simp add: sys_inv_def)
  have "unat (priority (sched_threads s (hd (Q p)))) = p" "on_rq (sched_threads s (hd (Q p)))"
    using top_head(2,3) [OF sys_preD(1) [OF pre] Suc.prems(2)] by auto
  then have y: "yielded s Q = Q(p := rotate1 (Q p))" using Suc.prems(3) by (simp add: yielded_def)
  obtain s1 where s1: "thread_yield_higher_internal True s = Some (Resume s1)" "sys_inv s1 (Q(p := rotate1 (Q p))) T V L"
      "sched_active_thread s1 = Some (hd (rotate1 (Q p)))"
    using thread_yield_higher_sys [OF pre Suc.prems(2)] Suc.prems(3) unfolding y by auto
  define Q1 where "Q1 = Q(p := rotate1 (Q p))"
  have Q1: "top Q1 p" "hd (rotate1 (Q p)) = hd (Q1 p)" "\<And>xs. Q1(p := xs) = Q(p := xs)"
      "rotate k (Q1 p) = rotate (Suc k) (Q p)"
    using Suc.prems(2) by (auto simp: top_def Q1_def rotate1_rotate_swap)
  show ?case using Suc.IH [OF s1(2) [folded Q1_def] Q1(1)] s1(1,3) by (simp only: Q1 yields.simps option.case control.case)
qed

text \<open>C4: Yielding is round-robin: when the running thread is the first of the highest occupied level and
  that level holds \<open>n\<close> threads, then after \<open>k\<close> yields the thread at position \<open>k mod n\<close> of the
  original order is running, so that each of them gets the processor within \<open>n\<close> yields.\<close>

theorem yield_round_robin:
  assumes "sys_inv s Q T V L" and "top Q p" and "sched_active_thread s = Some (hd (Q p))"
  shows "\<exists>s'. yields k s = Some s' \<and> sched_active_thread s' = Some (Q p ! (k mod length (Q p)))
    \<and> sys_inv s' (Q(p := rotate k (Q p))) T V L"
proof -
  have "hd (rotate k (Q p)) = Q p ! (k mod length (Q p))"
    using assms(2) hd_rotate_conv_nth [of "Q p" k] by (simp add: top_def)
  then show ?thesis using yields_rotate [OF assms, of k] by auto
qed

theorem yield_round_robin_witness:
  "\<exists>s'. yields 5 (demo STATUS_SLEEPING False) = Some s' \<and> sched_active_thread s' = Some 3"
proof -
  have "sched_active_thread (demo STATUS_SLEEPING False) = Some (hd (demo_queues 7))" "demo_queues 7 = [2, 3]"
    by (simp_all add: demo_queues_def demo_def)
  moreover have "[2, 3 :: nat] ! (5 mod length [2, 3 :: nat]) = 3" by code_simp
  ultimately show ?thesis using yield_round_robin [OF demo_sleeping demo_top, of 5] by auto
qed

text \<open>C5: A thread that exits is stopped, its slot is free again and it is gone from its queue; no other
  thread's entry changes, the thread count drops by one, and no thread is active until the next
  dispatch.\<close>

theorem sched_task_exit_frees:
  assumes "sys_inv s Q T V L" and "sched_active_thread s = Some a"
  shows "\<exists>s'. sched_task_exit_internal s = Some s'
    \<and> sys_pre s' (Q(unat (priority (sched_threads s a)) := tl (Q (unat (priority (sched_threads s a)))))) T V L
    \<and> sched_active_thread s' = None \<and> \<not> in_use (sched_threads s' a)
    \<and> status (sched_threads s' a) = STATUS_STOPPED \<and> (\<forall>i. i \<noteq> a \<longrightarrow> sched_threads s' i = sched_threads s i)
    \<and> sched_num_threads s' = sched_num_threads s - 1"
  using sched_task_exit_sys [OF assms] by blast

theorem sched_task_exit_frees_witness:
  "\<exists>s'. sched_task_exit_internal (demo STATUS_SLEEPING False) = Some s' \<and> \<not> in_use (sched_threads s' 2)
     \<and> sched_num_threads s' = 3"
  using sched_task_exit_frees [OF demo_sleeping, of 2] by (auto simp: demo_def)

text \<open>C6: Creating a thread of a valid unprotected priority while the table has room takes the lowest free
  pid, initialises that slot only, appends the new thread to the queue of its priority, counts it, and
  leaves the running thread running.\<close>

theorem thread_create_takes_lowest_free:
  assumes "sys_inv s Q T V L" and "first_free s = Some i"
    and "SCHED_MAX_PRIO_LEVEL_UNPROTECTED \<le> prio" and "unat prio < SCHED_PRIO_LEVELS"
  shows "1 \<le> i \<and> i \<le> MAXTHREADS \<and> (\<forall>j. 1 \<le> j \<and> j < i \<longrightarrow> in_use (sched_threads s j))
    \<and> (\<exists>s'. thread_create_unprotected_in_scheduler prio sp0 s = Some (int i, s')
        \<and> sys_inv s' (Q(unat prio := Q (unat prio) @ [i])) T V L
        \<and> sched_threads s' = (sched_threads s)(i := (new_slot prio False sp0 i (sched_threads s i))\<lparr>status := STATUS_PENDING\<rparr>)
        \<and> sched_active_thread s' = sched_active_thread s \<and> sched_num_threads s' = sched_num_threads s + 1)"
proof -
  have np: "prio \<noteq> SCHED_PERIODIC_PRIO_LEVEL" and ok: "\<not> prio < SCHED_MAX_PRIO_LEVEL_UNPROTECTED"
    using assms(3) by (auto simp: kernel_consts word_le_nat_alt word_less_nat_alt)
  show ?thesis
    using first_free_Some [OF assms(2)] thread_create_sys [OF assms(1,2,4) np, of False sp0] ok
    unfolding thread_create_unprotected_in_scheduler_def by auto
qed

lemma demo_first_free: "first_free (demo STATUS_SLEEPING False) = Some 5"
proof -
  have "[Suc 0..<33] = Suc 0 # 2 # 3 # 4 # 5 # [6..<33]" by (simp add: upt_rec [of "Suc 0"] flip: numeral_2_eq_2)
  then show ?thesis by (simp add: first_free_def kernel_consts demo_simps)
qed

theorem thread_create_takes_lowest_free_witness:
  "\<exists>s'. thread_create_unprotected_in_scheduler 9 0x300 (demo STATUS_SLEEPING False) = Some (5, s')
     \<and> sched_active_thread s' = Some 2 \<and> in_use (sched_threads s' 5)"
proof -
  have "SCHED_MAX_PRIO_LEVEL_UNPROTECTED \<le> 9" "unat (9 :: u8) < SCHED_PRIO_LEVELS" by (simp_all add: kernel_consts)
  then show ?thesis
    using thread_create_takes_lowest_free [OF demo_sleeping demo_first_free, of 9 "0x300"]
    by (auto simp: new_slot_def demo_def)
qed

text \<open>C7: Creation fails without any effect on the module: a priority reserved for protected threads gives
  \<open>-EINVAL\<close>, and a full thread table gives \<open>-EOVERFLOW\<close>.\<close>

theorem thread_create_errors:
  "(prio < SCHED_MAX_PRIO_LEVEL_UNPROTECTED \<longrightarrow> thread_create_unprotected_in_scheduler prio sp0 s = Some (- EINVAL, s))
   \<and> (SCHED_MAX_PRIO_LEVEL_UNPROTECTED \<le> prio \<and> (\<forall>i \<in> {1..MAXTHREADS}. in_use (sched_threads s i)) \<longrightarrow>
        thread_create_unprotected_in_scheduler prio sp0 s = Some (- EOVERFLOW, s))"
proof -
  have "first_free s = None" if "\<forall>i \<in> {1..MAXTHREADS}. in_use (sched_threads s i)"
    using that unfolding first_free_def find_None_iff by (auto simp: kernel_consts)
  then show ?thesis
    by (auto simp: thread_create_unprotected_in_scheduler_def thread_create_scheduler_internal_def not_less)
qed

theorem thread_create_errors_witness:
  "thread_create_unprotected_in_scheduler 2 0x300 (reset (\<lambda>_. 0)) = Some (-28, reset (\<lambda>_. 0))
   \<and> thread_create_unprotected_in_scheduler 9 0x300 ((reset (\<lambda>_. 0))\<lparr>sched_threads := (\<lambda>i. demo_thread i 9 STATUS_SLEEPING)\<rparr>) =
      Some (-65, (reset (\<lambda>_. 0))\<lparr>sched_threads := (\<lambda>i. demo_thread i 9 STATUS_SLEEPING)\<rparr>)"
  using thread_create_errors [of 2 "0x300" "reset (\<lambda>_. 0)"]
    thread_create_errors [of 9 "0x300" "(reset (\<lambda>_. 0))\<lparr>sched_threads := (\<lambda>i. demo_thread i 9 STATUS_SLEEPING)\<rparr>"]
  by (simp add: kernel_consts EINVAL_def EOVERFLOW_def demo_thread_def)

text \<open>C8: Waking a sleeping thread that has no timer pending makes it runnable at the end of the queue of its
  priority and returns 1; a pid out of range, or a thread that is not sleeping, gives -1 and no change.\<close>

theorem thread_wakeup_effect:
  assumes "sys_inv s Q T V L"
  shows "(\<not> pid_is_valid p \<longrightarrow> thread_wakeup p s = Some (-1, s))
    \<and> (pid_is_valid p \<and> status (sched_threads s (nat p)) \<noteq> STATUS_SLEEPING \<longrightarrow> thread_wakeup p s = Some (-1, s))
    \<and> (pid_is_valid p \<and> status (sched_threads s (nat p)) = STATUS_SLEEPING \<and> in_use (sched_threads s (nat p))
         \<and> Pool (nat p) \<notin> set (T @ V @ L) \<longrightarrow>
       (\<exists>s'. thread_wakeup p s = Some (1, s')
          \<and> sys_inv s' (Q(unat (priority (sched_threads s (nat p))) := Q (unat (priority (sched_threads s (nat p)))) @ [nat p])) T V L
          \<and> sched_threads s' = (sched_threads s)(nat p := (sched_threads s (nat p))\<lparr>status := STATUS_RUNNING\<rparr>)))"
proof (intro conjI impI)
  assume v: "pid_is_valid p \<and> status (sched_threads s (nat p)) = STATUS_SLEEPING \<and> in_use (sched_threads s (nat p))
         \<and> Pool (nat p) \<notin> set (T @ V @ L)"
  then have g: "thread_get p = Some (nat p)" by (simp add: thread_get_def)
  show "\<exists>s'. thread_wakeup p s = Some (1, s')
          \<and> sys_inv s' (Q(unat (priority (sched_threads s (nat p))) := Q (unat (priority (sched_threads s (nat p)))) @ [nat p])) T V L
          \<and> sched_threads s' = (sched_threads s)(nat p := (sched_threads s (nat p))\<lparr>status := STATUS_RUNNING\<rparr>)"
    using thread_wakeup_sys [OF assms g] v by auto
qed (auto simp: thread_wakeup_def thread_get_def pid_is_valid_def kernel_consts thread_at_def)

theorem thread_wakeup_effect_witness:
  "thread_wakeup 40 (demo STATUS_SLEEPING False) = Some (-1, demo STATUS_SLEEPING False)
   \<and> (\<exists>s'. thread_wakeup 4 (demo STATUS_SLEEPING False) = Some (1, s') \<and> status (sched_threads s' 4) = STATUS_RUNNING)"
  using thread_wakeup_effect [OF demo_sleeping, of 40] thread_wakeup_effect [OF demo_sleeping, of 4]
  by (auto simp: pid_is_valid_def kernel_consts) (auto simp: demo_simps)

section \<open>Timers\<close>

text \<open>C9: A thread that goes to sleep: (1) With a timer in the table, which the pids below 15 have, and a duration
  beyond the back-off, the thread leaves its run queue with status sleeping, and its own timer, and no other, is added to exactly
  one of the three timer lists; the invariant holds again before the next dispatch. (2) With a timer and a duration within the
  back-off, the call waits; when it returns a counter value at or above the target was read, the thread is runnable, behind the
  others of its priority, and the lists are as they were; and it returns when the counter keeps passing the target. (3) The
  thread with pid 15 makes the code address the timer behind the end of the table, and (4) a larger pid does not sleep at
  all: the call returns at once and nothing has changed.\<close>

theorem tsleep_arms_one_timer:
  fixes off :: u32
  assumes "sys_inv s Q T V L" and "sched_active_thread s = Some a"
  defines "p \<equiv> unat (priority (sched_threads s a))" and "tgt \<equiv> (high_cnt s OR ucast (hw_reads s (hw_k s))) + off"
  defines "far \<equiv> tgt - (high_cnt s OR ucast (hw_reads s (Suc (hw_k s)))) > SECURE_MINTIMER_BACKOFF"
    and "tgt16 \<equiv> secure_mintimer_lltimer_mask tgt"
  shows "(a < 15 \<and> far \<longrightarrow> (\<exists>s' T' V' L'. secure_mintimer_tsleep_internal off s = Some s'
      \<and> sys_pre s' (Q(p := tl (Q p))) T' V' L' \<and> mset (T' @ V' @ L') = add_mset (Pool a) (mset (T @ V @ L))
      \<and> sched_threads s' = (sched_threads s)(a := (sched_threads s a)\<lparr>status := STATUS_SLEEPING\<rparr>)))
    \<and> (a < 15 \<and> \<not> far \<longrightarrow> (\<forall>s'. secure_mintimer_tsleep_internal off s = Some s' \<longrightarrow>
        sys_pre s' (Q(p := tl (Q p) @ [a])) T V L
        \<and> sched_threads s' = (sched_threads s)(a := (sched_threads s a)\<lparr>status := STATUS_PENDING\<rparr>)
        \<and> (\<exists>k > hw_k s. k < hw_k s' \<and> tgt16 \<le> ucast (hw_reads s k))))
    \<and> (a < 15 \<and> \<not> far \<and> (\<forall>k. \<exists>i \<ge> k. ucast (hw_reads s i) \<le> tgt16) \<and> (\<forall>k. \<exists>i \<ge> k. tgt16 \<le> ucast (hw_reads s i)) \<longrightarrow>
        secure_mintimer_tsleep_internal off s \<noteq> None)
    \<and> (a = 15 \<longrightarrow> secure_mintimer_tsleep_internal off s = None)
    \<and> (a > 15 \<longrightarrow> secure_mintimer_tsleep_internal off s = Some s)"
proof -
  have pre: "sys_pre s Q T V L" using assms(1) by (simp add: sys_inv_def)
  have ok: "timer_ok (Pool a) \<longleftrightarrow> a < 15" by (simp add: timer_ok_def kernel_consts SECURE_MINTIMER_TIMER_LIST_LENGTH_def)
  note t = tsleep_sys [OF assms(1,2), of off, folded p_def tgt_def, folded far_def, unfolded ok]
    and h = tsleep_short [OF assms(1,2), of off, folded p_def tgt_def, folded far_def tgt16_def, unfolded ok]
    and n = tsleep_no_slot [OF pre assms(2), of off, unfolded ok SECURE_MINTIMER_TIMER_LIST_LENGTH_def]
  show ?thesis
  proof (intro conjI impI allI)
    assume far: "a < 15 \<and> far"
    from t [OF conjunct1 [OF far] conjunct2 [OF far]] show "\<exists>s' T' V' L'. secure_mintimer_tsleep_internal off s = Some s'
      \<and> sys_pre s' (Q(p := tl (Q p))) T' V' L' \<and> mset (T' @ V' @ L') = add_mset (Pool a) (mset (T @ V @ L))
      \<and> sched_threads s' = (sched_threads s)(a := (sched_threads s a)\<lparr>status := STATUS_SLEEPING\<rparr>)"
      by (elim exE conjE) (intro exI conjI)
  next
    fix s' assume "a < 15 \<and> \<not> far" "secure_mintimer_tsleep_internal off s = Some s'"
    then show "sys_pre s' (Q(p := tl (Q p) @ [a])) T V L"
        "sched_threads s' = (sched_threads s)(a := (sched_threads s a)\<lparr>status := STATUS_PENDING\<rparr>)"
        "\<exists>k > hw_k s. k < hw_k s' \<and> tgt16 \<le> ucast (hw_reads s k)"
      using h(1) by simp_all
  next
    assume "a < 15 \<and> \<not> far \<and> (\<forall>k. \<exists>i \<ge> k. ucast (hw_reads s i) \<le> tgt16) \<and> (\<forall>k. \<exists>i \<ge> k. tgt16 \<le> ucast (hw_reads s i))"
    then show "secure_mintimer_tsleep_internal off s \<noteq> None" using h(2) by blast
  qed (use n in simp_all)
qed

theorem tsleep_arms_one_timer_witness:
  "(\<exists>s' T' V' L'. secure_mintimer_tsleep_internal 5000 (demo STATUS_SLEEPING True) = Some s'
     \<and> mset (T' @ V' @ L') = {#Pool 2, Pool 4#} \<and> sys_pre s' (demo_queues(7 := [3])) T' V' L')
   \<and> (\<exists>s'. secure_mintimer_tsleep_internal 0 (demo STATUS_SLEEPING True) = Some s'
     \<and> sys_pre s' (demo_queues(7 := [3, 2])) [Pool 4] [] [])"
proof -
  let ?s = "demo STATUS_SLEEPING True"
  have f: "sched_active_thread ?s = Some 2" "high_cnt ?s = 0" "\<And>k. hw_reads ?s k = 2000"
    "unat (priority (sched_threads ?s 2)) = 7" "tl (demo_queues 7) = [3]" "(2 :: nat) < 15"
    "\<And>n. (0 :: u32) OR n = n" by (simp_all add: demo_simps)
  have g: "(2000 :: u32) + 5000 - 2000 > SECURE_MINTIMER_BACKOFF" "\<not> (2000 :: u32) + 0 - 2000 > SECURE_MINTIMER_BACKOFF"
    "secure_mintimer_lltimer_mask (2000 + 0) = 2000" "ucast (2000 :: u16) = (2000 :: u32)"
    by (simp_all add: SECURE_MINTIMER_BACKOFF_def secure_mintimer_lltimer_mask_def mask_values)
  note t = tsleep_arms_one_timer [OF demo_timed f(1), unfolded f(2-4) g(4) f(7)]
  obtain s' T' V' L' where "secure_mintimer_tsleep_internal 5000 ?s = Some s'" "sys_pre s' (demo_queues(7 := [3])) T' V' L'"
      "mset (T' @ V' @ L') = add_mset (Pool 2) (mset ([Pool 4] @ [] @ []))"
    using conjunct1 [OF t [of 5000]] f(5,6) g(1) by metis
  moreover obtain u where u: "secure_mintimer_tsleep_internal 0 ?s = Some u"
    using conjunct1 [OF conjunct2 [OF conjunct2 [OF t [of 0]]]] f(6) g(2) unfolding g(3) by blast
  moreover have "sys_pre u (demo_queues(7 := [3, 2])) [Pool 4] [] []"
    using conjunct1 [OF conjunct2 [OF t [of 0]]] f(5,6) g(2) u by simp
  ultimately show ?thesis by (intro conjI exI [of _ s'] exI [of _ T'] exI [of _ V'] exI [of _ L'] exI [of _ u]) simp_all
qed

text \<open>C10: The timer interrupt within one period of the hardware counter. The current list starts with timers \<open>A\<close> that are
  due at the \<open>J\<close>-th reading, and at no reading up to the \<open>N\<close>-th the first timer behind them is near; up to there the counter does
  not wrap around. Then the handler returns before reading the counter more often. It fires a leading part of \<open>A\<close>, all of \<open>A\<close>
  if they are due at its first reading, each timer only after a value at or above its target was read during this very run; the
  threads that waited for them are runnable, behind those that already were; the fired timers are cleared and every other
  timer is untouched. The compare register is set for the first timer left, which at the last reading is still at least the
  back-off of an interrupt away.\<close>

theorem timer_interrupt_fires_prefix:
  assumes "sys_inv s Q (A @ B) V L" and "A @ B \<noteq> []"
    and "in_period (ucast (hw_reads s (hw_k s))) N s" and "hw_k s \<le> J" and "J + 2 * length A + 4 \<le> N"
    and "\<forall>t \<in> set A. secure_mintimer_lltimer_mask (target (timers s t)) \<le> ucast (hw_reads s J)"
    and "B \<noteq> [] \<longrightarrow> (\<forall>j \<ge> hw_k s. j \<le> N \<longrightarrow> far_off s (hd B) (hw_reads s j))"
  shows "\<exists>T1 T2 s' Q'. A = T1 @ T2 \<and> timer_callback s = Some s' \<and> sys_inv s' Q' (T2 @ B) V L \<and> hw_k s' \<le> Suc N
    \<and> (J = hw_k s \<longrightarrow> T1 = A)
    \<and> (\<forall>t \<in> set T1. timers s' t = cleared (timers s t)
         \<and> (\<exists>k \<ge> hw_k s. k < hw_k s' \<and> secure_mintimer_lltimer_mask (target (timers s t)) \<le> ucast (hw_reads s k)))
    \<and> (\<forall>t. t \<notin> set T1 \<longrightarrow> timers s' t = timers s t)
    \<and> (\<forall>i. Pool i \<in> set T1 \<longrightarrow> on_rq (sched_threads s' i))
    \<and> (\<forall>p. \<exists>ys. Q' p = Q p @ ys)
    \<and> TIMER_CCR s' 0 = ucast (secure_mintimer_lltimer_mask (next_target_of s (T2 @ B)))
    \<and> (T2 @ B \<noteq> [] \<longrightarrow> (high_cnt s OR ucast (hw_reads s (hw_k s' - 1))) + 200 \<le> next_target_of s (T2 @ B))"
  using timer_callback_sys [OF assms] unfolding fired_post_def extends_def by blast

theorem timer_interrupt_fires_prefix_witness:
  "\<exists>s' Q'. timer_callback (demo STATUS_SLEEPING True) = Some s' \<and> sys_inv s' Q' [] [] [] \<and> on_rq (sched_threads s' 4)
     \<and> target (timers s' (Pool 4)) = 0 \<and> hw_k s' \<le> 7"
proof -
  let ?s = "demo STATUS_SLEEPING True"
  have "sys_inv ?s demo_queues ([Pool 4] @ []) [] []" using demo_timed by simp
  moreover have "in_period (ucast (hw_reads ?s (hw_k ?s))) 6 ?s" "hw_k ?s = 0"
    "\<forall>t \<in> set [Pool 4]. secure_mintimer_lltimer_mask (target (timers ?s t)) \<le> ucast (hw_reads ?s 0)"
    by (simp_all add: in_period_def demo_def reset_def secure_mintimer_lltimer_mask_def mask_values)
  ultimately show ?thesis
    using timer_interrupt_fires_prefix [of ?s demo_queues "[Pool 4]" "[]" "[]" "[]" 6 0] by (fastforce simp: cleared_def)
qed

text \<open>C11: Setting an unarmed timer to a target beyond the back-off enters it into exactly one list, chosen by
  the target: the long list for another 32-bit or 16-bit period, the overflow list for a target below
  the present counter, and the current list otherwise; there it goes behind all timers that are due no
  later, so every list stays sorted and no timer is lost.\<close>

theorem set_absolute_enters_in_order:
  fixes s t tgt
  defines "now \<equiv> high_cnt s OR ucast (hw_reads s (hw_k s))"
    and "t0 \<equiv> (timers s t)\<lparr>target := tgt, long_target := long_cnt s\<rparr>"
  assumes "tm_inv s T V L" and "timer_ok t" and "t \<notin> set (T @ V @ L)"
    and "\<not> is_set (timers s t)" and "tgt - now > SECURE_MINTIMER_BACKOFF"
  defines "s0 \<equiv> s\<lparr>hw_k := Suc (hw_k s), timers := (timers s)(t := rolled_over t0 now)\<rparr>"
    and "d \<equiv> destination s t0 now"
  shows "\<exists>s'. secure_mintimer_set_absolute t tgt s = Some (0, s') \<and> lists_only s0 s'
    \<and> tm_inv s' (entered short_before (d = Timer_list) s0 t T)
                (entered short_before (d = Overflow_list) s0 t V)
                (entered long_before (d = Long_list) s0 t L)"
  using set_absolute_spec [OF assms(3-6)] assms(7) unfolding now_def t0_def s0_def d_def by blast

theorem set_absolute_enters_in_order_witness:
  "\<exists>s'. secure_mintimer_set_absolute (Pool 2) 9000 (demo STATUS_SLEEPING True) = Some (0, s')
     \<and> tm_inv s' [Pool 4, Pool 2] [] []"
proof -
  let ?s = "demo STATUS_SLEEPING True"
  have tm: "tm_inv ?s [Pool 4] [] []" using demo_timed by (simp add: sys_inv_def sys_pre_def)
  have pre: "timer_ok (Pool 2)" "Pool 2 \<notin> set ([Pool 4] @ [] @ [])" "\<not> is_set (timers ?s (Pool 2))"
    "9000 - (high_cnt ?s OR ucast (hw_reads ?s (hw_k ?s))) > SECURE_MINTIMER_BACKOFF"
    by (simp_all add: demo_def reset_def no_timer_def is_set_def SECURE_MINTIMER_BACKOFF_def)
  show ?thesis
    using set_absolute_enters_in_order [OF tm pre]
    by (auto simp: demo_def reset_def no_timer_def destination_def rolled_over_def entered_def this_high_period_def
        short_before_def SECURE_MINTIMER_OVERHEAD_def secure_mintimer_lltimer_mask_def mask_values)
qed

text \<open>C12: Removing a timer takes it off the list it is on and clears its target; all other timers stay on
  their lists in their order.\<close>

theorem remove_unlinks_timer:
  assumes "tm_inv s T V L" and "timer_ok t" and "is_set (timers s t)"
  shows "\<exists>s'. secure_mintimer_remove t s = Some s' \<and> \<not> is_set (timers s' t)
    \<and> (\<forall>u. u \<noteq> t \<longrightarrow> timers s' u = timers s u) \<and> tm_inv s' (remove1 t T) (remove1 t V) (remove1 t L)"
proof -
  obtain s1 where "secure_mintimer_remove t s = Some (s1\<lparr>timers := (timers s)(t := cleared (timers s t))\<rparr>)"
      "tm_inv (s1\<lparr>timers := (timers s)(t := cleared (timers s t))\<rparr>) (remove1 t T) (remove1 t V) (remove1 t L)"
    using secure_mintimer_remove_spec [OF assms(1,2)] assms(3) by auto
  then show ?thesis by auto
qed

theorem remove_unlinks_timer_witness:
  "\<exists>s'. secure_mintimer_remove (Pool 4) (demo STATUS_SLEEPING True) = Some s' \<and> tm_inv s' [] [] []"
proof -
  have "tm_inv (demo STATUS_SLEEPING True) [Pool 4] [] []" using demo_timed by (simp add: sys_inv_def sys_pre_def)
  moreover have "is_set (timers (demo STATUS_SLEEPING True) (Pool 4))" by (simp add: demo_def is_set_def)
  ultimately show ?thesis using remove_unlinks_timer [of _ "[Pool 4]" "[]" "[]" "Pool 4"] by fastforce
qed

text \<open>C13: At the end of a counter period the 64-bit period count advances by \<open>2 ^ 16\<close>, and the timers of the
  long list that are due in the new period become the current list, in order; the others stay.\<close>

theorem next_period_moves_due_timers:
  assumes "tm_inv s T [] L" and "high_ok s" and "\<forall>x \<in> set L. long_target (timers s x) \<ge> long_cnt (advanced s)"
  shows "\<exists>s'. next_period s = Some s' \<and> period_start s' = (period_start s + 2 ^ 16) mod 2 ^ 64
    \<and> tm_inv s' (takeWhile (due (advanced s)) L) [] (dropWhile (due (advanced s)) L)"
proof -
  obtain s' where s': "next_period s = Some s'" "lists_only (advanced s) s'"
      "tm_inv s' (takeWhile (due (advanced s)) L) [] (dropWhile (due (advanced s)) L)"
    using next_period_inv [OF assms(1,3)] by blast
  have "period_start s' = period_start (advanced s)"
    using lists_only_fields(6,7) [OF s'(2)] by (simp add: period_start_def)
  then show ?thesis using s' advanced_period(2) [OF assms(2)] by auto
qed

definition demo_long :: sm_timer_state where
  "demo_long = (demo STATUS_SLEEPING False)\<lparr>
     timers := (\<lambda>_. no_timer)(Pool 4 := \<lparr>target = 70000, long_target = 0, thread = Some 4\<rparr>,
                              Pool 3 := \<lparr>target = 500, long_target = 0, thread = Some 3\<rparr>),
     long_list_head := Some (Pool 4)\<rparr>"

lemma demo_long_simps:
  "timers demo_long (Pool 4) = \<lparr>target = 70000, long_target = 0, thread = Some 4\<rparr>"
  "timers demo_long (Pool 3) = \<lparr>target = 500, long_target = 0, thread = Some 3\<rparr>"
  "high_cnt demo_long = 0" "long_cnt demo_long = 0" "tm_next demo_long = (\<lambda>_. None)" "timer_list_head demo_long = None"
  "overflow_list_head demo_long = None" "long_list_head demo_long = Some (Pool 4)"
  by (simp_all add: demo_long_def demo_def reset_def)

lemma demo_long_due: "due (advanced demo_long) (Pool 4)"
  by (simp add: due_def advanced_def demo_long_simps this_high_period_def mask_values)

theorem next_period_moves_due_timers_witness:
  "\<exists>s'. next_period demo_long = Some s' \<and> period_start s' = 2 ^ 16 \<and> tm_inv s' [Pool 4] [] []"
proof -
  have "tm_inv demo_long [] [] [Pool 4]" "high_ok demo_long"
    "\<forall>x \<in> set [Pool 4]. long_target (timers demo_long x) \<ge> long_cnt (advanced demo_long)" "period_start demo_long = 0"
    by (simp_all add: tm_inv_def high_ok_def advanced_def period_start_def demo_long_simps)
  then show ?thesis using next_period_moves_due_timers [of demo_long "[]" "[Pool 4]"] demo_long_due by auto
qed

text \<open>C14: When a period ends with timers both on the overflow list and due on the long list, the merge walks both lists in
  step and keeps of each pair only the timer with the smaller target, that of the overflow list when they are equal; the rest of
  the longer list follows. The other timer of each pair, although pending, is on no list any more, so it never fires.\<close>

theorem next_period_loses_timers:
  assumes "tm_inv s T V L" and "V \<noteq> []" and "takeWhile (due (advanced s)) L \<noteq> []"
  defines "D \<equiv> takeWhile (due (advanced s)) L"
  defines "n \<equiv> min (length V) (length D)"
  shows "\<exists>s' M. next_period s = Some s' \<and> lseg (tm_next s') (timer_list_head s') M None
    \<and> overflow_list_head s' = None \<and> lseg (tm_next s') (long_list_head s') (dropWhile (due (advanced s)) L) None
    \<and> (\<forall>i < n. M ! i = (if target (timers s (V ! i)) \<le> target (timers s (D ! i)) then V ! i else D ! i))
    \<and> drop n M = drop n V @ drop n D \<and> length M = max (length V) (length D) \<and> timers s' = timers s
    \<and> (\<forall>i < n. (if target (timers s (V ! i)) \<le> target (timers s (D ! i)) then D ! i else V ! i)
          \<notin> set (M @ dropWhile (due (advanced s)) L))
    \<and> 0 < n"
proof -
  obtain s' where s': "next_period s = Some s'" "lseg (tm_next s') (timer_list_head s') (merged s V D) None"
      "overflow_list_head s' = None" "lseg (tm_next s') (long_list_head s') (dropWhile (due (advanced s)) L) None" "timers s' = timers s"
    using next_period_spec [OF assms(1)] lists_only_fields(1) [of "advanced s"] unfolding D_def by (auto simp: advanced_def)
  have "distinct (V @ L)" using assms(1) by (simp add: tm_inv_def)
  then have d: "distinct (V @ D @ dropWhile (due (advanced s)) L)" by (simp add: D_def)
  then have d': "distinct (V @ D)" by auto
  have "0 < n" using assms(2,3) by (simp add: n_def D_def)
  moreover have "merged s V D ! i = earlier s (V ! i) (D ! i)" if "i < n" for i
    using merged_nth [of i V D s] that by (simp add: n_def)
  moreover have "drop n (merged s V D) = drop n V @ drop n D" unfolding n_def by (rule merged_rest)
  moreover have "(if target (timers s (V ! i)) \<le> target (timers s (D ! i)) then D ! i else V ! i)
      \<notin> set (merged s V D @ dropWhile (due (advanced s)) L)" if "i < n" for i
  proof -
    have "(if target (timers s (V ! i)) \<le> target (timers s (D ! i)) then D ! i else V ! i) \<notin> set (merged s V D)"
      using merged_loses [OF d', of i s] that by (simp add: n_def)
    moreover have "V ! i \<in> set V" "D ! i \<in> set D" using that by (simp_all add: n_def)
    ultimately show ?thesis using d by auto
  qed
  ultimately show ?thesis using s' length_merged [of s V D] by (intro exI [of _ s'] exI [of _ "merged s V D"]) (simp add: earlier_def)
qed

theorem next_period_loses_timers_witness:
  "\<exists>s' M. next_period (demo_long\<lparr>overflow_list_head := Some (Pool 3)\<rparr>) = Some s'
     \<and> lseg (tm_next s') (timer_list_head s') M None \<and> Pool 3 \<in> set M \<and> Pool 4 \<notin> set M \<and> long_list_head s' = None"
proof -
  let ?s = "demo_long\<lparr>overflow_list_head := Some (Pool 3)\<rparr>"
  have "tm_inv ?s [] [Pool 3] [Pool 4]" by (simp add: tm_inv_def demo_long_simps)
  moreover have "due (advanced ?s) (Pool 4)"
    by (simp add: due_def advanced_def demo_long_simps this_high_period_def mask_values)
  moreover have "target (timers ?s (Pool 3)) = 500" "target (timers ?s (Pool 4)) = 70000" by (simp_all add: demo_long_simps)
  ultimately show ?thesis
    using next_period_loses_timers [of ?s "[]" "[Pool 3]" "[Pool 4]"]
    by (auto simp: length_Suc_conv intro!: exI [of _ "[Pool 3]"])
qed

text \<open>C15: Entering a timer that is already the only one of the current list links it to itself; when such a
  timer without a thread (the scheduler's own) has fired once, the expiry loop of the interrupt
  handler never returns.\<close>

theorem double_entry_hangs:
  assumes "lseg (tm_next s) (timer_list_head s) [r] None" and "timer_ok r" and "thread (timers s r) = None"
  shows "\<exists>s'. add_timer_to_list Timer_list r s = Some s' \<and> timer_list_head s' = Some r \<and> tm_next s' r = Some r
    \<and> expire_loop reference (s'\<lparr>timers := (timers s')(r := cleared (timers s' r))\<rparr>) = None"
proof -
  define s' where "s' = s\<lparr>tm_next := (tm_next s)(r := Some r)\<rparr>"
  have "self_cycle r (s'\<lparr>timers := (timers s')(r := cleared (timers s' r))\<rparr>)"
    using assms by (simp add: self_cycle_def s'_def cleared_def)
  then show ?thesis
    using insert_twice_cycles [OF assms(1,2)] expire_loop_cycle_None assms(1) by (auto simp: s'_def)
qed

theorem double_entry_hangs_witness:
  "\<exists>s'. add_timer_to_list Timer_list Scheduler_timer ((reset (\<lambda>_. 0))\<lparr>timer_list_head := Some Scheduler_timer\<rparr>) = Some s'
     \<and> tm_next s' Scheduler_timer = Some Scheduler_timer"
  using double_entry_hangs [of "(reset (\<lambda>_. 0))\<lparr>timer_list_head := Some Scheduler_timer\<rparr>" Scheduler_timer]
  by (auto simp: reset_def no_timer_def)

text \<open>C16: \<open>sched_set_status\<close> takes the head off the queue even when another thread is to be blocked: blocking a
  runnable thread that is not first leaves that thread in its ring, drops the runnable head from it,
  and no sequence of queues describes the resulting state any more.\<close>

theorem sched_set_status_drops_wrong_thread:
  assumes "rq_inv s Q" and "i \<le> MAXTHREADS" and "on_rq (sched_threads s i)" and "\<not> st \<ge> STATUS_ON_RUNQUEUE"
    and "unat (priority (sched_threads s i)) = p" and "p < SCHED_PRIO_LEVELS" and "hd (Q p) \<noteq> i"
  shows "\<exists>s'. sched_set_status i st s = Some s' \<and> cring (rq_entry s') (sched_runqueues s' p) (tl (Q p))
    \<and> i \<in> set (tl (Q p)) \<and> status (sched_threads s' i) = st
    \<and> hd (Q p) \<notin> set (tl (Q p)) \<and> on_rq (sched_threads s' (hd (Q p))) \<and> (\<nexists>Q'. rq_inv s' Q')"
proof -
  note ring = rq_invD(1) [OF assms(1,6)]
  have "i \<in> set (Q p)" using rq_invD(2) [OF assms(1,6)] assms(2,3,5) by (simp add: queued_def)
  then have q: "Q p \<noteq> []" "i \<in> set (tl (Q p))" using assms(7) by (cases "Q p"; auto)+
  have hdq: "hd (Q p) \<in> queued s p" using rq_invD(2) [OF assms(1,6)] q(1) hd_in_set by blast
  obtain h u where pop: "sm_clist_lpop (rq_entry s) (sched_runqueues s p) = Some (h, u, Some (hd (Q p)))" "cring h u (tl (Q p))"
    using rq.pop_rep [OF ring q(1)] by blast
  define b where "b = (if u = None then runqueue_bitcache s AND NOT (prio_bit (priority (sched_threads s i)))
      else runqueue_bitcache s)"
  define s' where "s' = s\<lparr>rq_entry := h, sched_runqueues := (sched_runqueues s)(p := u),
      runqueue_bitcache := b, sched_threads := (sched_threads s)(i := (sched_threads s i)\<lparr>status := st\<rparr>)\<rparr>"
  have st: "sched_set_status i st s = Some s'"
    using assms(2-6) pop(1) by (simp add: sched_set_status_def on_rq_def runqueue_at_def b_def s'_def Let_def)
  have c: "cring (rq_entry s') (sched_runqueues s' p) (tl (Q p))" using pop(2) by (simp add: s'_def)
  have "\<not> rq_inv s' Q'" for Q'
  proof
    assume r: "rq_inv s' Q'"
    have "Q' p = tl (Q p)" by (rule cring_unique [OF rq_invD(1) [OF r assms(6)] c])
    then have "i \<in> queued s' p" using q(2) rq_invD(2) [OF r assms(6)] by simp
    then show False using assms(4) by (simp add: queued_def s'_def on_rq_def)
  qed
  moreover have "hd (Q p) \<notin> set (tl (Q p))" using cring_distinct [OF ring] q(1) by (cases "Q p") auto
  moreover have "status (sched_threads s' i) = st" by (simp add: s'_def)
  moreover have "on_rq (sched_threads s' (hd (Q p)))" using hdq assms(7) by (simp add: s'_def queued_def)
  ultimately show ?thesis using st c q(2) by blast
qed

theorem sched_set_status_drops_wrong_thread_witness:
  "\<exists>s'. sched_set_status 3 STATUS_SLEEPING (demo STATUS_SLEEPING False) = Some s' \<and> (\<nexists>Q'. rq_inv s' Q')"
proof -
  have "rq_inv (demo STATUS_SLEEPING False) demo_queues" using demo_sleeping by (simp add: sys_inv_def sys_pre_def)
  moreover have "(3 :: nat) \<le> MAXTHREADS" "on_rq (sched_threads (demo STATUS_SLEEPING False) 3)"
      "unat (priority (sched_threads (demo STATUS_SLEEPING False) 3)) = 7" "(7 :: nat) < SCHED_PRIO_LEVELS" "hd (demo_queues 7) \<noteq> 3"
    by (simp_all add: demo_simps kernel_consts on_rq_def STATUS_ON_RUNQUEUE_def status_order)
  ultimately show ?thesis using sched_set_status_drops_wrong_thread [OF _ _ _ sleeping_off(1)] by blast
qed

section \<open>Mutexes and boot\<close>

text \<open>C17: Locking a mutex that is already locked blocks the caller: it leaves the run queue, joins the waiters
  behind all of the same or a higher priority, and the processor goes to the head of the highest
  occupied queue; the mutex stays locked. A free mutex is taken at once, and a try on a locked one fails,
  both without any effect on the module.\<close>

theorem mutex_lock_waits_in_order:
  assumes "sys_inv s Q T V L" and "sched_active_thread s = Some a" and "mutex_inv s m W" and "m \<noteq> Mutex_NULL"
    and "timer_quiet s" and "Q' = Q(prio_of s a := tl (Q (prio_of s a)))" and "top Q' r"
  shows "(\<exists>m' s'. mutex_lock m r1 cid s = Some (m', Resume s') \<and> m' \<noteq> Mutex_NULL
      \<and> sys_inv s' Q' T V L \<and> sched_active_thread s' = Some (hd (Q' r))
      \<and> mutex_inv s' m' (placed (\<lambda>i. prio_of s i \<le> prio_of s a) a W))
    \<and> mutex_trylock m r1 cid s = Some (m, 0, Return s)
    \<and> mutex_lock Mutex_NULL r1 cid s = Some (mutex_LOCKED, Return s)
    \<and> mutex_trylock Mutex_NULL r1 cid s = Some (mutex_LOCKED, 1, Return s)"
  using mutex_lock_blocks [OF assms(1-5), of r r1 cid] assms(4,6,7)
  by (auto simp: mutex_lock_def mutex_trylock_def mutex_lock_gen_def [of Mutex_NULL] mutex_lock_gen_def [of m False])

lemma demo_mutex: "mutex_inv (demo STATUS_MUTEX_BLOCKED False) (First_waiter 4) [4]"
  by (simp add: mutex_inv_def mutex_rep_def waits_def demo_simps kernel_consts)

theorem mutex_lock_waits_in_order_witness:
  "\<exists>m' s'. mutex_lock (First_waiter 4) 0x300 0 (demo STATUS_MUTEX_BLOCKED False) = Some (m', Resume s')
     \<and> sched_active_thread s' = Some 3 \<and> mutex_inv s' m' [4, 2]"
proof -
  let ?s = "demo STATUS_MUTEX_BLOCKED False"
  define Q' where "Q' = demo_queues(prio_of ?s 2 := tl (demo_queues (prio_of ?s 2)))"
  have "prio_of ?s 2 = 7" "prio_of ?s 4 = 5" by (simp_all add: prio_of_def demo_simps)
  then have q: "placed (\<lambda>i. prio_of ?s i \<le> prio_of ?s 2) 2 [4] = [4, 2]" "Q' 7 = [3]" "top Q' 7"
    by (auto simp: placed_def Q'_def top_def demo_queues_def kernel_consts)
  have "timer_quiet ?s" "sched_active_thread ?s = Some 2"
    by (simp_all add: timer_quiet_def demo_def reset_def)
  then show ?thesis
    using mutex_lock_waits_in_order [OF demo_waiting _ demo_mutex _ _ Q'_def q(3), of "0x300" 0] q by auto
qed

text \<open>C18: Unlocking a mutex that threads wait for hands it to the first of them: that thread becomes
  pending at the end of the run queue of its priority, the others keep waiting in order, the mutex
  stays locked, and a switch is requested when the woken thread has the higher priority. Without
  waiters the mutex becomes free.\<close>

theorem mutex_unlock_wakes_first:
  assumes "sys_inv s Q T V L" and "sched_active_thread s = Some a" and "mutex_inv s (First_waiter i) (w # W)"
    and "Pool w \<notin> set (T @ V @ L)"
  shows "(\<exists>m' s'. mutex_unlock (First_waiter i) s = Some (m', Return s') \<and> m' \<noteq> Mutex_NULL \<and> mutex_inv s' m' W
      \<and> sys_inv s' (Q(prio_of s w := Q (prio_of s w) @ [w])) T V L
      \<and> sched_threads s' = (sched_threads s)(w := (sched_threads s w)\<lparr>status := STATUS_PENDING\<rparr>)
      \<and> (prio_of s w < prio_of s a \<longrightarrow> sched_context_switch_request s'))
    \<and> mutex_unlock mutex_LOCKED s = Some (Mutex_NULL, Return s)"
  using mutex_unlock_hands_over [OF assms] by (simp add: mutex_unlock_def [of mutex_LOCKED])

theorem mutex_unlock_wakes_first_witness:
  "\<exists>m' s'. mutex_unlock (First_waiter 4) (demo STATUS_MUTEX_BLOCKED False) = Some (m', Return s')
     \<and> m' \<noteq> Mutex_NULL \<and> mutex_inv s' m' [] \<and> status (sched_threads s' 4) = STATUS_PENDING"
proof -
  have "sched_active_thread (demo STATUS_MUTEX_BLOCKED False) = Some 2" by (simp add: demo_def)
  then show ?thesis using mutex_unlock_wakes_first [OF demo_waiting _ demo_mutex] by auto
qed

text \<open>C19: From reset, \<open>kernel_init\<close> creates the idle thread (pid 1, lowest priority) and the main thread (pid
  2), starts the module's timer and ends with the main thread resumed, both threads queued at their own
  level and no timer pending.\<close>

theorem kernel_init_starts_main:
  assumes "cold s" and "\<not> initialization_done s" and "null_priority s \<noteq> SCHED_PERIODIC_PRIO_LEVEL"
  shows "\<exists>mem' s'. kernel_init ea entry idle_stk main_stk idle_f main_f r1 mem s = Some (mem', Resume s')
    \<and> sys_inv s' ((\<lambda>_. [])(15 := [1], 7 := [2])) [] [] [] \<and> sched_active_thread s' = Some 2"
  by (rule kernel_init_boots [OF assms])

theorem kernel_init_starts_main_witness:
  "\<exists>mem' s'. kernel_init 0x4000 0x5000 (0x200, 128) (0x300, 256) 0x4100 0x4200 0x3fe (\<lambda>_. 0) (reset (\<lambda>_. 0))
     = Some (mem', Resume s') \<and> sched_active_thread s' = Some 2"
proof -
  have "\<not> initialization_done (reset (\<lambda>_. 0))" "null_priority (reset (\<lambda>_. 0)) \<noteq> SCHED_PERIODIC_PRIO_LEVEL"
    by (simp_all add: reset_def kernel_consts)
  from kernel_init_starts_main [OF cold_reset this] show ?thesis by blast
qed

text \<open>A new thread's stack holds, above the eleven words for the registers R4 to R14, its argument, a status
  word with interrupts enabled, the address of its function and the address it returns to; the stack
  pointer is even and 32 bytes below the rounded end of the stack area.\<close>

theorem new_stack_layout:
  assumes "thread_stack_init ea func arg stack_start stack_size mem = (sp0, mem')"
  shows "sp0 = ((stack_start + stack_size) AND 0xfffe) - 32 \<and> \<not> bit sp0 0
    \<and> mem' (sp0 + 22) = arg \<and> mem' (sp0 + 24) = GIE \<and> mem' (sp0 + 26) = func \<and> mem' (sp0 + 28) = ea"
proof -
  have "even (((stack_start + stack_size) AND 0xfffe) - 32)" by (simp add: even_and_iff)
  then show ?thesis using thread_stack_init_layout [OF assms] by (simp add: bit_0)
qed

theorem new_stack_layout_example:
  "\<exists>mem'. thread_stack_init 0x4000 0x4100 7 0x200 129 (\<lambda>_. 0) = (0x260, mem') \<and> mem' 0x276 = 7 \<and> mem' 0x27c = 0x4000"
proof -
  obtain sp0 mem' where r: "thread_stack_init 0x4000 0x4100 7 0x200 129 (\<lambda>_. 0) = (sp0, mem')" by fastforce
  have "(0x200 + 129 :: u16) AND 0xfffe = 0x280" by code_simp
  then show ?thesis using new_stack_layout [OF r] r by auto
qed

end
