(* ===== verification/Div.thy ===== *)
theory Div
  imports Prelude
begin

text \<open>
  The division helpers of \<open>sys/div/div.c\<close> and \<open>sys/include/div.h\<close>: division by constants
  through multiplication with a scaled reciprocal, and the upper half of a 128-bit product from
  64-bit operations.
\<close>

section \<open>Definitions\<close>

definition DIV_H_INV_15625_32 :: u64 where "DIV_H_INV_15625_32 = 0x431bde83"
definition DIV_H_INV_15625_64 :: u64 where "DIV_H_INV_15625_64 = 0x431bde82d7b634db"
definition DIV_H_INV_15625_SHIFT :: nat where "DIV_H_INV_15625_SHIFT = 12"

definition div_mulhi64 :: "u64 \<Rightarrow> u64 \<Rightarrow> u64" where
  "div_mulhi64 a b =
     (let a_lo = (ucast a :: u32);
          a_hi = (ucast (drop_bit 32 a) :: u32);
          b_lo = (ucast b :: u32);
          b_hi = (ucast (drop_bit 32 b) :: u32);
          a_x_b_mid = (ucast a_hi :: u64) * ucast b_lo;
          b_x_a_mid = (ucast b_hi :: u64) * ucast a_lo;
          a_x_b_lo = (ucast a_lo :: u64) * ucast b_lo;
          a_x_b_hi = (ucast a_hi :: u64) * ucast b_hi;
          carry_bits = (ucast (drop_bit 32 ((ucast (ucast a_x_b_mid :: u32) :: u64)
                          + (ucast (ucast b_x_a_mid :: u32) :: u64) + drop_bit 32 a_x_b_lo)) :: u32)
      in a_x_b_hi + drop_bit 32 a_x_b_mid + drop_bit 32 b_x_a_mid + ucast carry_bits)"

definition div_u64_by_15625 :: "u64 \<Rightarrow> u64" where
  "div_u64_by_15625 val =
     (if val > 16383999997 then drop_bit DIV_H_INV_15625_SHIFT (div_mulhi64 DIV_H_INV_15625_64 val)
      else drop_bit (DIV_H_INV_15625_SHIFT + 32) (val * DIV_H_INV_15625_32))"

text \<open>\<open>None\<close> is the failed assertion.\<close>

definition div_u64_by_125 :: "u64 \<Rightarrow> u32 option" where
  "div_u64_by_125 val =
     (if val \<le> 536870911999 then
        let hi = (ucast (drop_bit 32 val) :: u32);
            lo = (ucast val :: u32);
            r = drop_bit 16 lo + push_bit 16 hi;
            res = r div 125;
            r = push_bit 16 (r mod 125) + (lo AND 0xFFFF)
        in Some (push_bit 16 res + r div 125)
      else None)"

definition div_u64_by_1000000 :: "u64 \<Rightarrow> u64" where
  "div_u64_by_1000000 val = drop_bit 6 (div_u64_by_15625 val)"

definition div_u32_by_15625div512 :: "u32 \<Rightarrow> u32" where
  "div_u32_by_15625div512 val =
     ucast (drop_bit (DIV_H_INV_15625_SHIFT + 32 - 9) ((ucast val :: u64) * DIV_H_INV_15625_32))"

definition div_u64_by_15625div512 :: "u64 \<Rightarrow> u64" where
  "div_u64_by_15625div512 val =
     (if val > 16383999997 then drop_bit (DIV_H_INV_15625_SHIFT - 9) (div_mulhi64 DIV_H_INV_15625_64 val)
      else drop_bit (DIV_H_INV_15625_SHIFT + 32 - 9) (val * DIV_H_INV_15625_32))"

definition div_u32_by_44488 :: "u32 \<Rightarrow> u32" where
  "div_u32_by_44488 val = ucast (drop_bit (15 + 32) ((ucast val :: u64) * 0xBC8F1391))"

definition div_u32_mod_44488 :: "u32 \<Rightarrow> u32" where
  "div_u32_mod_44488 val = val - div_u32_by_44488 val * 44488"

section \<open>The upper half of a product\<close>

lemma unat_lt_32: "unat (a :: u32) < 2 ^ 32" and unat_lt_64: "unat (c :: u64) < 2 ^ 64"
  using unsigned_less [of a, where ?'a = nat] unsigned_less [of c, where ?'a = nat] by simp_all

lemma unat_mult_32: "unat ((ucast (a :: u32) :: u64) * ucast (b :: u32)) = unat a * unat b"
proof -
  have "unat a \<le> 2 ^ 32 - 1" "unat b \<le> 2 ^ 32 - 1" using unat_lt_32 [of a] unat_lt_32 [of b] by simp_all
  then have "unat a * unat b \<le> (2 ^ 32 - 1) * (2 ^ 32 - 1)" by (rule mult_le_mono)
  then show ?thesis by (simp add: unat_word_ariths unat_ucast_up)
qed

lemma unat_ucast_lo: "unat (ucast (a :: u64) :: u32) = unat a mod 2 ^ 32"
  by (simp add: unat_ucast)

text \<open>The schoolbook identity behind it, with \<open>B\<close> the base of the two digits.\<close>

lemma mulhi_digits:
  fixes B ah al bh bl :: nat
  assumes "0 < B" and "al < B" and "bl < B"
  shows "((ah * B + al) * (bh * B + bl)) div (B * B) =
     ah * bh + (ah * bl) div B + (bh * al) div B + ((ah * bl) mod B + (bh * al) mod B + (al * bl) div B) div B"
proof -
  define m1 m2 l where "m1 = ah * bl" and "m2 = bh * al" and "l = al * bl"
  define x1 x2 x3 y1 y2 y3 where "x1 = m1 div B" and "x2 = m2 div B" and "x3 = l div B"
    and "y1 = m1 mod B" and "y2 = m2 mod B" and "y3 = l mod B"
  have s: "m1 = x1 * B + y1" "m2 = x2 * B + y2" "l = x3 * B + y3"
    by (simp_all add: x1_def x2_def x3_def y1_def y2_def y3_def)
  have "(ah * B + al) * (bh * B + bl) = ah * bh * (B * B) + (m1 + m2) * B + l"
    by (simp add: m1_def m2_def l_def algebra_simps)
  also have "\<dots> = (ah * bh + (x1 + x2)) * (B * B) + ((y1 + y2 + x3) * B + y3)"
    unfolding s by (simp add: algebra_simps)
  finally have "((ah * B + al) * (bh * B + bl)) div (B * B) =
      ((ah * bh + (x1 + x2)) * (B * B) + ((y1 + y2 + x3) * B + y3)) div (B * B)"
    by simp
  also have "\<dots> = ah * bh + (x1 + x2) + ((y1 + y2 + x3) * B + y3) div (B * B)"
    using assms(1) by (subst div_mult_self3) simp_all
  also have "((y1 + y2 + x3) * B + y3) div (B * B) = (y1 + y2 + x3) div B"
    using assms(1) by (simp add: div_mult2_eq y3_def)
  finally show ?thesis by (simp add: x1_def x2_def x3_def y1_def y2_def m1_def m2_def l_def)
qed

lemma div_mulhi64_spec: "unat (div_mulhi64 a b) = (unat a * unat b) div 2 ^ 64"
proof -
  define B :: nat where "B = 2 ^ 32"
  define ah al bh bl where "ah = unat a div B" and "al = unat a mod B" and "bh = unat b div B" and "bl = unat b mod B"
  define m1 m2 l where "m1 = ah * bl" and "m2 = bh * al" and "l = al * bl"
  have ab: "unat a = ah * B + al" "unat b = bh * B + bl" by (simp_all add: ah_def al_def bh_def bl_def)
  have dig: "ah < B" "bh < B" "al < B" "bl < B"
    using unat_lt_64 [of a] unat_lt_64 [of b] by (auto simp: ah_def al_def bh_def bl_def B_def less_mult_imp_div_less)
  have cast: "unat (ucast (drop_bit 32 a) :: u32) = ah" "unat (ucast a :: u32) = al"
      "unat (ucast (drop_bit 32 b) :: u32) = bh" "unat (ucast b :: u32) = bl"
    using dig by (simp_all add: unat_ucast unat_drop_bit ah_def al_def bh_def bl_def B_def)
  have lt: "l div B < B" using mult_strict_mono [of al B bl B] dig by (simp add: l_def less_mult_imp_div_less)
  define c where "c = m1 mod B + m2 mod B + l div B"
  have cB: "c < 3 * B" using lt dig mod_less_divisor [of B] by (simp add: c_def B_def)
  have tot: "(unat a * unat b) div 2 ^ 64 = ah * bh + m1 div B + m2 div B + c div B"
    using mulhi_digits [of B al bl ah bh] dig by (simp add: ab m1_def m2_def l_def c_def B_def)
  have "unat a * unat b < 2 ^ 64 * 2 ^ 64" using unat_lt_64 [of a] unat_lt_64 [of b] by (intro mult_strict_mono) simp_all
  then have small: "ah * bh + m1 div B + m2 div B + c div B < 2 ^ 64" unfolding tot [symmetric] by (simp add: less_mult_imp_div_less)
  define Wm1 Wm2 Wl Wh where
    "Wm1 = (ucast (ucast (drop_bit 32 a) :: u32) :: u64) * ucast (ucast b :: u32)" and
    "Wm2 = (ucast (ucast (drop_bit 32 b) :: u32) :: u64) * ucast (ucast a :: u32)" and
    "Wl = (ucast (ucast a :: u32) :: u64) * ucast (ucast b :: u32)" and
    "Wh = (ucast (ucast (drop_bit 32 a) :: u32) :: u64) * ucast (ucast (drop_bit 32 b) :: u32)"
  have W: "unat Wm1 = m1" "unat Wm2 = m2" "unat Wl = l" "unat Wh = ah * bh"
    by (simp_all only: Wm1_def Wm2_def Wl_def Wh_def unat_mult_32 cast m1_def m2_def l_def)
  define X where "X = (ucast (ucast Wm1 :: u32) :: u64) + (ucast (ucast Wm2 :: u32) :: u64) + drop_bit 32 Wl"
  have "unat X = c"
    using cB by (simp add: X_def unat_word_ariths unat_ucast_up unat_ucast_lo unat_drop_bit W c_def B_def)
  then have X: "unat (ucast (ucast (drop_bit 32 X) :: u32) :: u64) = c div B"
    using cB by (simp add: unat_ucast_up unat_ucast unat_drop_bit B_def)
  have "div_mulhi64 a b = Wh + drop_bit 32 Wm1 + drop_bit 32 Wm2 + ucast (ucast (drop_bit 32 X) :: u32)"
    by (simp only: div_mulhi64_def Let_def Wm1_def Wm2_def Wl_def Wh_def X_def)
  then have "unat (div_mulhi64 a b) = (ah * bh + m1 div B + m2 div B + c div B) mod 2 ^ 64"
    using X by (simp add: unat_word_ariths unat_drop_bit W B_def mod_simps)
  then show ?thesis using small tot by simp
qed

section \<open>Division by a constant\<close>

lemma div_by_reciprocal:
  fixes n M d P :: nat
  assumes "0 < d" and "d * M = P + e" and "n div d * e + (n mod d) * M < P"
  shows "n * M div P = n div d"
proof -
  have "n * M = (n div d * d + n mod d) * M" by simp
  also have "\<dots> = n div d * (d * M) + n mod d * M" by (simp only: add_mult_distrib mult.assoc)
  also have "\<dots> = n div d * P + (n div d * e + (n mod d) * M)" by (simp only: assms(2) add_mult_distrib2)
  finally show ?thesis using assms(3) by simp
qed

text \<open>
  The short path is exact below 7154218749 only; the code takes it up to 16383999997, the
  largest value whose product fits 64 bits.
\<close>

lemma div_15625_short:
  assumes "unat val < 7154218749"
  shows "unat (drop_bit 44 (val * DIV_H_INV_15625_32)) = unat val div 15625"
proof -
  define n where "n = unat val"
  have "unat (val * DIV_H_INV_15625_32) = n * 1125899907"
    using assms by (simp add: unat_word_ariths DIV_H_INV_15625_32_def n_def)
  then have u: "unat (drop_bit 44 (val * DIV_H_INV_15625_32)) = n * 1125899907 div 2 ^ 44" by (simp add: unat_drop_bit)
  define q r where "q = n div 15625" and "r = n mod 15625"
  have n: "n = q * 15625 + r" "r < 15625" by (simp_all add: q_def r_def)
  have "q < 457869 \<and> r \<le> 15624 \<or> q = 457869 \<and> r < 15624" using n assms by (simp add: n_def) linarith
  then have "q * 2459 + r * 1125899907 < 2 ^ 44" by auto
  then have "n * 1125899907 div 2 ^ 44 = n div 15625"
    by (intro div_by_reciprocal [where e = 2459]) (simp_all add: q_def r_def)
  then show ?thesis by (simp add: u n_def)
qed

lemma div_15625_long: "unat (drop_bit 12 (div_mulhi64 DIV_H_INV_15625_64 val)) = unat val div 15625"
proof -
  define n where "n = unat val"
  have n: "n < 2 ^ 64" using unat_lt_64 [of val] by (simp add: n_def)
  have "unat (drop_bit 12 (div_mulhi64 DIV_H_INV_15625_64 val)) = (4835703278458516699 * n) div 2 ^ 64 div 2 ^ 12"
    by (simp add: unat_drop_bit div_mulhi64_spec DIV_H_INV_15625_64_def n_def)
  also have "\<dots> = n * 4835703278458516699 div 2 ^ 76" by (simp add: div_mult2_eq [symmetric] mult.commute)
  also have "\<dots> = n div 15625"
  proof (rule div_by_reciprocal [where e = 2739])
    have "n div 15625 \<le> 2 ^ 64 div 15625" "n mod 15625 \<le> 15624" using n by (auto intro: div_le_mono)
    then have "n div 15625 * 2739 + n mod 15625 * 4835703278458516699 \<le> 1180591620717411 * 2739 + 15624 * 4835703278458516699"
      by (intro add_mono mult_le_mono) simp_all
    then show "n div 15625 * 2739 + n mod 15625 * 4835703278458516699 < 2 ^ 76" by simp
  qed simp_all
  finally show ?thesis by (simp add: n_def)
qed

lemma div_u64_by_15625_exact:
  assumes "unat val < 7154218749 \<or> 16383999997 < unat val"
  shows "unat (div_u64_by_15625 val) = unat val div 15625"
  using assms div_15625_short [of val] div_15625_long [of val]
  by (auto simp: div_u64_by_15625_def DIV_H_INV_15625_SHIFT_def word_less_nat_alt)

lemma div_u64_by_15625_off_by_one: "div_u64_by_15625 7154218749 = 457870" "(7154218749 :: nat) div 15625 = 457869"
proof -
  have "unat (drop_bit 44 (7154218749 * DIV_H_INV_15625_32)) = (7154218749 * 1125899907) div 2 ^ 44"
    by (simp add: unat_drop_bit unat_word_ariths DIV_H_INV_15625_32_def)
  then have "unat (div_u64_by_15625 7154218749) = unat (457870 :: u64)"
    by (simp add: div_u64_by_15625_def DIV_H_INV_15625_SHIFT_def word_less_nat_alt)
  then show "div_u64_by_15625 7154218749 = 457870" by (simp only: word_unat_eq_iff)
qed simp

lemma div_u32_by_44488_spec: "unat (div_u32_by_44488 val) = unat val div 44488"
proof -
  define n where "n = unat val"
  have n: "n < 2 ^ 32" using unat_lt_32 [of val] by (simp add: n_def)
  have "unat ((ucast val :: u64) * 0xBC8F1391) = n * 3163493265"
    using n by (simp add: unat_word_ariths unat_ucast_up n_def)
  moreover have "n * 3163493265 div 2 ^ 47 = n div 44488"
  proof (rule div_by_reciprocal [where e = 17992])
    have "n div 44488 \<le> 2 ^ 32 div 44488" "n mod 44488 \<le> 44487" using n by (auto intro: div_le_mono)
    then have "n div 44488 * 17992 + n mod 44488 * 3163493265 \<le> 96542 * 17992 + 44487 * 3163493265"
      by (intro add_mono mult_le_mono) simp_all
    then show "n div 44488 * 17992 + n mod 44488 * 3163493265 < 2 ^ 47" by simp
  qed simp_all
  moreover have "n div 44488 < 2 ^ 32" using n by (meson div_le_dividend le_less_trans)
  ultimately show ?thesis by (simp add: div_u32_by_44488_def unat_ucast unat_drop_bit n_def)
qed

lemma div_u32_mod_44488_spec: "unat (div_u32_mod_44488 val) = unat val mod 44488"
proof -
  define q where "q = unat val div 44488"
  have "q * 44488 \<le> unat val" by (simp add: q_def)
  moreover have "unat (div_u32_by_44488 val * 44488) = q * 44488"
    using unat_lt_32 [of val] calculation by (simp add: unat_word_ariths div_u32_by_44488_spec q_def)
  ultimately show ?thesis
    by (simp add: div_u32_mod_44488_def unat_sub word_le_nat_alt q_def minus_div_mult_eq_mod)
qed

end
