(* ===== verification/Mintimer_Ticks.thy ===== *)
theory Mintimer_Ticks
  imports Cpu Div
begin

text \<open>
  The calls of \<open>sys/include/secure_mintimer/\<close> that applications use: conversion between microseconds and
  timer ticks, and sleeping for a time in seconds, micro- or nanoseconds. The frequency of the timer is a
  build option: a power of two times 1 MHz, a power of two below it, 1 MHz itself (the Sancus boards), or a
  32768 Hz crystal.
\<close>

section \<open>Definitions\<close>

datatype timer_hz = Faster nat | Slower nat | Base | Crystal

definition ticks_from_usec :: "timer_hz \<Rightarrow> u32 \<Rightarrow> u32" where
  "ticks_from_usec hz usec =
     (case hz of
        Faster n \<Rightarrow> push_bit n usec
      | Slower n \<Rightarrow> drop_bit n usec
      | Base \<Rightarrow> usec
      | Crystal \<Rightarrow> div_u32_by_15625div512 usec)"

definition ticks_from_usec64 :: "timer_hz \<Rightarrow> u64 \<Rightarrow> u64" where
  "ticks_from_usec64 hz usec =
     (case hz of
        Faster n \<Rightarrow> push_bit n usec
      | Slower n \<Rightarrow> drop_bit n usec
      | Base \<Rightarrow> usec
      | Crystal \<Rightarrow> div_u64_by_15625div512 usec)"

definition usec_from_ticks :: "timer_hz \<Rightarrow> u32 \<Rightarrow> u32" where
  "usec_from_ticks hz ticks =
     (case hz of
        Faster n \<Rightarrow> drop_bit n ticks
      | Slower n \<Rightarrow> push_bit n ticks
      | Base \<Rightarrow> ticks
      | Crystal \<Rightarrow> let usec = (ucast ticks :: u64) * 15625 in ucast (drop_bit 9 usec))"

definition usec_from_ticks64 :: "timer_hz \<Rightarrow> u64 \<Rightarrow> u64" where
  "usec_from_ticks64 hz ticks =
     (case hz of
        Faster n \<Rightarrow> drop_bit n ticks
      | Slower n \<Rightarrow> push_bit n ticks
      | Base \<Rightarrow> ticks
      | Crystal \<Rightarrow> let usec = ticks * 15625 in drop_bit 9 usec)"

definition US_PER_SEC :: u64 where "US_PER_SEC = 1000000"
definition NS_PER_US :: u32 where "NS_PER_US = 1000"

definition secure_mintimer_now_usec :: "timer_hz \<Rightarrow> sm_timer_state \<Rightarrow> (u32 \<times> sm_timer_state) option" where
  "secure_mintimer_now_usec hz s = do { (t, s1) \<leftarrow> secure_mintimer_now s; Some (usec_from_ticks hz t, s1) }"

definition secure_mintimer_now_usec64 :: "timer_hz \<Rightarrow> sm_timer_state \<Rightarrow> u64 \<times> sm_timer_state" where
  "secure_mintimer_now_usec64 hz s = (case secure_mintimer_now64 s of (t, s1) \<Rightarrow> (usec_from_ticks64 hz t, s1))"

definition secure_mintimer_tsleep32 :: "u32 \<Rightarrow> u16 \<Rightarrow> u16 \<Rightarrow> sm_timer_state \<Rightarrow> control option" where
  "secure_mintimer_tsleep32 ticks r1 caller_id s = secure_mintimer_tsleep ticks 0 r1 caller_id s"

definition secure_mintimer_tsleep64 :: "u64 \<Rightarrow> u16 \<Rightarrow> u16 \<Rightarrow> sm_timer_state \<Rightarrow> control option" where
  "secure_mintimer_tsleep64 ticks r1 caller_id s =
     secure_mintimer_tsleep (ucast ticks) (ucast (drop_bit 32 ticks)) r1 caller_id s"

definition secure_mintimer_usleep :: "timer_hz \<Rightarrow> u32 \<Rightarrow> u16 \<Rightarrow> u16 \<Rightarrow> sm_timer_state \<Rightarrow> control option" where
  "secure_mintimer_usleep hz microseconds = secure_mintimer_tsleep32 (ticks_from_usec hz microseconds)"

definition secure_mintimer_usleep64 :: "timer_hz \<Rightarrow> u64 \<Rightarrow> u16 \<Rightarrow> u16 \<Rightarrow> sm_timer_state \<Rightarrow> control option" where
  "secure_mintimer_usleep64 hz microseconds = secure_mintimer_tsleep64 (ticks_from_usec64 hz microseconds)"

definition secure_mintimer_sleep :: "timer_hz \<Rightarrow> u32 \<Rightarrow> u16 \<Rightarrow> u16 \<Rightarrow> sm_timer_state \<Rightarrow> control option" where
  "secure_mintimer_sleep hz seconds = secure_mintimer_tsleep64 (ticks_from_usec64 hz (ucast seconds * US_PER_SEC))"

definition secure_mintimer_nanosleep :: "timer_hz \<Rightarrow> u32 \<Rightarrow> u16 \<Rightarrow> u16 \<Rightarrow> sm_timer_state \<Rightarrow> control option" where
  "secure_mintimer_nanosleep hz nanoseconds = secure_mintimer_tsleep32 (ticks_from_usec hz (nanoseconds div NS_PER_US))"

section \<open>Conversion\<close>

text \<open>
  Ticks to microseconds and back: exact when a tick is at least a microsecond long and the product
  fits, otherwise the last incomplete microsecond is lost.
\<close>

lemma unat_push_bit: "unat (push_bit n (a :: 'a::len word)) = (unat a * 2 ^ n) mod 2 ^ LENGTH('a)"
  unfolding unsigned_push_bit_eq by (simp add: take_bit_eq_mod push_bit_eq_mult)

lemma ticks_roundtrip:
  "unat t * 2 ^ n < 2 ^ 64 \<Longrightarrow> ticks_from_usec64 (Slower n) (usec_from_ticks64 (Slower n) t) = t"
  "unat (ticks_from_usec64 (Faster n) (usec_from_ticks64 (Faster n) t)) = unat t - unat t mod 2 ^ n"
proof -
  show "ticks_from_usec64 (Slower n) (usec_from_ticks64 (Slower n) t) = t" if "unat t * 2 ^ n < 2 ^ 64"
    using that by (simp add: ticks_from_usec64_def usec_from_ticks64_def word_unat_eq_iff unat_drop_bit unat_push_bit)
  have "unat t div 2 ^ n * 2 ^ n \<le> unat t" by simp
  then have "unat t div 2 ^ n * 2 ^ n < 2 ^ 64" using unat_lt_64 [of t] by linarith
  then show "unat (ticks_from_usec64 (Faster n) (usec_from_ticks64 (Faster n) t)) = unat t - unat t mod 2 ^ n"
    by (simp add: ticks_from_usec64_def usec_from_ticks64_def unat_drop_bit unat_push_bit minus_mod_eq_div_mult)
qed

text \<open>
  The upper half of a 64-bit time is ignored: a sleep of whole seconds is one of that time modulo
  \<open>2 ^ 32\<close> ticks.
\<close>

lemma sleep_truncates:
  "secure_mintimer_sleep Base seconds = secure_mintimer_usleep Base (of_nat (unat seconds * 1000000))"
proof -
  have "unat seconds * 1000000 < 2 ^ 64" using unat_lt_32 [of seconds] by simp
  then have "(ucast seconds * US_PER_SEC :: u64) = of_nat (unat seconds * 1000000)" by (simp add: US_PER_SEC_def)
  moreover have "(ucast (of_nat k :: u64) :: u32) = of_nat k" for k by (rule word_unat_eq_iff [THEN iffD2]) (simp add: unat_ucast_lo unsigned_of_nat take_bit_eq_mod mod_mod_cancel)
  ultimately show ?thesis
    by (simp add: fun_eq_iff secure_mintimer_sleep_def secure_mintimer_usleep_def ticks_from_usec64_def ticks_from_usec_def
        secure_mintimer_tsleep64_def secure_mintimer_tsleep32_def secure_mintimer_tsleep_def del: of_nat_mult)
qed


lemma sleep_4295: "secure_mintimer_sleep Base 4295 = secure_mintimer_usleep Base 32704"
proof -
  have "unat (4295 :: u32) * 1000000 = 4295000000" by simp
  moreover have "(4295000000 :: u32) = 32704" by code_simp
  ultimately have "(of_nat (unat (4295 :: u32) * 1000000) :: u32) = 32704" by (metis of_nat_numeral)
  then show ?thesis by (simp only: sleep_truncates)
qed

end
