(* ===== verification/Clist_Sort.thy ===== *)
theory Clist_Sort
  imports Clist
begin

text \<open>
  The merge sort on circular lists of \<open>core/clist.c\<close>. It works bottom-up, in passes that merge
  neighbouring runs of \<open>insize\<close> elements into one new list while the old ring is still being
  read; the old head marks the old ring's end. The result is the ring of the stable sort of the
  sequence. \<open>insize\<close> is an \<open>int\<close> that doubles; doubling it beyond 32767 is \<open>None\<close>.
\<close>

section \<open>Definitions\<close>

text \<open>One element along the old ring, \<open>NULL\<close> at its end.\<close>

definition ring_step :: "'n heap \<Rightarrow> 'n \<Rightarrow> 'n \<Rightarrow> 'n option" where
  "ring_step h oldhead x = (if h x = Some oldhead then None else h x)"

fun skip_run :: "'n heap \<Rightarrow> 'n \<Rightarrow> 'n \<Rightarrow> nat \<Rightarrow> nat \<Rightarrow> 'n option \<times> nat" where
  "skip_run h oldhead q 0 psize = (Some q, psize)"
| "skip_run h oldhead q (Suc i) psize =
     (case ring_step h oldhead q of
        None \<Rightarrow> (None, Suc psize)
      | Some q' \<Rightarrow> skip_run h oldhead q' i (Suc psize))"

definition link_tail :: "'n option \<Rightarrow> 'n \<Rightarrow> 'n heap \<Rightarrow> 'n heap" where
  "link_tail tail e h = (case tail of Some t \<Rightarrow> h(t := Some e) | None \<Rightarrow> h)"

definition link_list :: "'n option \<Rightarrow> 'n \<Rightarrow> 'n option \<Rightarrow> 'n option" where
  "link_list tail e lst = (case tail of Some _ \<Rightarrow> lst | None \<Rightarrow> Some e)"

fun merge_run ::
    "('n \<Rightarrow> 'n \<Rightarrow> int) \<Rightarrow> 'n \<Rightarrow> 'n heap \<Rightarrow> 'n option \<Rightarrow> nat \<Rightarrow> 'n option \<Rightarrow> nat \<Rightarrow> 'n option \<Rightarrow> 'n option \<Rightarrow>
       ('n heap \<times> 'n option \<times> 'n option \<times> 'n option) option" where
  "merge_run cmp oldhead h p psize q qsize tail lst =
     (if psize > 0 \<or> (qsize > 0 \<and> q \<noteq> None) then
        (if psize = 0 then
           (case q of
              None \<Rightarrow> None
            | Some e \<Rightarrow> merge_run cmp oldhead (link_tail tail e h) p psize (ring_step h oldhead e) (qsize - 1)
                         (Some e) (link_list tail e lst))
         else if qsize = 0 \<or> q = None then
           (case p of
              None \<Rightarrow> None
            | Some e \<Rightarrow> merge_run cmp oldhead (link_tail tail e h) (ring_step h oldhead e) (psize - 1) q qsize
                         (Some e) (link_list tail e lst))
         else
           (case (p, q) of
              (Some a, Some b) \<Rightarrow>
                if cmp a b \<le> 0 then
                  merge_run cmp oldhead (link_tail tail a h) (ring_step h oldhead a) (psize - 1) q qsize
                    (Some a) (link_list tail a lst)
                else
                  merge_run cmp oldhead (link_tail tail b h) p psize (ring_step h oldhead b) (qsize - 1)
                    (Some b) (link_list tail b lst)
            | _ \<Rightarrow> None))
      else Some (h, q, tail, lst))"

declare merge_run.simps [simp del]

partial_function (option) merge_pass ::
    "('n \<Rightarrow> 'n \<Rightarrow> int) \<Rightarrow> 'n \<Rightarrow> nat \<Rightarrow> 'n heap \<Rightarrow> 'n option \<Rightarrow> 'n option \<Rightarrow> 'n option \<Rightarrow> nat \<Rightarrow>
       ('n heap \<times> 'n option \<times> 'n option \<times> nat) option" where
  "merge_pass cmp oldhead insize h p tail lst nmerges =
     (case p of
        None \<Rightarrow> Some (h, tail, lst, nmerges)
      | Some p0 \<Rightarrow> do {
          let (q, psize) = skip_run h oldhead p0 insize 0;
          (h1, q1, tail1, lst1) \<leftarrow> merge_run cmp oldhead h p psize q insize tail lst;
          merge_pass cmp oldhead insize h1 q1 tail1 lst1 (Suc nmerges)
        })"

definition INT_MAX :: nat where "INT_MAX = 32767"

partial_function (option) clist_sort_loop ::
    "('n \<Rightarrow> 'n \<Rightarrow> int) \<Rightarrow> nat \<Rightarrow> 'n heap \<Rightarrow> 'n option \<Rightarrow> ('n heap \<times> 'n option) option" where
  "clist_sort_loop cmp insize h lst = do {
     oldhead \<leftarrow> lst;
     (h1, tail, lst1, nmerges) \<leftarrow> merge_pass cmp oldhead insize h lst None None 0;
     t \<leftarrow> tail;
     let h2 = h1(t := lst1);
     if nmerges \<le> 1 then Some (h2, tail)
     else if insize * 2 > INT_MAX then None
     else clist_sort_loop cmp (insize * 2) h2 lst1
   }"

definition clist_sort_internal ::
    "('n \<Rightarrow> 'n \<Rightarrow> int) \<Rightarrow> 'n heap \<Rightarrow> 'n option \<Rightarrow> ('n heap \<times> 'n option) option" where
  "clist_sort_internal cmp h lst = (if lst = None then Some (h, None) else clist_sort_loop cmp 1 h lst)"

definition clist_sort :: "('n \<Rightarrow> 'n \<Rightarrow> int) \<Rightarrow> 'n heap \<Rightarrow> 'n option \<Rightarrow> ('n heap \<times> 'n option) option" where
  "clist_sort cmp h list_next =
     (case list_next of Some l \<Rightarrow> clist_sort_internal cmp h (h l) | None \<Rightarrow> Some (h, list_next))"

section \<open>The passes on sequences\<close>

fun merge_lists2 :: "('n \<Rightarrow> 'n \<Rightarrow> int) \<Rightarrow> 'n list \<Rightarrow> 'n list \<Rightarrow> 'n list" where
  "merge_lists2 cmp ps [] = ps"
| "merge_lists2 cmp [] qs = qs"
| "merge_lists2 cmp (p # ps) (q # qs) =
     (if cmp p q \<le> 0 then p # merge_lists2 cmp ps (q # qs) else q # merge_lists2 cmp (p # ps) qs)"

function pass_list :: "('n \<Rightarrow> 'n \<Rightarrow> int) \<Rightarrow> nat \<Rightarrow> 'n list \<Rightarrow> 'n list" where
  "pass_list cmp n xs =
     (if xs = [] \<or> n = 0 then []
      else merge_lists2 cmp (take n xs) (take n (drop n xs)) @ pass_list cmp n (drop n (drop n xs)))"
  by pat_completeness auto
termination by (relation "measure (\<lambda>(_, _, xs). length xs)") auto

function merges :: "nat \<Rightarrow> 'n list \<Rightarrow> nat" where
  "merges n xs = (if xs = [] \<or> n = 0 then 0 else Suc (merges n (drop n (drop n xs))))"
  by pat_completeness auto
termination by (relation "measure (\<lambda>(_, xs). length xs)") auto

function runs :: "('n \<Rightarrow> 'k::linorder) \<Rightarrow> nat \<Rightarrow> 'n list \<Rightarrow> bool" where
  "runs key n xs \<longleftrightarrow>
     (if xs = [] \<or> n = 0 then True else sorted (map key (take n xs)) \<and> runs key n (drop n xs))"
  by pat_completeness auto
termination by (relation "measure (\<lambda>(_, _, xs). length xs)") auto

declare pass_list.simps [simp del] merges.simps [simp del] runs.simps [simp del]

lemma set_merge_lists2 [simp]: "set (merge_lists2 cmp ps qs) = set ps \<union> set qs"
  by (induction cmp ps qs rule: merge_lists2.induct) auto

lemma length_merge_lists2 [simp]: "length (merge_lists2 cmp ps qs) = length ps + length qs"
  by (induction cmp ps qs rule: merge_lists2.induct) auto

lemma distinct_merge_lists2: "distinct (merge_lists2 cmp ps qs) \<longleftrightarrow> distinct ps \<and> distinct qs \<and> set ps \<inter> set qs = {}"
  by (induction cmp ps qs rule: merge_lists2.induct) auto

lemma mset_merge_lists2 [simp]: "mset (merge_lists2 cmp ps qs) = mset ps + mset qs"
  by (induction cmp ps qs rule: merge_lists2.induct) auto

lemma merge_lists2_Nil [simp]: "merge_lists2 cmp [] qs = qs"
  by (cases qs) auto

definition cmp_by :: "('n \<Rightarrow> 'k::linorder) \<Rightarrow> ('n \<Rightarrow> 'n \<Rightarrow> int) \<Rightarrow> bool" where
  "cmp_by key cmp \<longleftrightarrow> (\<forall>x y. cmp x y \<le> 0 \<longleftrightarrow> key x \<le> key y)"

lemma cmp_byD: "cmp_by key cmp \<Longrightarrow> cmp x y \<le> 0 \<longleftrightarrow> key x \<le> key y"
  by (simp add: cmp_by_def)

lemma sorted_merge_lists2:
  "cmp_by key cmp \<Longrightarrow> sorted (map key ps) \<Longrightarrow> sorted (map key qs) \<Longrightarrow> sorted (map key (merge_lists2 cmp ps qs))"
proof (induction cmp ps qs rule: merge_lists2.induct)
  case (3 cmp p ps q qs)
  show ?case
  proof (cases "key p \<le> key q")
    case True
    then show ?thesis using 3 cmp_byD [OF 3(3)] by (auto intro: order_trans)
  next
    case False
    then have "key q \<le> key p" "\<not> cmp p q \<le> 0" using cmp_byD [OF 3(3)] by auto
    then show ?thesis using 3 by (auto intro: order_trans)
  qed
qed auto

lemma filter_merge_lists2:
  "cmp_by key cmp \<Longrightarrow> sorted (map key ps) \<Longrightarrow>
    filter (\<lambda>x. k = key x) (merge_lists2 cmp ps qs) = filter (\<lambda>x. k = key x) ps @ filter (\<lambda>x. k = key x) qs"
proof (induction cmp ps qs rule: merge_lists2.induct)
  case (3 cmp p ps q qs)
  show ?case
  proof (cases "cmp p q \<le> 0")
    case False
    then have "key q < key p" using cmp_byD [OF 3(3), of p q] by simp
    then have "key q < key x" if "x \<in> set (p # ps)" for x
      using 3(4) that by (auto intro: less_le_trans)
    then have "filter (\<lambda>x. key q = key x) (p # ps) = []" by (auto simp: filter_empty_conv dest: less_imp_neq)
    then show ?thesis using 3 False by auto
  qed (use 3 in auto)
qed auto

lemma runs_append:
  assumes "length ys = n" and "0 < n"
  shows "runs key n (ys @ zs) \<longleftrightarrow> sorted (map key ys) \<and> runs key n zs"
  using assms by (subst runs.simps) auto

lemma runs_short: "xs = [] \<or> length xs \<le> n \<Longrightarrow> 0 < n \<Longrightarrow> runs key n xs \<longleftrightarrow> sorted (map key xs)"
  by (subst runs.simps, subst runs.simps) auto

lemma runs_one: "runs key 1 xs"
proof (induction xs)
  case Nil
  then show ?case by (simp add: runs.simps)
next
  case (Cons x xs)
  then show ?case by (subst runs.simps) (cases xs; simp)
qed

lemma runsD: "runs key n xs \<Longrightarrow> 0 < n \<Longrightarrow> sorted (map key (take n xs)) \<and> runs key n (drop n xs)"
  by (cases "xs = []") (auto simp: runs.simps [of key n xs] runs.simps [of key n "[]"])

text \<open>A pass turns sorted runs into sorted runs of twice the length and keeps equal keys in order.\<close>

lemma pass_list_runs:
  assumes "cmp_by key cmp" and "0 < n"
  shows "runs key n xs \<Longrightarrow> runs key (n * 2) (pass_list cmp n xs)
    \<and> (\<forall>k. filter (\<lambda>x. k = key x) (pass_list cmp n xs) = filter (\<lambda>x. k = key x) xs)
    \<and> length (pass_list cmp n xs) = length xs \<and> set (pass_list cmp n xs) = set xs
    \<and> mset (pass_list cmp n xs) = mset xs"
proof (induction xs rule: length_induct)
  case (1 xs)
  show ?case
  proof (cases "xs = []")
    case True
    then show ?thesis by (simp add: pass_list.simps runs.simps)
  next
    case False
    let ?a = "take n xs" and ?b = "take n (drop n xs)" and ?r = "drop n (drop n xs)"
    have rr: "sorted (map key ?a)" "runs key n (drop n xs)" using runsD [OF 1(2) assms(2)] by auto
    have rb: "sorted (map key ?b)" "runs key n ?r" using runsD [OF rr(2) assms(2)] by auto
    have "length ?r < length xs" using False assms(2) by auto
    note ih = mp [OF mp [OF spec [OF 1(1)] this] rb(2)]
    have p: "pass_list cmp n xs = merge_lists2 cmp ?a ?b @ pass_list cmp n ?r"
      using False assms(2) by (subst pass_list.simps) simp
    have so: "sorted (map key (merge_lists2 cmp ?a ?b))" by (rule sorted_merge_lists2 [OF assms(1) rr(1) rb(1)])
    have xs: "?a @ ?b @ ?r = xs" by (simp only: append_take_drop_id)
    have "runs key (n * 2) (pass_list cmp n xs)"
    proof (cases "length xs < 2 * n")
      case True
      then have "?r = []" by simp
      then have "pass_list cmp n xs = merge_lists2 cmp ?a ?b" using p by (simp add: pass_list.simps)
      then show ?thesis using so True assms(2) by (subst runs_short) auto
    next
      case False
      then have "length (merge_lists2 cmp ?a ?b) = n * 2" by simp
      then show ?thesis using so ih assms(2) by (simp add: p runs_append)
    qed
    moreover have "filter (\<lambda>x. k = key x) (pass_list cmp n xs) = filter (\<lambda>x. k = key x) xs" for k
      using ih arg_cong [OF xs, of "filter (\<lambda>x. k = key x)"]
      by (simp add: p filter_merge_lists2 [OF assms(1) rr(1)])
    moreover have "length (pass_list cmp n xs) = length xs" using ih arg_cong [OF xs, of length] by (simp add: p)
    moreover have "set (pass_list cmp n xs) = set xs"
      using ih arg_cong [OF xs, of set] by (simp add: p Un_assoc)
    moreover have "mset (pass_list cmp n xs) = mset xs"
      using ih arg_cong [OF xs, of mset] by (simp add: p add.assoc)
    ultimately show ?thesis by blast
  qed
qed

lemma merges_le_1: "0 < n \<Longrightarrow> merges n xs \<le> 1 \<longleftrightarrow> length xs \<le> 2 * n"
  by (subst merges.simps, subst merges.simps) auto

section \<open>The passes on the heap\<close>

text \<open>
  The three parts of the heap during a pass: the merged list so far, the run \<open>p\<close> is in, and what
  is left of the old ring from \<open>q\<close> on.
\<close>

definition built :: "'n heap \<Rightarrow> 'n option \<Rightarrow> 'n option \<Rightarrow> 'n list \<Rightarrow> bool" where
  "built h tail lst out \<longleftrightarrow>
     (if out = [] then tail = None
      else tail = Some (last out) \<and> lst = Some (hd out) \<and> lseg h lst (butlast out) tail)"

definition in_run :: "'n heap \<Rightarrow> 'n option \<Rightarrow> 'n list \<Rightarrow> bool" where
  "in_run h p ps \<longleftrightarrow> ps = [] \<or> p = Some (hd ps) \<and> (\<exists>r. lseg h p ps r)"

definition unread :: "'n heap \<Rightarrow> 'n \<Rightarrow> 'n option \<Rightarrow> 'n list \<Rightarrow> bool" where
  "unread h oh q qs \<longleftrightarrow> (if qs = [] then q = None else q = Some (hd qs) \<and> lseg h q qs (Some oh))"

lemma unread_Cons: "unread h oh q (x # xs) \<Longrightarrow> oh \<notin> set xs \<Longrightarrow> q = Some x \<and> unread h oh (ring_step h oh x) xs"
  by (cases xs) (auto simp: unread_def ring_step_def)

lemma in_run_Cons: "in_run h p (x # xs) \<Longrightarrow> oh \<notin> set xs \<Longrightarrow> p = Some x \<and> in_run h (ring_step h oh x) xs"
  by (cases xs) (auto simp: in_run_def ring_step_def)

lemma built_snoc:
  assumes "built h tail lst out" and "e \<notin> set out" and "distinct out"
  shows "built (link_tail tail e h) (Some e) (link_list tail e lst) (out @ [e])"
proof (cases out rule: rev_cases)
  case Nil
  then show ?thesis using assms by (simp add: built_def link_list_def)
next
  case (snoc ys y)
  then have "tail = Some y" "lst = Some (hd out)" "lseg h lst ys (Some y)" "y \<notin> set ys" using assms by (auto simp: built_def)
  then show ?thesis using snoc by (cases ys) (auto simp: built_def link_tail_def link_list_def butlast_append)
qed

lemma link_tail_other: "built h tail lst out \<Longrightarrow> x \<notin> set out \<Longrightarrow> link_tail tail e h x = h x"
  by (auto simp: built_def link_tail_def split: if_splits option.splits)

lemma in_run_cong: "in_run h p ps \<Longrightarrow> (\<And>x. x \<in> set ps \<Longrightarrow> h' x = h x) \<Longrightarrow> in_run h' p ps"
  using lseg_cong [of ps h' h] by (auto simp: in_run_def)

lemma unread_cong: "unread h oh q qs \<Longrightarrow> (\<And>x. x \<in> set qs \<Longrightarrow> h' x = h x) \<Longrightarrow> unread h' oh q qs"
  using lseg_cong [of qs h' h] by (auto simp: unread_def)

definition merged_state ::
    "('n \<Rightarrow> 'n \<Rightarrow> int) \<Rightarrow> 'n \<Rightarrow> 'n heap \<Rightarrow> 'n list \<Rightarrow> 'n list \<Rightarrow> 'n list \<Rightarrow> nat \<Rightarrow>
      ('n heap \<times> 'n option \<times> 'n option \<times> 'n option) option \<Rightarrow> bool" where
  "merged_state cmp oh h out ps qs n r \<longleftrightarrow>
     (\<exists>h' q' tail' lst'. r = Some (h', q', tail', lst') \<and> built h' tail' lst' (out @ merge_lists2 cmp ps (take n qs))
        \<and> unread h' oh q' (drop n qs) \<and> (\<forall>x. x \<notin> set out \<union> set ps \<union> set (take n qs) \<longrightarrow> h' x = h x))"

lemma merged_state_step:
  assumes "merged_state cmp oh (link_tail tail e h) (out @ [e]) ps' qs' n' r" and b: "built h tail lst out"
    and m: "merge_lists2 cmp ps (take n qs) = e # merge_lists2 cmp ps' (take n' qs')"
    and d: "drop n qs = drop n' qs'" and s: "insert e (set ps' \<union> set (take n' qs')) = set ps \<union> set (take n qs)"
  shows "merged_state cmp oh h out ps qs n r"
proof -
  obtain h' q' tail' lst' where r: "r = Some (h', q', tail', lst')"
      "built h' tail' lst' ((out @ [e]) @ merge_lists2 cmp ps' (take n' qs'))" "unread h' oh q' (drop n' qs')"
      "\<forall>x. x \<notin> set (out @ [e]) \<union> set ps' \<union> set (take n' qs') \<longrightarrow> h' x = link_tail tail e h x"
    using assms(1) by (auto simp: merged_state_def)
  have "h' x = h x" if "x \<notin> set out \<union> set ps \<union> set (take n qs)" for x
  proof -
    have "x \<notin> set (out @ [e]) \<union> set ps' \<union> set (take n' qs')" using that s by auto
    then show ?thesis using r(4) link_tail_other [OF b, of x e] that by auto
  qed
  then show ?thesis using r m d by (auto simp: merged_state_def)
qed

lemma merge_run_spec:
  assumes "built h tail lst out" and "in_run h p ps" and "unread h oh q qs" and "distinct (out @ ps @ qs)"
    and "oh \<notin> set (tl ps)" and "oh \<notin> set qs"
  shows "merged_state cmp oh h out ps qs n (merge_run cmp oh h p (length ps) q n tail lst)"
  using assms
proof (induction "length ps + n" arbitrary: h tail lst out p ps q qs n rule: less_induct)
  case less
  note b = less.prems(1) and d = less.prems(4)
  have emit_p: "merged_state cmp oh (link_tail tail x h) (out @ [x]) xs qs n
      (merge_run cmp oh (link_tail tail x h) (ring_step h oh x) (length xs) q n (Some x) (link_list tail x lst))"
    if ps: "ps = x # xs" for x xs
  proof (rule less.hyps)
    show "length xs + n < length ps + n" by (simp add: ps)
    show "built (link_tail tail x h) (Some x) (link_list tail x lst) (out @ [x])"
      by (rule built_snoc [OF b]) (use d ps in auto)
    have "in_run h (ring_step h oh x) xs" using in_run_Cons less.prems(2,5) ps by force
    then show "in_run (link_tail tail x h) (ring_step h oh x) xs"
      by (rule in_run_cong) (use link_tail_other [OF b] d ps in auto)
    show "unread (link_tail tail x h) oh q qs"
      by (rule unread_cong [OF less.prems(3)]) (use link_tail_other [OF b] d in auto)
    show "oh \<notin> set (tl xs)" using less.prems(5) ps by (cases xs) auto
  qed (use d ps less.prems(6) in auto)
  have emit_q: "merged_state cmp oh (link_tail tail y h) (out @ [y]) ps ys k
      (merge_run cmp oh (link_tail tail y h) p (length ps) (ring_step h oh y) k (Some y) (link_list tail y lst))"
    if qs: "qs = y # ys" and k: "n = Suc k" for y ys k
  proof (rule less.hyps)
    show "length ps + k < length ps + n" by (simp add: k)
    show "built (link_tail tail y h) (Some y) (link_list tail y lst) (out @ [y])"
      by (rule built_snoc [OF b]) (use d qs in auto)
    show "in_run (link_tail tail y h) p ps"
      by (rule in_run_cong [OF less.prems(2)]) (use link_tail_other [OF b] d in auto)
    have "unread h oh (ring_step h oh y) ys" using unread_Cons less.prems(3,6) qs by force
    then show "unread (link_tail tail y h) oh (ring_step h oh y) ys"
      by (rule unread_cong) (use link_tail_other [OF b] d qs in auto)
  qed (use d qs less.prems(5,6) in auto)
  have pq: "p = Some x" if "ps = x # xs" for x xs using less.prems(2) that by (simp add: in_run_def)
  have qq: "q = (case qs of [] \<Rightarrow> None | y # _ \<Rightarrow> Some y)" using less.prems(3) by (auto simp: unread_def split: list.splits)
  show ?case
  proof (cases ps)
    case Nil
    show ?thesis
    proof (cases "n = 0 \<or> qs = []")
      case True
      then have "merge_run cmp oh h p (length ps) q n tail lst = Some (h, q, tail, lst)"
        using Nil qq by (subst merge_run.simps) auto
      then show ?thesis using True Nil b less.prems(3) by (auto simp: merged_state_def)
    next
      case False
      then obtain y ys k where y: "qs = y # ys" "n = Suc k" by (cases qs; cases n) auto
      then have "merge_run cmp oh h p (length ps) q n tail lst =
          merge_run cmp oh (link_tail tail y h) p (length ps) (ring_step h oh y) k (Some y) (link_list tail y lst)"
        using Nil qq by (subst merge_run.simps) simp
      then show ?thesis using merged_state_step [OF emit_q [OF y] b, of ps n qs] Nil y by simp
    qed
  next
    case (Cons x xs)
    show ?thesis
    proof (cases "n = 0 \<or> qs = []")
      case True
      then have "merge_run cmp oh h p (length ps) q n tail lst =
          merge_run cmp oh (link_tail tail x h) (ring_step h oh x) (length xs) q n (Some x) (link_list tail x lst)"
        using Cons pq qq by (subst merge_run.simps) auto
      then show ?thesis using merged_state_step [OF emit_p [OF Cons] b, of ps n qs] Cons True by auto
    next
      case False
      then obtain y ys k where y: "qs = y # ys" "n = Suc k" by (cases qs; cases n) auto
      have "merge_run cmp oh h p (length ps) q n tail lst =
         (if cmp x y \<le> 0
          then merge_run cmp oh (link_tail tail x h) (ring_step h oh x) (length xs) q n (Some x) (link_list tail x lst)
          else merge_run cmp oh (link_tail tail y h) p (length ps) (ring_step h oh y) k (Some y) (link_list tail y lst))"
        using Cons pq qq y by (subst merge_run.simps) simp
      then show ?thesis
        using merged_state_step [OF emit_p [OF Cons] b, of ps n qs] merged_state_step [OF emit_q [OF y] b, of ps n qs] Cons y
        by (auto simp: insert_commute)
    qed
  qed
qed

lemma skip_run_spec:
  "unread h oh (Some x) xs \<Longrightarrow> xs \<noteq> [] \<Longrightarrow> oh \<notin> set (tl xs) \<Longrightarrow>
     \<exists>q. skip_run h oh x n psize = (q, psize + length (take n xs)) \<and> unread h oh q (drop n xs)"
proof (induction n arbitrary: x xs psize)
  case 0
  then show ?case by simp
next
  case (Suc n)
  obtain ys where xs: "xs = x # ys" using Suc.prems by (cases xs) (auto simp: unread_def)
  have u: "unread h oh (ring_step h oh x) ys" using unread_Cons Suc.prems xs by force
  show ?case
  proof (cases ys)
    case Nil
    then show ?thesis using u xs by (simp add: unread_def)
  next
    case (Cons y zs)
    then have r: "ring_step h oh x = Some y" using u by (simp add: unread_def)
    have "oh \<notin> set (tl ys)" using Suc.prems(3) xs Cons by auto
    then show ?thesis using Suc.IH [of y ys "Suc psize"] u r xs Cons by auto
  qed
qed

lemma unread_split:
  assumes "unread h oh p xs"
  shows "in_run h p (take n xs)"
  using assms lseg_append [of h p "take n xs" "drop n xs" "Some oh"] by (cases xs; cases n) (auto simp: in_run_def unread_def)

lemma merge_pass_spec:
  assumes "0 < n" and "built h tail lst out" and "unread h oh p xs" and "distinct (out @ xs)" and "oh \<notin> set (tl xs)"
  shows "\<exists>h' tail' lst'. merge_pass cmp oh n h p tail lst k = Some (h', tail', lst', k + merges n xs)
    \<and> built h' tail' lst' (out @ pass_list cmp n xs) \<and> (\<forall>x. x \<notin> set out \<union> set xs \<longrightarrow> h' x = h x)"
  using assms
proof (induction "length xs" arbitrary: h tail lst out p xs k rule: less_induct)
  case less
  show ?case
  proof (cases xs)
    case Nil
    then show ?thesis
      using less.prems by (subst merge_pass.simps) (simp add: unread_def pass_list.simps merges.simps)
  next
    case (Cons x ys)
    let ?a = "take n xs" and ?r = "drop n xs"
    have p: "p = Some x" using less.prems(3) Cons by (simp add: unread_def)
    obtain q where q: "skip_run h oh x n 0 = (q, length ?a)" "unread h oh q ?r"
      using skip_run_spec [of h oh x xs n 0] less.prems Cons p by auto
    have xs: "?a @ ?r = xs" by simp
    have a: "?a \<noteq> []" using less.prems(1) Cons by simp
    have d: "distinct (out @ ?a @ ?r)" using less.prems(4) by simp
    have oh: "oh \<notin> set (tl ?a)" "oh \<notin> set ?r"
      using less.prems(5) a xs by (metis Un_iff set_append tl_append2)+
    note ms = merge_run_spec [OF less.prems(2) unread_split [OF less.prems(3), of n] q(2) d oh, of cmp n]
    obtain h1 q1 tail1 lst1 where m: "merge_run cmp oh h p (length ?a) q n tail lst = Some (h1, q1, tail1, lst1)"
        "built h1 tail1 lst1 (out @ merge_lists2 cmp ?a (take n ?r))" "unread h1 oh q1 (drop n ?r)"
        "\<forall>x. x \<notin> set out \<union> set ?a \<union> set (take n ?r) \<longrightarrow> h1 x = h x"
      using ms by (auto simp: merged_state_def)
    have xs2: "?a @ take n ?r @ drop n ?r = xs" by (simp only: append_take_drop_id)
    have dx: "distinct (out @ ?a @ take n ?r @ drop n ?r)" using less.prems(4) unfolding xs2 .
    have d1: "distinct ((out @ merge_lists2 cmp ?a (take n ?r)) @ drop n ?r)"
      using dx by (simp only: distinct_append distinct_merge_lists2 set_merge_lists2 set_append) blast
    have oh1: "oh \<notin> set (tl (drop n ?r))" using oh(2) set_drop_subset [of "Suc n" ?r] by (auto simp: drop_Suc tl_drop)
    have "length (drop n ?r) < length xs" using less.prems(1) Cons by simp
    then obtain h' tail' lst' where r: "merge_pass cmp oh n h1 q1 tail1 lst1 (Suc k) = Some (h', tail', lst', Suc k + merges n (drop n ?r))"
        "built h' tail' lst' ((out @ merge_lists2 cmp ?a (take n ?r)) @ pass_list cmp n (drop n ?r))"
        "\<forall>x. x \<notin> set (out @ merge_lists2 cmp ?a (take n ?r)) \<union> set (drop n ?r) \<longrightarrow> h' x = h1 x"
      using less.hyps [OF _ less.prems(1) m(2,3) d1 oh1, of "Suc k"] by blast
    have ne: "xs \<noteq> []" "n \<noteq> 0" using Cons less.prems(1) by auto
    have mp: "merge_pass cmp oh n h p tail lst k = Some (h', tail', lst', k + merges n xs)"
      using q(1) m(1) r(1) p ne by (subst merge_pass.simps, subst merges.simps) simp
    have bl: "built h' tail' lst' (out @ pass_list cmp n xs)" using r(2) ne by (subst pass_list.simps) simp
    have "h' z = h z" if "z \<notin> set out \<union> set xs" for z
    proof -
      have "z \<notin> set out \<union> set ?a \<union> set (take n ?r)" "z \<notin> set (out @ merge_lists2 cmp ?a (take n ?r)) \<union> set (drop n ?r)"
        using that arg_cong [OF xs2, of set] by auto
      then show ?thesis using m(4) r(3) by auto
    qed
    then show ?thesis using mp bl by blast
  qed
qed

section \<open>Sorting\<close>

lemma cring_unread: "cring h (Some l) xs \<Longrightarrow> unread h (hd xs) (h l) xs \<and> h l = Some (hd xs) \<and> hd xs \<notin> set (tl xs)"
proof -
  assume r: "cring h (Some l) xs"
  then obtain ys where ys: "xs = ys @ [l]" "l \<notin> set ys" "distinct ys" "lseg h (h l) ys (Some l)" by (auto simp: cring_Some)
  have f: "h l = Some (hd xs)" using cring_first [OF r] ys(1) by simp
  moreover have "lseg h (h l) xs (Some (hd xs))" using ys f by simp
  moreover have "hd xs \<notin> set (tl xs)" using cring_distinct [OF r] ys(1) by (cases ys) auto
  ultimately show ?thesis using ys(1) by (simp add: unread_def)
qed

lemma built_cring:
  assumes "built h tail lst out" and "out \<noteq> []" and "distinct out"
  shows "tail = Some (last out)" "lst = Some (hd out)" "cring (h(last out := lst)) tail out"
proof -
  obtain ys l where o: "out = ys @ [l]" using assms(2) by (cases out rule: rev_cases) auto
  then show "tail = Some (last out)" "lst = Some (hd out)" "cring (h(last out := lst)) tail out"
    using assms by (auto simp: built_def cring_snoc)
qed

lemma clist_sort_loop_spec:
  assumes key: "cmp_by key cmp" and len: "length xs \<le> INT_MAX" and n: "0 < n" and runs: "runs key n xs"
    and ring: "cring h (Some l) xs"
  shows "\<exists>h' t. clist_sort_loop cmp n h (h l) = Some (h', t) \<and> cring h' t (sort_key key xs)
    \<and> (\<forall>x. x \<notin> set xs \<longrightarrow> h' x = h x)"
  using len n runs ring
proof (induction "length xs - n" arbitrary: n xs h l rule: less_induct)
  case less
  note u = cring_unread [OF less.prems(4)]
  have ne: "xs \<noteq> []" using less.prems(4) by auto
  have d: "distinct ([] @ xs)" using cring_distinct [OF less.prems(4)] by simp
  define ys where "ys = pass_list cmp n xs"
  obtain h1 tail lst1 where m: "merge_pass cmp (hd xs) n h (h l) None None 0 = Some (h1, tail, lst1, merges n xs)"
      "built h1 tail lst1 ys" "\<forall>x. x \<notin> set xs \<longrightarrow> h1 x = h x"
    using merge_pass_spec [OF less.prems(2), of h None None "[]" "hd xs" "h l" xs cmp 0] u d
    by (auto simp: built_def ys_def)
  note pr = pass_list_runs [OF key less.prems(2,3), folded ys_def]
  have ms: "mset ys = mset xs" using pr by simp
  have ysn: "ys \<noteq> []" using pr ne by auto
  have yd: "distinct ys" using d mset_eq_imp_distinct_iff [OF ms] by simp
  note bc = built_cring [OF m(2) ysn yd]
  define h2 where "h2 = h1(last ys := lst1)"
  have fr: "h2 x = h x" if "x \<notin> set xs" for x
    using that m(3) last_in_set [OF ysn] pr by (auto simp: h2_def)
  show ?case
  proof (cases "merges n xs \<le> 1")
    case True
    then have "length ys \<le> n * 2" using merges_le_1 [OF less.prems(2), of xs] pr by simp
    then have "sorted (map key ys)" using pr less.prems(2) runs_short [of ys "n * 2" key] by auto
    then have "sort_key key xs = ys"
      using pr ms by (intro properties_for_sort_key) (auto simp: eq_commute)
    then show ?thesis using True m(1) bc u fr by (subst clist_sort_loop.simps) (auto simp: h2_def)
  next
    case False
    then have big: "2 * n < length xs" using merges_le_1 [OF less.prems(2), of xs] by simp
    have r2: "cring h2 (Some (last ys)) ys" using bc by (simp add: h2_def)
    have hl: "h2 (last ys) = lst1" by (simp add: h2_def)
    have dec: "length ys - n * 2 < length xs - n" using pr big less.prems(2) by linarith
    obtain h' t where ih: "clist_sort_loop cmp (n * 2) h2 lst1 = Some (h', t)" "cring h' t (sort_key key ys)"
        "\<forall>x. x \<notin> set ys \<longrightarrow> h' x = h2 x"
      using less.hyps [OF dec, of h2 "last ys"] pr less.prems(1,2) r2 hl by auto
    have "sort_key key ys = sort_key key xs"
    proof (rule properties_for_sort_key)
      show "filter (\<lambda>x. key k = key x) (sort_key key xs) = filter (\<lambda>x. key k = key x) ys" for k
      proof -
        have "(\<lambda>x. key k = key x) = (\<lambda>x. key x = key k)" by auto
        then show ?thesis using pr sort_key_stable [of key "key k" xs] by metis
      qed
    qed (simp_all add: ms)
    then show ?thesis using False m(1) bc u fr ih big less.prems(1) pr
      by (subst clist_sort_loop.simps) (auto simp: h2_def)
  qed
qed

text \<open>\<open>clist_sort\<close> is the stable sort of the sequence, and it always returns.\<close>

lemma clist_sort_spec:
  assumes "cmp_by key cmp" and "length xs \<le> INT_MAX" and "cring h t xs"
  shows "\<exists>h' t'. clist_sort cmp h t = Some (h', t') \<and> cring h' t' (sort_key key xs)
    \<and> (\<forall>x. x \<notin> set xs \<longrightarrow> h' x = h x)"
proof (cases t)
  case None
  then show ?thesis using assms(3) by (simp add: clist_sort_def)
next
  case (Some l)
  then show ?thesis
    using clist_sort_loop_spec [OF assms(1,2) _ runs_one, of h l] assms(3) cring_unread [of h l xs]
    by (simp add: clist_sort_def clist_sort_internal_def)
qed

end
