(* ===== verification/Bounded_Fifo.thy ===== *)
theory Bounded_Fifo
  imports Prelude
begin

text \<open>
  The contract of a bounded first-in first-out buffer, shared by the byte buffer of
  \<open>core/ringbuffer.c\<close>, the index buffer of \<open>core/include/cib.h\<close> and the receive buffer of
  \<open>boards/sancus-msp430/uart.c\<close>: the contents are a
  sequence, a write appends while there is room, a read takes the first element, and nothing
  else changes. A client that writes a batch and reads it back, or that keeps writing and
  reading, gets the elements in the order they were written.
\<close>

locale bounded_fifo =
  fixes wf :: "'q \<Rightarrow> bool" and items :: "'q \<Rightarrow> 'a list" and capacity :: "'q \<Rightarrow> nat"
    and wr :: "'a \<Rightarrow> 'q \<Rightarrow> 'q option" and rd :: "'q \<Rightarrow> ('a \<times> 'q) option"
  assumes room: "wf q \<Longrightarrow> length (items q) \<le> capacity q"
    and wr_appends: "wf q \<Longrightarrow> length (items q) < capacity q \<Longrightarrow>
      \<exists>q'. wr a q = Some q' \<and> wf q' \<and> items q' = items q @ [a] \<and> capacity q' = capacity q"
    and rd_first: "wf q \<Longrightarrow> items q = a # as \<Longrightarrow>
      \<exists>q'. rd q = Some (a, q') \<and> wf q' \<and> items q' = as \<and> capacity q' = capacity q"
begin

fun write_all :: "'a list \<Rightarrow> 'q \<Rightarrow> 'q option" where
  "write_all [] q = Some q"
| "write_all (a # as) q = do { q1 \<leftarrow> wr a q; write_all as q1 }"

fun read_n :: "nat \<Rightarrow> 'q \<Rightarrow> ('a list \<times> 'q) option" where
  "read_n 0 q = Some ([], q)"
| "read_n (Suc n) q = do { (a, q1) \<leftarrow> rd q; (as, q2) \<leftarrow> read_n n q1; Some (a # as, q2) }"

lemma write_all_appends:
  "wf q \<Longrightarrow> length (items q) + length as \<le> capacity q \<Longrightarrow>
   \<exists>q'. write_all as q = Some q' \<and> wf q' \<and> items q' = items q @ as \<and> capacity q' = capacity q"
proof (induction as arbitrary: q)
  case Nil
  then show ?case by simp
next
  case (Cons a as)
  from Cons.prems obtain q1 where q1: "wr a q = Some q1" "wf q1" "items q1 = items q @ [a]" "capacity q1 = capacity q"
    using wr_appends [of q a] by auto
  with Cons.prems Cons.IH [of q1] show ?case by auto
qed

lemma read_n_takes:
  "wf q \<Longrightarrow> n \<le> length (items q) \<Longrightarrow>
   \<exists>q'. read_n n q = Some (take n (items q), q') \<and> wf q' \<and> items q' = drop n (items q) \<and> capacity q' = capacity q"
proof (induction n arbitrary: q)
  case 0
  then show ?case by simp
next
  case (Suc n)
  then obtain a as where i: "items q = a # as" by (cases "items q") auto
  obtain q1 where q1: "rd q = Some (a, q1)" "wf q1" "items q1 = as" "capacity q1 = capacity q"
    using rd_first [OF Suc.prems(1) i] by blast
  with Suc i show ?case using Suc.IH [of q1] by auto
qed

text \<open>A batch written behind the present contents comes back after them, in order.\<close>

lemma batch_roundtrip:
  assumes "wf q" and "length (items q) + length as \<le> capacity q"
  shows "\<exists>q1 q2. write_all as q = Some q1 \<and> read_n (length (items q) + length as) q1 = Some (items q @ as, q2)
    \<and> wf q2 \<and> items q2 = []"
proof -
  obtain q1 where q1: "write_all as q = Some q1" "wf q1" "items q1 = items q @ as"
    using write_all_appends [OF assms] by blast
  then show ?thesis using read_n_takes [of q1 "length (items q) + length as"] by auto
qed

end

end
