(* ===== verification/Ringbuffer.thy ===== *)
theory Ringbuffer
  imports Bounded_Fifo
begin

text \<open>
  The byte ring buffer of \<open>core/ringbuffer.c\<close> and \<open>core/include/ringbuffer.h\<close>. The array
  \<open>buf\<close> points to is a list; an access outside it is \<open>None\<close>. \<open>unsigned\<close> is 16 bits wide.
\<close>

section \<open>Definitions\<close>

record ringbuffer_t =
  buf :: "u8 list"
  size :: u16
  start :: u16
  avail :: u16

definition ringbuffer_init :: "u8 list \<Rightarrow> u16 \<Rightarrow> ringbuffer_t" where
  "ringbuffer_init buffer bufsize = \<lparr>buf = buffer, size = bufsize, start = 0, avail = 0\<rparr>"

definition ringbuffer_empty :: "ringbuffer_t \<Rightarrow> bool" where
  "ringbuffer_empty rb \<longleftrightarrow> avail rb = 0"

definition ringbuffer_full :: "ringbuffer_t \<Rightarrow> bool" where
  "ringbuffer_full rb \<longleftrightarrow> avail rb = size rb"

definition ringbuffer_get_free :: "ringbuffer_t \<Rightarrow> u16" where
  "ringbuffer_get_free rb = size rb - avail rb"

definition add_tail :: "u8 \<Rightarrow> ringbuffer_t \<Rightarrow> ringbuffer_t option" where
  "add_tail c rb =
     (let pos = start rb + avail rb;
          rb1 = rb\<lparr>avail := avail rb + 1\<rparr>;
          pos = (if pos \<ge> size rb1 then pos - size rb1 else pos)
      in if unat pos < length (buf rb1) then Some (rb1\<lparr>buf := (buf rb1)[unat pos := c]\<rparr>) else None)"

definition get_head :: "ringbuffer_t \<Rightarrow> (u8 \<times> ringbuffer_t) option" where
  "get_head rb =
     (if unat (start rb) < length (buf rb) then
        let result = buf rb ! unat (start rb);
            rb1 = rb\<lparr>avail := avail rb - 1\<rparr>;
            rb2 = (if avail rb1 = 0 then rb1\<lparr>start := 0\<rparr>
                   else let rb3 = rb1\<lparr>start := start rb1 + 1\<rparr>
                        in if start rb3 = size rb3 then rb3\<lparr>start := 0\<rparr> else rb3)
        in Some (result, rb2)
      else None)"

text \<open>The loop of \<open>ringbuffer_add\<close>; the result counts the bytes taken.\<close>

fun ringbuffer_add :: "u8 list \<Rightarrow> ringbuffer_t \<Rightarrow> (nat \<times> ringbuffer_t) option" where
  "ringbuffer_add [] rb = Some (0, rb)"
| "ringbuffer_add (c # cs) rb =
     (if ringbuffer_full rb then Some (0, rb)
      else do { rb1 \<leftarrow> add_tail c rb; (n, rb2) \<leftarrow> ringbuffer_add cs rb1; Some (Suc n, rb2) })"

definition ringbuffer_add_one :: "u8 \<Rightarrow> ringbuffer_t \<Rightarrow> (int \<times> ringbuffer_t) option" where
  "ringbuffer_add_one c rb = do {
     (result, rb1) \<leftarrow> (if ringbuffer_full rb then do { (h, rb1) \<leftarrow> get_head rb; Some (uint h, rb1) } else Some (-1, rb));
     rb2 \<leftarrow> add_tail c rb1;
     Some (result, rb2)
   }"

definition ringbuffer_get_one :: "ringbuffer_t \<Rightarrow> (int \<times> ringbuffer_t) option" where
  "ringbuffer_get_one rb =
     (if \<not> ringbuffer_empty rb then do { (h, rb1) \<leftarrow> get_head rb; Some (uint h, rb1) } else Some (-1, rb))"

text \<open>\<open>memcpy\<close> from the buffer.\<close>

definition copy_out :: "ringbuffer_t \<Rightarrow> u16 \<Rightarrow> u16 \<Rightarrow> u8 list option" where
  "copy_out rb from n =
     (if unat from + unat n \<le> length (buf rb) then Some (take (unat n) (drop (unat from) (buf rb))) else None)"

text \<open>The result is the count, the bytes written to the caller's array, and the buffer.\<close>

definition ringbuffer_get :: "u16 \<Rightarrow> ringbuffer_t \<Rightarrow> (u16 \<times> u8 list \<times> ringbuffer_t) option" where
  "ringbuffer_get n rb =
     (let n = (if n > avail rb then avail rb else n) in
      if n > 0 then do {
        let bytes_till_end = size rb - start rb;
        (out, rb1) \<leftarrow>
          (if bytes_till_end \<ge> n then do {
             xs \<leftarrow> copy_out rb (start rb) n;
             Some (xs, if bytes_till_end = n then rb\<lparr>start := 0\<rparr> else rb\<lparr>start := start rb + n\<rparr>)
           }
           else do {
             xs \<leftarrow> copy_out rb (start rb) bytes_till_end;
             let rb1 = rb\<lparr>start := n - bytes_till_end\<rparr>;
             ys \<leftarrow> copy_out rb1 0 (start rb1);
             Some (xs @ ys, rb1)
           });
        Some (n, out, rb1\<lparr>avail := avail rb1 - n\<rparr>)
      }
      else Some (n, [], rb))"

definition ringbuffer_remove :: "u16 \<Rightarrow> ringbuffer_t \<Rightarrow> u16 \<times> ringbuffer_t" where
  "ringbuffer_remove n rb =
     (if n > avail rb then (avail rb, rb\<lparr>start := 0, avail := 0\<rparr>)
      else
        let rb1 = rb\<lparr>start := start rb + n\<rparr>;
            rb2 = rb1\<lparr>avail := avail rb1 - n\<rparr>
        in (n, if start rb2 > size rb2 then rb2\<lparr>start := start rb2 - size rb2\<rparr> else rb2))"

definition ringbuffer_peek_one :: "ringbuffer_t \<Rightarrow> int option" where
  "ringbuffer_peek_one rb = do { (r, _) \<leftarrow> ringbuffer_get_one rb; Some r }"

definition ringbuffer_peek :: "u16 \<Rightarrow> ringbuffer_t \<Rightarrow> (u16 \<times> u8 list) option" where
  "ringbuffer_peek n rb = do { (n', xs, _) \<leftarrow> ringbuffer_get n rb; Some (n', xs) }"

section \<open>Contents\<close>

text \<open>
  \<open>start + avail\<close> must not wrap around, which holds for buffers of up to \<open>2 ^ 15\<close> bytes; a
  buffer that is not empty has its read position inside the array.
\<close>

definition rb_wf :: "ringbuffer_t \<Rightarrow> bool" where
  "rb_wf rb \<longleftrightarrow> length (buf rb) = unat (size rb) \<and> unat (size rb) \<le> 2 ^ 15
     \<and> avail rb \<le> size rb \<and> (start rb < size rb \<or> size rb = 0 \<and> start rb = 0)"

definition contents :: "ringbuffer_t \<Rightarrow> u8 list" where
  "contents rb = map (\<lambda>i. buf rb ! ((unat (start rb) + i) mod unat (size rb))) [0..<unat (avail rb)]"

lemma length_contents [simp]: "length (contents rb) = unat (avail rb)"
  by (simp add: contents_def)

lemma rb_wfD:
  assumes "rb_wf rb"
  shows "length (buf rb) = unat (size rb)" "unat (size rb) \<le> 2 ^ 15" "unat (avail rb) \<le> unat (size rb)"
    "unat (avail rb) = 0 \<or> unat (start rb) < unat (size rb)" "unat (start rb) \<le> unat (size rb)"
  using assms by (auto simp: rb_wf_def word_le_nat_alt word_less_nat_alt)

lemma contents_Cons:
  assumes wf: "rb_wf rb" and ne: "avail rb \<noteq> 0"
  shows "contents rb = buf rb ! unat (start rb) #
    map (\<lambda>i. buf rb ! ((unat (start rb) + Suc i) mod unat (size rb))) [0..<unat (avail rb) - 1]"
proof -
  have "unat (avail rb) = Suc (unat (avail rb) - 1)" using ne by (simp add: unat_gt_0)
  then have "[0..<unat (avail rb)] = 0 # map Suc [0..<unat (avail rb) - 1]"
    by (metis map_Suc_upt upt_conv_Cons zero_less_Suc)
  moreover have "unat (start rb) < unat (size rb)" using rb_wfD(4) [OF wf] ne by (auto simp: unat_eq_zero)
  ultimately show ?thesis by (simp add: contents_def comp_def)
qed

lemma unat_plus_small: "unat (a :: u16) + unat b < 2 ^ 16 \<Longrightarrow> unat (a + b) = unat a + unat b"
  by (simp add: unat_word_ariths)

lemma unat_minus_le: "b \<le> (a :: 'a::len word) \<Longrightarrow> unat (a - b) = unat a - unat b"
  by (rule unat_sub)

lemma wrap_index: "a < (n :: nat) \<Longrightarrow> k \<le> n \<Longrightarrow> (a + k) mod n = (if a + k < n then a + k else a + k - n)"
  by (simp add: le_mod_geq)

lemma get_head_spec:
  assumes wf: "rb_wf rb" and ne: "avail rb \<noteq> 0"
  shows "\<exists>rb'. get_head rb = Some (hd (contents rb), rb') \<and> rb_wf rb' \<and> contents rb' = tl (contents rb)
    \<and> size rb' = size rb \<and> unat (avail rb') = unat (avail rb) - 1"
proof -
  note w = rb_wfD [OF wf]
  have st: "unat (start rb) < unat (size rb)" using w(4) ne by (auto simp: unat_eq_zero)
  have av: "unat (avail rb - 1) = unat (avail rb) - 1" using ne by (simp add: unat_minus_one)
  define st' where "st' = (if avail rb - 1 = 0 \<or> start rb + 1 = size rb then 0 else start rb + 1)"
  define rb' where "rb' = rb\<lparr>avail := avail rb - 1, start := st'\<rparr>"
  have g: "get_head rb = Some (hd (contents rb), rb')"
    using st w(1) contents_Cons [OF wf ne] by (auto simp: get_head_def Let_def rb'_def st'_def)
  have s1: "unat (start rb + 1) = Suc (unat (start rb))" using st w(2) by (subst unat_plus_small) simp_all
  have stn: "start rb + 1 = size rb \<longleftrightarrow> Suc (unat (start rb)) = unat (size rb)" using s1 by (metis word_unat_eq_iff)
  have in_range: "unat st' < unat (size rb)" using st s1 stn by (auto simp: st'_def)
  have wf': "rb_wf rb'"
    using w av in_range ne by (auto simp: rb_wf_def rb'_def word_le_nat_alt word_less_nat_alt)
  have "contents rb' = tl (contents rb)"
  proof (cases "avail rb - 1 = 0")
    case True
    then have "unat (avail rb) - 1 = 0" using av by simp
    then show ?thesis using contents_Cons [OF wf ne] av by (simp add: contents_def rb'_def)
  next
    case False
    have "(unat st' + i) mod unat (size rb) = (unat (start rb) + Suc i) mod unat (size rb)" for i
    proof (cases "start rb + 1 = size rb")
      case True
      then have "unat (start rb) + Suc i = i + unat (size rb)" using stn by simp
      then have "(unat (start rb) + Suc i) mod unat (size rb) = i mod unat (size rb)" by (simp only: mod_add_self2)
      then show ?thesis using True by (simp add: st'_def)
    qed (use False s1 in \<open>simp add: st'_def\<close>)
    then show ?thesis using contents_Cons [OF wf ne] av by (simp add: contents_def rb'_def)
  qed
  then show ?thesis using g wf' av by (auto simp: rb'_def)
qed

lemma add_tail_spec:
  assumes wf: "rb_wf rb" and room: "avail rb \<noteq> size rb"
  shows "\<exists>rb'. add_tail c rb = Some rb' \<and> rb_wf rb' \<and> contents rb' = contents rb @ [c]
    \<and> size rb' = size rb \<and> unat (avail rb') = Suc (unat (avail rb))"
proof -
  note w = rb_wfD [OF wf]
  have lt: "unat (avail rb) < unat (size rb)" using w(3) room by (simp add: word_unat_eq_iff)
  then have sz: "size rb \<noteq> 0" by (auto simp: unat_eq_zero)
  then have st: "unat (start rb) < unat (size rb)" using wf by (auto simp: rb_wf_def word_less_nat_alt)
  have sum: "unat (start rb + avail rb) = unat (start rb) + unat (avail rb)"
    using lt st w(2) by (intro unat_plus_small) simp
  define pos where "pos = (if start rb + avail rb \<ge> size rb then start rb + avail rb - size rb else start rb + avail rb)"
  have pos: "unat pos = (unat (start rb) + unat (avail rb)) mod unat (size rb)"
    using sum st lt by (auto simp: pos_def word_le_nat_alt unat_minus_le mod_if)
  have pl: "unat pos < unat (size rb)" using st by (simp add: pos)
  define rb' where "rb' = rb\<lparr>avail := avail rb + 1, buf := (buf rb)[unat pos := c]\<rparr>"
  have av: "unat (avail rb + 1) = Suc (unat (avail rb))" using lt w(2) by (subst unat_plus_small) simp_all
  have "add_tail c rb = Some rb'" using pl w(1) by (auto simp: add_tail_def Let_def pos_def rb'_def)
  moreover have "rb_wf rb'" using w av lt st by (auto simp: rb_wf_def rb'_def word_le_nat_alt word_less_nat_alt)
  moreover have "contents rb' = contents rb @ [c]"
  proof -
    have "(unat (start rb) + i) mod unat (size rb) \<noteq> unat pos" if "i < unat (avail rb)" for i
      using that lt st by (auto simp: pos mod_if split: if_splits)
    then have "(buf rb)[unat pos := c] ! ((unat (start rb) + i) mod unat (size rb)) = buf rb ! ((unat (start rb) + i) mod unat (size rb))"
      if "i < unat (avail rb)" for i using that by (metis nth_list_update_neq)
    then show ?thesis using av pl w(1) by (simp add: contents_def rb'_def) (simp add: pos)
  qed
  ultimately show ?thesis using av by (auto simp: rb'_def)
qed


section \<open>Operations on the contents\<close>

lemma ringbuffer_add_spec:
  "rb_wf rb \<Longrightarrow> \<exists>n rb'. ringbuffer_add cs rb = Some (n, rb') \<and> rb_wf rb' \<and> size rb' = size rb
     \<and> n = min (length cs) (unat (ringbuffer_get_free rb)) \<and> contents rb' = contents rb @ take n cs"
proof (induction cs arbitrary: rb)
  case Nil
  then show ?case by simp
next
  case (Cons c cs)
  note w = rb_wfD [OF Cons.prems]
  have free: "unat (ringbuffer_get_free rb) = unat (size rb) - unat (avail rb)"
    using w(3) by (simp add: ringbuffer_get_free_def unat_minus_le word_le_nat_alt)
  show ?case
  proof (cases "ringbuffer_full rb")
    case True
    then have "unat (ringbuffer_get_free rb) = 0" by (simp add: ringbuffer_full_def ringbuffer_get_free_def)
    then show ?thesis using True Cons.prems by simp
  next
    case False
    then obtain rb1 where r1: "add_tail c rb = Some rb1" "rb_wf rb1" "contents rb1 = contents rb @ [c]"
        "size rb1 = size rb" "unat (avail rb1) = Suc (unat (avail rb))"
      using add_tail_spec [OF Cons.prems] by (auto simp: ringbuffer_full_def)
    obtain n rb' where r2: "ringbuffer_add cs rb1 = Some (n, rb')" "rb_wf rb'" "size rb' = size rb1"
        "n = min (length cs) (unat (ringbuffer_get_free rb1))" "contents rb' = contents rb1 @ take n cs"
      using Cons.IH [OF r1(2)] by blast
    note w1 = rb_wfD(3) [OF r1(2)]
    have free1: "unat (ringbuffer_get_free rb1) = unat (size rb) - Suc (unat (avail rb))"
      using w1 r1(4,5) by (simp add: ringbuffer_get_free_def unat_minus_le word_le_nat_alt)
    have "Suc n = min (length (c # cs)) (unat (ringbuffer_get_free rb))"
      using r2(4) free free1 w1 r1(4,5) by simp
    moreover have "contents rb' = contents rb @ take (Suc n) (c # cs)" using r1(3) r2(5) by simp
    moreover have "ringbuffer_add (c # cs) rb = Some (Suc n, rb')" using False r1(1) r2(1) by simp
    ultimately show ?thesis using r1(4) r2(2,3) by auto
  qed
qed

text \<open>\<open>ringbuffer_add_one\<close> overwrites the oldest byte of a full buffer.\<close>

lemma ringbuffer_add_one_spec:
  assumes wf: "rb_wf rb" and sz: "size rb \<noteq> 0"
  shows "\<exists>r rb'. ringbuffer_add_one c rb = Some (r, rb') \<and> rb_wf rb' \<and> size rb' = size rb
    \<and> (if ringbuffer_full rb then r = uint (hd (contents rb)) \<and> contents rb' = tl (contents rb) @ [c]
       else r = -1 \<and> contents rb' = contents rb @ [c])"
proof (cases "ringbuffer_full rb")
  case True
  then have av: "avail rb \<noteq> 0" using sz by (simp add: ringbuffer_full_def)
  obtain rb1 where r1: "get_head rb = Some (hd (contents rb), rb1)" "rb_wf rb1" "contents rb1 = tl (contents rb)"
      "size rb1 = size rb" "unat (avail rb1) = unat (avail rb) - 1"
    using get_head_spec [OF wf av] by blast
  have "unat (avail rb1) \<noteq> unat (size rb1)"
    using r1(4,5) True av unat_gt_0 [of "avail rb"] by (simp add: ringbuffer_full_def)
  then have "avail rb1 \<noteq> size rb1" by auto
  then show ?thesis using add_tail_spec [OF r1(2), of c] r1 True by (auto simp: ringbuffer_add_one_def)
next
  case False
  then show ?thesis using add_tail_spec [OF wf, of c] by (auto simp: ringbuffer_add_one_def ringbuffer_full_def)
qed

lemma ringbuffer_get_one_spec:
  assumes wf: "rb_wf rb"
  shows "\<exists>rb'. ringbuffer_get_one rb = Some (if contents rb = [] then -1 else uint (hd (contents rb)), rb')
    \<and> rb_wf rb' \<and> size rb' = size rb \<and> contents rb' = tl (contents rb)"
proof (cases "avail rb = 0")
  case True
  then have "contents rb = []" by (simp add: contents_def)
  then show ?thesis using True wf by (simp add: ringbuffer_get_one_def ringbuffer_empty_def)
next
  case False
  then have "contents rb \<noteq> []" by (metis length_contents list.size(3) unat_eq_zero)
  then show ?thesis using get_head_spec [OF wf False] False by (auto simp: ringbuffer_get_one_def ringbuffer_empty_def)
qed

interpretation rb: bounded_fifo rb_wf contents "\<lambda>rb. unat (size rb)"
    "\<lambda>c rb. if ringbuffer_full rb then None else add_tail c rb" "\<lambda>rb. if ringbuffer_empty rb then None else get_head rb"
proof
  show "length (contents rb) \<le> unat (size rb)" if "rb_wf rb" for rb using rb_wfD(3) [OF that] by simp
  show "\<exists>rb'. (if ringbuffer_full rb then None else add_tail a rb) = Some rb' \<and> rb_wf rb' \<and> contents rb' = contents rb @ [a]
      \<and> unat (size rb') = unat (size rb)" if "rb_wf rb" "length (contents rb) < unat (size rb)" for rb a
    using add_tail_spec [OF that(1), of a] that(2) by (auto simp: ringbuffer_full_def)
  show "\<exists>rb'. (if ringbuffer_empty rb then None else get_head rb) = Some (a, rb') \<and> rb_wf rb' \<and> contents rb' = as
      \<and> unat (size rb') = unat (size rb)" if "rb_wf rb" "contents rb = a # as" for rb a as
  proof -
    have "avail rb \<noteq> 0" using that(2) by (auto simp: contents_def)
    then show ?thesis using get_head_spec [OF that(1)] that(2) by (auto simp: ringbuffer_empty_def)
  qed
qed

section \<open>Reading in bulk\<close>

text \<open>The two copies around the end of the array are the first \<open>n\<close> bytes of the contents.\<close>

lemma contents_take:
  assumes wf: "rb_wf rb" and k: "k \<le> unat (avail rb)"
  shows "take k (contents rb) =
    take k (drop (unat (start rb)) (buf rb)) @ take (k - (unat (size rb) - unat (start rb))) (buf rb)"
proof (rule nth_equalityI)
  note w = rb_wfD [OF wf]
  show "length (take k (contents rb)) = length (take k (drop (unat (start rb)) (buf rb)) @
      take (k - (unat (size rb) - unat (start rb))) (buf rb))"
    using w k by auto
  fix i assume i: "i < length (take k (contents rb))"
  then have ik: "i < k" "i < unat (avail rb)" using k by auto
  then have st: "unat (start rb) < unat (size rb)" using w(4) by linarith
  show "take k (contents rb) ! i = (take k (drop (unat (start rb)) (buf rb)) @
      take (k - (unat (size rb) - unat (start rb))) (buf rb)) ! i"
    using ik w k st wrap_index [OF st, of i] by (auto simp: contents_def nth_append add.commute)
qed

lemma ringbuffer_get_spec:
  fixes n :: u16
  assumes wf: "rb_wf rb"
  defines "k \<equiv> min (unat n) (unat (avail rb))"
  shows "\<exists>rb'. ringbuffer_get n rb = Some (of_nat k, take k (contents rb), rb') \<and> rb_wf rb' \<and> size rb' = size rb
    \<and> contents rb' = drop k (contents rb)"
proof -
  note w = rb_wfD [OF wf]
  define m where "m = (if n > avail rb then avail rb else n)"
  have mk: "unat m = k" "m = of_nat k" by (auto simp: m_def k_def word_less_nat_alt min_def)
  have ka: "k \<le> unat (avail rb)" by (simp add: k_def)
  show ?thesis
  proof (cases "m = 0")
    case True
    then have "k = 0" using mk(1) by simp
    then show ?thesis using wf True by (simp add: ringbuffer_get_def m_def [symmetric] Let_def)
  next
    case False
    then have k0: "0 < k" using mk(1) unat_gt_0 by blast
    then have st: "unat (start rb) < unat (size rb)" using w(4) ka by linarith
    define b where "b = size rb - start rb"
    have b: "unat b = unat (size rb) - unat (start rb)" using st by (simp add: b_def unat_minus_le word_le_nat_alt)
    define st' where "st' = (if b \<ge> m then (if b = m then 0 else start rb + m) else m - b)"
    define rb' where "rb' = rb\<lparr>start := st', avail := avail rb - m\<rparr>"
    have st'n: "unat st' = (if unat (start rb) + k < unat (size rb) then unat (start rb) + k
        else unat (start rb) + k - unat (size rb))"
    proof -
      have "unat (start rb + m) = unat (start rb) + k" if "k \<le> unat b"
        using that b w(2) mk st by (subst unat_plus_small) auto
      then show ?thesis using b mk st
        by (auto simp: st'_def word_le_nat_alt word_unat_eq_iff unat_minus_le not_le less_imp_le)
    qed
    have "ringbuffer_get n rb = Some (m, take k (contents rb), rb')"
    proof -
      have "take k (contents rb) = take (unat m) (drop (unat (start rb)) (buf rb)) @ take (unat m - unat b) (buf rb)"
        using contents_take [OF wf ka] by (simp add: b mk(1))
      moreover have "unat m \<le> unat (size rb)" using w(3) ka mk by simp
      moreover have "take (unat m) (drop (unat (start rb)) (buf rb)) = take (unat b) (drop (unat (start rb)) (buf rb))"
        if "unat b \<le> unat m" using that b w(1) by simp
      ultimately show ?thesis using False b st w(1)
        by (auto simp: ringbuffer_get_def m_def [symmetric] b_def [symmetric] Let_def copy_out_def rb'_def st'_def
            word_le_nat_alt unat_minus_le word_neq_0_conv)
    qed
    moreover have av: "unat (avail rb - m) = unat (avail rb) - k"
      using ka mk by (simp add: unat_minus_le word_le_nat_alt)
    moreover have "rb_wf rb'"
      using w av st ka st'n by (auto simp: rb_wf_def rb'_def word_le_nat_alt word_less_nat_alt)
    moreover have "contents rb' = drop k (contents rb)"
    proof (rule nth_equalityI)
      show "length (contents rb') = length (drop k (contents rb))" by (simp add: rb'_def av)
      fix i assume "i < length (contents rb')"
      then have i: "i + k < unat (avail rb)" by (simp add: rb'_def av)
      have "(unat st' + i) mod unat (size rb) = (unat (start rb) + (k + i)) mod unat (size rb)"
        using st'n st i w(3) wrap_index [OF st, of k] mod_add_left_eq [of "unat (start rb) + k" "unat (size rb)" i]
        by (simp add: add.assoc)
      then show "contents rb' ! i = drop k (contents rb) ! i" using i av nth_upt [of 0 i "unat (avail rb) - k"] by (simp add: contents_def rb'_def)
    qed
    ultimately show ?thesis using mk(2) by (auto simp: rb'_def)
  qed
qed

section \<open>Discarding\<close>

text \<open>
  \<open>ringbuffer_remove\<close> compares with \<open>>\<close>, so a read position that lands exactly on the end of
  the array stays there. Everywhere else it drops a prefix of the contents.
\<close>

lemma ringbuffer_remove_spec:
  assumes wf: "rb_wf rb" and off_end: "unat (start rb) + unat n \<noteq> unat (size rb) \<or> avail rb < n"
  defines "k \<equiv> min (unat n) (unat (avail rb))"
  shows "fst (ringbuffer_remove n rb) = of_nat k" "rb_wf (snd (ringbuffer_remove n rb))"
    "contents (snd (ringbuffer_remove n rb)) = drop k (contents rb)"
proof -
  note w = rb_wfD [OF wf]
  show "fst (ringbuffer_remove n rb) = of_nat k"
    by (auto simp: ringbuffer_remove_def k_def Let_def word_less_nat_alt min_def)
  have "rb_wf (snd (ringbuffer_remove n rb)) \<and> contents (snd (ringbuffer_remove n rb)) = drop k (contents rb)"
  proof (cases "n > avail rb")
    case True
    then have "length (contents rb) \<le> k" by (simp add: k_def word_less_nat_alt)
    moreover have "rb_wf (rb\<lparr>start := 0, avail := 0\<rparr>)"
      using w(1,2) by (cases "size rb = 0") (simp_all add: rb_wf_def word_neq_0_conv)
    ultimately show ?thesis using True by (simp add: ringbuffer_remove_def) (simp add: contents_def)
  next
    case False
    then have kn: "k = unat n" "unat n \<le> unat (avail rb)" by (auto simp: k_def word_less_nat_alt)
    then have ne: "unat (start rb) + k \<noteq> unat (size rb)" using off_end False by auto
    have st: "unat (start rb) < unat (size rb)" using ne wf kn by (auto simp: rb_wf_def word_less_nat_alt word_le_nat_alt)
    have sum: "unat (start rb + n) = unat (start rb) + k" using st w kn by (subst unat_plus_small) auto
    define st' where "st' = (if start rb + n > size rb then start rb + n - size rb else start rb + n)"
    define rb' where "rb' = rb\<lparr>start := st', avail := avail rb - n\<rparr>"
    have r: "snd (ringbuffer_remove n rb) = rb'" using False by (simp add: ringbuffer_remove_def Let_def rb'_def st'_def)
    have st'n: "unat st' = (unat (start rb) + k) mod unat (size rb)"
    proof -
      have "k \<le> unat (size rb)" using kn w(3) by simp
      then show ?thesis using sum ne wrap_index [OF st, of k]
        by (simp add: st'_def word_less_nat_alt unat_minus_le word_le_nat_alt)
    qed
    have av: "unat (avail rb - n) = unat (avail rb) - k" using kn by (simp add: unat_minus_le word_le_nat_alt)
    have "rb_wf rb'" using w av st st'n by (auto simp: rb_wf_def rb'_def word_le_nat_alt word_less_nat_alt)
    moreover have "contents rb' = drop k (contents rb)"
      by (rule nth_equalityI) (auto simp: contents_def rb'_def av st'n mod_simps add.assoc)
    ultimately show ?thesis by (simp add: r)
  qed
  then show "rb_wf (snd (ringbuffer_remove n rb))" "contents (snd (ringbuffer_remove n rb)) = drop k (contents rb)"
    by auto
qed

text \<open>On the end of the array the next read leaves it.\<close>

lemma ringbuffer_remove_to_end:
  assumes wf: "rb_wf rb" and e: "unat (start rb) + unat n = unat (size rb)" and n: "n < avail rb"
  shows "start (snd (ringbuffer_remove n rb)) = size rb" "ringbuffer_get_one (snd (ringbuffer_remove n rb)) = None"
proof -
  note w = rb_wfD [OF wf]
  have sum: "start rb + n = size rb" using e w(2) by (simp add: word_unat_eq_iff unat_plus_small)
  have av: "avail rb - n \<noteq> 0" using n by auto
  show "start (snd (ringbuffer_remove n rb)) = size rb" using n sum by (auto simp: ringbuffer_remove_def Let_def)
  show "ringbuffer_get_one (snd (ringbuffer_remove n rb)) = None"
    using n sum av w(1) by (auto simp: ringbuffer_remove_def Let_def ringbuffer_get_one_def ringbuffer_empty_def get_head_def)
qed

end
