(* ===== verification/Cib.thy ===== *)
theory Cib
  imports Bounded_Fifo
begin

text \<open>
  The circular integer buffer of \<open>core/include/cib.h\<close>: it hands out the indices at which a
  client writes to and reads from an array of its own. The counters are 16-bit words that wrap
  around; the comparison with the mask is a signed one.
\<close>

section \<open>Definitions\<close>

record cib_t =
  read_count :: u16
  write_count :: u16
  cib_mask :: u16

text \<open>\<open>assert\<close> of \<open>cib_init\<close>: no return for a size that is not a power of two.\<close>

definition cib_init :: "u16 \<Rightarrow> cib_t option" where
  "cib_init sz = (if sz AND (sz - 1) = 0 then Some \<lparr>read_count = 0, write_count = 0, cib_mask = sz - 1\<rparr> else None)"

definition cib_avail :: "cib_t \<Rightarrow> u16" where
  "cib_avail c = write_count c - read_count c"

definition cib_full :: "cib_t \<Rightarrow> bool" where
  "cib_full c \<longleftrightarrow> sint (cib_avail c) > sint (cib_mask c)"

definition cib_get_unsafe :: "cib_t \<Rightarrow> int \<times> cib_t" where
  "cib_get_unsafe c = (sint (read_count c AND cib_mask c), c\<lparr>read_count := read_count c + 1\<rparr>)"

definition cib_get :: "cib_t \<Rightarrow> int \<times> cib_t" where
  "cib_get c =
     (if cib_avail c \<noteq> 0 then (sint (read_count c AND cib_mask c), c\<lparr>read_count := read_count c + 1\<rparr>) else (-1, c))"

definition cib_peek :: "cib_t \<Rightarrow> int" where
  "cib_peek c = (if cib_avail c \<noteq> 0 then sint (read_count c AND cib_mask c) else -1)"

definition cib_put :: "cib_t \<Rightarrow> int \<times> cib_t" where
  "cib_put c =
     (if sint (cib_avail c) \<le> sint (cib_mask c)
      then (sint (write_count c AND cib_mask c), c\<lparr>write_count := write_count c + 1\<rparr>) else (-1, c))"

definition cib_put_unsafe :: "cib_t \<Rightarrow> int \<times> cib_t" where
  "cib_put_unsafe c = (sint (write_count c AND cib_mask c), c\<lparr>write_count := write_count c + 1\<rparr>)"

section \<open>An array behind the indices\<close>

text \<open>
  The client's array has \<open>2 ^ k\<close> entries, at most \<open>2 ^ 14\<close> (the documented \<open>MAXINT / 2\<close>); the
  counters themselves are arbitrary, only their difference is bounded.
\<close>

type_synonym 'a cib_array = "cib_t \<times> 'a list"

definition cib_wf :: "'a cib_array \<Rightarrow> bool" where
  "cib_wf q \<longleftrightarrow> (\<exists>k \<le> 14. length (snd q) = 2 ^ k \<and> cib_mask (fst q) = mask k \<and> unat (cib_avail (fst q)) \<le> 2 ^ k)"

definition cib_items :: "'a cib_array \<Rightarrow> 'a list" where
  "cib_items q = map (\<lambda>i. snd q ! ((unat (read_count (fst q)) + i) mod length (snd q))) [0..<unat (cib_avail (fst q))]"

definition cib_write :: "'a \<Rightarrow> 'a cib_array \<Rightarrow> 'a cib_array option" where
  "cib_write a q =
     (let (i, c) = cib_put (fst q) in
      if i < 0 then None else if nat i < length (snd q) then Some (c, (snd q)[nat i := a]) else None)"

definition cib_read :: "'a cib_array \<Rightarrow> ('a \<times> 'a cib_array) option" where
  "cib_read q =
     (let (i, c) = cib_get (fst q) in
      if i < 0 then None else if nat i < length (snd q) then Some (snd q ! nat i, (c, snd q)) else None)"

lemma unat_AND_mask: "unat (x AND mask k :: u16) = unat x mod 2 ^ k"
  unfolding take_bit_eq_mask [symmetric] unsigned_take_bit_eq by (rule take_bit_eq_mod)

lemma unat_mask: "k \<le> 14 \<Longrightarrow> unat (mask k :: u16) = 2 ^ k - 1"
proof -
  assume k: "k \<le> 14"
  have "(2 :: nat) ^ k \<le> 2 ^ 14" using k by (intro power_increasing) simp_all
  moreover have "(mask k :: u16) = of_nat (2 ^ k - 1)" by (simp add: mask_eq_exp_minus_1 of_nat_diff)
  ultimately show ?thesis using take_bit_nat_eq_self [of "2 ^ k - 1" 16] by (simp only: unsigned_of_nat) simp
qed

lemma pow_14: "k \<le> 14 \<Longrightarrow> (2 :: nat) ^ k \<le> 16384"
  using power_increasing [of k 14 "2 :: nat"] by simp

text \<open>The indices wrap around together with the counters because \<open>2 ^ k\<close> divides \<open>2 ^ 16\<close>.\<close>

lemma unat_add_mod: "k \<le> 16 \<Longrightarrow> unat (a + b :: u16) mod 2 ^ k = (unat a + unat b) mod 2 ^ k"
proof -
  assume "k \<le> 16"
  then have "(2 :: nat) ^ k dvd 2 ^ 16" by (rule le_imp_power_dvd)
  then show ?thesis by (simp add: unat_word_ariths mod_mod_cancel)
qed

lemma put_index:
  assumes "k \<le> 14" and "cib_mask c = mask k" and "unat (cib_avail c) < 2 ^ k"
  shows "cib_put c = (int ((unat (read_count c) + unat (cib_avail c)) mod 2 ^ k), c\<lparr>write_count := write_count c + 1\<rparr>)"
proof -
  note p = pow_14 [OF assms(1)]
  have w: "write_count c = read_count c + cib_avail c" by (simp add: cib_avail_def)
  have i: "unat (write_count c AND cib_mask c) = (unat (read_count c) + unat (cib_avail c)) mod 2 ^ k"
    using unat_add_mod [of k "read_count c" "cib_avail c"] assms(1,2) by (simp add: unat_AND_mask w)
  have "(unat (read_count c) + unat (cib_avail c)) mod 2 ^ k < 2 ^ k" by simp
  then have "(unat (read_count c) + unat (cib_avail c)) mod 2 ^ k < 32768" using p by linarith
  then have "sint (write_count c AND cib_mask c) = int ((unat (read_count c) + unat (cib_avail c)) mod 2 ^ k)"
    using i by (subst sint_small) simp_all
  moreover have "sint (cib_avail c) \<le> sint (cib_mask c)"
  proof -
    have "sint (cib_mask c) = int (2 ^ k - 1)" "sint (cib_avail c) = int (unat (cib_avail c))"
      using assms p unat_mask [OF assms(1)] sint_small [of "mask k"] sint_small [of "cib_avail c"] by simp_all
    then show ?thesis using assms(3) by linarith
  qed
  ultimately show ?thesis by (simp add: cib_put_def)
qed

lemma get_index:
  assumes "k \<le> 14" and "cib_mask c = mask k" and "cib_avail c \<noteq> 0"
  shows "cib_get c = (int (unat (read_count c) mod 2 ^ k), c\<lparr>read_count := read_count c + 1\<rparr>)"
proof -
  have "unat (read_count c) mod 2 ^ k < 2 ^ k" by simp
  then have "unat (read_count c) mod 2 ^ k < 32768" using pow_14 [OF assms(1)] by linarith
  then have "sint (read_count c AND cib_mask c) = int (unat (read_count c) mod 2 ^ k)"
    using assms(2) by (subst sint_small) (simp_all add: unat_AND_mask)
  then show ?thesis using assms(3) by (simp add: cib_get_def)
qed

lemma cib_write_spec:
  assumes "cib_wf q" and "length (cib_items q) < length (snd q)"
  shows "\<exists>q'. cib_write a q = Some q' \<and> cib_wf q' \<and> cib_items q' = cib_items q @ [a] \<and> length (snd q') = length (snd q)"
proof -
  obtain c xs where q: "q = (c, xs)" by (cases q)
  obtain k where k: "k \<le> 14" "length xs = 2 ^ k" "cib_mask c = mask k" "unat (cib_avail c) \<le> 2 ^ k"
    using assms(1) by (auto simp: cib_wf_def q)
  have lt: "unat (cib_avail c) < 2 ^ k" using assms(2) k by (simp add: cib_items_def q)
  define i where "i = (unat (read_count c) + unat (cib_avail c)) mod 2 ^ k"
  define c' where "c' = c\<lparr>write_count := write_count c + 1\<rparr>"
  have i: "i < length xs" by (simp add: i_def k)
  have "cib_avail c' = cib_avail c + 1" by (simp add: cib_avail_def c'_def)
  then have av: "unat (cib_avail c') = Suc (unat (cib_avail c))"
    using lt pow_14 [OF k(1)] by (simp add: unat_word_ariths)
  have ne: "(unat (read_count c) + j) mod 2 ^ k \<noteq> i" if "j < unat (cib_avail c)" for j
  proof
    assume "(unat (read_count c) + j) mod 2 ^ k = i"
    then have "j mod 2 ^ k = unat (cib_avail c) mod 2 ^ k" unfolding i_def by (simp add: mod_add_cong nat_mod_eq_iff)
    then show False using that lt by simp
  qed
  have "cib_write a q = Some (c', xs[i := a])"
    using put_index [OF k(1,3) lt] i by (simp add: cib_write_def q i_def c'_def)
  moreover have "cib_items (c', xs[i := a]) = cib_items q @ [a]"
    using nth_list_update_neq [OF not_sym [OF ne], of _ xs a] i k(2)
    by (simp add: cib_items_def q av) (simp add: c'_def i_def)
  ultimately show ?thesis using k lt av by (auto simp: cib_wf_def q c'_def)
qed

lemma cib_read_spec:
  assumes "cib_wf q" and "cib_items q = a # as"
  shows "\<exists>q'. cib_read q = Some (a, q') \<and> cib_wf q' \<and> cib_items q' = as \<and> length (snd q') = length (snd q)"
proof -
  obtain c xs where q: "q = (c, xs)" by (cases q)
  obtain k where k: "k \<le> 14" "length xs = 2 ^ k" "cib_mask c = mask k" "unat (cib_avail c) \<le> 2 ^ k"
    using assms(1) by (auto simp: cib_wf_def q)
  have ne: "cib_avail c \<noteq> 0" using assms(2) by (auto simp: cib_items_def q)
  then obtain m where m: "unat (cib_avail c) = Suc m" using unat_gt_0 gr0_implies_Suc by metis
  define c' where "c' = c\<lparr>read_count := read_count c + 1\<rparr>"
  have "cib_avail c' = cib_avail c - 1" by (simp add: cib_avail_def c'_def)
  then have av: "unat (cib_avail c') = m" using ne m by (simp add: unat_minus_one)
  have rc: "(unat (read_count c') + j) mod 2 ^ k = (unat (read_count c) + Suc j) mod 2 ^ k" for j
    using unat_add_mod [of k "read_count c" 1] k(1) mod_add_left_eq [of "unat (read_count c + 1)" "2 ^ k" j]
      mod_add_left_eq [of "unat (read_count c) + 1" "2 ^ k" j] by (simp add: c'_def)
  have it: "cib_items q = xs ! (unat (read_count c) mod 2 ^ k) # map (\<lambda>j. xs ! ((unat (read_count c) + Suc j) mod 2 ^ k)) [0..<m]"
    by (simp add: cib_items_def q k(2) m upt_conv_Cons map_Suc_upt [symmetric] comp_def del: upt_Suc)
  have "cib_read q = Some (a, (c', xs))"
    using get_index [OF k(1,3) ne] it assms(2) k(2) by (simp add: cib_read_def q c'_def)
  moreover have "cib_items (c', xs) = as" using it assms(2) k(2) by (simp add: cib_items_def av rc)
  ultimately show ?thesis using k m av by (auto simp: cib_wf_def q c'_def)
qed

interpretation cib: bounded_fifo cib_wf cib_items "\<lambda>q. length (snd q)" cib_write cib_read
proof
  show "length (cib_items q) \<le> length (snd q)" if "cib_wf q" for q :: "'a cib_array"
    using that by (auto simp: cib_wf_def cib_items_def)
qed (rule cib_write_spec cib_read_spec; assumption)+

lemma cib_full_iff:
  assumes "cib_wf q"
  shows "cib_full (fst q) \<longleftrightarrow> length (cib_items q) = length (snd q)"
proof -
  obtain k where k: "k \<le> 14" "length (snd q) = 2 ^ k" "cib_mask (fst q) = mask k" "unat (cib_avail (fst q)) \<le> 2 ^ k"
    using assms by (auto simp: cib_wf_def)
  have "sint (cib_avail (fst q)) = int (unat (cib_avail (fst q)))"
    using k pow_14 [OF k(1)] by (intro sint_small) simp
  moreover have "sint (cib_mask (fst q)) = int (2 ^ k - 1)"
    using k pow_14 [OF k(1)] unat_mask [OF k(1)] sint_small [of "mask k"] by simp
  ultimately have "cib_full (fst q) \<longleftrightarrow> 2 ^ k - 1 < unat (cib_avail (fst q))"
    unfolding cib_full_def by (simp only: of_nat_less_iff)
  also have "\<dots> \<longleftrightarrow> unat (cib_avail (fst q)) = 2 ^ k" using k(4) by (metis One_nat_def Suc_le_eq Suc_pred le_antisym le_refl nat_zero_less_power_iff zero_less_numeral)
  finally show ?thesis using k by (simp add: cib_items_def)
qed

end
