(* ===== verification/Priority_Queue.thy ===== *)
theory Priority_Queue
  imports Linked_List
begin

text \<open>
  The priority queue of \<open>core/priority_queue.c\<close>: a \<open>NULL\<close>-terminated list in order of
  priority, first come first served among equal priorities. \<open>prio\<close> is the \<open>priority\<close> field of
  the nodes. The cast of the root to a node makes the root a list head. The locale
  \<open>ordered_insert\<close> is the contract of insertion; a client that adds nodes one by one gets the
  stable sort of what it added.
\<close>

section \<open>Definitions\<close>

type_synonym 'n priority_queue_t = "'n option \<times> 'n heap"

definition priority_queue_init :: "'n heap \<Rightarrow> 'n priority_queue_t" where
  "priority_queue_init h = (None, h)"

partial_function (option) priority_queue_remove_loop ::
    "'n priority_queue_t \<Rightarrow> 'n node_loc \<Rightarrow> 'n \<Rightarrow> 'n priority_queue_t option" where
  "priority_queue_remove_loop q root node =
     (case node_next (fst q) (snd q) root of
        None \<Rightarrow> Some q
      | Some i \<Rightarrow>
          if i = node then Some (set_node_next (Entry node) None (set_node_next root (snd q node) q))
          else priority_queue_remove_loop q (Entry i) node)"

definition priority_queue_remove :: "'n priority_queue_t \<Rightarrow> 'n \<Rightarrow> 'n priority_queue_t option" where
  "priority_queue_remove q node = priority_queue_remove_loop q List_head node"

definition priority_queue_remove_head :: "'n priority_queue_t \<Rightarrow> 'n option \<times> 'n priority_queue_t" where
  "priority_queue_remove_head q = (case fst q of Some i \<Rightarrow> (Some i, (snd q i, snd q)) | None \<Rightarrow> (None, q))"

text \<open>A failed \<open>assert\<close> does not return.\<close>

partial_function (option) priority_queue_add_loop ::
    "('n \<Rightarrow> u32) \<Rightarrow> 'n priority_queue_t \<Rightarrow> 'n node_loc \<Rightarrow> 'n \<Rightarrow> 'n priority_queue_t option" where
  "priority_queue_add_loop prio q node new_obj =
     (case node_next (fst q) (snd q) node of
        None \<Rightarrow> Some (set_node_next (Entry new_obj) None (set_node_next node (Some new_obj) q))
      | Some i \<Rightarrow>
          if i = new_obj then None
          else if prio i > prio new_obj then
            Some (set_node_next node (Some new_obj) (set_node_next (Entry new_obj) (Some i) q))
          else priority_queue_add_loop prio q (Entry i) new_obj)"

definition priority_queue_add :: "('n \<Rightarrow> u32) \<Rightarrow> 'n \<Rightarrow> 'n priority_queue_t \<Rightarrow> 'n priority_queue_t option" where
  "priority_queue_add prio new_obj root = priority_queue_add_loop prio root List_head new_obj"

section \<open>The contract of insertion\<close>

lemma fold_placed_sort:
  "fold (\<lambda>x W. placed (\<lambda>y. key y \<le> key x) x W) xs [] = sort_key (key :: 'n \<Rightarrow> 'k::linorder) xs"
proof -
  have f: "filter (\<lambda>y. k = key y) (placed (\<lambda>y. key y \<le> key x) x W) = filter (\<lambda>y. k = key y) (W @ [x])"
    if "sorted (map key W)" for k x W
    using that
  proof (induction W)
    case (Cons w W)
    then have "filter (\<lambda>y. key x = key y) (w # W) = []" if "key x < key w"
      using that by (auto simp: filter_empty_conv)
    with Cons show ?case by (auto simp: not_le)
  qed simp
  have so: "sorted (map key (placed (\<lambda>y. key y \<le> key x) x W))" if "sorted (map key W)" for x W
    using that by (induction W) (auto simp: not_le dest: less_imp_le order_trans)
  have inv: "sorted (map key (fold (\<lambda>x W. placed (\<lambda>y. key y \<le> key x) x W) xs W))
      \<and> mset (fold (\<lambda>x W. placed (\<lambda>y. key y \<le> key x) x W) xs W) = mset W + mset xs
      \<and> (\<forall>k. filter (\<lambda>y. k = key y) (fold (\<lambda>x W. placed (\<lambda>y. key y \<le> key x) x W) xs W) = filter (\<lambda>y. k = key y) (W @ xs))"
    if "sorted (map key W)" for W
    using that
  proof (induction xs arbitrary: W)
    case (Cons x xs)
    have "mset (placed (\<lambda>y. key y \<le> key x) x W) = add_mset x (mset W)" by (induction W) auto
    then show ?case using Cons.IH [OF so [OF Cons.prems]] f [OF Cons.prems] by simp
  qed simp
  show ?thesis using inv [of "[]"] by (intro properties_for_sort_key [symmetric]) auto
qed

locale ordered_insert =
  fixes key :: "'n \<Rightarrow> 'k::linorder" and ins :: "'n \<Rightarrow> 'n option \<times> 'n heap \<Rightarrow> ('n option \<times> 'n heap) option"
    and pop :: "'n option \<times> 'n heap \<Rightarrow> 'n option \<times> ('n option \<times> 'n heap)"
  assumes ins_places: "lseg h lh W None \<Longrightarrow> x \<notin> set W \<Longrightarrow>
      \<exists>lh' h'. ins x (lh, h) = Some (lh', h') \<and> lseg h' lh' (placed (\<lambda>y. key y \<le> key x) x W) None"
    and pop_first: "lseg h lh (x # W) None \<Longrightarrow> \<exists>lh'. pop (lh, h) = (Some x, (lh', h)) \<and> lseg h lh' W None"
begin

fun ins_all :: "'n list \<Rightarrow> 'n option \<times> 'n heap \<Rightarrow> ('n option \<times> 'n heap) option" where
  "ins_all [] q = Some q"
| "ins_all (x # xs) q = do { q1 \<leftarrow> ins x q; ins_all xs q1 }"

fun pop_n :: "nat \<Rightarrow> 'n option \<times> 'n heap \<Rightarrow> 'n list" where
  "pop_n 0 q = []"
| "pop_n (Suc n) q = (case pop q of (None, _) \<Rightarrow> [] | (Some x, q') \<Rightarrow> x # pop_n n q')"

lemma ins_all_fold:
  "lseg h lh W None \<Longrightarrow> distinct (W @ xs) \<Longrightarrow>
     \<exists>lh' h'. ins_all xs (lh, h) = Some (lh', h') \<and> lseg h' lh' (fold (\<lambda>x W. placed (\<lambda>y. key y \<le> key x) x W) xs W) None"
proof (induction xs arbitrary: lh h W)
  case (Cons x xs)
  then obtain lh1 h1 where i: "ins x (lh, h) = Some (lh1, h1)" "lseg h1 lh1 (placed (\<lambda>y. key y \<le> key x) x W) None"
    using ins_places [of h lh W x] by auto
  have "distinct (placed (\<lambda>y. key y \<le> key x) x W @ xs)" using Cons.prems(2) by auto
  then show ?case using Cons.IH [OF i(2)] i(1) by simp
qed simp

lemma pop_n_all: "lseg h lh W None \<Longrightarrow> pop_n (length W) (lh, h) = W"
proof (induction W arbitrary: lh)
  case (Cons x W)
  then obtain lh' where "pop (lh, h) = (Some x, (lh', h))" "lseg h lh' W None" using pop_first by blast
  then show ?case using Cons.IH [of lh'] by simp
qed simp

lemma queue_sorts:
  assumes "distinct xs"
  shows "\<exists>q. ins_all xs (None, h) = Some q \<and> pop_n (length xs) q = sort_key key xs"
proof -
  obtain lh' h' where i: "ins_all xs (None, h) = Some (lh', h')" "lseg h' lh' (sort_key key xs) None"
    using ins_all_fold [of h None "[]" xs] assms by (auto simp: fold_placed_sort)
  then show ?thesis using pop_n_all [OF i(2)] by simp
qed

end

section \<open>Correctness\<close>

lemma priority_queue_add_loop_spec:
  assumes "lseg h (node_next lh h l) W None" and "x \<notin> set W" and "\<forall>z. l = Entry z \<longrightarrow> z \<notin> set W \<and> z \<noteq> x"
  shows "\<exists>lh' h'. priority_queue_add_loop prio (lh, h) l x = Some (lh', h')
    \<and> lseg h' (node_next lh' h' l) (placed (\<lambda>y. prio y \<le> prio x) x W) None
    \<and> (\<forall>z. z \<noteq> x \<longrightarrow> z \<notin> set W \<longrightarrow> l \<noteq> Entry z \<longrightarrow> h' z = h z) \<and> (l \<noteq> List_head \<longrightarrow> lh' = lh)"
  using assms
proof (induction W arbitrary: l)
  case Nil
  then show ?case
    by (subst priority_queue_add_loop.simps) (cases l; auto simp: set_node_next_def node_next_def)
next
  case (Cons i W)
  have n: "node_next lh h l = Some i" "lseg h (h i) W None" "i \<noteq> x" using Cons.prems by auto
  have d: "i \<notin> set W" using lseg_NULL_distinct [OF Cons.prems(1)] by simp
  show ?case
  proof (cases "prio i > prio x")
    case True
    then have "priority_queue_add_loop prio (lh, h) l x =
        Some (set_node_next l (Some x) (set_node_next (Entry x) (Some i) (lh, h)))"
      using n by (subst priority_queue_add_loop.simps) simp
    then show ?thesis using True n Cons.prems(2,3) by (cases l) (auto simp: set_node_next_def node_next_def)
  next
    case False
    then have l: "priority_queue_add_loop prio (lh, h) l x = priority_queue_add_loop prio (lh, h) (Entry i) x"
      using n by (subst priority_queue_add_loop.simps) simp
    obtain lh' h' where r: "priority_queue_add_loop prio (lh, h) (Entry i) x = Some (lh', h')" "lh' = lh"
        "lseg h' (h' i) (placed (\<lambda>y. prio y \<le> prio x) x W) None"
        "\<forall>z. z \<noteq> x \<longrightarrow> z \<notin> set W \<longrightarrow> i \<noteq> z \<longrightarrow> h' z = h z"
      using Cons.IH [of "Entry i"] n d Cons.prems(2) by (auto simp: node_next_def)
    have "node_next lh' h' l = Some i" using n r(2,4) Cons.prems(3) by (cases l) (auto simp: node_next_def)
    then show ?thesis using l r False by auto
  qed
qed

interpretation pq: ordered_insert prio "priority_queue_add prio" priority_queue_remove_head for prio
proof
  show "\<exists>lh' h'. priority_queue_add prio x (lh, h) = Some (lh', h') \<and> lseg h' lh' (placed (\<lambda>y. prio y \<le> prio x) x W) None"
    if "lseg h lh W None" "x \<notin> set W" for h lh W x
    using priority_queue_add_loop_spec [of h lh List_head W x prio] that
    by (auto simp: priority_queue_add_def node_next_def)
  show "\<exists>lh'. priority_queue_remove_head (lh, h) = (Some x, (lh', h)) \<and> lseg h lh' W None"
    if "lseg h lh (x # W) None" for h lh x W
    using that by (simp add: priority_queue_remove_head_def)
qed

lemma priority_queue_remove_loop_spec:
  assumes "lseg h (node_next lh h l) W None" and "\<forall>z. l = Entry z \<longrightarrow> z \<notin> set W \<and> z \<noteq> x"
  shows "\<exists>lh' h'. priority_queue_remove_loop (lh, h) l x = Some (lh', h')
    \<and> lseg h' (node_next lh' h' l) (remove1 x W) None \<and> (x \<in> set W \<longrightarrow> h' x = None)
    \<and> (\<forall>z. z \<notin> set W \<longrightarrow> l \<noteq> Entry z \<longrightarrow> h' z = h z) \<and> (l \<noteq> List_head \<longrightarrow> lh' = lh)"
  using assms
proof (induction W arbitrary: l)
  case Nil
  then show ?case by (subst priority_queue_remove_loop.simps) simp
next
  case (Cons i W)
  have n: "node_next lh h l = Some i" "lseg h (h i) W None" using Cons.prems by auto
  have d: "i \<notin> set W" using lseg_NULL_distinct [OF Cons.prems(1)] by simp
  show ?case
  proof (cases "i = x")
    case True
    then have "priority_queue_remove_loop (lh, h) l x = Some (set_node_next (Entry x) None (set_node_next l (h x) (lh, h)))"
      using n by (subst priority_queue_remove_loop.simps) simp
    then show ?thesis using True n d Cons.prems(2) by (cases l) (auto simp: set_node_next_def node_next_def)
  next
    case False
    then have l: "priority_queue_remove_loop (lh, h) l x = priority_queue_remove_loop (lh, h) (Entry i) x"
      using n by (subst priority_queue_remove_loop.simps) simp
    obtain lh' h' where r: "priority_queue_remove_loop (lh, h) (Entry i) x = Some (lh', h')" "lh' = lh"
        "lseg h' (h' i) (remove1 x W) None" "x \<in> set W \<longrightarrow> h' x = None"
        "\<forall>z. z \<notin> set W \<longrightarrow> i \<noteq> z \<longrightarrow> h' z = h z"
      using Cons.IH [of "Entry i"] n d False by (auto simp: node_next_def)
    have "node_next lh' h' l = Some i" using n r(2,5) Cons.prems(2) by (cases l) (auto simp: node_next_def)
    then show ?thesis using l r False by auto
  qed
qed

text \<open>Removing a node unlinks exactly that node and clears its link; a node that is not queued is left alone.\<close>

lemma priority_queue_remove_unlinks:
  assumes "lseg h lh W None"
  shows "\<exists>lh' h'. priority_queue_remove (lh, h) x = Some (lh', h') \<and> lseg h' lh' (remove1 x W) None
    \<and> (x \<in> set W \<longrightarrow> h' x = None) \<and> (\<forall>z. z \<notin> set W \<longrightarrow> h' z = h z)"
  using priority_queue_remove_loop_spec [of h lh List_head W x] assms
  by (auto simp: priority_queue_remove_def node_next_def)

end
