(* ===== verification/Lifo.thy ===== *)
theory Lifo
  imports Prelude
begin

text \<open>
  The stack of small integers of \<open>core/lifo.c\<close>: \<open>array[0]\<close> is the top and \<open>array[i + 1]\<close> the
  element below \<open>i\<close>, with -1 at the bottom. \<open>develhelp\<close> is the build option \<open>DEVELHELP\<close>; the
  warning it prints is not modelled. An access outside the array is \<open>None\<close>.
\<close>

section \<open>Definitions\<close>

definition cell :: "int list \<Rightarrow> int \<Rightarrow> int option" where
  "cell array i = (if 0 \<le> i \<and> nat i < length array then Some (array ! nat i) else None)"

definition set_cell :: "int list \<Rightarrow> int \<Rightarrow> int \<Rightarrow> int list option" where
  "set_cell array i v = (if 0 \<le> i \<and> nat i < length array then Some (array[nat i := v]) else None)"

definition lifo_empty :: "int list \<Rightarrow> bool option" where
  "lifo_empty array = do { h \<leftarrow> cell array 0; Some (h = -1) }"

fun lifo_init_loop :: "nat \<Rightarrow> nat \<Rightarrow> int list \<Rightarrow> int list option" where
  "lifo_init_loop i 0 array = Some array"
| "lifo_init_loop i (Suc k) array = do { a \<leftarrow> set_cell array (int i) (-1); lifo_init_loop (Suc i) k a }"

definition lifo_init :: "int list \<Rightarrow> nat \<Rightarrow> int list option" where
  "lifo_init array n = lifo_init_loop 0 (Suc n) array"

definition lifo_insert :: "int list \<Rightarrow> int \<Rightarrow> int list option" where
  "lifo_insert array i = do {
     let index = i + 1;
     h \<leftarrow> cell array 0;
     a \<leftarrow> set_cell array index h;
     set_cell a 0 i
   }"

definition lifo_get :: "bool \<Rightarrow> int list \<Rightarrow> (int \<times> int list) option" where
  "lifo_get develhelp array = do {
     head \<leftarrow> cell array 0;
     a \<leftarrow> (if head \<noteq> -1 then do { v \<leftarrow> cell array (head + 1); set_cell array 0 v } else Some array);
     a' \<leftarrow> (if develhelp then set_cell a (head + 1) (-1) else Some a);
     Some (head, a')
   }"

section \<open>Correctness\<close>

fun stack_from :: "int list \<Rightarrow> int \<Rightarrow> nat list \<Rightarrow> bool" where
  "stack_from a v [] \<longleftrightarrow> v = -1"
| "stack_from a v (x # xs) \<longleftrightarrow> v = int x \<and> Suc x < length a \<and> stack_from a (a ! Suc x) xs"

definition lifo_rep :: "int list \<Rightarrow> nat list \<Rightarrow> bool" where
  "lifo_rep a xs \<longleftrightarrow> a \<noteq> [] \<and> distinct xs \<and> stack_from a (a ! 0) xs"

lemma stack_from_frame: "(\<And>x. x \<in> set xs \<Longrightarrow> i \<noteq> Suc x) \<Longrightarrow> stack_from (a[i := w]) v xs = stack_from a v xs"
  by (induction xs arbitrary: v) auto

lemma lifo_init_loop_spec:
  "i + k \<le> length a \<Longrightarrow> \<exists>a'. lifo_init_loop i k a = Some a' \<and> length a' = length a
     \<and> (\<forall>j < length a. a' ! j = (if i \<le> j \<and> j < i + k then -1 else a ! j))"
proof (induction k arbitrary: i a)
  case 0
  then show ?case by simp
next
  case (Suc k)
  then show ?case using Suc.IH [of "Suc i" "a[i := -1]"] by (auto simp: set_cell_def nth_list_update)
qed

lemma lifo_init_spec:
  assumes "n < length a"
  shows "\<exists>a'. lifo_init a n = Some a' \<and> lifo_rep a' [] \<and> length a' = length a"
  using lifo_init_loop_spec [of 0 "Suc n" a] assms unfolding lifo_init_def lifo_rep_def by fastforce

lemma lifo_insert_spec:
  assumes "lifo_rep a xs" and "Suc x < length a" and "x \<notin> set xs"
  shows "\<exists>a'. lifo_insert a (int x) = Some a' \<and> lifo_rep a' (x # xs) \<and> length a' = length a"
proof -
  have "stack_from (a[Suc x := a ! 0, 0 := int x]) (a ! 0) xs"
    using assms by (subst stack_from_frame, simp, subst stack_from_frame) (auto simp: lifo_rep_def)
  then have "lifo_rep (a[Suc x := a ! 0, 0 := int x]) (x # xs)" using assms by (auto simp: lifo_rep_def)
  moreover have "lifo_insert a (int x) = Some (a[Suc x := a ! 0, 0 := int x])"
    using assms by (auto simp: lifo_insert_def cell_def set_cell_def nat_add_distrib lifo_rep_def)
  ultimately show ?thesis by auto
qed

lemma lifo_get_spec:
  assumes "lifo_rep a (x # xs)"
  shows "\<exists>a'. lifo_get dh a = Some (int x, a') \<and> lifo_rep a' xs \<and> length a' = length a"
proof -
  have x: "a ! 0 = int x" "Suc x < length a" "stack_from a (a ! Suc x) xs" "x \<notin> set xs" "distinct xs" "a \<noteq> []"
    using assms by (auto simp: lifo_rep_def)
  define a1 where "a1 = a[0 := a ! Suc x]"
  define a' where "a' = (if dh then a1[Suc x := -1] else a1)"
  have f1: "stack_from a1 (a ! Suc x) xs" using x(3) by (simp add: a1_def stack_from_frame)
  have "stack_from a' (a ! Suc x) xs" using f1 x(4) stack_from_frame [of xs "Suc x" a1 "-1" "a ! Suc x"] by (auto simp: a'_def)
  then have "lifo_rep a' xs" using x by (auto simp: lifo_rep_def a'_def a1_def)
  moreover have "lifo_get dh a = Some (int x, a')"
    using x by (auto simp: lifo_get_def cell_def set_cell_def nat_add_distrib a'_def a1_def)
  ultimately show ?thesis by (auto simp: a'_def a1_def)
qed

lemma lifo_get_empty: "lifo_rep a [] \<Longrightarrow> \<exists>a'. lifo_get dh a = Some (-1, a') \<and> lifo_rep a' []"
  by (auto simp: lifo_rep_def lifo_get_def cell_def set_cell_def)

lemma lifo_empty_spec: "lifo_rep a xs \<Longrightarrow> lifo_empty a = Some (xs = [])"
  by (cases xs) (auto simp: lifo_rep_def lifo_empty_def cell_def)

end
