(* ===== verification/Library_Properties.thy ===== *)
theory Library_Properties
  imports Clist_Sort Bitarithm Ringbuffer Cib Priority_Queue Lifo Div
begin

text \<open>
  The properties of the kernel's data structures and arithmetic helpers, each with an instance on
  concrete data.
\<close>

section \<open>Circular lists\<close>

text \<open>A circular list is a queue: nodes pushed to the end one after the other come out at the front in the
  same order.\<close>

theorem clist_first_in_first_out:
  assumes "distinct ns"
  shows "(case fold (\<lambda>n (h, t). clist_rpush h t n) ns (h, None) of
            (h', t') \<Rightarrow> drain clist_lpop (length ns) h' t') = Some (map Some ns)"
  by (rule cl.push_all_drain [OF assms])

theorem clist_first_in_first_out_example:
  "(case fold (\<lambda>n (h, t). clist_rpush h t n) [3, 1, 2 :: nat] (\<lambda>_. None, None) of
      (h', t') \<Rightarrow> drain clist_lpop 3 h' t') = Some [Some 3, Some 1, Some 2]"
proof -
  have d: "distinct [3, 1, 2 :: nat]" and l: "length [3, 1, 2 :: nat] = 3" by simp_all
  from clist_first_in_first_out [OF d, of "\<lambda>_. None", unfolded l] show ?thesis by (simp only: list.map)
qed

text \<open>C29: The merge sort ends and leaves the ring in the stable order of the comparison, with the same nodes, and
  does not touch any other node; its run lengths do not overflow for lists of up to \<open>INT_MAX\<close> nodes.\<close>

theorem clist_sort_stable:
  assumes "cmp_by key cmp" and "length xs \<le> INT_MAX" and "cring h t xs"
  shows "\<exists>h' t'. clist_sort cmp h t = Some (h', t') \<and> cring h' t' (sort_key key xs)
    \<and> (\<forall>x. x \<notin> set xs \<longrightarrow> h' x = h x)"
  by (rule clist_sort_spec [OF assms])

theorem clist_sort_stable_witness:
  "\<exists>h' t'. clist_sort (\<lambda>x y. int x - int y) ((\<lambda>_. None)(1 := Some 3, 3 := Some 2, 2 := Some (1 :: nat))) (Some 2) = Some (h', t')
     \<and> cring h' t' [1, 2, 3]"
proof -
  have "cring ((\<lambda>_. None)(1 := Some 3, 3 := Some 2, 2 := Some (1 :: nat))) (Some 2) [1, 3, 2]" by (simp add: cring_Some)
  moreover have "cmp_by id (\<lambda>x y :: nat. int x - int y)" by (simp add: cmp_by_def)
  moreover have "length [1, 3, 2 :: nat] \<le> INT_MAX" "sort_key id [1, 3, 2 :: nat] = [1, 2, 3]" by (simp_all add: INT_MAX_def)
  ultimately show ?thesis using clist_sort_stable [of id "\<lambda>x y. int x - int y" "[1, 3, 2 :: nat]"] by metis
qed

section \<open>Bit arithmetic\<close>

text \<open>C32: The branch-free 32-bit search for the most significant bit and the shift loop agree on every value, and
  for a value that is not 0 the result is the position of its highest set bit.\<close>

theorem bitarithm_msb_variants_agree:
  "bitarithm_msb_32 v = bitarithm_msb v
   \<and> (v \<noteq> 0 \<longrightarrow> 2 ^ bitarithm_msb v \<le> unat v \<and> unat v < 2 ^ (bitarithm_msb v + 1))"
  using msb_32_eq_loop msb_floor by blast

theorem bitarithm_msb_variants_agree_witness:
  "bitarithm_msb_32 0x12345 = bitarithm_msb (0x12345 :: u32) \<and> 2 ^ bitarithm_msb (0x12345 :: u32) \<le> (74565 :: nat)"
  using bitarithm_msb_variants_agree [of "0x12345"] by simp

text \<open>For every value but 0 the shift loop and the De Bruijn table give the position of the lowest set bit; on 0
  the loop never returns.\<close>

theorem bitarithm_lsb_variants_agree:
  "(v \<noteq> 0 \<longrightarrow> bitarithm_lsb v = Some (bitarithm_lsb_lookup v)
      \<and> bit v (bitarithm_lsb_lookup v) \<and> (\<forall>i < bitarithm_lsb_lookup v. \<not> bit v i))
   \<and> bitarithm_lsb (0 :: u32) = None"
proof -
  have "bitarithm_lsb v = Some (bitarithm_lsb_lookup v) \<and> bit v (bitarithm_lsb_lookup v)
      \<and> (\<forall>i < bitarithm_lsb_lookup v. \<not> bit v i)" if "v \<noteq> 0"
    using lsb_lowest [OF that] lsb_lookup_eq_loop [OF that] by auto
  then show ?thesis by (simp add: bitarithm_lsb_def lsb_loop_zero)
qed

theorem bitarithm_lsb_variants_agree_example:
  "bitarithm_lsb (0x50 :: u32) = Some (bitarithm_lsb_lookup 0x50) \<and> bit (0x50 :: u32) (bitarithm_lsb_lookup 0x50)"
  using bitarithm_lsb_variants_agree [of "0x50"] by simp

section \<open>Buffers\<close>

definition demo_rb :: ringbuffer_t where
  "demo_rb = \<lparr>buf = [1, 2, 3, 4], size = 4, start = 3, avail = 2\<rparr>"

lemma demo_rb_wf: "rb_wf demo_rb" "contents demo_rb = [4, 1]"
  by (simp_all add: rb_wf_def contents_def demo_rb_def upt_rec)

text \<open>C30: What is added to a ring buffer that has room for it is read back behind its former contents, in order
  and complete, also across the end of the array.\<close>

theorem ringbuffer_add_get:
  assumes "rb_wf rb" and "length (contents rb) + length cs \<le> unat (size rb)"
  shows "\<exists>rb1 rb2. ringbuffer_add cs rb = Some (length cs, rb1)
    \<and> ringbuffer_get (of_nat (length (contents rb) + length cs)) rb1
      = Some (of_nat (length (contents rb) + length cs), contents rb @ cs, rb2)
    \<and> rb_wf rb2 \<and> contents rb2 = []"
proof -
  have free: "unat (ringbuffer_get_free rb) = unat (size rb) - length (contents rb)"
    using rb_wfD(3) [OF assms(1)] by (simp add: ringbuffer_get_free_def unat_minus_le word_le_nat_alt)
  obtain rb1 where rb1: "ringbuffer_add cs rb = Some (length cs, rb1)" "rb_wf rb1" "contents rb1 = contents rb @ cs"
    using ringbuffer_add_spec [OF assms(1), of cs] free assms(2) by auto
  define k where "k = length (contents rb) + length cs"
  have av: "unat (avail rb1) = k" using arg_cong [OF rb1(3), of length] by (simp add: k_def)
  then have "unat (of_nat k :: u16) = k" by (metis of_nat_unat ucast_id)
  then show ?thesis
    using ringbuffer_get_spec [OF rb1(2), of "of_nat k"] rb1 av unfolding k_def [symmetric] by (auto simp: k_def)
qed

theorem ringbuffer_add_get_witness:
  "\<exists>rb1 rb2. ringbuffer_add [7, 8] demo_rb = Some (2, rb1) \<and> ringbuffer_get 4 rb1 = Some (4, [4, 1, 7, 8], rb2)"
  using ringbuffer_add_get [OF demo_rb_wf(1), of "[7, 8]"] demo_rb_wf(2) by (auto simp: demo_rb_def)

text \<open>Removing exactly the bytes up to the end of the array, while more are stored at its beginning, leaves the
  read position one past the array: the next byte is read out of bounds.\<close>

theorem ringbuffer_remove_leaves_array:
  assumes "rb_wf rb" and "unat (start rb) + unat n = unat (size rb)" and "n < avail rb"
  shows "start (snd (ringbuffer_remove n rb)) = size rb \<and> ringbuffer_get_one (snd (ringbuffer_remove n rb)) = None"
  using ringbuffer_remove_to_end [OF assms] by simp

theorem ringbuffer_remove_leaves_array_example:
  "start (snd (ringbuffer_remove 1 demo_rb)) = 4 \<and> ringbuffer_get_one (snd (ringbuffer_remove 1 demo_rb)) = None"
  using ringbuffer_remove_leaves_array [OF demo_rb_wf(1), of 1] by (simp add: demo_rb_def)

text \<open>Values written at the indices a circular integer buffer hands out are read back in the order of writing,
  whatever the counters were, even when they wrap around.\<close>

theorem cib_write_read:
  assumes "cib_wf q" and "length (cib_items q) + length as \<le> length (snd q)"
  shows "\<exists>q1 q2. bounded_fifo.write_all cib_write as q = Some q1
    \<and> bounded_fifo.read_n cib_read (length (cib_items q) + length as) q1 = Some (cib_items q @ as, q2)
    \<and> cib_wf q2 \<and> cib_items q2 = []"
  by (rule cib.batch_roundtrip [OF assms])

theorem cib_write_read_example:
  "\<exists>q1 q2. bounded_fifo.write_all cib_write [7, 8, 9 :: nat] (\<lparr>read_count = 0xFFFF, write_count = 0xFFFF, cib_mask = 3\<rparr>, [0, 0, 0, 0]) = Some q1
     \<and> bounded_fifo.read_n cib_read 3 q1 = Some ([7, 8, 9], q2)"
proof -
  let ?q = "(\<lparr>read_count = 0xFFFF, write_count = 0xFFFF, cib_mask = 3\<rparr>, [0, 0, 0, 0 :: nat])"
  have "mask 2 = (3 :: u16)" by code_simp
  then have "cib_wf ?q" by (auto simp: cib_wf_def cib_avail_def intro!: exI [of _ 2])
  moreover have i: "cib_items ?q = []" "length ([] :: nat list) + length [7, 8, 9 :: nat] = 3"
    by (simp_all add: cib_items_def cib_avail_def)
  ultimately show ?thesis using cib_write_read [of ?q "[7, 8, 9]", unfolded i append_Nil] by auto
qed

section \<open>Priority queue and stack\<close>

text \<open>C31: Inserting nodes into an empty priority queue and taking them out again gives them in order of priority,
  first come first served among equal priorities.\<close>

theorem priority_queue_serves_in_order:
  assumes "distinct xs"
  shows "\<exists>q. ordered_insert.ins_all (priority_queue_add prio) xs (priority_queue_init h) = Some q
    \<and> ordered_insert.pop_n priority_queue_remove_head (length xs) q = sort_key prio xs"
  unfolding priority_queue_init_def by (rule pq.queue_sorts [OF assms])

theorem priority_queue_serves_in_order_witness:
  "\<exists>q. ordered_insert.ins_all (priority_queue_add (\<lambda>i. of_nat (i div 10))) [21, 15, 22, 11 :: nat] (priority_queue_init (\<lambda>_. None)) = Some q
     \<and> ordered_insert.pop_n priority_queue_remove_head 4 q = [15, 11, 21, 22]"
proof -
  have "sort_key (\<lambda>i. of_nat (i div 10) :: u32) [21, 15, 22, 11 :: nat] = [15, 11, 21, 22]" by code_simp
  moreover have d: "distinct [21, 15, 22, 11 :: nat]" and l: "length [21, 15, 22, 11 :: nat] = 4" by simp_all
  ultimately show ?thesis using priority_queue_serves_in_order [OF d, unfolded l] by metis
qed

text \<open>The lifo is a stack of distinct small integers: what was inserted last is returned first, and the elements
  below it are unchanged.\<close>

theorem lifo_last_in_first_out:
  assumes "lifo_rep a xs" and "Suc x < length a" and "x \<notin> set xs"
  shows "\<exists>a1 a2. lifo_insert a (int x) = Some a1 \<and> lifo_rep a1 (x # xs)
    \<and> lifo_get dh a1 = Some (int x, a2) \<and> lifo_rep a2 xs"
  using lifo_insert_spec [OF assms] lifo_get_spec by blast

theorem lifo_last_in_first_out_example:
  "\<exists>a1 a2. lifo_insert [1, -1, -1, -1] 2 = Some a1 \<and> lifo_get True a1 = Some (2, a2) \<and> lifo_rep a2 [1]"
  using lifo_last_in_first_out [of "[1, -1, -1, -1]" "[1]" 2 True] by (auto simp: lifo_rep_def)

section \<open>Division\<close>

text \<open>C33: The division by 15625 is exact below 7154218749 and above 16383999997; in between it is not, and
  7154218749 gives a quotient that is one too large.\<close>

theorem div_15625_exact_range:
  "(unat val < 7154218749 \<or> 16383999997 < unat val \<longrightarrow> unat (div_u64_by_15625 val) = unat val div 15625)
   \<and> div_u64_by_15625 7154218749 = 457870 \<and> (7154218749 :: nat) div 15625 = 457869"
  using div_u64_by_15625_exact [of val] div_u64_by_15625_off_by_one by blast

theorem div_15625_exact_range_witness: "unat (div_u64_by_15625 1000000) = 64"
  using div_15625_exact_range [of 1000000] by simp

end
