(* ===== verification/Rtc.thy ===== *)
theory Rtc
  imports Prelude "HOL-Library.Signed_Division"
begin

text \<open>
  Calendar arithmetic of \<open>drivers/periph_common/rtc.c\<close>. A C \<open>int\<close> is 16 bits wide: \<open>int16\<close>
  passes a value in range on and is \<open>None\<close> on a signed overflow, which is undefined behaviour.
\<close>

section \<open>Definitions\<close>

definition int16 :: "int \<Rightarrow> int option" where
  "int16 x = (if -32768 \<le> x \<and> x \<le> 32767 then Some x else None)"

record tm =
  tm_sec :: int
  tm_min :: int
  tm_hour :: int
  tm_mday :: int
  tm_mon :: int
  tm_year :: int
  tm_wday :: int
  tm_yday :: int

definition is_leap_year :: "int \<Rightarrow> int" where
  "is_leap_year year =
     (if year AND 0x3 \<noteq> 0 then 0
      else if year smod 25 \<noteq> 0 \<or> year AND 15 = 0 then 1 else 0)"

definition month_length :: "int \<Rightarrow> int \<Rightarrow> int" where
  "month_length month year =
     (if month = 1 then 28 + is_leap_year year else 31 - ((month smod 7) AND 1))"

definition wday_table :: "int list" where
  "wday_table = [0, 3, 2, 5, 0, 3, 5, 1, 4, 6, 2, 4]"

definition wday :: "int \<Rightarrow> int \<Rightarrow> int \<Rightarrow> int option" where
  "wday day month year = do {
     y \<leftarrow> int16 (year - (if month < 2 then 1 else 0));
     a \<leftarrow> int16 (y + y sdiv 4);
     b \<leftarrow> int16 (a - y sdiv 100);
     c \<leftarrow> int16 (b + y sdiv 400);
     t \<leftarrow> (if 0 \<le> month \<and> month \<le> 11 then Some (wday_table ! nat month) else None);
     d \<leftarrow> int16 (c + t);
     e \<leftarrow> int16 (d + day);
     Some (e smod 7)
   }"

definition yday_table :: "int list" where
  "yday_table = [0, 31, 59, 90, 120, 151, 181, 212, 243, 17, 48, 78]"

definition yday :: "int \<Rightarrow> int \<Rightarrow> int \<Rightarrow> int option" where
  "yday day month year = do {
     day \<leftarrow> (if month > 1 then int16 (day + is_leap_year year) else Some day);
     let day = (if month > 8 then day OR 0x100 else day);
     d \<leftarrow> (if 0 \<le> month \<and> month \<le> 11 then Some (yday_table ! nat month) else None);
     e \<leftarrow> int16 (d + day);
     int16 (e - 1)
   }"

text \<open>The loop over the months.\<close>

partial_function (option) normalize_days :: "tm \<Rightarrow> tm option" where
  "normalize_days t = do {
     y \<leftarrow> int16 (tm_year t + 1900);
     let days = month_length (tm_mon t) y;
     if tm_mday t \<le> days then Some t
     else do {
       m \<leftarrow> int16 (tm_mon t + 1);
       t1 \<leftarrow> (if m > 11 then do { y1 \<leftarrow> int16 (tm_year t + 1); Some (t\<lparr>tm_mon := 0, tm_year := y1\<rparr>) }
               else Some (t\<lparr>tm_mon := m\<rparr>));
       d \<leftarrow> int16 (tm_mday t1 - days);
       normalize_days (t1\<lparr>tm_mday := d\<rparr>)
     }
   }"

definition rtc_tm_normalize :: "bool \<Rightarrow> tm \<Rightarrow> tm option" where
  "rtc_tm_normalize normalize_compat t = do {
     m \<leftarrow> int16 (tm_min t + tm_sec t sdiv 60);
     let t = t\<lparr>tm_min := m, tm_sec := tm_sec t smod 60\<rparr>;
     h \<leftarrow> int16 (tm_hour t + tm_min t sdiv 60);
     let t = t\<lparr>tm_hour := h, tm_min := tm_min t smod 60\<rparr>;
     d \<leftarrow> int16 (tm_mday t + tm_hour t sdiv 24);
     let t = t\<lparr>tm_mday := d, tm_hour := tm_hour t smod 24\<rparr>;
     y \<leftarrow> int16 (tm_year t + tm_mon t sdiv 12);
     let t = t\<lparr>tm_year := y, tm_mon := tm_mon t smod 12\<rparr>;
     t \<leftarrow> normalize_days t;
     if normalize_compat then do {
       y \<leftarrow> int16 (tm_year t + 1900);
       yd \<leftarrow> yday (tm_mday t) (tm_mon t) y;
       wd \<leftarrow> wday (tm_mday t) (tm_mon t) y;
       Some (t\<lparr>tm_yday := yd, tm_wday := wd\<rparr>)
     }
     else Some t
   }"

definition rtc_tm_compare :: "tm \<Rightarrow> tm \<Rightarrow> int option" where
  "rtc_tm_compare a b =
     (if tm_year a \<noteq> tm_year b then int16 (tm_year a - tm_year b)
      else if tm_mon a \<noteq> tm_mon b then int16 (tm_mon a - tm_mon b)
      else if tm_mday a \<noteq> tm_mday b then int16 (tm_mday a - tm_mday b)
      else if tm_hour a \<noteq> tm_hour b then int16 (tm_hour a - tm_hour b)
      else if tm_min a \<noteq> tm_min b then int16 (tm_min a - tm_min b)
      else if tm_sec a \<noteq> tm_sec b then int16 (tm_sec a - tm_sec b)
      else Some 0)"

section \<open>The Gregorian calendar\<close>

text \<open>Days since 0001-01-01 in the proleptic calendar, from the number of leap years before a year.\<close>

definition leap :: "int \<Rightarrow> bool" where
  "leap y \<longleftrightarrow> 4 dvd y \<and> (\<not> 100 dvd y \<or> 400 dvd y)"

definition days_before_year :: "int \<Rightarrow> int" where
  "days_before_year y = 365 * (y - 1) + (y - 1) div 4 - (y - 1) div 100 + (y - 1) div 400"

definition month_days :: "int \<Rightarrow> int list" where
  "month_days y = [31, if leap y then 29 else 28, 31, 30, 31, 30, 31, 31, 30, 31, 30, 31]"

definition days_before_month :: "int \<Rightarrow> nat \<Rightarrow> int" where
  "days_before_month y m = sum_list (take m (month_days y))"

definition day_number :: "int \<Rightarrow> int \<Rightarrow> int \<Rightarrow> int" where
  "day_number day month year = days_before_year year + days_before_month year (nat month) + (day - 1)"

definition instant :: "tm \<Rightarrow> int" where
  "instant t = ((day_number (tm_mday t) (tm_mon t) (tm_year t + 1900) * 24 + tm_hour t) * 60 + tm_min t) * 60 + tm_sec t"

definition tm_normal :: "tm \<Rightarrow> bool" where
  "tm_normal t \<longleftrightarrow> 0 \<le> tm_sec t \<and> tm_sec t < 60 \<and> 0 \<le> tm_min t \<and> tm_min t < 60 \<and> 0 \<le> tm_hour t \<and> tm_hour t < 24
     \<and> 0 \<le> tm_mon t \<and> tm_mon t < 12 \<and> 1 \<le> tm_mday t \<and> tm_mday t \<le> month_days (tm_year t + 1900) ! nat (tm_mon t)"

lemma dvd_mult_by_inverse:
  assumes "k dvd y" and "n dvd y" and "u * n = v * k + (1 :: int)"
  shows "k * n dvd y"
proof -
  obtain a where a: "y = n * a" using assms(2) by blast
  have "u * (n * a) = v * k * a + a" using arg_cong [OF assms(3), of "\<lambda>x. x * a"] by (simp add: algebra_simps)
  then have "a = u * y - k * (v * a)" using a by (simp add: algebra_simps)
  moreover have "k dvd u * y - k * (v * a)" using assms(1) by (intro dvd_diff dvd_mult dvd_triv_left)
  ultimately show ?thesis using a by (simp add: mult.commute)
qed

lemma is_leap_year_leap: "is_leap_year y = (if leap y then 1 else 0)"
proof -
  have m3: "y AND 3 = 0 \<longleftrightarrow> 4 dvd y"
    using take_bit_eq_mask [of 2 y] by (simp add: take_bit_eq_mod mask_eq_exp_minus_1 dvd_eq_mod_eq_0)
  have m15: "y AND 15 = 0 \<longleftrightarrow> 16 dvd y"
    using take_bit_eq_mask [of 4 y] by (simp add: take_bit_eq_mod mask_eq_exp_minus_1 dvd_eq_mod_eq_0)
  have s: "y smod 25 = 0 \<longleftrightarrow> 25 dvd y" by (auto simp: signed_modulo_int_def sgn_if simp flip: dvd_eq_mod_eq_0)
  have h1: "100 dvd y \<longleftrightarrow> 25 dvd y \<and> 4 dvd y"
  proof
    assume "100 dvd y"
    then show "25 dvd y \<and> 4 dvd y" using dvd_trans [of 25 100 y] dvd_trans [of 4 100 y] by simp
  next
    assume "25 dvd y \<and> 4 dvd y"
    then show "100 dvd y" using dvd_mult_by_inverse [of 4 y 25 1 6] by simp
  qed
  have h2: "400 dvd y \<longleftrightarrow> 25 dvd y \<and> 16 dvd y"
  proof
    assume "400 dvd y"
    then show "25 dvd y \<and> 16 dvd y" using dvd_trans [of 25 400 y] dvd_trans [of 16 400 y] by simp
  next
    assume "25 dvd y \<and> 16 dvd y"
    then show "400 dvd y" using dvd_mult_by_inverse [of 16 y 25 9 14] by simp
  qed
  show ?thesis unfolding is_leap_year_def leap_def m3 m15 s h1 h2 by simp
qed

lemma div_pred:
  assumes "0 < (k :: int)"
  shows "y div k = (y - 1) div k + (if k dvd y then 1 else 0)"
proof (cases "k dvd y")
  case True
  then obtain c where c: "y = k * c" by blast
  have "(y - 1) div k = c - 1" using assms c by (intro int_div_pos_eq [of _ _ _ "k - 1"]) (simp_all add: algebra_simps)
  then show ?thesis using assms c by simp
next
  case False
  then have "0 < y mod k" using assms by (simp add: dvd_eq_mod_eq_0 order_less_le)
  then have "(y - 1) div k = y div k"
    using assms pos_mod_bound [OF assms, of y] by (intro int_div_pos_eq [of _ _ _ "y mod k - 1"]) (simp_all add: algebra_simps)
  then show ?thesis using False by simp
qed

lemma month_range: "0 \<le> (m :: int) \<Longrightarrow> m < 12 \<Longrightarrow> m \<in> {0, 1, 2, 3, 4, 5, 6, 7, 8, 9, 10, 11}"
  by (simp, presburger)

lemma month_length_days:
  assumes "0 \<le> m" and "m < 12"
  shows "month_length m y = month_days y ! nat m"
  using month_range [OF assms] by (auto simp: month_length_def month_days_def is_leap_year_leap signed_modulo_int_def)

lemma month_days_bounds:
  assumes "0 \<le> m" and "m < 12"
  shows "28 \<le> month_days y ! nat m" "month_days y ! nat m \<le> 31"
  using month_range [OF assms] by (auto simp: month_days_def)

lemma length_month_days: "length (month_days y) = 12"
  by (simp add: month_days_def)

lemma days_before_month_Suc: "n < 12 \<Longrightarrow> days_before_month y (Suc n) = days_before_month y n + month_days y ! n"
  by (simp add: days_before_month_def take_Suc_conv_app_nth length_month_days)

lemma days_before_Suc_month:
  "0 \<le> m \<Longrightarrow> m < 12 \<Longrightarrow> days_before_month y (nat (m + 1)) = days_before_month y (nat m) + month_days y ! nat m"
  by (simp add: nat_add_distrib days_before_month_Suc)

lemma indicator_nested:
  "(q \<longrightarrow> h) \<Longrightarrow> (h \<longrightarrow> f) \<Longrightarrow>
     (if f \<and> (\<not> h \<or> q) then 1 else 0 :: int) = (if f then 1 else 0) - (if h then 1 else 0) + (if q then 1 else 0)"
  by (cases f; cases h; cases q) simp_all

definition leap_days :: "int \<Rightarrow> int" where
  "leap_days y = y div 4 - y div 100 + y div 400"

lemma leap_days_pred: "leap_days y = leap_days (y - 1) + (if leap y then 1 else 0)"
proof -
  define f h q where fhq: "f = (if 4 dvd y then 1 else 0 :: int)" "h = (if 100 dvd y then 1 else 0 :: int)"
    "q = (if 400 dvd y then 1 else 0 :: int)"
  define d4 d100 d400 where d: "d4 = (y - 1) div 4" "d100 = (y - 1) div 100" "d400 = (y - 1) div 400"
  have s: "y div 4 = d4 + f" "y div 100 = d100 + h" "y div 400 = d400 + q" unfolding fhq d by (rule div_pred, simp)+
  have "400 dvd y \<longrightarrow> 100 dvd y" "100 dvd y \<longrightarrow> 4 dvd y"
    using dvd_trans [of "100 :: int" 400 y] dvd_trans [of "4 :: int" 100 y] by simp_all
  then have l: "(if leap y then 1 else 0 :: int) = f - h + q" unfolding leap_def fhq by (rule indicator_nested)
  show ?thesis unfolding leap_days_def l s d [symmetric] by simp
qed

lemma days_before_year_leap_days: "days_before_year y = 365 * (y - 1) + leap_days (y - 1)"
  by (simp only: days_before_year_def leap_days_def add_diff_eq add.assoc diff_add_eq)

lemma days_before_Suc_year:
  "days_before_year (y + 1) = days_before_year y + days_before_month y 11 + month_days y ! 11"
  using leap_days_pred [of y] by (simp add: days_before_year_leap_days days_before_month_def month_days_def)

text \<open>Going on to the next month and taking the days of this month off keeps the day.\<close>

lemma day_number_next_month:
  assumes "0 \<le> m" and "m < 12"
  shows "day_number (d - month_days y ! nat m) (if m + 1 > 11 then 0 else m + 1) (if m + 1 > 11 then y + 1 else y)
     = day_number d m y"
proof (cases "m = 11")
  case True
  then show ?thesis using days_before_Suc_year [of y] by (simp add: day_number_def days_before_month_def)
next
  case False
  then show ?thesis using days_before_Suc_month [of m y] assms by (simp add: day_number_def)
qed

section \<open>Normalisation\<close>

lemma int16_in [simp]: "-32768 \<le> x \<Longrightarrow> x \<le> 32767 \<Longrightarrow> int16 x = Some x"
  by (simp add: int16_def)

lemma normalize_days_spec:
  "0 \<le> tm_mon t \<Longrightarrow> tm_mon t < 12 \<Longrightarrow> 1 \<le> tm_mday t \<Longrightarrow> tm_mday t \<le> 32767 \<Longrightarrow> -32768 \<le> tm_year t \<Longrightarrow>
   tm_year t + 1900 + tm_mday t \<le> 32767 \<Longrightarrow>
   \<exists>d m y. normalize_days t = Some (t\<lparr>tm_mday := d, tm_mon := m, tm_year := y\<rparr>) \<and> 0 \<le> m \<and> m < 12 \<and> 1 \<le> d
     \<and> d \<le> month_days (y + 1900) ! nat m \<and> tm_year t \<le> y \<and> y \<le> tm_year t + tm_mday t
     \<and> day_number d m (y + 1900) = day_number (tm_mday t) (tm_mon t) (tm_year t + 1900)"
proof (induction "nat (tm_mday t)" arbitrary: t rule: less_induct)
  case less
  let ?ml = "month_days (tm_year t + 1900) ! nat (tm_mon t)"
  have yr: "int16 (tm_year t + 1900) = Some (tm_year t + 1900)" using less.prems by simp
  note ml = month_length_days [OF less.prems(1,2), of "tm_year t + 1900"]
  note mb = month_days_bounds [OF less.prems(1,2), of "tm_year t + 1900"]
  show ?case
  proof (cases "tm_mday t \<le> ?ml")
    case True
    then have "normalize_days t = Some t" using yr ml by (subst normalize_days.simps) simp
    then show ?thesis
      using less.prems True by (intro exI [of _ "tm_mday t"] exI [of _ "tm_mon t"] exI [of _ "tm_year t"]) simp
  next
    case False
    define m where "m = (if tm_mon t + 1 > 11 then 0 else tm_mon t + 1)"
    define y where "y = (if tm_mon t + 1 > 11 then tm_year t + 1 else tm_year t)"
    define t1 where "t1 = t\<lparr>tm_mon := m, tm_year := y, tm_mday := tm_mday t - ?ml\<rparr>"
    have "t\<lparr>tm_mon := m, tm_mday := d\<rparr> = t\<lparr>tm_mon := m, tm_year := tm_year t, tm_mday := d\<rparr>" for m d by simp
    then have step: "normalize_days t = normalize_days t1"
      using yr ml mb False less.prems
      by (subst normalize_days.simps) (auto simp: t1_def m_def y_def)
    have pre: "0 \<le> tm_mon t1" "tm_mon t1 < 12" "1 \<le> tm_mday t1" "tm_mday t1 \<le> 32767" "-32768 \<le> tm_year t1"
        "tm_year t1 + 1900 + tm_mday t1 \<le> 32767" "nat (tm_mday t1) < nat (tm_mday t)"
        "tm_year t \<le> tm_year t1" "tm_year t1 + tm_mday t1 \<le> tm_year t + tm_mday t"
      using less.prems False mb by (auto simp: t1_def m_def y_def)
    have same: "day_number (tm_mday t1) (tm_mon t1) (tm_year t1 + 1900) = day_number (tm_mday t) (tm_mon t) (tm_year t + 1900)"
      using day_number_next_month [OF less.prems(1,2), of "tm_mday t" "tm_year t + 1900"]
      by (simp add: t1_def m_def y_def add.commute add.left_commute split: if_splits)
    obtain d' m' y' where r: "normalize_days t1 = Some (t1\<lparr>tm_mday := d', tm_mon := m', tm_year := y'\<rparr>)" "0 \<le> m'" "m' < 12"
        "1 \<le> d'" "d' \<le> month_days (y' + 1900) ! nat m'" "tm_year t1 \<le> y'" "y' \<le> tm_year t1 + tm_mday t1"
        "day_number d' m' (y' + 1900) = day_number (tm_mday t1) (tm_mon t1) (tm_year t1 + 1900)"
      using less.hyps [OF pre(7,1-6)] by blast
    have "t1\<lparr>tm_mday := d', tm_mon := m', tm_year := y'\<rparr> = t\<lparr>tm_mday := d', tm_mon := m', tm_year := y'\<rparr>"
      by (simp add: t1_def)
    then show ?thesis
      using step r same pre(8,9)
      by (intro exI [of _ d'] exI [of _ m'] exI [of _ y']) simp
  qed
qed

section \<open>Day of the year and of the week\<close>

lemma or_256:
  assumes "0 \<le> d" and "d < 40"
  shows "d OR 256 = d + (256 :: int)"
proof -
  have "\<forall>d \<in> set (map int [0..<40]). d OR 256 = d + 256" by code_simp
  moreover have "d \<in> set (map int [0..<40])" using assms by (auto simp: image_iff intro!: bexI [of _ "nat d"])
  ultimately show ?thesis by blast
qed

lemma yday_spec:
  assumes m: "0 \<le> m" "m < 12" and d: "1 \<le> d" "d \<le> 31"
  shows "yday d m y = Some (day_number d m y - days_before_year y)"
proof -
  have "(d + (if leap y then 1 else 0)) OR 256 = d + (if leap y then 1 else 0) + 256" using d by (intro or_256) auto
  then show ?thesis
    using month_range [OF m] d
    by (auto simp: yday_def yday_table_def is_leap_year_leap day_number_def days_before_month_def month_days_def)
qed

text \<open>Sakamoto's sum differs from the day count by a multiple of 7, since \<open>365 = 52 * 7 + 1\<close>.\<close>

definition cumulated_days :: "int list" where
  "cumulated_days = [0, 31, 59, 90, 120, 151, 181, 212, 243, 273, 304, 334]"

lemma wday_table_mod:
  assumes "0 \<le> m" and "m < 12"
  shows "\<exists>k. wday_table ! nat m + (if m < 2 then 0 else 1) = cumulated_days ! nat m - 7 * k"
  using month_range [OF assms] by (auto simp: wday_table_def cumulated_days_def)

lemma days_before_month_cumulated:
  assumes "0 \<le> m" and "m < 12"
  shows "days_before_month y (nat m) = cumulated_days ! nat m + (if m < 2 then 0 else if leap y then 1 else 0)"
  using month_range [OF assms] by (auto simp: days_before_month_def month_days_def cumulated_days_def)

lemma sakamoto:
  fixes year m d :: int
  assumes m: "0 \<le> m" "m < 12"
  defines "y \<equiv> year - (if m < 2 then 1 else 0)"
  shows "(y + leap_days y + wday_table ! nat m + d) mod 7 = (day_number d m year + 1) mod 7"
proof -
  obtain k where k: "wday_table ! nat m + (if m < 2 then 0 else 1) = cumulated_days ! nat m - 7 * k"
    using wday_table_mod [OF m] by blast
  have "y + leap_days y + wday_table ! nat m + d = day_number d m year + 1 + 7 * (- 52 * (year - 1) - k)"
    using k leap_days_pred [of year]
    by (cases "m < 2") (simp_all add: y_def day_number_def days_before_year_leap_days days_before_month_cumulated [OF m])
  then show ?thesis by (metis mod_mult_self2)
qed

lemma wday_spec:
  assumes m: "0 \<le> m" "m < 12" and d: "1 \<le> d" "d \<le> 31" and y: "1 \<le> year" "year \<le> 26000"
  shows "wday d m year = Some ((day_number d m year + 1) mod 7)"
proof -
  define y where "y = year - (if m < 2 then 1 else 0)"
  have y0: "0 \<le> y" "y \<le> 26000" using y by (auto simp: y_def)
  have tb: "0 \<le> wday_table ! nat m" "wday_table ! nat m \<le> 6" using month_range [OF m] by (auto simp: wday_table_def)
  have q: "y sdiv 4 = y div 4" "y sdiv 100 = y div 100" "y sdiv 400 = y div 400"
    using y0 by (auto simp: signed_divide_int_def sgn_if)
  define a b c where abc: "a = y div 4" "b = y div 100" "c = y div 400"
  have bd: "0 \<le> a" "a \<le> 6500" "0 \<le> b" "b \<le> a" "0 \<le> c" "c \<le> 65"
    using y0 by (auto simp: abc zdiv_mono2)
  define e where "e = y + (a - b + c) + wday_table ! nat m + d"
  have "wday d m year = Some (e smod 7)"
    unfolding wday_def y_def [symmetric] using q bd y0 tb m d
    by (simp add: abc [symmetric] e_def algebra_simps)
  moreover have "e smod 7 = e mod 7" using y0 bd tb d by (auto simp: e_def signed_modulo_int_def sgn_if)
  moreover have "e = y + leap_days y + wday_table ! nat m + d" by (simp add: e_def abc leap_days_def)
  ultimately show ?thesis using sakamoto [OF m, of year d] by (simp only: y_def)
qed

section \<open>The whole normalisation\<close>

text \<open>Non-negative fields small enough that no carry overflows an \<open>int\<close>.\<close>

definition tm_small :: "tm \<Rightarrow> bool" where
  "tm_small t \<longleftrightarrow> 0 \<le> tm_sec t \<and> tm_sec t \<le> 32767 \<and> 0 \<le> tm_min t \<and> tm_min t \<le> 32000 \<and> 0 \<le> tm_hour t \<and> tm_hour t \<le> 32000
     \<and> 1 \<le> tm_mday t \<and> tm_mday t \<le> 2000 \<and> 0 \<le> tm_mon t \<and> tm_mon t \<le> 32767 \<and> 0 \<le> tm_year t \<and> tm_year t \<le> 16000"

lemma sdiv_nonneg: "0 \<le> (a :: int) \<Longrightarrow> 0 < b \<Longrightarrow> a sdiv b = a div b"
  by (auto simp: signed_divide_int_def sgn_if)

lemma smod_nonneg: "0 \<le> (a :: int) \<Longrightarrow> 0 < b \<Longrightarrow> a smod b = a mod b"
  by (auto simp: signed_modulo_int_def sgn_if)

text \<open>The instant a \<open>tm\<close> with any month count denotes: whole years of months first.\<close>

definition instant_of :: "tm \<Rightarrow> int" where
  "instant_of t = ((day_number (tm_mday t) (tm_mon t mod 12) (tm_year t + tm_mon t div 12 + 1900) * 24 + tm_hour t) * 60
     + tm_min t) * 60 + tm_sec t"

lemma rtc_tm_normalize_spec:
  assumes "tm_small t"
  shows "\<exists>t'. rtc_tm_normalize cp t = Some t' \<and> tm_normal t' \<and> instant t' = instant_of t
    \<and> (cp \<longrightarrow> tm_yday t' = day_number (tm_mday t') (tm_mon t') (tm_year t' + 1900) - days_before_year (tm_year t' + 1900)
         \<and> tm_wday t' = (day_number (tm_mday t') (tm_mon t') (tm_year t' + 1900) + 1) mod 7)"
proof -
  note b = assms [unfolded tm_small_def]
  define m1 where "m1 = tm_min t + tm_sec t div 60"
  define h1 where "h1 = tm_hour t + m1 div 60"
  define d1 where "d1 = tm_mday t + h1 div 24"
  define y1 where "y1 = tm_year t + tm_mon t div 12"
  have m1: "0 \<le> m1" "m1 \<le> 32547" using b by (auto simp: m1_def)
  have h1: "0 \<le> h1" "h1 \<le> 32543" using b m1 by (auto simp: h1_def)
  have d1: "1 \<le> d1" "d1 \<le> 3357" using b h1 by (auto simp: d1_def)
  have y1: "0 \<le> y1" "y1 \<le> 18731" using b by (auto simp: y1_def)
  define t1 where "t1 = t\<lparr>tm_min := m1 mod 60, tm_sec := tm_sec t mod 60, tm_hour := h1 mod 24, tm_mday := d1,
      tm_year := y1, tm_mon := tm_mon t mod 12\<rparr>"
  have pre: "0 \<le> tm_mon t1" "tm_mon t1 < 12" "1 \<le> tm_mday t1" "tm_mday t1 \<le> 32767" "-32768 \<le> tm_year t1"
      "tm_year t1 + 1900 + tm_mday t1 \<le> 32767"
    using d1 y1 by (simp_all add: t1_def)
  obtain d m y where n: "normalize_days t1 = Some (t1\<lparr>tm_mday := d, tm_mon := m, tm_year := y\<rparr>)" "0 \<le> m" "m < 12" "1 \<le> d"
      "d \<le> month_days (y + 1900) ! nat m" "tm_year t1 \<le> y" "y \<le> tm_year t1 + tm_mday t1"
      "day_number d m (y + 1900) = day_number (tm_mday t1) (tm_mon t1) (tm_year t1 + 1900)"
    using normalize_days_spec [OF pre] by blast
  define t2 where "t2 = t1\<lparr>tm_mday := d, tm_mon := m, tm_year := y\<rparr>"
  have d31: "d \<le> 31" using n(5) month_days_bounds(2) [OF n(2,3), of "y + 1900"] by simp
  have yb: "1 \<le> y + 1900" "y + 1900 \<le> 26000" using n(6,7) y1 d1 by (simp_all add: t1_def)
  have same: "instant (t2\<lparr>tm_yday := u, tm_wday := w\<rparr>) = instant_of t" "instant t2 = instant_of t" for u w
  proof -
    have "tm_sec t = tm_sec t mod 60 + 60 * (m1 - tm_min t)" "m1 = m1 mod 60 + 60 * (h1 - tm_hour t)"
        "h1 = h1 mod 24 + 24 * (d1 - tm_mday t)" by (simp_all add: m1_def h1_def d1_def)
    moreover have "day_number d1 (tm_mon t mod 12) (y1 + 1900) = day_number (tm_mday t) (tm_mon t mod 12) (y1 + 1900) + (d1 - tm_mday t)"
      by (simp add: day_number_def)
    ultimately show "instant (t2\<lparr>tm_yday := u, tm_wday := w\<rparr>) = instant_of t" "instant t2 = instant_of t"
      using n(8) by (simp_all add: instant_def instant_of_def t2_def t1_def y1_def [symmetric])
  qed
  have nrm: "tm_normal (t2\<lparr>tm_yday := u, tm_wday := w\<rparr>)" "tm_normal t2" for u w
    using n(2-5) by (simp_all add: tm_normal_def t2_def t1_def)
  have t1: "t\<lparr>tm_sec := tm_sec t mod 60, tm_min := m1 mod 60, tm_mday := d1, tm_hour := h1 mod 24, tm_year := y1,
      tm_mon := tm_mon t mod 12\<rparr> = t1" by (simp add: t1_def)
  have run: "rtc_tm_normalize cp t = (if cp then do { y \<leftarrow> int16 (tm_year t2 + 1900); yd \<leftarrow> yday (tm_mday t2) (tm_mon t2) y;
       wd \<leftarrow> wday (tm_mday t2) (tm_mon t2) y; Some (t2\<lparr>tm_yday := yd, tm_wday := wd\<rparr>) } else Some t2)"
    using b m1 h1 d1 y1 n(1) t1 unfolding rtc_tm_normalize_def
    by (simp add: sdiv_nonneg smod_nonneg m1_def [symmetric] h1_def [symmetric] d1_def [symmetric] y1_def [symmetric]
        t2_def [symmetric])
  show ?thesis
  proof (cases cp)
    case True
    define t3 where "t3 = t2\<lparr>tm_yday := day_number d m (y + 1900) - days_before_year (y + 1900),
        tm_wday := (day_number d m (y + 1900) + 1) mod 7\<rparr>"
    have "rtc_tm_normalize cp t = Some t3"
      using True run yday_spec [OF n(2-4) d31] wday_spec [OF n(2-4) d31 yb] yb by (simp add: t2_def t3_def)
    then show ?thesis using same(1) nrm(1) by (simp add: t3_def) (simp add: t2_def)
  next
    case False
    then show ?thesis using run same(2) nrm(2) by simp
  qed
qed

section \<open>Comparison\<close>

lemma days_before_year_mono: "y \<le> y' \<Longrightarrow> days_before_year y \<le> days_before_year y'"
proof (induction y' rule: int_ge_induct)
  case (step i)
  have "0 \<le> days_before_month i 11 + month_days i ! 11" by (simp add: days_before_month_def month_days_def)
  then show ?case using step days_before_Suc_year [of i] by simp
qed simp

lemma days_before_month_mono:
  assumes "n \<le> n'"
  shows "days_before_month y n \<le> days_before_month y n'"
proof -
  have "take n' (month_days y) = take n (month_days y) @ take (n' - n) (drop n (month_days y))"
    using assms by (metis le_add_diff_inverse take_add)
  moreover have "0 \<le> sum_list (take (n' - n) (drop n (month_days y)))"
    by (intro sum_list_nonneg) (auto simp: month_days_def dest!: in_set_takeD in_set_dropD)
  ultimately show ?thesis by (simp add: days_before_month_def)
qed

lemma month_ends:
  assumes "0 \<le> m" and "m < 12" and "1 \<le> d" and "d \<le> month_days y ! nat m"
  shows "0 \<le> days_before_month y (nat m) + (d - 1)"
    and "m < m' \<Longrightarrow> days_before_month y (nat m) + (d - 1) < days_before_month y (nat m')"
proof -
  show "0 \<le> days_before_month y (nat m) + (d - 1)"
    using days_before_month_mono [of 0 "nat m" y] assms(3) by (simp add: days_before_month_def)
  assume "m < m'"
  then have "nat (m + 1) \<le> nat m'" by simp
  then show "days_before_month y (nat m) + (d - 1) < days_before_month y (nat m')"
    using days_before_Suc_month [OF assms(1,2)] days_before_month_mono [of "nat (m + 1)" "nat m'" y] assms(4) by simp
qed

text \<open>Earlier dates have smaller day numbers.\<close>

lemma day_number_less:
  assumes a: "0 \<le> m" "m < 12" "1 \<le> d" "d \<le> month_days y ! nat m"
    and b: "0 \<le> m'" "m' < 12" "1 \<le> d'" "d' \<le> month_days y' ! nat m'"
    and less: "y < y' \<or> y = y' \<and> m < m' \<or> y = y' \<and> m = m' \<and> d < d'"
  shows "day_number d m y < day_number d' m' y'"
proof (cases "y < y'")
  case True
  then have "days_before_year (y + 1) \<le> days_before_year y'" by (intro days_before_year_mono) simp
  then show ?thesis
    using month_ends(2) [OF a, of 12] month_ends(1) [OF b] days_before_Suc_year [of y] days_before_month_Suc [of 11 y] a(2)
    by (simp add: day_number_def)
next
  case False
  then have "y = y'" "m < m' \<or> m = m' \<and> d < d'" using less by auto
  then show ?thesis using month_ends(2) [OF a, of m'] b(3) by (auto simp: day_number_def)
qed

lemma instant_less:
  assumes "tm_normal a" and "tm_normal b"
    and "day_number (tm_mday a) (tm_mon a) (tm_year a + 1900) < day_number (tm_mday b) (tm_mon b) (tm_year b + 1900)"
  shows "instant a < instant b"
  using assms by (auto simp: instant_def tm_normal_def)

text \<open>On normalised times whose years differ by less than \<open>2 ^ 15\<close>, the sign is the order of the instants.\<close>

lemma rtc_tm_compare_spec:
  assumes a: "tm_normal a" and b: "tm_normal b" and y: "\<bar>tm_year a - tm_year b\<bar> \<le> 32767"
  shows "\<exists>r. rtc_tm_compare a b = Some r \<and> sgn r = sgn (instant a - instant b)"
proof -
  note na = a [unfolded tm_normal_def] and nb = b [unfolded tm_normal_def]
  have da: "0 \<le> tm_mon a" "tm_mon a < 12" "1 \<le> tm_mday a" "tm_mday a \<le> month_days (tm_year a + 1900) ! nat (tm_mon a)"
    and db: "0 \<le> tm_mon b" "tm_mon b < 12" "1 \<le> tm_mday b" "tm_mday b \<le> month_days (tm_year b + 1900) ! nat (tm_mon b)"
    using na nb by auto
  have d31: "tm_mday a \<le> 31" "tm_mday b \<le> 31"
    using da(4) db(4) month_days_bounds(2) [OF da(1,2), of "tm_year a + 1900"] month_days_bounds(2) [OF db(1,2), of "tm_year b + 1900"] by simp_all
  consider (date) "(tm_year a, tm_mon a, tm_mday a) \<noteq> (tm_year b, tm_mon b, tm_mday b)"
    | (time) "tm_year a = tm_year b" "tm_mon a = tm_mon b" "tm_mday a = tm_mday b" by auto
  then show ?thesis
  proof cases
    case date
    note lt = day_number_less [OF da db, THEN instant_less [OF a b]] and gt = day_number_less [OF db da, THEN instant_less [OF b a]]
    from date consider "tm_year a < tm_year b" | "tm_year b < tm_year a"
      | "tm_year a = tm_year b" "tm_mon a < tm_mon b" | "tm_year a = tm_year b" "tm_mon b < tm_mon a"
      | "tm_year a = tm_year b" "tm_mon a = tm_mon b" "tm_mday a < tm_mday b"
      | "tm_year a = tm_year b" "tm_mon a = tm_mon b" "tm_mday b < tm_mday a" by fastforce
    then show ?thesis using lt gt y da db d31 by cases (auto simp: rtc_tm_compare_def sgn_if)
  next
    case time
    then show ?thesis using na nb by (auto simp: rtc_tm_compare_def instant_def sgn_if)
  qed
qed

end
