(* ===== verification/Byteorder.thy ===== *)
theory Byteorder
  imports Prelude
begin

text \<open>
  Byte order of \<open>core/include/byteorder.h\<close> on the little-endian MSP430. Each of its unions is one
  word in memory; \<open>u8[i]\<close> is byte \<open>i\<close> of the word, the least significant first. A big-endian
  number is the word whose bytes in memory are the number's, most significant first.
\<close>

section \<open>Definitions\<close>

definition bytes_of :: "nat \<Rightarrow> 'a::len word \<Rightarrow> u8 list" where
  "bytes_of n v = map (\<lambda>i. ucast (drop_bit (8 * i) v)) [0..<n]"

fun word_of :: "u8 list \<Rightarrow> 'a::len word" where
  "word_of [] = 0"
| "word_of (b # bs) = ucast b OR push_bit 8 (word_of bs)"

type_synonym le_uint16_t = u16
type_synonym le_uint32_t = u32
type_synonym le_uint64_t = u64
type_synonym be_uint16_t = u16
type_synonym be_uint32_t = u32
type_synonym be_uint64_t = u64

definition builtin_bswap16 :: "u16 \<Rightarrow> u16" where
  "builtin_bswap16 a = push_bit 8 a OR drop_bit 8 a"

text \<open>The two remaining builtins reverse the bytes of the word.\<close>

definition builtin_bswap32 :: "u32 \<Rightarrow> u32" where
  "builtin_bswap32 a = word_of (rev (bytes_of 4 a))"

definition builtin_bswap64 :: "u64 \<Rightarrow> u64" where
  "builtin_bswap64 a = word_of (rev (bytes_of 8 a))"

text \<open>The first argument is the build option \<open>MODULE_MSP430_COMMON\<close>, under which the bytes are exchanged in memory.\<close>

definition byteorder_swaps :: "bool \<Rightarrow> u16 \<Rightarrow> u16" where
  "byteorder_swaps msp430_common v =
     (if \<not> msp430_common then builtin_bswap16 v
      else
        let result = bytes_of 2 v;
            tmp = result ! 0;
            result = result[0 := result ! 1];
            result = result[1 := tmp]
        in word_of result)"

definition byteorder_swapl :: "u32 \<Rightarrow> u32" where
  "byteorder_swapl v = builtin_bswap32 v"

definition byteorder_swapll :: "u64 \<Rightarrow> u64" where
  "byteorder_swapll v = builtin_bswap64 v"

definition byteorder_ltobs :: "bool \<Rightarrow> le_uint16_t \<Rightarrow> be_uint16_t" where
  "byteorder_ltobs mc v = byteorder_swaps mc v"
definition byteorder_ltobl :: "le_uint32_t \<Rightarrow> be_uint32_t" where
  "byteorder_ltobl v = byteorder_swapl v"
definition byteorder_ltobll :: "le_uint64_t \<Rightarrow> be_uint64_t" where
  "byteorder_ltobll v = byteorder_swapll v"
definition byteorder_btols :: "bool \<Rightarrow> be_uint16_t \<Rightarrow> le_uint16_t" where
  "byteorder_btols mc v = byteorder_swaps mc v"
definition byteorder_btoll :: "be_uint32_t \<Rightarrow> le_uint32_t" where
  "byteorder_btoll v = byteorder_swapl v"
definition byteorder_btolll :: "be_uint64_t \<Rightarrow> le_uint64_t" where
  "byteorder_btolll v = byteorder_swapll v"

definition byteorder_htons :: "bool \<Rightarrow> u16 \<Rightarrow> be_uint16_t" where
  "byteorder_htons mc v = byteorder_swaps mc v"
definition byteorder_htonl :: "u32 \<Rightarrow> be_uint32_t" where
  "byteorder_htonl v = byteorder_swapl v"
definition byteorder_htonll :: "u64 \<Rightarrow> be_uint64_t" where
  "byteorder_htonll v = byteorder_swapll v"
definition byteorder_ntohs :: "bool \<Rightarrow> be_uint16_t \<Rightarrow> u16" where
  "byteorder_ntohs mc v = byteorder_swaps mc v"
definition byteorder_ntohl :: "be_uint32_t \<Rightarrow> u32" where
  "byteorder_ntohl v = byteorder_swapl v"
definition byteorder_ntohll :: "be_uint64_t \<Rightarrow> u64" where
  "byteorder_ntohll v = byteorder_swapll v"

definition htons :: "bool \<Rightarrow> u16 \<Rightarrow> u16" where
  "htons mc v = byteorder_htons mc v"
definition htonl :: "u32 \<Rightarrow> u32" where
  "htonl v = byteorder_htonl v"
definition htonll :: "u64 \<Rightarrow> u64" where
  "htonll v = byteorder_htonll v"
definition ntohs :: "bool \<Rightarrow> u16 \<Rightarrow> u16" where
  "ntohs mc v = byteorder_ntohs mc v"
definition ntohl :: "u32 \<Rightarrow> u32" where
  "ntohl v = byteorder_ntohl v"
definition ntohll :: "u64 \<Rightarrow> u64" where
  "ntohll v = byteorder_ntohll v"

text \<open>The buffer functions; an access outside the buffer is \<open>None\<close>.\<close>

definition byteorder_bebuftohs :: "u8 list \<Rightarrow> u16 option" where
  "byteorder_bebuftohs b =
     (if 2 \<le> length b then Some (push_bit 8 (ucast (b ! 0)) OR push_bit 0 (ucast (b ! 1))) else None)"

definition byteorder_htobebufs :: "u8 list \<Rightarrow> u16 \<Rightarrow> u8 list option" where
  "byteorder_htobebufs b val =
     (if 2 \<le> length b then Some (b[0 := ucast (drop_bit 8 val), 1 := ucast (drop_bit 0 val)]) else None)"

section \<open>Words and their bytes\<close>

lemma bit_word_of:
  "bit (word_of bs :: 'a::len word) k \<longleftrightarrow> k < LENGTH('a) \<and> k < 8 * length bs \<and> bit (bs ! (k div 8)) (k mod 8)"
proof (induction bs arbitrary: k)
  case (Cons b bs)
  show ?case
  proof (cases "k < 8")
    case True
    then show ?thesis by (auto simp: bit_or_iff bit_push_bit_iff bit_ucast_iff)
  next
    case False
    then have "(b # bs) ! (k div 8) = bs ! ((k - 8) div 8)" "(k - 8) mod 8 = k mod 8"
      by (auto simp: le_div_geq le_mod_geq not_less)
    moreover have "\<not> bit b k" using False bit_imp_le_length [of b k] by auto
    ultimately show ?thesis using False Cons.IH [of "k - 8"]
      by (auto simp: bit_or_iff bit_push_bit_iff bit_ucast_iff)
  qed
qed simp

lemma bit_bytes_of:
  assumes "i < n"
  shows "bit (bytes_of n v ! i) j \<longleftrightarrow> j < 8 \<and> bit v (8 * i + j)"
  using assms by (auto simp: bytes_of_def bit_ucast_iff bit_drop_bit_eq dest: bit_imp_le_length)

lemma length_bytes_of [simp]: "length (bytes_of n v) = n"
  by (simp add: bytes_of_def)

lemma bytes_of_word_of:
  assumes "8 * n \<le> LENGTH('a::len)" and "length bs = n"
  shows "bytes_of n (word_of bs :: 'a word) = bs"
proof (rule nth_equalityI)
  fix i assume i: "i < length (bytes_of n (word_of bs :: 'a word))"
  show "bytes_of n (word_of bs :: 'a word) ! i = bs ! i"
  proof (rule bit_eqI)
    fix j
    have "j < 8 \<Longrightarrow> 8 * i + j < 8 * n" "bit (bs ! i) j \<Longrightarrow> j < 8" using i bit_imp_le_length [of "bs ! i" j] by simp_all
    then show "bit (bytes_of n (word_of bs :: 'a word) ! i) j \<longleftrightarrow> bit (bs ! i) j"
      using i assms by (auto simp: bit_bytes_of bit_word_of dest: bit_imp_le_length)
  qed
qed (simp add: assms)

lemma word_of_bytes_of:
  assumes "LENGTH('a::len) = 8 * n"
  shows "word_of (bytes_of n v) = (v :: 'a word)"
proof (rule bit_eqI)
  fix k
  show "bit (word_of (bytes_of n v) :: 'a word) k \<longleftrightarrow> bit v k"
  proof (cases "k < 8 * n")
    case True
    then have "k div 8 < n" "8 * (k div 8) + k mod 8 = k" by simp_all
    then show ?thesis using assms True by (simp add: bit_word_of bit_bytes_of)
  next
    case False
    then show ?thesis using assms by (auto simp: bit_word_of dest: bit_imp_le_length)
  qed
qed

section \<open>Swapping\<close>

lemma bswap16_bytes: "builtin_bswap16 v = word_of (rev (bytes_of 2 v))"
proof (rule bit_eqI)
  fix k
  have "bytes_of 2 v = [ucast v, ucast (drop_bit 8 v)]" by (simp add: bytes_of_def upt_rec)
  then show "bit (builtin_bswap16 v) k \<longleftrightarrow> bit (word_of (rev (bytes_of 2 v)) :: u16) k"
    by (auto simp: builtin_bswap16_def bit_or_iff bit_push_bit_iff bit_drop_bit_eq bit_ucast_iff dest: bit_imp_le_length)
qed

lemma swaps_bytes: "byteorder_swaps mc v = word_of (rev (bytes_of 2 v))"
  by (simp add: byteorder_swaps_def bswap16_bytes bytes_of_def upt_rec)

lemmas swap_defs = byteorder_swapl_def byteorder_swapll_def builtin_bswap32_def builtin_bswap64_def swaps_bytes

lemma reverse_twice:
  assumes "LENGTH('a::len) = 8 * n"
  shows "word_of (rev (bytes_of n (word_of (rev (bytes_of n v)) :: 'a word))) = (v :: 'a word)"
  using assms by (simp add: bytes_of_word_of word_of_bytes_of)

lemma swap_involution:
  "byteorder_swaps mc (byteorder_swaps mc' v) = v" "byteorder_swapl (byteorder_swapl w) = w"
  "byteorder_swapll (byteorder_swapll x) = x"
  by (simp_all add: swap_defs reverse_twice)

lemma network_bytes:
  "bytes_of 2 (byteorder_htons mc v) = rev (bytes_of 2 v)" "bytes_of 4 (byteorder_htonl w) = rev (bytes_of 4 w)"
  "bytes_of 8 (byteorder_htonll x) = rev (bytes_of 8 x)"
  by (simp_all add: byteorder_htons_def byteorder_htonl_def byteorder_htonll_def swap_defs bytes_of_word_of)

lemma bebuf_roundtrip:
  assumes "2 \<le> length b"
  shows "\<exists>b'. byteorder_htobebufs b v = Some b' \<and> take 2 b' = bytes_of 2 (byteorder_htons mc v) \<and> drop 2 b' = drop 2 b
    \<and> byteorder_bebuftohs b' = Some v"
proof -
  obtain x y zs where b: "b = x # y # zs" using assms by (cases b; cases "tl b") auto
  have "push_bit 8 (ucast (ucast (drop_bit 8 v) :: u8)) OR ucast (ucast v :: u8) = v"
    by (rule bit_eqI) (auto simp: bit_or_iff bit_push_bit_iff bit_ucast_iff bit_drop_bit_eq dest: bit_imp_le_length)
  moreover have "bytes_of 2 v = [ucast v, ucast (drop_bit 8 v)]" by (simp add: bytes_of_def upt_rec)
  ultimately show ?thesis by (simp add: b byteorder_htobebufs_def byteorder_bebuftohs_def network_bytes)
qed

end
