(* ===== verification/Uart.thy ===== *)
theory Uart
  imports Bounded_Fifo
begin

text \<open>
  The serial port of \<open>boards/sancus-msp430/uart.c\<close>: bytes received by interrupt go into a ring of
  128 bytes, of which one slot stays unused so that full and empty differ, and are echoed. The
  device is the sequence of values its status register will show (\<open>uart_stat\<close>, of which
  \<open>uart_k\<close> were read) and the bytes written to its data register.
\<close>

section \<open>Definitions\<close>

definition RX_BUFFER_SIZE :: u16 where "RX_BUFFER_SIZE = 128"
definition BAUD :: u16 where "BAUD = 69"
definition UART_EN :: u8 where "UART_EN = 0x01"
definition UART_IEN_RX :: u8 where "UART_IEN_RX = 0x10"
definition UART_RX_PND :: u8 where "UART_RX_PND = 0x10"
definition UART_TX_FULL :: u8 where "UART_TX_FULL = 0x08"
definition UART_TX_BUSY :: u8 where "UART_TX_BUSY = 0x04"

record uart_state =
  rx_buffer :: "u8 list"
  rx_head :: u16
  rx_tail :: u16
  appending :: bool
  UART_BAUD :: u16
  UART_CTL :: u8
  UART2_BAUD :: u16
  UART2_CTL :: u8
  uart_stat :: "nat \<Rightarrow> u8"
  uart_k :: nat
  UART_TXD :: "u8 list"
  UART_STAT_written :: "u8 list"
  uart2_stat :: "nat \<Rightarrow> u8"
  uart2_k :: nat
  UART2_TXD :: "u8 list"

text \<open>\<open>appending\<close> says that the receive call-back is \<open>uart_append_byte\<close>.\<close>

definition uart_init :: "uart_state \<Rightarrow> uart_state" where
  "uart_init s = s\<lparr>appending := True, rx_head := 0, rx_tail := 0, UART_BAUD := BAUD,
     UART_CTL := UART_EN OR UART_IEN_RX, UART2_BAUD := BAUD, UART2_CTL := UART_EN\<rparr>"

definition uart_set_receive_cb :: "bool \<Rightarrow> uart_state \<Rightarrow> uart_state" where
  "uart_set_receive_cb cb s = s\<lparr>appending := cb\<rparr>"

definition uart_available :: "uart_state \<Rightarrow> u16" where
  "uart_available s =
     (let head = rx_head s; tail = rx_tail s
      in if head \<ge> tail then head - tail else RX_BUFFER_SIZE + head - tail)"

text \<open>Waiting until a bit of the status register is clear.\<close>

partial_function (option) wait_clear :: "(nat \<Rightarrow> u8) \<Rightarrow> u8 \<Rightarrow> nat \<Rightarrow> nat option" where
  "wait_clear st m k = (if st k AND m \<noteq> 0 then wait_clear st m (Suc k) else Some (Suc k))"

definition uart_write_byte :: "u8 \<Rightarrow> uart_state \<Rightarrow> uart_state option" where
  "uart_write_byte b s = do {
     k \<leftarrow> wait_clear (uart_stat s) UART_TX_FULL (uart_k s);
     Some (s\<lparr>uart_k := k, UART_TXD := UART_TXD s @ [b]\<rparr>)
   }"

fun uart_write :: "u8 list \<Rightarrow> uart_state \<Rightarrow> uart_state option" where
  "uart_write [] s = Some s"
| "uart_write (b # bs) s = do { s1 \<leftarrow> uart_write_byte b s; uart_write bs s1 }"

definition uart_append_byte :: "u8 \<Rightarrow> uart_state \<Rightarrow> uart_state option" where
  "uart_append_byte b s = do {
     let i = rx_head s;
     let next_head = (i + 1) mod RX_BUFFER_SIZE;
     s1 \<leftarrow> (if next_head \<noteq> rx_tail s then
               if unat i < length (rx_buffer s) then Some (s\<lparr>rx_buffer := (rx_buffer s)[unat i := b], rx_head := next_head\<rparr>) else None
             else Some s);
     uart_write_byte b s1
   }"

text \<open>The receive interrupt for one byte; another call-back is a parameter.\<close>

definition uart_receive :: "(u8 \<Rightarrow> uart_state \<Rightarrow> uart_state option) \<Rightarrow> u8 \<Rightarrow> uart_state \<Rightarrow> uart_state option" where
  "uart_receive other_cb b s = do {
     s1 \<leftarrow> (if appending s then uart_append_byte b s else other_cb b s);
     Some (s1\<lparr>UART_STAT_written := UART_STAT_written s1 @ [UART_RX_PND]\<rparr>)
   }"

text \<open>
  A read waits until the ring is not empty; \<open>arrivals\<close> are the bytes whose interrupts come while
  it waits, and it does not return when there are none left.
\<close>

fun uart_read_byte :: "u8 list \<Rightarrow> uart_state \<Rightarrow> (u8 \<times> u8 list \<times> uart_state) option" where
  "uart_read_byte arrivals s =
     (let i = rx_tail s in
      if i \<noteq> rx_head s then
        if unat i < length (rx_buffer s)
        then Some (rx_buffer s ! unat i, arrivals, s\<lparr>rx_tail := (i + 1) mod RX_BUFFER_SIZE\<rparr>) else None
      else
        (case arrivals of
           [] \<Rightarrow> None
         | b # bs \<Rightarrow> do { s1 \<leftarrow> uart_receive (\<lambda>_ _. None) b s; uart_read_byte bs s1 }))"

fun uart_read :: "nat \<Rightarrow> u8 list \<Rightarrow> uart_state \<Rightarrow> (u8 list \<times> u8 list \<times> uart_state) option" where
  "uart_read 0 arrivals s = Some ([], arrivals, s)"
| "uart_read (Suc n) arrivals s = do {
     (b, ar1, s1) \<leftarrow> uart_read_byte arrivals s;
     (bs, ar2, s2) \<leftarrow> uart_read n ar1 s1;
     Some (b # bs, ar2, s2)
   }"

definition uart_flush :: "uart_state \<Rightarrow> uart_state option" where
  "uart_flush s = do { k \<leftarrow> wait_clear (uart_stat s) UART_TX_BUSY (uart_k s); Some (s\<lparr>uart_k := k\<rparr>) }"

definition uart2_write_byte :: "u8 \<Rightarrow> uart_state \<Rightarrow> uart_state option" where
  "uart2_write_byte b s = do {
     k \<leftarrow> wait_clear (uart2_stat s) UART_TX_FULL (uart2_k s);
     Some (s\<lparr>uart2_k := k, UART2_TXD := UART2_TXD s @ [b]\<rparr>)
   }"

definition uart_print_receive_buffer :: "uart_state \<Rightarrow> uart_state option" where
  "uart_print_receive_buffer s =
     (if length (rx_buffer s) = unat RX_BUFFER_SIZE then uart_write (rx_buffer s) s else None)"

declare uart_read_byte.simps [simp del]

section \<open>Contents\<close>

text \<open>The transmitter is never full for ever.\<close>

definition uart_wf :: "uart_state \<Rightarrow> bool" where
  "uart_wf s \<longleftrightarrow> length (rx_buffer s) = 128 \<and> unat (rx_head s) < 128 \<and> unat (rx_tail s) < 128 \<and> appending s
     \<and> (\<forall>k. \<exists>j \<ge> k. uart_stat s j AND UART_TX_FULL = 0)"

definition rx_count :: "uart_state \<Rightarrow> nat" where
  "rx_count s = (unat (rx_head s) + 128 - unat (rx_tail s)) mod 128"

definition rx_items :: "uart_state \<Rightarrow> u8 list" where
  "rx_items s = map (\<lambda>i. rx_buffer s ! ((unat (rx_tail s) + i) mod 128)) [0..<rx_count s]"

lemma length_rx_items [simp]: "length (rx_items s) = rx_count s"
  by (simp add: rx_items_def)

lemma rx_count_less: "rx_count s < 128"
  by (simp add: rx_count_def)

lemma uart_available_count:
  assumes "uart_wf s"
  shows "unat (uart_available s) = rx_count s"
proof -
  have b: "unat (rx_head s) < 128" "unat (rx_tail s) < 128" using assms by (auto simp: uart_wf_def)
  show ?thesis
  proof (cases "rx_head s \<ge> rx_tail s")
    case True
    then have "unat (rx_tail s) \<le> unat (rx_head s)" by (simp add: word_le_nat_alt)
    then show ?thesis using True b
      by (auto simp: uart_available_def rx_count_def unat_sub_if' Let_def mod_if)
  next
    case False
    then have l: "unat (rx_head s) < unat (rx_tail s)" by (simp add: word_le_nat_alt)
    have "unat (RX_BUFFER_SIZE + rx_head s) = 128 + unat (rx_head s)"
      using b by (simp add: RX_BUFFER_SIZE_def unat_word_ariths)
    then have "unat (RX_BUFFER_SIZE + rx_head s - rx_tail s) = 128 + unat (rx_head s) - unat (rx_tail s)"
      using b by (simp add: unat_sub_if')
    then show ?thesis using False l b by (simp add: uart_available_def rx_count_def Let_def)
  qed
qed

lemma wait_clear_ends:
  assumes "\<exists>j \<ge> k. st j AND m = 0"
  shows "\<exists>k'. wait_clear st m k = Some k' \<and> k < k'"
proof -
  obtain j where "st j AND m = 0" "k \<le> j" using assms by blast
  then show ?thesis
  proof (induction "j - k" arbitrary: k)
    case 0
    then show ?case by (subst wait_clear.simps) auto
  next
    case (Suc n)
    have "n = j - Suc k" "Suc k \<le> j" using Suc.hyps(2) by simp_all
    then obtain k' where "wait_clear st m (Suc k) = Some k'" "Suc k < k'" using Suc.hyps(1) Suc.prems(1) by blast
    then show ?case by (subst wait_clear.simps) auto
  qed
qed

lemma uart_write_byte_spec:
  assumes "\<forall>k. \<exists>j \<ge> k. uart_stat s j AND UART_TX_FULL = 0"
  shows "\<exists>k. uart_write_byte b s = Some (s\<lparr>uart_k := k, UART_TXD := UART_TXD s @ [b]\<rparr>)"
  using wait_clear_ends [of "uart_k s" "uart_stat s" UART_TX_FULL] assms by (auto simp: uart_write_byte_def)

lemma next_index: "unat (i :: u16) < 128 \<Longrightarrow> unat ((i + 1) mod RX_BUFFER_SIZE) = (unat i + 1) mod 128"
  by (simp add: RX_BUFFER_SIZE_def unat_mod unat_word_ariths)

text \<open>A received byte is echoed; it is appended unless 127 bytes are waiting, and then dropped.\<close>

lemma uart_append_byte_spec:
  assumes wf: "uart_wf s"
  shows "\<exists>s'. uart_append_byte b s = Some s' \<and> uart_wf s' \<and> UART_TXD s' = UART_TXD s @ [b] \<and> rx_tail s' = rx_tail s
    \<and> rx_items s' = (if rx_count s < 127 then rx_items s @ [b] else rx_items s)"
proof -
  have w: "length (rx_buffer s) = 128" "unat (rx_head s) < 128" "unat (rx_tail s) < 128" "appending s"
      "\<forall>k. \<exists>j \<ge> k. uart_stat s j AND UART_TX_FULL = 0" using wf by (auto simp: uart_wf_def)
  let ?n = "(rx_head s + 1) mod RX_BUFFER_SIZE"
  have full: "?n \<noteq> rx_tail s \<longleftrightarrow> rx_count s < 127"
  proof -
    have "?n = rx_tail s \<longleftrightarrow> (unat (rx_head s) + 1) mod 128 = unat (rx_tail s)"
      using next_index [OF w(2)] by (simp add: word_unat_eq_iff)
    then show ?thesis using w(2,3) by (auto simp: rx_count_def mod_if)
  qed
  show ?thesis
  proof (cases "rx_count s < 127")
    case True
    define s1 where "s1 = s\<lparr>rx_buffer := (rx_buffer s)[unat (rx_head s) := b], rx_head := ?n\<rparr>"
    have w1: "\<forall>k. \<exists>j \<ge> k. uart_stat s1 j AND UART_TX_FULL = 0" using w(5) by (simp add: s1_def)
    obtain k where "uart_append_byte b s = Some (s1\<lparr>uart_k := k, UART_TXD := UART_TXD s @ [b]\<rparr>)"
      using uart_write_byte_spec [OF w1, of b] full True w(1,2) by (auto simp: uart_append_byte_def Let_def s1_def)
    moreover have cnt: "rx_count s1 = Suc (rx_count s)"
      using True w(2,3) next_index [OF w(2)] by (auto simp: rx_count_def s1_def mod_if split: if_splits)
    have hd: "(unat (rx_tail s) + rx_count s) mod 128 = unat (rx_head s)" using w(2,3) by (auto simp: rx_count_def mod_if)
    have other: "unat (rx_head s) \<noteq> (unat (rx_tail s) + i) mod 128" if "i < rx_count s" for i
      using that hd rx_count_less [of s] w(2,3) by (auto simp: mod_if split: if_splits)
    have "rx_items (s1\<lparr>uart_k := k, UART_TXD := UART_TXD s @ [b]\<rparr>) = rx_items s @ [b]"
      using cnt hd other w(1,2) by (auto simp: rx_items_def s1_def rx_count_def)
    moreover have "uart_wf (s1\<lparr>uart_k := k, UART_TXD := UART_TXD s @ [b]\<rparr>)"
      using w next_index [OF w(2)] by (simp add: uart_wf_def s1_def)
    ultimately show ?thesis using True by (simp add: s1_def)
  next
    case False
    obtain k where "uart_append_byte b s = Some (s\<lparr>uart_k := k, UART_TXD := UART_TXD s @ [b]\<rparr>)"
      using uart_write_byte_spec [OF w(5), of b] full False by (auto simp: uart_append_byte_def Let_def)
    then show ?thesis using False w by (simp add: uart_wf_def rx_items_def rx_count_def)
  qed
qed

lemma uart_read_byte_spec:
  assumes wf: "uart_wf s" and items: "rx_items s = b # bs"
  shows "\<exists>s'. uart_read_byte ar s = Some (b, ar, s') \<and> uart_wf s' \<and> rx_items s' = bs \<and> UART_TXD s' = UART_TXD s"
proof -
  have w: "length (rx_buffer s) = 128" "unat (rx_head s) < 128" "unat (rx_tail s) < 128" "appending s"
      "\<forall>k. \<exists>j \<ge> k. uart_stat s j AND UART_TX_FULL = 0" using wf by (auto simp: uart_wf_def)
  define s' where "s' = s\<lparr>rx_tail := (rx_tail s + 1) mod RX_BUFFER_SIZE\<rparr>"
  have c: "rx_count s = Suc (length bs)" using arg_cong [OF items, of length] by simp
  then have ne: "rx_tail s \<noteq> rx_head s" by (auto simp: rx_count_def)
  have b: "b = rx_buffer s ! unat (rx_tail s)"
    using arg_cong [OF items, of hd] c w(3) by (simp add: rx_items_def hd_map upt_rec)
  have "rx_count s' = length bs"
    using c w(2,3) next_index [OF w(3)] by (auto simp: rx_count_def s'_def mod_if split: if_splits)
  moreover have "rx_buffer s' ! ((unat (rx_tail s') + i) mod 128) = bs ! i" if "i < length bs" for i
  proof -
    have "bs ! i = rx_items s ! Suc i" using items by simp
    also have "\<dots> = rx_buffer s ! ((unat (rx_tail s) + Suc i) mod 128)" using that c by (simp add: rx_items_def del: upt_Suc)
    finally show ?thesis using next_index [OF w(3)] by (simp add: s'_def mod_simps)
  qed
  ultimately have "rx_items s' = bs" by (auto intro: nth_equalityI simp: rx_items_def)
  moreover have "uart_wf s'" using w next_index [OF w(3)] by (simp add: uart_wf_def s'_def)
  moreover have "uart_read_byte ar s = Some (b, ar, s')"
    using ne b w by (subst uart_read_byte.simps) (simp add: s'_def Let_def)
  ultimately show ?thesis by (auto simp: s'_def)
qed

interpretation uart: bounded_fifo uart_wf rx_items "\<lambda>_. 127" uart_append_byte
    "\<lambda>s. map_option (\<lambda>(b, _, s'). (b, s')) (uart_read_byte [] s)"
proof
  show "length (rx_items s) \<le> 127" if "uart_wf s" for s using rx_count_less [of s] by simp
  show "\<exists>s'. uart_append_byte a s = Some s' \<and> uart_wf s' \<and> rx_items s' = rx_items s @ [a] \<and> (127 :: nat) = 127"
    if "uart_wf s" "length (rx_items s) < 127" for s a using uart_append_byte_spec [OF that(1), of a] that(2) by auto
  show "\<exists>s'. map_option (\<lambda>(b, _, s'). (b, s')) (uart_read_byte [] s) = Some (a, s') \<and> uart_wf s' \<and> rx_items s' = as \<and> (127 :: nat) = 127"
    if "uart_wf s" "rx_items s = a # as" for s a as using uart_read_byte_spec [OF that, of "[]"] by auto
qed

text \<open>A reader of an empty ring gets the first byte that arrives.\<close>

lemma uart_read_byte_waits:
  assumes "uart_wf s" and "rx_items s = []"
  shows "uart_read_byte [] s = None"
    and "\<exists>s'. uart_read_byte (b # bs) s = Some (b, bs, s') \<and> uart_wf s' \<and> rx_items s' = [] \<and> UART_TXD s' = UART_TXD s @ [b]"
proof -
  have "rx_count s = 0" using arg_cong [OF assms(2), of length] by simp
  moreover have "unat (rx_head s) < 128" "unat (rx_tail s) < 128" using assms(1) by (auto simp: uart_wf_def)
  ultimately have e: "rx_tail s = rx_head s" by (auto simp: rx_count_def mod_if word_unat_eq_iff split: if_splits)
  then show "uart_read_byte [] s = None" by (subst uart_read_byte.simps) simp
  obtain s1 where s1: "uart_append_byte b s = Some s1" "uart_wf s1" "UART_TXD s1 = UART_TXD s @ [b]" "rx_items s1 = [b]"
    using uart_append_byte_spec [OF assms(1), of b] assms(2) \<open>rx_count s = 0\<close> by auto
  define s2 where "s2 = s1\<lparr>UART_STAT_written := UART_STAT_written s1 @ [UART_RX_PND]\<rparr>"
  have "uart_receive (\<lambda>_ _. None) b s = Some s2" using s1(1) assms(1) by (simp add: uart_receive_def s2_def uart_wf_def)
  moreover have s2: "uart_wf s2" "rx_items s2 = [b]" "UART_TXD s2 = UART_TXD s @ [b]"
    using s1 by (simp_all add: s2_def uart_wf_def rx_items_def rx_count_def)
  moreover obtain s' where "uart_read_byte bs s2 = Some (b, bs, s')" "uart_wf s'" "rx_items s' = []" "UART_TXD s' = UART_TXD s2"
    using uart_read_byte_spec [OF s2(1,2), of bs] by blast
  ultimately show "\<exists>s'. uart_read_byte (b # bs) s = Some (b, bs, s') \<and> uart_wf s' \<and> rx_items s' = [] \<and> UART_TXD s' = UART_TXD s @ [b]"
    using e by (subst uart_read_byte.simps) simp
qed

section \<open>Batches\<close>

text \<open>The receive interrupts of a sequence of bytes.\<close>

fun uart_receive_all :: "u8 list \<Rightarrow> uart_state \<Rightarrow> uart_state option" where
  "uart_receive_all [] s = Some s"
| "uart_receive_all (b # bs) s = do { s1 \<leftarrow> uart_receive (\<lambda>_ _. None) b s; uart_receive_all bs s1 }"

lemma uart_receive_spec:
  assumes wf: "uart_wf s"
  shows "\<exists>s'. uart_receive other b s = Some s' \<and> uart_wf s' \<and> UART_TXD s' = UART_TXD s @ [b]
    \<and> rx_items s' = take 127 (rx_items s @ [b])"
proof -
  obtain s1 where s1: "uart_append_byte b s = Some s1" "uart_wf s1" "UART_TXD s1 = UART_TXD s @ [b]"
      "rx_items s1 = (if rx_count s < 127 then rx_items s @ [b] else rx_items s)"
    using uart_append_byte_spec [OF wf, of b] by blast
  define s2 where "s2 = s1\<lparr>UART_STAT_written := UART_STAT_written s1 @ [UART_RX_PND]\<rparr>"
  have "uart_receive other b s = Some s2" using s1(1) wf by (simp add: uart_receive_def s2_def uart_wf_def)
  moreover have "uart_wf s2" "UART_TXD s2 = UART_TXD s @ [b]" "rx_items s2 = rx_items s1"
    using s1(2,3) by (simp_all add: s2_def uart_wf_def rx_items_def rx_count_def)
  ultimately show ?thesis using s1(4) rx_count_less [of s] by auto
qed

lemma uart_receive_all_spec:
  "uart_wf s \<Longrightarrow> \<exists>s'. uart_receive_all bs s = Some s' \<and> uart_wf s' \<and> UART_TXD s' = UART_TXD s @ bs
     \<and> rx_items s' = take 127 (rx_items s @ bs)"
proof (induction bs arbitrary: s)
  case Nil
  then show ?case using rx_count_less [of s] by simp
next
  case (Cons b bs)
  obtain s1 where s1: "uart_receive (\<lambda>_ _. None) b s = Some s1" "uart_wf s1" "UART_TXD s1 = UART_TXD s @ [b]"
      "rx_items s1 = take 127 (rx_items s @ [b])" using uart_receive_spec [OF Cons.prems] by blast
  have "take 127 (rx_items s1 @ bs) = take 127 (rx_items s @ b # bs)"
    using s1(4) by (cases "rx_count s < 127") (auto simp: min_def)
  then show ?case using Cons.IH [OF s1(2)] s1(1,3) by auto
qed

lemma uart_read_spec:
  "uart_wf s \<Longrightarrow> n \<le> rx_count s \<Longrightarrow>
   \<exists>s'. uart_read n ar s = Some (take n (rx_items s), ar, s') \<and> uart_wf s' \<and> rx_items s' = drop n (rx_items s)"
proof (induction n arbitrary: s)
  case (Suc n)
  then obtain b bs where i: "rx_items s = b # bs" by (cases "rx_items s") (auto simp flip: length_rx_items)
  obtain s1 where s1: "uart_read_byte ar s = Some (b, ar, s1)" "uart_wf s1" "rx_items s1 = bs"
    using uart_read_byte_spec [OF Suc.prems(1) i, of ar] by blast
  have "n \<le> rx_count s1" using Suc.prems(2) i s1(3) by (simp flip: length_rx_items)
  then show ?case using Suc.IH [OF s1(2)] s1 i by auto
qed auto

end
