(* ===== verification/Ethos.thy ===== *)
theory Ethos
  imports Prelude
begin

text \<open>
  The host side of the serial line, \<open>dist/tools/ethos/ethos.c\<close>: frames between delimiters, with an
  escape character for delimiters in the data and for the frame type. The operating system's
  \<open>write\<close> is a parameter: \<open>os k n\<close> is the result of the \<open>k\<close>-th call when asked for \<open>n\<close> bytes.
\<close>

section \<open>Definitions\<close>

definition MTU :: nat where "MTU = 9000"
definition SERIAL_BUFFER_SIZE :: nat where "SERIAL_BUFFER_SIZE = 64"
definition LINE_FRAME_DELIMITER :: u8 where "LINE_FRAME_DELIMITER = 0x7E"
definition LINE_ESC_CHAR :: u8 where "LINE_ESC_CHAR = 0x7D"
definition LINE_FRAME_TYPE_DATA :: u8 where "LINE_FRAME_TYPE_DATA = 0x00"
definition LINE_FRAME_TYPE_TEXT :: u8 where "LINE_FRAME_TYPE_TEXT = 0x01"
definition LINE_FRAME_TYPE_HELLO :: u8 where "LINE_FRAME_TYPE_HELLO = 0x02"
definition LINE_FRAME_TYPE_HELLO_REPLY :: u8 where "LINE_FRAME_TYPE_HELLO_REPLY = 0x03"

datatype line_state_t = WAIT_FRAMESTART | IN_FRAME | IN_ESCAPE

text \<open>The first \<open>framebytes\<close> bytes of the frame buffer are \<open>frame\<close>.\<close>

record serial_t =
  line_state :: line_state_t
  frametype :: u8
  frame :: "u8 list"
  local_l2_addr :: "u8 list"
  remote_l2_addr :: "u8 list"

definition serial_zero :: serial_t where
  "serial_zero = \<lparr>line_state = WAIT_FRAMESTART, frametype = 0, frame = [],
     local_l2_addr = replicate 6 0, remote_l2_addr = replicate 6 0\<rparr>"

text \<open>What was written to a file so far, and how many calls of \<open>write\<close> there were.\<close>

type_synonym channel = "u8 list \<times> nat"

text \<open>
  \<open>checked_write\<close> repeats the call until enough bytes were written, but always from the start of
  the buffer.
\<close>

function checked_write :: "(nat \<Rightarrow> nat \<Rightarrow> int) \<Rightarrow> u8 list \<Rightarrow> nat \<Rightarrow> channel \<Rightarrow> channel" where
  "checked_write os buffer nbyte (out, k) =
     (if nbyte > 0 then
        let res = os k nbyte in
        if res \<le> 0 then (out, Suc k)
        else checked_write os buffer (nbyte - nat res) (out @ take (nat res) buffer, Suc k)
      else (out, k))"
  by pat_completeness auto

termination
  by (relation "measure (\<lambda>(os, buffer, nbyte, c). nbyte)") auto

text \<open>A frame longer than its buffer is a write out of bounds.\<close>

definition handle_char :: "u8 \<Rightarrow> serial_t \<Rightarrow> serial_t option" where
  "handle_char c serial = (if length (frame serial) < MTU then Some (serial\<lparr>frame := frame serial @ [c]\<rparr>) else None)"

definition serial_handle_byte :: "u8 \<Rightarrow> serial_t \<Rightarrow> (nat \<times> serial_t) option" where
  "serial_handle_byte c serial =
     (case line_state serial of
        WAIT_FRAMESTART \<Rightarrow>
          Some (0, if c = LINE_FRAME_DELIMITER then serial\<lparr>line_state := IN_FRAME, frametype := 0, frame := []\<rparr> else serial)
      | IN_FRAME \<Rightarrow>
          if c = LINE_ESC_CHAR then Some (0, serial\<lparr>line_state := IN_ESCAPE\<rparr>)
          else if c = LINE_FRAME_DELIMITER then
            if length (frame serial) = 0 then Some (0, serial)
            else Some (length (frame serial), serial\<lparr>line_state := WAIT_FRAMESTART\<rparr>)
          else do { s1 \<leftarrow> handle_char c serial; Some (0, s1) }
      | IN_ESCAPE \<Rightarrow> do {
          s1 \<leftarrow>
            (if c = LINE_FRAME_DELIMITER XOR 0x20 then handle_char LINE_FRAME_DELIMITER serial
             else if c = LINE_ESC_CHAR XOR 0x20 then handle_char LINE_ESC_CHAR serial
             else if c = LINE_FRAME_TYPE_TEXT XOR 0x20 then Some (serial\<lparr>frametype := LINE_FRAME_TYPE_TEXT\<rparr>)
             else if c = LINE_FRAME_TYPE_HELLO XOR 0x20 then Some (serial\<lparr>frametype := LINE_FRAME_TYPE_HELLO\<rparr>)
             else if c = LINE_FRAME_TYPE_HELLO_REPLY XOR 0x20 then Some (serial\<lparr>frametype := LINE_FRAME_TYPE_HELLO_REPLY\<rparr>)
             else Some serial);
          Some (0, s1\<lparr>line_state := IN_FRAME\<rparr>)
        })"

text \<open>The output buffer is written whenever it is full, and at the end.\<close>

definition put_out :: "(nat \<Rightarrow> nat \<Rightarrow> int) \<Rightarrow> u8 \<Rightarrow> u8 list \<times> channel \<Rightarrow> u8 list \<times> channel" where
  "put_out os c = (\<lambda>(out, ch).
     let out = out @ [c]
     in if length out \<ge> SERIAL_BUFFER_SIZE then ([], checked_write os out (length out) ch) else (out, ch))"

fun write_escaped_loop :: "(nat \<Rightarrow> nat \<Rightarrow> int) \<Rightarrow> u8 list \<Rightarrow> u8 list \<times> channel \<Rightarrow> u8 list \<times> channel" where
  "write_escaped_loop os [] st = st"
| "write_escaped_loop os (c # cs) st =
     (let (c', st1) =
        (if c = LINE_FRAME_DELIMITER \<or> c = LINE_ESC_CHAR then (c XOR 0x20, put_out os LINE_ESC_CHAR st) else (c, st))
      in write_escaped_loop os cs (put_out os c' st1))"

definition write_escaped :: "(nat \<Rightarrow> nat \<Rightarrow> int) \<Rightarrow> u8 list \<Rightarrow> channel \<Rightarrow> channel" where
  "write_escaped os buf ch =
     (let (out, ch1) = write_escaped_loop os buf ([], ch)
      in if out \<noteq> [] then checked_write os out (length out) ch1 else ch1)"

definition send_hello :: "(nat \<Rightarrow> nat \<Rightarrow> int) \<Rightarrow> serial_t \<Rightarrow> u8 \<Rightarrow> channel \<Rightarrow> channel" where
  "send_hello os serial typ ch =
     (let head = [LINE_FRAME_DELIMITER, LINE_ESC_CHAR, typ XOR 0x20];
          ch1 = checked_write os head 3 ch;
          ch2 = checked_write os (local_l2_addr serial) 6 ch1
      in checked_write os [LINE_FRAME_DELIMITER] 1 ch2)"

text \<open>The files of \<open>main\<close>: the serial line, the network device and the terminal; each has its own \<open>write\<close>.\<close>

record ethos =
  serial :: serial_t
  serial_out :: channel
  tap_out :: channel
  std_out :: channel

definition handle_frame :: "(nat \<Rightarrow> nat \<Rightarrow> int) \<Rightarrow> ethos \<Rightarrow> ethos" where
  "handle_frame os e =
     (let s = serial e; n = length (frame s) in
      if frametype s = LINE_FRAME_TYPE_DATA then e\<lparr>tap_out := checked_write os (frame s) n (tap_out e)\<rparr>
      else if frametype s = LINE_FRAME_TYPE_TEXT then e\<lparr>std_out := checked_write os (frame s) n (std_out e)\<rparr>
      else if frametype s = LINE_FRAME_TYPE_HELLO \<or> frametype s = LINE_FRAME_TYPE_HELLO_REPLY then
        if n = 6 then
          let e1 = e\<lparr>serial := s\<lparr>remote_l2_addr := frame s\<rparr>\<rparr>
          in if frametype s = LINE_FRAME_TYPE_HELLO
             then e1\<lparr>serial_out := send_hello os (serial e1) LINE_FRAME_TYPE_HELLO_REPLY (serial_out e1)\<rparr>
             else e1
        else e
      else e)"

fun on_serial :: "(nat \<Rightarrow> nat \<Rightarrow> int) \<Rightarrow> u8 list \<Rightarrow> ethos \<Rightarrow> ethos option" where
  "on_serial os [] e = Some e"
| "on_serial os (c # cs) e = do {
     (res, s1) \<leftarrow> serial_handle_byte c (serial e);
     let e1 = e\<lparr>serial := s1\<rparr>;
     on_serial os cs (if res \<noteq> 0 then (handle_frame os e1)\<lparr>serial := serial_zero\<rparr> else e1)
   }"

definition on_tap :: "(nat \<Rightarrow> nat \<Rightarrow> int) \<Rightarrow> u8 list \<Rightarrow> ethos \<Rightarrow> ethos" where
  "on_tap os inbuf e =
     (let ch1 = checked_write os [LINE_FRAME_DELIMITER] 1 (serial_out e);
          ch2 = write_escaped os inbuf ch1
      in e\<lparr>serial_out := checked_write os [LINE_FRAME_DELIMITER] 1 ch2\<rparr>)"

definition on_stdin :: "(nat \<Rightarrow> nat \<Rightarrow> int) \<Rightarrow> u8 list \<Rightarrow> ethos \<Rightarrow> ethos" where
  "on_stdin os inbuf e =
     (let head = [LINE_FRAME_DELIMITER, LINE_ESC_CHAR, LINE_FRAME_TYPE_TEXT XOR 0x20];
          ch1 = checked_write os head 3 (serial_out e);
          ch2 = write_escaped os inbuf ch1
      in e\<lparr>serial_out := checked_write os [LINE_FRAME_DELIMITER] 1 ch2\<rparr>)"

declare checked_write.simps [simp del]

section \<open>Writing\<close>

text \<open>
  \<open>write\<close> may take fewer bytes than it is asked for. \<open>complete_writes os k k'\<close>: the calls number \<open>k\<close> up to \<open>k'\<close> happened to
  take all of them.
\<close>

definition complete_writes :: "(nat \<Rightarrow> nat \<Rightarrow> int) \<Rightarrow> nat \<Rightarrow> nat \<Rightarrow> bool" where
  "complete_writes os k k' \<longleftrightarrow> (\<forall>i n. k \<le> i \<and> i < k' \<longrightarrow> os i n = int n)"

lemma complete_writes_split:
  "k \<le> k1 \<Longrightarrow> k1 \<le> k2 \<Longrightarrow> complete_writes os k k2 \<longleftrightarrow> complete_writes os k k1 \<and> complete_writes os k1 k2"
  unfolding complete_writes_def by (meson le_trans less_le_trans not_le)

lemma checked_write_0 [simp]: "checked_write os buffer 0 ch = ch"
  by (cases ch) (simp add: checked_write.simps)

lemma checked_write_mono: "snd ch \<le> snd (checked_write os buffer nbyte ch)"
proof (induction os buffer nbyte ch rule: checked_write.induct)
  case (1 os buffer nbyte out k)
  then show ?case by (subst checked_write.simps) (fastforce simp: Let_def)
qed

lemma checked_write_full:
  "\<exists>out' k'. checked_write os buffer (length buffer) (out, k) = (out', k') \<and> k \<le> k' \<and> (complete_writes os k k' \<longrightarrow> out' = out @ buffer)"
proof (cases "buffer = []")
  case False
  obtain out' k' where r: "checked_write os buffer (length buffer) (out, k) = (out', k')" by fastforce
  have "snd (checked_write os buffer (length buffer - nat (os k (length buffer))) (out @ take (nat (os k (length buffer))) buffer, Suc k)) \<ge> Suc k"
    using checked_write_mono [of "(out @ take (nat (os k (length buffer))) buffer, Suc k)" os buffer] by simp
  then have lt: "k < k'" using r False by (subst (asm) checked_write.simps) (auto simp: Let_def split: if_splits)
  have "out' = out @ buffer" if "complete_writes os k k'"
  proof -
    have "os k (length buffer) = int (length buffer)" using that lt by (simp add: complete_writes_def)
    then show ?thesis using r False by (subst (asm) checked_write.simps) (simp add: Let_def)
  qed
  then show ?thesis using r lt by auto
qed simp

text \<open>After a short write the code starts over at the beginning of the buffer.\<close>

lemma checked_write_short:
  assumes "os k n = int m" and "0 < m" and "m < n" and "os (Suc k) (n - m) = int (n - m)"
  shows "checked_write os buffer n (out, k) = (out @ take m buffer @ take (n - m) buffer, Suc (Suc k))"
proof -
  have "nat (int n - int m) = n - m" by simp
  then show ?thesis using assms by (subst checked_write.simps, subst checked_write.simps) (simp add: Let_def)
qed

definition escaped :: "u8 list \<Rightarrow> u8 list" where
  "escaped bs = concat (map (\<lambda>c. if c = LINE_FRAME_DELIMITER \<or> c = LINE_ESC_CHAR then [LINE_ESC_CHAR, c XOR 0x20] else [c]) bs)"

lemma put_out_spec:
  "\<exists>ob' out' k'. put_out os c (ob, (out, k)) = (ob', (out', k')) \<and> k \<le> k'
    \<and> (complete_writes os k k' \<longrightarrow> out' @ ob' = out @ ob @ [c])"
  using checked_write_full [of os "ob @ [c]" out k] by (auto simp: put_out_def Let_def)

lemma write_escaped_loop_spec:
  "\<exists>ob' out' k'. write_escaped_loop os bs (ob, (out, k)) = (ob', (out', k')) \<and> k \<le> k'
    \<and> (complete_writes os k k' \<longrightarrow> out' @ ob' = out @ ob @ escaped bs)"
proof (induction bs arbitrary: ob out k)
  case (Cons c cs)
  define esc where "esc = (c = LINE_FRAME_DELIMITER \<or> c = LINE_ESC_CHAR)"
  define c' where "c' = (if esc then c XOR 0x20 else c)"
  obtain ob1 out1 k1 where p1: "(if esc then put_out os LINE_ESC_CHAR (ob, (out, k)) else (ob, (out, k))) = (ob1, (out1, k1))" "k \<le> k1"
      "complete_writes os k k1 \<longrightarrow> out1 @ ob1 = out @ ob @ (if esc then [LINE_ESC_CHAR] else [])"
    using put_out_spec [of os LINE_ESC_CHAR ob out k] by (cases esc) auto
  obtain ob2 out2 k2 where p2: "put_out os c' (ob1, (out1, k1)) = (ob2, (out2, k2))" "k1 \<le> k2"
      "complete_writes os k1 k2 \<longrightarrow> out2 @ ob2 = out1 @ ob1 @ [c']"
    using put_out_spec by blast
  obtain ob3 out3 k3 where p3: "write_escaped_loop os cs (ob2, (out2, k2)) = (ob3, (out3, k3))" "k2 \<le> k3"
      "complete_writes os k2 k3 \<longrightarrow> out3 @ ob3 = out2 @ ob2 @ escaped cs"
    using Cons.IH by blast
  have "write_escaped_loop os (c # cs) (ob, (out, k)) = (ob3, (out3, k3))"
    using p1(1) p2(1) p3(1) by (cases esc) (simp_all add: esc_def [symmetric] c'_def Let_def)
  moreover have "out3 @ ob3 = out @ ob @ escaped (c # cs)" if "complete_writes os k k3"
  proof -
    have "complete_writes os k k1" "complete_writes os k1 k2" "complete_writes os k2 k3"
      using that p1(2) p2(2) p3(2) complete_writes_split [of k k1 k3 os] complete_writes_split [of k1 k2 k3 os] by auto
    then have "out3 @ ob3 = out @ ob @ (if esc then [LINE_ESC_CHAR] else []) @ c' # escaped cs" using p1(3) p2(3) p3(3) by auto
    then show ?thesis by (simp add: escaped_def esc_def [symmetric] c'_def)
  qed
  ultimately show ?case using p1(2) p2(2) p3(2) by auto
qed (simp add: escaped_def)

lemma write_escaped_spec:
  "\<exists>out' k'. write_escaped os bs (out, k) = (out', k') \<and> k \<le> k' \<and> (complete_writes os k k' \<longrightarrow> out' = out @ escaped bs)"
proof -
  obtain ob1 out1 k1 where l: "write_escaped_loop os bs ([], (out, k)) = (ob1, (out1, k1))" "k \<le> k1"
      "complete_writes os k k1 \<longrightarrow> out1 @ ob1 = out @ escaped bs"
    using write_escaped_loop_spec [of os bs "[]" out k] by auto
  obtain out' k' where w: "checked_write os ob1 (length ob1) (out1, k1) = (out', k')" "k1 \<le> k'" "complete_writes os k1 k' \<longrightarrow> out' = out1 @ ob1"
    using checked_write_full by blast
  have "write_escaped os bs (out, k) = (out', k')" using l(1) w(1) by (cases "ob1 = []") (simp_all add: write_escaped_def)
  then show ?thesis using l(2,3) w(2,3) complete_writes_split [of k k1 k' os] by auto
qed

lemma on_tap_frame:
  assumes "serial_out e = (out, k)" and "complete_writes os k (snd (serial_out (on_tap os bs e)))"
  shows "fst (serial_out (on_tap os bs e)) = out @ LINE_FRAME_DELIMITER # escaped bs @ [LINE_FRAME_DELIMITER]"
proof -
  let ?d = "[LINE_FRAME_DELIMITER]"
  obtain o1 k1 where w1: "checked_write os ?d (length ?d) (out, k) = (o1, k1)" "k \<le> k1" "complete_writes os k k1 \<longrightarrow> o1 = out @ ?d"
    using checked_write_full by blast
  obtain o2 k2 where w2: "write_escaped os bs (o1, k1) = (o2, k2)" "k1 \<le> k2" "complete_writes os k1 k2 \<longrightarrow> o2 = o1 @ escaped bs"
    using write_escaped_spec by blast
  obtain o3 k3 where w3: "checked_write os ?d (length ?d) (o2, k2) = (o3, k3)" "k2 \<le> k3" "complete_writes os k2 k3 \<longrightarrow> o3 = o2 @ ?d"
    using checked_write_full by blast
  have r: "serial_out (on_tap os bs e) = (o3, k3)" using assms(1) w1(1) w2(1) w3(1) by (simp add: on_tap_def Let_def)
  then have "complete_writes os k k1" "complete_writes os k1 k2" "complete_writes os k2 k3"
    using assms(2) w1(2) w2(2) w3(2) complete_writes_split [of k k1 k3 os] complete_writes_split [of k1 k2 k3 os] by auto
  then show ?thesis using r w1(3) w2(3) w3(3) by simp
qed

text \<open>A packet that fits the output buffer is written by one call; when that call is cut short, its beginning goes out twice.\<close>

lemma write_escaped_loop_small:
  "length ob + length (escaped bs) < SERIAL_BUFFER_SIZE \<Longrightarrow> write_escaped_loop os bs (ob, ch) = (ob @ escaped bs, ch)"
  by (induction bs arbitrary: ob) (auto simp: escaped_def put_out_def Let_def)

lemma on_tap_short:
  assumes "serial_out e = (out, k)" and "length (escaped bs) < SERIAL_BUFFER_SIZE"
    and "os k 1 = 1" and "os (Suc k) (length (escaped bs)) = int m" and "0 < m" and "m < length (escaped bs)"
    and "os (k + 2) (length (escaped bs) - m) = int (length (escaped bs) - m)" and "os (k + 3) 1 = 1"
  shows "serial_out (on_tap os bs e) = (out @ LINE_FRAME_DELIMITER # take m (escaped bs)
    @ take (length (escaped bs) - m) (escaped bs) @ [LINE_FRAME_DELIMITER], k + 4)"
proof -
  have one: "checked_write os [LINE_FRAME_DELIMITER] 1 (x, i) = (x @ [LINE_FRAME_DELIMITER], Suc i)" if "os i 1 = 1" for x i
    using that by (simp add: checked_write.simps)
  have "write_escaped os bs (x, Suc k) = (x @ take m (escaped bs) @ take (length (escaped bs) - m) (escaped bs), k + 3)" for x
    using write_escaped_loop_small [of "[]" bs os] assms(2,6) checked_write_short [of os "Suc k" "length (escaped bs)" m "escaped bs" x] assms(4,5,7)
    by (auto simp: write_escaped_def)
  then show ?thesis using assms(1) one [OF assms(3)] one [OF assms(8)] by (simp add: on_tap_def Let_def)
qed

section \<open>Receiving\<close>

lemma escape_consts:
  "LINE_ESC_CHAR \<noteq> LINE_FRAME_DELIMITER" "LINE_FRAME_DELIMITER XOR 0x20 \<noteq> LINE_ESC_CHAR XOR 0x20"
  by (simp_all add: LINE_ESC_CHAR_def LINE_FRAME_DELIMITER_def)

lemma on_serial_escaped:
  assumes "line_state (serial e) = IN_FRAME" and "length (frame (serial e)) + length bs \<le> MTU"
  shows "on_serial os (escaped bs @ cs) e = on_serial os cs (e\<lparr>serial := (serial e)\<lparr>frame := frame (serial e) @ bs\<rparr>\<rparr>)"
  using assms
proof (induction bs arbitrary: e)
  case (Cons c bs)
  define e1 where "e1 = e\<lparr>serial := (serial e)\<lparr>frame := frame (serial e) @ [c]\<rparr>\<rparr>"
  have h: "handle_char c (serial e) = Some (serial e1)" using Cons.prems(2) by (simp add: handle_char_def e1_def)
  have IH: "on_serial os (escaped bs @ cs) e1 = on_serial os cs (e\<lparr>serial := (serial e)\<lparr>frame := frame (serial e) @ c # bs\<rparr>\<rparr>)"
    using Cons.IH [of e1] Cons.prems by (simp add: e1_def)
  show ?case
  proof (cases "c = LINE_FRAME_DELIMITER \<or> c = LINE_ESC_CHAR")
    case True
    define s2 where "s2 = (serial e)\<lparr>line_state := IN_ESCAPE\<rparr>"
    have esc: "serial_handle_byte LINE_ESC_CHAR (serial e) = Some (0, s2)"
      using Cons.prems(1) by (simp add: serial_handle_byte_def s2_def)
    have "s2\<lparr>frame := f, line_state := IN_FRAME\<rparr> = (serial e)\<lparr>frame := f\<rparr>" for f
      using Cons.prems(1) by (cases "serial e") (simp add: s2_def)
    then have returns: "(s2\<lparr>frame := frame s2 @ [c]\<rparr>)\<lparr>line_state := IN_FRAME\<rparr> = serial e1" by (simp add: e1_def s2_def)
    have hc: "handle_char c s2 = Some (s2\<lparr>frame := frame s2 @ [c]\<rparr>)" using Cons.prems(2) by (simp add: handle_char_def s2_def)
    have st: "line_state s2 = IN_ESCAPE" by (simp add: s2_def)
    have unesc: "serial_handle_byte (c XOR 0x20) s2 = Some (0, serial e1)"
    proof (cases "c = LINE_FRAME_DELIMITER")
      case True
      then show ?thesis using hc st returns by (simp add: serial_handle_byte_def)
    next
      case False
      then have "c = LINE_ESC_CHAR" using \<open>c = LINE_FRAME_DELIMITER \<or> c = LINE_ESC_CHAR\<close> by simp
      then show ?thesis using hc st returns escape_consts(2) by (simp add: serial_handle_byte_def)
    qed
    have "e\<lparr>serial := s2, serial := serial e1\<rparr> = e1" by (simp add: e1_def)
    then have "on_serial os (LINE_ESC_CHAR # (c XOR 0x20) # escaped bs @ cs) e = on_serial os (escaped bs @ cs) e1"
      using esc unesc by simp
    then show ?thesis using True IH by (simp add: escaped_def)
  next
    case False
    then have "on_serial os (c # escaped bs @ cs) e = on_serial os (escaped bs @ cs) e1"
      using Cons.prems(1) h by (simp add: serial_handle_byte_def e1_def)
    then show ?thesis using False IH by (simp add: escaped_def)
  qed
qed (simp add: escaped_def)

text \<open>A data frame received between frames goes to the network device, whole.\<close>

lemma on_serial_data_frame:
  assumes "os k (length bs) = int (length bs)" and "line_state (serial e) = WAIT_FRAMESTART" and "bs \<noteq> []" and "length bs \<le> MTU"
    and "tap_out e = (out, k)"
  shows "on_serial os (LINE_FRAME_DELIMITER # escaped bs @ [LINE_FRAME_DELIMITER]) e
    = Some (e\<lparr>serial := serial_zero, tap_out := (out @ bs, Suc k)\<rparr>)"
proof -
  define e1 where "e1 = e\<lparr>serial := (serial e)\<lparr>line_state := IN_FRAME, frametype := 0, frame := []\<rparr>\<rparr>"
  have "on_serial os (LINE_FRAME_DELIMITER # escaped bs @ [LINE_FRAME_DELIMITER]) e = on_serial os (escaped bs @ [LINE_FRAME_DELIMITER]) e1"
    using assms(2) by (simp add: serial_handle_byte_def e1_def)
  also have "\<dots> = on_serial os [LINE_FRAME_DELIMITER] (e1\<lparr>serial := (serial e1)\<lparr>frame := bs\<rparr>\<rparr>)"
    using on_serial_escaped [of e1 bs os "[LINE_FRAME_DELIMITER]"] assms(4) by (simp add: e1_def)
  finally have f: "on_serial os (LINE_FRAME_DELIMITER # escaped bs @ [LINE_FRAME_DELIMITER]) e
      = on_serial os [LINE_FRAME_DELIMITER] (e1\<lparr>serial := (serial e1)\<lparr>frame := bs\<rparr>\<rparr>)" .
  have "checked_write os bs (length bs) (out, k) = (out @ bs, Suc k)" using assms(1,3) by (simp add: checked_write.simps Let_def)
  then show ?thesis
    unfolding f using assms(3,5) escape_consts(1)
    by (simp add: serial_handle_byte_def handle_frame_def LINE_FRAME_TYPE_DATA_def e1_def Let_def)
qed

end
