(* ===== verification/Gpio.thy ===== *)
theory Gpio
  imports Bitarithm
begin

text \<open>
  The port driver \<open>periph/gpio.c\<close> of the MSP430 ports. A pin is a port number in the upper byte and a
  bit mask in the lower one. The registers of the six ports are memory cells; only ports 1 and 2
  have the interrupt registers, and an interrupt's call-back is a parameter.
\<close>

section \<open>Definitions\<close>

record msp_port =
  IN_reg :: u8
  OD_reg :: u8
  DIR_reg :: u8
  IFG_reg :: u8
  IES_reg :: u8
  IE_reg :: u8
  SEL_reg :: u8

datatype gpio_mode_t = GPIO_IN | GPIO_IN_PD | GPIO_IN_PU | GPIO_OUT | GPIO_OD | GPIO_OD_PU
datatype gpio_flank_t = GPIO_FALLING | GPIO_RISING | GPIO_BOTH

fun flank_mask :: "gpio_flank_t \<Rightarrow> u8" where
  "flank_mask GPIO_FALLING = 0xff"
| "flank_mask GPIO_RISING = 0x00"
| "flank_mask GPIO_BOTH = 0xab"

record gpio_state =
  ports :: "nat \<Rightarrow> msp_port"
  isr_ctx :: "nat \<Rightarrow> (nat \<times> u16) option"

definition PINS_PER_PORT :: nat where "PINS_PER_PORT = 8"

definition GPIO_PIN :: "u16 \<Rightarrow> nat \<Rightarrow> u16" where
  "GPIO_PIN x y = push_bit 8 (x AND 0xff) OR push_bit (y mod 8) 1"

definition port_of :: "u16 \<Rightarrow> nat option" where
  "port_of pn =
     (let p = unat (drop_bit 8 pn)
      in if p = 1 then Some 1 else if p = 2 then Some 2 else if p = 3 then Some 3
         else if p = 4 then Some 4 else if p = 5 then Some 5 else if p = 6 then Some 6 else None)"

definition pin_of :: "u16 \<Rightarrow> u8" where
  "pin_of pn = ucast (pn AND 0xff)"

definition isr_port :: "u16 \<Rightarrow> nat option" where
  "isr_port pn = (let p = port_of pn in if p = Some 1 \<or> p = Some 2 then p else None)"

definition upd_port :: "nat \<Rightarrow> (msp_port \<Rightarrow> msp_port) \<Rightarrow> gpio_state \<Rightarrow> gpio_state" where
  "upd_port p f s = s\<lparr>ports := (ports s)(p := f (ports s p))\<rparr>"

definition gpio_init :: "u16 \<Rightarrow> gpio_mode_t \<Rightarrow> gpio_state \<Rightarrow> int \<times> gpio_state" where
  "gpio_init pn mode s =
     (case port_of pn of
        None \<Rightarrow> (-1, s)
      | Some p \<Rightarrow>
          if mode \<noteq> GPIO_IN \<and> mode \<noteq> GPIO_OUT then (-1, s)
          else if mode = GPIO_OUT then (0, upd_port p (\<lambda>r. r\<lparr>DIR_reg := DIR_reg r OR pin_of pn\<rparr>) s)
          else (0, upd_port p (\<lambda>r. r\<lparr>DIR_reg := DIR_reg r AND NOT (pin_of pn)\<rparr>) s))"

definition gpio_periph_mode :: "u16 \<Rightarrow> bool \<Rightarrow> gpio_state \<Rightarrow> gpio_state" where
  "gpio_periph_mode pn enable s =
     (case (case isr_port pn of Some p \<Rightarrow> Some p | None \<Rightarrow> port_of pn) of
        None \<Rightarrow> s
      | Some p \<Rightarrow>
          upd_port p (\<lambda>r. r\<lparr>SEL_reg := (if enable then SEL_reg r OR pin_of pn else SEL_reg r AND NOT (pin_of pn))\<rparr>) s)"

definition gpio_read :: "u16 \<Rightarrow> gpio_state \<Rightarrow> u8 option" where
  "gpio_read pn s = do {
     p \<leftarrow> port_of pn;
     let r = ports s p;
     Some (if DIR_reg r AND pin_of pn \<noteq> 0 then OD_reg r AND pin_of pn else IN_reg r AND pin_of pn)
   }"

definition gpio_set :: "u16 \<Rightarrow> gpio_state \<Rightarrow> gpio_state option" where
  "gpio_set pn s = do { p \<leftarrow> port_of pn; Some (upd_port p (\<lambda>r. r\<lparr>OD_reg := OD_reg r OR pin_of pn\<rparr>) s) }"

definition gpio_clear :: "u16 \<Rightarrow> gpio_state \<Rightarrow> gpio_state option" where
  "gpio_clear pn s = do { p \<leftarrow> port_of pn; Some (upd_port p (\<lambda>r. r\<lparr>OD_reg := OD_reg r AND NOT (pin_of pn)\<rparr>) s) }"

definition gpio_toggle :: "u16 \<Rightarrow> gpio_state \<Rightarrow> gpio_state option" where
  "gpio_toggle pn s = do { p \<leftarrow> port_of pn; Some (upd_port p (\<lambda>r. r\<lparr>OD_reg := OD_reg r XOR pin_of pn\<rparr>) s) }"

definition gpio_write :: "u16 \<Rightarrow> int \<Rightarrow> gpio_state \<Rightarrow> gpio_state option" where
  "gpio_write pn value s = do {
     p \<leftarrow> port_of pn;
     Some (upd_port p (\<lambda>r. r\<lparr>OD_reg := (if value \<noteq> 0 then OD_reg r OR pin_of pn else OD_reg r AND NOT (pin_of pn))\<rparr>) s)
   }"

text \<open>The context of an interrupt line; \<open>bitarithm_lsb\<close> does not return for an empty mask.\<close>

definition ctx_of :: "u16 \<Rightarrow> nat option" where
  "ctx_of pn = do {
     i \<leftarrow> bitarithm_lsb (ucast (pin_of pn) :: u16);
     Some (if port_of pn = Some 1 then i else i + 8)
   }"

definition gpio_irq_enable :: "u16 \<Rightarrow> gpio_state \<Rightarrow> gpio_state" where
  "gpio_irq_enable pn s =
     (case isr_port pn of None \<Rightarrow> s | Some p \<Rightarrow> upd_port p (\<lambda>r. r\<lparr>IE_reg := IE_reg r OR pin_of pn\<rparr>) s)"

definition gpio_irq_disable :: "u16 \<Rightarrow> gpio_state \<Rightarrow> gpio_state" where
  "gpio_irq_disable pn s =
     (case isr_port pn of None \<Rightarrow> s | Some p \<Rightarrow> upd_port p (\<lambda>r. r\<lparr>IE_reg := IE_reg r AND NOT (pin_of pn)\<rparr>) s)"

definition gpio_init_int ::
    "u16 \<Rightarrow> gpio_mode_t \<Rightarrow> gpio_flank_t \<Rightarrow> nat \<Rightarrow> u16 \<Rightarrow> gpio_state \<Rightarrow> (int \<times> gpio_state) option" where
  "gpio_init_int pn mode flank cb arg s =
     (case isr_port pn of
        None \<Rightarrow> Some (-1, s)
      | Some p \<Rightarrow>
          if flank = GPIO_BOTH then Some (-1, s)
          else
            let s1 = upd_port p (\<lambda>r. r\<lparr>IE_reg := IE_reg r AND NOT (pin_of pn)\<rparr>) s;
                (r, s2) = gpio_init pn mode s1
            in if r < 0 then Some (-1, s2)
               else do {
                 i \<leftarrow> ctx_of pn;
                 let s3 = s2\<lparr>isr_ctx := (isr_ctx s2)(i \<mapsto> (cb, arg))\<rparr>;
                 let s4 = upd_port p (\<lambda>r. r\<lparr>IES_reg := IES_reg r AND NOT (pin_of pn)\<rparr>) s3;
                 let s5 = upd_port p (\<lambda>r. r\<lparr>IES_reg := IES_reg r OR (flank_mask flank AND pin_of pn)\<rparr>) s4;
                 let s6 = upd_port p (\<lambda>r. r\<lparr>IFG_reg := IFG_reg r AND NOT (pin_of pn)\<rparr>) s5;
                 Some (0, gpio_irq_enable pn s6)
               })"

text \<open>The body of the handler for one line; \<open>run\<close> executes a call-back.\<close>

definition isr_line ::
    "(nat \<Rightarrow> u16 \<Rightarrow> gpio_state \<Rightarrow> gpio_state option) \<Rightarrow> nat \<Rightarrow> nat \<Rightarrow> nat \<Rightarrow> gpio_state \<Rightarrow> gpio_state option" where
  "isr_line run p ctx i s =
     (if IE_reg (ports s p) AND push_bit i 1 \<noteq> 0 \<and> IFG_reg (ports s p) AND push_bit i 1 \<noteq> 0 then do {
        let s1 = upd_port p (\<lambda>r. r\<lparr>IFG_reg := IFG_reg r AND NOT (push_bit i 1)\<rparr>) s;
        (cb, arg) \<leftarrow> isr_ctx s1 (i + ctx);
        run cb arg s1
      }
      else Some s)"

fun isr_lines ::
    "(nat \<Rightarrow> u16 \<Rightarrow> gpio_state \<Rightarrow> gpio_state option) \<Rightarrow> nat \<Rightarrow> nat \<Rightarrow> nat list \<Rightarrow> gpio_state \<Rightarrow> gpio_state option" where
  "isr_lines run p ctx [] s = Some s"
| "isr_lines run p ctx (i # is) s = do { s1 \<leftarrow> isr_line run p ctx i s; isr_lines run p ctx is s1 }"

definition isr_handler ::
    "(nat \<Rightarrow> u16 \<Rightarrow> gpio_state \<Rightarrow> gpio_state option) \<Rightarrow> nat \<Rightarrow> nat \<Rightarrow> gpio_state \<Rightarrow> gpio_state option" where
  "isr_handler run p ctx s = isr_lines run p ctx [0..<PINS_PER_PORT] s"

section \<open>Pins\<close>

lemma GPIO_PIN_parts:
  assumes "1 \<le> x" and "x \<le> 6"
  shows "port_of (GPIO_PIN (of_nat x) y) = Some x" "pin_of (GPIO_PIN (of_nat x) y) = push_bit (y mod 8) 1"
proof -
  have "x \<in> set [1..<7]" "y mod 8 \<in> set [0..<8]" using assms by auto
  moreover have "\<forall>x \<in> set [1..<7]. \<forall>y \<in> set [0..<8].
      port_of (push_bit 8 (of_nat x AND 0xff) OR push_bit y 1) = Some x
      \<and> pin_of (push_bit 8 (of_nat x AND 0xff) OR push_bit y 1) = push_bit y 1"
    by code_simp
  ultimately show "port_of (GPIO_PIN (of_nat x) y) = Some x" "pin_of (GPIO_PIN (of_nat x) y) = push_bit (y mod 8) 1"
    unfolding GPIO_PIN_def by blast+
qed

lemma and_not_cancel: "(a AND NOT b) AND b = (0 :: 'a::len word)" "(a OR b) AND b = b"
  by (rule bit_eqI; auto simp: bit_and_iff bit_or_iff bit_not_iff dest: bit_imp_le_length)+

lemma disjoint_pins:
  assumes "a AND b = (0 :: u8)"
  shows "(r OR b) AND a = r AND a" "(r AND NOT b) AND a = r AND a" "(r XOR b) AND a = r AND a"
proof -
  have n: "\<not> (bit a i \<and> bit b i)" for i using arg_cong [OF assms, of "\<lambda>w. bit w i"] by (simp add: bit_and_iff)
  show "(r OR b) AND a = r AND a" "(r AND NOT b) AND a = r AND a" "(r XOR b) AND a = r AND a"
    using n by (auto intro!: bit_eqI simp: bit_and_iff bit_or_iff bit_xor_iff bit_not_iff dest: bit_imp_le_length)
qed

text \<open>An output pin reads back what was written to it, and no other pin changes.\<close>

lemma gpio_write_read:
  assumes p: "port_of pn = Some p"
  shows "\<exists>s'. gpio_write pn v (snd (gpio_init pn GPIO_OUT s)) = Some s'
    \<and> gpio_read pn s' = Some (if v \<noteq> 0 then pin_of pn else 0)
    \<and> (\<forall>q. pin_of q AND pin_of pn = 0 \<or> port_of q \<noteq> Some p \<longrightarrow> gpio_read q s' = gpio_read q s)"
proof -
  define s1 where "s1 = snd (gpio_init pn GPIO_OUT s)"
  have s1: "s1 = upd_port p (\<lambda>r. r\<lparr>DIR_reg := DIR_reg r OR pin_of pn\<rparr>) s" using p by (simp add: s1_def gpio_init_def)
  define s' where "s' = upd_port p (\<lambda>r. r\<lparr>OD_reg := (if v \<noteq> 0 then OD_reg r OR pin_of pn else OD_reg r AND NOT (pin_of pn))\<rparr>) s1"
  have "gpio_write pn v s1 = Some s'" using p by (simp add: gpio_write_def s'_def)
  moreover have "gpio_read pn s' = Some (if v \<noteq> 0 then pin_of pn else 0)"
    using p by (auto simp: gpio_read_def s'_def s1 upd_port_def Let_def and_not_cancel)
  moreover have "gpio_read q s' = gpio_read q s" if "pin_of q AND pin_of pn = 0 \<or> port_of q \<noteq> Some p" for q
    using that disjoint_pins [of "pin_of q" "pin_of pn"]
    by (cases "port_of q") (auto simp: gpio_read_def s'_def s1 upd_port_def Let_def)
  ultimately show ?thesis unfolding s1_def by blast
qed

lemma gpio_init_errors:
  "port_of pn = None \<Longrightarrow> gpio_init pn m s = (-1, s)" "m \<noteq> GPIO_IN \<Longrightarrow> m \<noteq> GPIO_OUT \<Longrightarrow> gpio_init pn m s = (-1, s)"
  by (auto simp: gpio_init_def split: option.splits)

section \<open>Interrupts\<close>

text \<open>
  With call-backs that only log and a context for every enabled line, one interrupt runs the
  call-backs of the lines that are enabled and pending, lowest first, and clears just their flags.
\<close>

definition pending :: "gpio_state \<Rightarrow> nat \<Rightarrow> nat \<Rightarrow> bool" where
  "pending s p i \<longleftrightarrow> bit (IE_reg (ports s p)) i \<and> bit (IFG_reg (ports s p)) i"

lemma isr_line_clears:
  assumes "i < 8" and "pending s p i \<longrightarrow> isr_ctx s (i + ctx) \<noteq> None" and run: "\<And>cb arg s. run cb arg s = Some s"
  shows "\<exists>s'. isr_line run p ctx i s = Some s' \<and> isr_ctx s' = isr_ctx s
    \<and> (\<forall>j < 8. pending s' p j \<longleftrightarrow> pending s p j \<and> j \<noteq> i)"
proof (cases "pending s p i")
  case True
  define s1 where "s1 = upd_port p (\<lambda>r. r\<lparr>IFG_reg := IFG_reg r AND NOT (push_bit i 1)\<rparr>) s"
  obtain cb arg where "isr_ctx s (i + ctx) = Some (cb, arg)" using assms(2) True by auto
  then have "isr_line run p ctx i s = Some s1"
    using True assms(1) run by (simp add: isr_line_def and_exp_eq_0_iff_not_bit pending_def Let_def s1_def upd_port_def)
  moreover have "pending s1 p j \<longleftrightarrow> pending s p j \<and> j \<noteq> i" if "j < 8" for j
    using that assms(1)
    by (auto simp: pending_def s1_def upd_port_def bit_and_iff bit_not_iff bit_exp_iff)
  ultimately show ?thesis by (auto simp: s1_def upd_port_def)
next
  case False
  then have "isr_line run p ctx i s = Some s" using assms(1) by (auto simp: isr_line_def and_exp_eq_0_iff_not_bit pending_def)
  then show ?thesis using False by auto
qed

lemma isr_lines_clears:
  assumes run: "\<And>cb arg s. run cb arg s = Some s"
  shows "\<forall>i \<in> set is. i < 8 \<Longrightarrow> \<forall>i \<in> set is. pending s p i \<longrightarrow> isr_ctx s (i + ctx) \<noteq> None \<Longrightarrow>
    \<exists>s'. isr_lines run p ctx is s = Some s' \<and> isr_ctx s' = isr_ctx s \<and> (\<forall>j < 8. pending s' p j \<longleftrightarrow> pending s p j \<and> j \<notin> set is)"
proof (induction "is" arbitrary: s)
  case (Cons i "is")
  obtain s1 where s1: "isr_line run p ctx i s = Some s1" "isr_ctx s1 = isr_ctx s" "\<forall>j < 8. pending s1 p j \<longleftrightarrow> pending s p j \<and> j \<noteq> i"
    using isr_line_clears [of i s p ctx run] Cons.prems run by auto
  have "\<forall>j \<in> set is. pending s1 p j \<longrightarrow> isr_ctx s1 (j + ctx) \<noteq> None" using Cons.prems s1 by auto
  then show ?case using Cons.IH [of s1] Cons.prems s1 by fastforce
qed simp

end
