(* ===== verification/Malloc.thy ===== *)
theory Malloc
  imports Prelude
begin

text \<open>
  The allocator of \<open>cpu/msp430-sancus/malloc.c\<close> (adapted there from the AVR C library). Memory
  is an array of bytes; a 16-bit access ignores the lowest bit of its address, as the MSP430
  does. A \<open>struct __freelist *\<close> is the address of a chunk: its \<open>sz\<close> field is at that address,
  its \<open>nx\<close> field (and the memory handed to the caller) two bytes above; \<open>NULL\<close> is 0. The calls
  of \<open>irq_disable\<close> and \<open>irq_restore\<close> are left out: they do nothing in this port (see \<open>Cpu_Main\<close>), and
  the model is of executions in which no interrupt uses the heap.
\<close>

section \<open>Memory\<close>

type_synonym memory = "u16 \<Rightarrow> u8"

definition even_addr :: "u16 \<Rightarrow> u16" where
  "even_addr a = a AND NOT 1"

definition load16 :: "memory \<Rightarrow> u16 \<Rightarrow> u16" where
  "load16 m a = ucast (m (even_addr a)) OR push_bit 8 (ucast (m (even_addr a OR 1)))"

definition store16 :: "u16 \<Rightarrow> u16 \<Rightarrow> memory \<Rightarrow> memory" where
  "store16 a v m = m(even_addr a := ucast v, even_addr a OR 1 := ucast (drop_bit 8 v))"

record malloc_state =
  mem :: memory
  flp :: u16
  brkval :: u16
  malloc_heap_start :: u16
  malloc_heap_end :: u16
  malloc_margin :: u16

definition sz :: "malloc_state \<Rightarrow> u16 \<Rightarrow> u16" where "sz s fp = load16 (mem s) fp"
definition nx :: "malloc_state \<Rightarrow> u16 \<Rightarrow> u16" where "nx s fp = load16 (mem s) (fp + 2)"
definition set_sz :: "u16 \<Rightarrow> u16 \<Rightarrow> malloc_state \<Rightarrow> malloc_state" where
  "set_sz fp v s = s\<lparr>mem := store16 fp v (mem s)\<rparr>"
definition set_nx :: "u16 \<Rightarrow> u16 \<Rightarrow> malloc_state \<Rightarrow> malloc_state" where
  "set_nx fp v s = s\<lparr>mem := store16 (fp + 2) v (mem s)\<rparr>"

definition sizeof_size_t :: u16 where "sizeof_size_t = 2"
definition sizeof_freelist :: u16 where "sizeof_freelist = 4"

section \<open>malloc\<close>

text \<open>The walk over the free list: an exact fit and its predecessor, or the best fit so far.\<close>

datatype walk = Exact u16 u16 | Best u16 u16 u16

partial_function (option) malloc_walk ::
    "malloc_state \<Rightarrow> u16 \<Rightarrow> u16 \<Rightarrow> u16 \<Rightarrow> u16 \<Rightarrow> u16 \<Rightarrow> u16 \<Rightarrow> walk option" where
  "malloc_walk st len s fp1 fp2 sfp1 sfp2 =
     (if fp1 = 0 then Some (Best s sfp1 sfp2)
      else if sz st fp1 < len then malloc_walk st len s (nx st fp1) fp1 sfp1 sfp2
      else if sz st fp1 = len then Some (Exact fp1 fp2)
      else if s = 0 \<or> sz st fp1 < s then malloc_walk st len (sz st fp1) (nx st fp1) fp1 fp1 fp2
      else malloc_walk st len s (nx st fp1) fp1 sfp1 sfp2)"

text \<open>Taking the chunk \<open>fp1\<close> with predecessor \<open>fp2\<close> off the free list.\<close>

definition unlink :: "u16 \<Rightarrow> u16 \<Rightarrow> malloc_state \<Rightarrow> malloc_state" where
  "unlink fp1 fp2 st = (if fp2 \<noteq> 0 then set_nx fp2 (nx st fp1) st else st\<lparr>flp := nx st fp1\<rparr>)"

text \<open>Obtaining memory above the break; \<open>r1\<close> is the stack pointer.\<close>

definition malloc_extend :: "u16 \<Rightarrow> u16 \<Rightarrow> malloc_state \<Rightarrow> u16 \<times> malloc_state" where
  "malloc_extend r1 len st =
     (let st1 = (if brkval st = 0 then st\<lparr>brkval := malloc_heap_start st\<rparr> else st);
          cp = (if malloc_heap_end st1 = 0 then r1 - malloc_margin st1 else malloc_heap_end st1)
      in if cp \<le> brkval st1 then (0, st1)
         else
           let avail = cp - brkval st1 in
           if avail \<ge> len \<and> avail \<ge> len + sizeof_size_t then
             let fp1 = brkval st1;
                 st2 = st1\<lparr>brkval := brkval st1 + (len + sizeof_size_t)\<rparr>
             in (fp1 + 2, set_sz fp1 len st2)
           else (0, st1))"

definition malloc :: "u16 \<Rightarrow> u16 \<Rightarrow> malloc_state \<Rightarrow> (u16 \<times> malloc_state) option" where
  "malloc r1 len st = do {
     let len = (if len < sizeof_freelist - sizeof_size_t then sizeof_freelist - sizeof_size_t else len);
     w \<leftarrow> malloc_walk st len 0 (flp st) 0 0 0;
     (case w of
        Exact fp1 fp2 \<Rightarrow> Some (fp1 + 2, unlink fp1 fp2 st)
      | Best s sfp1 sfp2 \<Rightarrow>
          if s \<noteq> 0 then
            if s - len < sizeof_freelist then Some (sfp1 + 2, unlink sfp1 sfp2 st)
            else
              let s' = s - len;
                  sfp2' = sfp1 + s';
                  st1 = set_sz sfp2' len st;
                  st2 = set_sz sfp1 (s' - sizeof_size_t) st1
              in Some (sfp2' + 2, st2)
          else Some (malloc_extend r1 len st))
   }"

section \<open>free\<close>

text \<open>The first chunk of the list at or above \<open>fpnew\<close>, with its predecessor.\<close>

partial_function (option) free_find :: "malloc_state \<Rightarrow> u16 \<Rightarrow> u16 \<Rightarrow> u16 \<Rightarrow> (u16 \<times> u16) option" where
  "free_find st fpnew fp1 fp2 =
     (if fp1 = 0 then Some (fp1, fp2)
      else if fp1 < fpnew then free_find st fpnew (nx st fp1) fp1
      else Some (fp1, fp2))"

partial_function (option) free_last :: "malloc_state \<Rightarrow> u16 \<Rightarrow> u16 \<Rightarrow> (u16 \<times> u16) option" where
  "free_last st fp1 fp2 = (if nx st fp1 \<noteq> 0 then free_last st (nx st fp1) fp1 else Some (fp1, fp2))"

definition join_upper :: "u16 \<Rightarrow> u16 \<Rightarrow> malloc_state \<Rightarrow> malloc_state" where
  "join_upper fpnew fp1 st =
     (let st1 = set_nx fpnew fp1 st in
      if (fpnew + 2) + sz st1 fpnew = fp1 then
        let st2 = set_sz fpnew (sz st1 fpnew + (sz st1 fp1 + sizeof_size_t)) st1
        in set_nx fpnew (nx st2 fp1) st2
      else st1)"

definition join_lower :: "u16 \<Rightarrow> u16 \<Rightarrow> malloc_state \<Rightarrow> malloc_state" where
  "join_lower fpnew fp2 st =
     (let st1 = set_nx fp2 fpnew st in
      if (fp2 + 2) + sz st1 fp2 = fpnew then
        let st2 = set_sz fp2 (sz st1 fp2 + (sz st1 fpnew + sizeof_size_t)) st1
        in set_nx fp2 (nx st2 fpnew) st2
      else st1)"

definition free :: "u16 \<Rightarrow> malloc_state \<Rightarrow> malloc_state option" where
  "free p st =
     (if p = 0 then Some st
      else
        let fpnew = p - sizeof_size_t;
            st1 = set_nx fpnew 0 st
        in
        if flp st1 = 0 then
          Some (if p + sz st1 fpnew = brkval st1 then st1\<lparr>brkval := fpnew\<rparr> else st1\<lparr>flp := fpnew\<rparr>)
        else do {
          (fp1, fp2) \<leftarrow> free_find st1 fpnew (flp st1) 0;
          let st2 = (if fp1 \<noteq> 0 then join_upper fpnew fp1 st1 else st1);
          if fp1 \<noteq> 0 \<and> fp2 = 0 then Some (st2\<lparr>flp := fpnew\<rparr>)
          else if fp2 = 0 then None
          else do {
            let st3 = join_lower fpnew fp2 st2;
            (top1, top2) \<leftarrow> free_last st3 (flp st3) 0;
            let cp2 = top1 + 2;
            if cp2 + sz st3 top1 = brkval st3 then
              let st4 = (if top2 = 0 then st3\<lparr>flp := 0\<rparr> else set_nx top2 0 st3)
              in Some (st4\<lparr>brkval := cp2 - sizeof_size_t\<rparr>)
            else Some st3
          }
        })"

section \<open>realloc and calloc\<close>

text \<open>
  The search for the chunk just above: found with its predecessor, or the size of the largest
  chunk on the list.
\<close>

datatype grow = Above u16 u16 | Largest u16

partial_function (option) realloc_walk ::
    "malloc_state \<Rightarrow> u16 \<Rightarrow> u16 \<Rightarrow> u16 \<Rightarrow> u16 \<Rightarrow> u16 \<Rightarrow> grow option" where
  "realloc_walk st fp2 incr s ofp3 fp3 =
     (if fp3 = 0 then Some (Largest s)
      else if fp3 = fp2 \<and> sz st fp3 + sizeof_size_t \<ge> incr then Some (Above fp3 ofp3)
      else realloc_walk st fp2 incr (if sz st fp3 > s then sz st fp3 else s) fp3 (nx st fp3))"

text \<open>\<open>memcpy\<close> and \<open>memset\<close> of \<open>n\<close> bytes.\<close>

fun memcpy :: "u16 \<Rightarrow> u16 \<Rightarrow> nat \<Rightarrow> memory \<Rightarrow> memory" where
  "memcpy dst src 0 m = m"
| "memcpy dst src (Suc n) m = memcpy (dst + 1) (src + 1) n (m(dst := m src))"

fun memset0 :: "u16 \<Rightarrow> nat \<Rightarrow> memory \<Rightarrow> memory" where
  "memset0 dst 0 m = m"
| "memset0 dst (Suc n) m = memset0 (dst + 1) n (m(dst := 0))"

definition realloc_grow :: "u16 \<Rightarrow> u16 \<Rightarrow> u16 \<Rightarrow> u16 \<Rightarrow> u16 \<Rightarrow> u16 \<Rightarrow> malloc_state \<Rightarrow> malloc_state" where
  "realloc_grow ptr len fp1 fp3 ofp3 incr st =
     (let (fp2, st1) =
        (if sz st fp3 + sizeof_size_t - incr > sizeof_freelist then
           let fp2 = ptr + len;
               sta = set_nx fp2 (nx st fp3) st;
               stb = set_sz fp2 (sz sta fp3 - incr) sta
           in (fp2, set_sz fp1 len stb)
         else
           let sta = set_sz fp1 (sz st fp1 + (sz st fp3 + sizeof_size_t)) st
           in (nx sta fp3, sta))
      in if ofp3 \<noteq> 0 then set_nx ofp3 fp2 st1 else st1\<lparr>flp := fp2\<rparr>)"

definition realloc_move :: "u16 \<Rightarrow> u16 \<Rightarrow> u16 \<Rightarrow> u16 \<Rightarrow> malloc_state \<Rightarrow> (u16 \<times> malloc_state) option" where
  "realloc_move r1 ptr len fp1 st = do {
     (memp, st1) \<leftarrow> malloc r1 len st;
     if memp = 0 then Some (0, st1)
     else do {
       let st2 = st1\<lparr>mem := memcpy memp ptr (unat (sz st1 fp1)) (mem st1)\<rparr>;
       st3 \<leftarrow> free ptr st2;
       Some (memp, st3)
     }
   }"

definition realloc :: "u16 \<Rightarrow> u16 \<Rightarrow> u16 \<Rightarrow> malloc_state \<Rightarrow> (u16 \<times> malloc_state) option" where
  "realloc r1 ptr len st =
     (if ptr = 0 then malloc r1 len st
      else
        let fp1 = ptr - sizeof_size_t;
            cp = ptr + len
        in
        if cp < fp1 then Some (0, st)
        else if len \<le> sz st fp1 then
          (if sz st fp1 \<le> sizeof_freelist \<or> len > sz st fp1 - sizeof_freelist then Some (ptr, st)
           else do {
             let st1 = set_sz cp (sz st fp1 - len - sizeof_size_t) st;
             let st2 = set_sz fp1 len st1;
             st3 \<leftarrow> free (cp + 2) st2;
             Some (ptr, st3)
           })
        else do {
          let incr = len - sz st fp1;
          let fp2 = ptr + sz st fp1;
          g \<leftarrow> realloc_walk st fp2 incr 0 0 (flp st);
          (case g of
             Above fp3 ofp3 \<Rightarrow> Some (ptr, realloc_grow ptr len fp1 fp3 ofp3 incr st)
           | Largest s \<Rightarrow>
               if brkval st = ptr + sz st fp1 \<and> len > s then
                 let cp1 = (if malloc_heap_end st = 0 then r1 - malloc_margin st else malloc_heap_end st) in
                 if cp < cp1 then Some (ptr, set_sz fp1 len (st\<lparr>brkval := cp\<rparr>))
                 else Some (0, st)
               else realloc_move r1 ptr len fp1 st)
        })"

definition calloc :: "u16 \<Rightarrow> u16 \<Rightarrow> u16 \<Rightarrow> malloc_state \<Rightarrow> (u16 \<times> malloc_state) option" where
  "calloc r1 nele elsize st = do {
     (p, st1) \<leftarrow> malloc r1 (nele * elsize) st;
     if p = 0 then Some (0, st1)
     else Some (p, st1\<lparr>mem := memset0 p (unat (nele * elsize)) (mem st1)\<rparr>)
   }"

end
