(* ===== verification/Cpu_Main.thy ===== *)
theory Cpu_Main
  imports Gpio Malloc
begin

text \<open>
  Processor support of \<open>cpu/msp430-sancus/msp430-main.c\<close> and \<open>irq.c\<close>, and the allocator without
  \<open>free\<close> of \<open>sys/oneway-malloc\<close> that sits on its \<open>sbrk\<close>. Addresses and \<open>int\<close> are 16 bits wide;
  the difference of two pointers and the increment of \<open>sbrk\<close> are signed.
\<close>

section \<open>Definitions\<close>

text \<open>\<open>irq_disable\<close>, \<open>irq_enable\<close> and \<open>irq_restore\<close> leave the status register alone in this port.\<close>

definition irq_disable :: "u16 \<Rightarrow> u16 \<times> u16" where "irq_disable r2 = (0, r2)"
definition irq_enable :: "u16 \<Rightarrow> u16 \<times> u16" where "irq_enable r2 = (0, r2)"
definition irq_restore :: "u16 \<Rightarrow> u16 \<Rightarrow> u16" where "irq_restore state r2 = r2"

definition SR_GIE :: u16 where "SR_GIE = 8"

definition splhigh :: "u16 \<Rightarrow> u16 \<times> u16" where
  "splhigh r2 = (let sr = r2; r2' = r2 AND NOT SR_GIE in (sr AND SR_GIE, r2'))"

definition splx :: "u16 \<Rightarrow> u16 \<Rightarrow> u16" where
  "splx sr r2 = (let sr = sr AND SR_GIE in r2 OR sr)"

definition init_ports :: "gpio_state \<Rightarrow> gpio_state" where
  "init_ports s =
     (let s1 = fold (\<lambda>p. upd_port p (\<lambda>r. r\<lparr>SEL_reg := 0\<rparr>)) [1..<7] s;
          s2 = fold (\<lambda>p. upd_port p (\<lambda>r. r\<lparr>DIR_reg := 0, OD_reg := 0\<rparr>)) [1..<7] s1
      in fold (\<lambda>p. upd_port p (\<lambda>r. r\<lparr>IE_reg := 0\<rparr>)) [1, 2] s2)"

text \<open>The break of the heap, its configured end (0 when unset) and the memory.\<close>

record brk_state =
  cur_break :: u16
  heap_end :: u16
  brk_mem :: memory

definition msp430_cpu_init :: "(gpio_state \<Rightarrow> gpio_state) \<Rightarrow> gpio_state \<times> brk_state \<Rightarrow> gpio_state \<times> brk_state" where
  "msp430_cpu_init periph_init = (\<lambda>(g, b).
     (periph_init (init_ports g), if cur_break b AND 1 \<noteq> 0 then b\<lparr>cur_break := cur_break b + 1\<rparr> else b))"

definition STACK_EXTRA :: u16 where "STACK_EXTRA = 32"

definition sbrk :: "u16 \<Rightarrow> u16 \<Rightarrow> brk_state \<Rightarrow> u16 \<times> brk_state" where
  "sbrk r1 incr b =
     (let heap_top = (if heap_end b = 0 then r1 - STACK_EXTRA else heap_end b)
      in if sint incr > sint (heap_top - cur_break b) then (0xffff, b)
         else (cur_break b, b\<lparr>cur_break := cur_break b + incr\<rparr>))"

fun strnlen_loop :: "memory \<Rightarrow> u16 \<Rightarrow> nat \<Rightarrow> nat \<Rightarrow> nat" where
  "strnlen_loop m s len 0 = len"
| "strnlen_loop m s len (Suc n) = (if m s = 0 then len else strnlen_loop m (s + 1) (Suc len) n)"

definition strnlen :: "memory \<Rightarrow> u16 \<Rightarrow> u16 \<Rightarrow> nat" where
  "strnlen m s maxlen = strnlen_loop m s 0 (unat maxlen)"

definition oneway_malloc :: "u16 \<Rightarrow> u16 \<Rightarrow> brk_state \<Rightarrow> u16 \<times> brk_state" where
  "oneway_malloc r1 sze b =
     (if sze \<noteq> 0 then
        let (ptr, b1) = sbrk r1 sze b
        in if ptr \<noteq> 0xffff then (ptr, b1) else (0, b1)
      else (0, b))"

definition oneway_free :: "u16 \<Rightarrow> brk_state \<Rightarrow> brk_state" where
  "oneway_free ptr b = b"

definition oneway_realloc :: "u16 \<Rightarrow> u16 \<Rightarrow> u16 \<Rightarrow> brk_state \<Rightarrow> u16 \<times> brk_state" where
  "oneway_realloc r1 ptr sze b =
     (if ptr = 0 then oneway_malloc r1 sze b
      else if sze = 0 then (0, oneway_free ptr b)
      else
        let (newptr, b1) = oneway_malloc r1 sze b
        in (newptr, if newptr \<noteq> 0 then b1\<lparr>brk_mem := memcpy newptr ptr (unat sze) (brk_mem b1)\<rparr> else b1))"

definition oneway_calloc :: "u16 \<Rightarrow> u16 \<Rightarrow> u16 \<Rightarrow> brk_state \<Rightarrow> u16 \<times> brk_state" where
  "oneway_calloc r1 sze cnt b =
     (let (p, b1) = oneway_malloc r1 (sze * cnt) b
      in (p, if p \<noteq> 0 then b1\<lparr>brk_mem := memset0 p (unat (sze * cnt)) (brk_mem b1)\<rparr> else b1))"

section \<open>Interrupt mask and strings\<close>

lemma splx_splhigh: "splx (fst (splhigh r2)) (snd (splhigh r2)) = r2" "\<not> bit (snd (splhigh r2)) 3"
proof -
  have g: "SR_GIE = 2 ^ 3" by (simp add: SR_GIE_def)
  show "splx (fst (splhigh r2)) (snd (splhigh r2)) = r2"
    by (rule bit_eqI) (auto simp: splx_def splhigh_def bit_and_iff bit_or_iff bit_not_iff)
  show "\<not> bit (snd (splhigh r2)) 3" by (simp add: splhigh_def g bit_and_iff bit_not_iff bit_exp_iff)
qed

lemma strnlen_loop_spec:
  "\<exists>k \<le> n. strnlen_loop m s l n = l + k \<and> (\<forall>i < k. m (s + of_nat i) \<noteq> 0) \<and> (k < n \<longrightarrow> m (s + of_nat k) = 0)"
proof (induction n arbitrary: s l)
  case (Suc n)
  show ?case
  proof (cases "m s = 0")
    case False
    obtain k where k: "k \<le> n" "strnlen_loop m (s + 1) (Suc l) n = Suc l + k" "\<forall>i < k. m (s + 1 + of_nat i) \<noteq> 0"
        "k < n \<longrightarrow> m (s + 1 + of_nat k) = 0" using Suc.IH [of "s + 1" "Suc l"] by blast
    have "m (s + of_nat i) \<noteq> 0" if "i < Suc k" for i
      using that False k(3) by (cases i) (simp_all add: algebra_simps)
    then show ?thesis using False k by (intro exI [of _ "Suc k"]) (simp add: algebra_simps)
  qed (intro exI [of _ 0], simp)
qed simp

section \<open>The break\<close>

text \<open>
  \<open>brk_ok r1 b\<close>: the break is not above the top of the heap, and the two are less than
  \<open>2 ^ 15\<close> bytes apart.
\<close>

definition heap_top :: "u16 \<Rightarrow> brk_state \<Rightarrow> u16" where
  "heap_top r1 b = (if heap_end b = 0 then r1 - STACK_EXTRA else heap_end b)"

definition brk_ok :: "u16 \<Rightarrow> brk_state \<Rightarrow> bool" where
  "brk_ok r1 b \<longleftrightarrow> 0 < cur_break b \<and> cur_break b \<le> heap_top r1 b \<and> unat (heap_top r1 b) - unat (cur_break b) < 2 ^ 15"

text \<open>A request that fits gets the bytes from the break on; one that does not leaves everything as it was.\<close>

lemma oneway_malloc_spec:
  assumes ok: "brk_ok r1 b" and n: "0 < n" "n < 2 ^ 15"
  shows "if unat (cur_break b) + unat n \<le> unat (heap_top r1 b)
    then \<exists>b'. oneway_malloc r1 n b = (cur_break b, b') \<and> brk_ok r1 b'
           \<and> unat (cur_break b') = unat (cur_break b) + unat n \<and> brk_mem b' = brk_mem b \<and> heap_end b' = heap_end b
    else oneway_malloc r1 n b = (0, b)"
proof -
  have c: "unat (cur_break b) \<le> unat (heap_top r1 b)" "unat (heap_top r1 b) - unat (cur_break b) < 2 ^ 15" "0 < unat (cur_break b)"
    using ok by (auto simp: brk_ok_def word_le_nat_alt word_less_nat_alt)
  have d: "unat (heap_top r1 b - cur_break b) = unat (heap_top r1 b) - unat (cur_break b)"
    using c(1) by (simp add: unat_sub_if')
  have nn: "unat n < 2 ^ 15" "0 < unat n" using n by (simp_all add: word_less_nat_alt unat_gt_0)
  have cmp: "sint n > sint (heap_top r1 b - cur_break b) \<longleftrightarrow> unat (heap_top r1 b) < unat (cur_break b) + unat n"
  proof -
    have "sint (heap_top r1 b - cur_break b) = int (unat (heap_top r1 b) - unat (cur_break b))"
      using sint_small [of "heap_top r1 b - cur_break b"] c(2) d by (simp only:)
    then show ?thesis using sint_small [OF nn(1)] c(1) by (simp only: of_nat_less_iff) linarith
  qed
  show ?thesis
  proof (cases "unat (cur_break b) + unat n \<le> unat (heap_top r1 b)")
    case True
    have "unat (heap_top r1 b) < 2 ^ 16" using unsigned_less [of "heap_top r1 b", where ?'a = nat] by simp
    then have s: "unat (cur_break b + n) = unat (cur_break b) + unat n" using True by (simp add: unat_word_ariths)
    have ne: "cur_break b \<noteq> 0xffff"
    proof
      assume "cur_break b = 0xffff"
      then have "unat (cur_break b) = 65535" by simp
      then show False using True nn(2) \<open>unat (heap_top r1 b) < 2 ^ 16\<close> by simp
    qed
    define b' where "b' = b\<lparr>cur_break := cur_break b + n\<rparr>"
    have "sbrk r1 n b = (cur_break b, b')" using cmp True by (simp add: sbrk_def heap_top_def [symmetric] b'_def Let_def)
    then have "oneway_malloc r1 n b = (cur_break b, b')" using ne nn(2) by (auto simp: oneway_malloc_def)
    moreover have "heap_top r1 b' = heap_top r1 b" by (simp add: heap_top_def b'_def)
    then have "brk_ok r1 b'" using s True c by (simp add: brk_ok_def b'_def word_le_nat_alt word_less_nat_alt)
    ultimately show ?thesis using True s by (simp add: b'_def)
  next
    case False
    then have "sbrk r1 n b = (0xffff, b)" using cmp by (simp add: sbrk_def heap_top_def [symmetric] Let_def)
    then show ?thesis using False nn(2) by (auto simp: oneway_malloc_def)
  qed
qed

text \<open>A request of \<open>2 ^ 15\<close> bytes or more is a negative increment: it succeeds and moves the break down.\<close>

lemma oneway_malloc_large:
  assumes ok: "brk_ok r1 b" and n: "2 ^ 15 \<le> unat n" and b: "cur_break b \<noteq> 0xffff"
  shows "oneway_malloc r1 n b = (cur_break b, b\<lparr>cur_break := cur_break b + n\<rparr>)"
    and "2 ^ 16 \<le> unat (cur_break b) + unat n \<Longrightarrow> unat (cur_break b + n) < unat (cur_break b)"
proof -
  have "sint n < 0" using sint_large [OF n] uint_lt2p [of n] by simp
  moreover have "0 \<le> sint (heap_top r1 b - cur_break b)"
    using ok sint_small [of "heap_top r1 b - cur_break b"]
    by (simp add: brk_ok_def word_le_nat_alt unat_sub_if' del: of_nat_unat of_nat_diff)
  ultimately have "sbrk r1 n b = (cur_break b, b\<lparr>cur_break := cur_break b + n\<rparr>)"
    by (simp add: sbrk_def heap_top_def [symmetric] Let_def)
  moreover have "n \<noteq> 0" using n by auto
  ultimately show "oneway_malloc r1 n b = (cur_break b, b\<lparr>cur_break := cur_break b + n\<rparr>)"
    using b by (simp add: oneway_malloc_def)
  assume "2 ^ 16 \<le> unat (cur_break b) + unat n"
  moreover have "unat n < 2 ^ 16" "unat (cur_break b) < 2 ^ 16" 
    using unsigned_less [of n, where ?'a = nat] unsigned_less [of "cur_break b", where ?'a = nat] by simp_all
  ultimately show "unat (cur_break b + n) < unat (cur_break b)"
    by (simp add: unat_word_ariths le_mod_geq)
qed

end
