(* ===== verification/Malloc_Heap.thy ===== *)
theory Malloc_Heap
  imports Malloc
begin

text \<open>
  Correctness of the allocator for requests of an even number of bytes. \<open>heap_inv st xs fs\<close> says
  that the chunks at \<open>xs\<close> fill the heap from its start to the break without gaps, in order, and that the
  free list is \<open>fs\<close>, in order of address; a chunk that is not free is allocated.
\<close>

section \<open>Memory\<close>

lemma even_unat_bit: "even (unat (a :: u16)) \<longleftrightarrow> \<not> bit a 0"
proof -
  have "bit (unat a) 0 = bit a 0" by (simp only: bit_unsigned_iff possible_bit_0 simp_thms)
  then show ?thesis by (simp add: bit_0)
qed

lemma even_addr_even: "even (unat a) \<Longrightarrow> even_addr a = a"
  unfolding even_unat_bit even_addr_def
  by (intro bit_eqI) (auto simp: bit_and_iff bit_not_iff bit_1_iff intro: ccontr)

lemma even_or_1: "even (unat a) \<Longrightarrow> a OR 1 = a + (1 :: u16)"
proof -
  assume "even (unat a)"
  then have "a AND 1 = 0" unfolding even_unat_bit by (intro bit_eqI) (auto simp: bit_and_iff bit_1_iff intro: ccontr)
  then show ?thesis by (simp add: disjunctive_add_eq_or)
qed

lemma unat_Suc_even: "even (unat (a :: u16)) \<Longrightarrow> unat (a + 1) = unat a + 1"
proof -
  assume "even (unat a)"
  then have "unat a \<noteq> 65535" by (metis odd_numeral)
  then show ?thesis using unat_lt_16 [of a] by (simp add: unat_word_ariths)
qed

lemma store16_other:
  assumes "even (unat a)" and "unat b < unat a \<or> unat a + 2 \<le> unat b"
  shows "store16 a v m b = m b"
proof -
  have "b \<noteq> a" "b \<noteq> a + 1" using assms(2) unat_Suc_even [OF assms(1)] by auto
  then show ?thesis by (simp add: store16_def even_addr_even [OF assms(1)] even_or_1 [OF assms(1)])
qed

lemma load16_store16:
  assumes "even (unat a)" and "even (unat b)"
  shows "load16 (store16 a v m) b = (if a = b then v else load16 m b)"
proof (cases "a = b")
  case True
  have "ucast (ucast v :: u8) OR push_bit 8 (ucast (ucast (drop_bit 8 v) :: u8)) = (v :: u16)"
    by (rule bit_eqI) (auto simp: bit_or_iff bit_push_bit_iff bit_ucast_iff bit_drop_bit_eq dest: bit_imp_le_length)
  moreover have "b + 1 \<noteq> b" by simp
  ultimately show ?thesis
    using True by (simp add: load16_def store16_def even_addr_even [OF assms(2)] even_or_1 [OF assms(2)])
next
  case False
  then have "unat a \<noteq> unat b" by (simp add: word_unat_eq_iff)
  then have lt: "unat b + 2 \<le> unat a \<or> unat a + 2 \<le> unat b" using assms by presburger
  then have "store16 a v m b = m b" "store16 a v m (b + 1) = m (b + 1)"
    using store16_other [OF assms(1)] unat_Suc_even [OF assms(2)] by auto
  then show ?thesis using False by (simp add: load16_def even_addr_even [OF assms(2)] even_or_1 [OF assms(2)])
qed

section \<open>Chunks\<close>

text \<open>\<open>addr a\<close>: an even address with room for a free-list entry.\<close>

definition addr :: "u16 \<Rightarrow> bool" where
  "addr a \<longleftrightarrow> even (unat a) \<and> 0 < unat a \<and> unat a + 4 \<le> 65536"

lemma addr_plus: "addr a \<Longrightarrow> unat (a + 2) = unat a + 2"
  using unat_lt_16 [of a] by (simp add: addr_def unat_word_ariths)

lemma sz_nx_simps [simp]:
  assumes "addr a" and "addr b"
  shows "sz (set_sz a v st) b = (if a = b then v else sz st b)" "nx (set_nx a v st) b = (if a = b then v else nx st b)"
    and "sz (set_nx a v st) b = (if a + 2 = b then v else sz st b)" "nx (set_sz a v st) b = (if a = b + 2 then v else nx st b)"
proof -
  have e: "even (unat a)" "even (unat b)" "even (unat (a + 2))" "even (unat (b + 2))"
    using assms by (simp_all add: addr_plus) (simp_all add: addr_def)
  show "sz (set_sz a v st) b = (if a = b then v else sz st b)" "nx (set_nx a v st) b = (if a = b then v else nx st b)"
    and "sz (set_nx a v st) b = (if a + 2 = b then v else sz st b)" "nx (set_sz a v st) b = (if a = b + 2 then v else nx st b)"
    using e by (simp_all add: sz_def nx_def set_sz_def set_nx_def load16_store16)
qed

lemma set_fields [simp]:
  "flp (set_sz a v st) = flp st" "flp (set_nx a v st) = flp st" "brkval (set_sz a v st) = brkval st" "brkval (set_nx a v st) = brkval st"
  "malloc_heap_start (set_sz a v st) = malloc_heap_start st" "malloc_heap_start (set_nx a v st) = malloc_heap_start st"
  "malloc_heap_end (set_sz a v st) = malloc_heap_end st" "malloc_heap_end (set_nx a v st) = malloc_heap_end st"
  "malloc_margin (set_sz a v st) = malloc_margin st" "malloc_margin (set_nx a v st) = malloc_margin st"
  "sz (st\<lparr>flp := p\<rparr>) = sz st" "nx (st\<lparr>flp := p\<rparr>) = nx st" "sz (st\<lparr>brkval := p\<rparr>) = sz st" "nx (st\<lparr>brkval := p\<rparr>) = nx st"
  by (simp_all add: set_sz_def set_nx_def sz_def nx_def fun_eq_iff)

lemma set_nx_flp: "set_nx a v (st\<lparr>flp := p\<rparr>) = (set_nx a v st)\<lparr>flp := p\<rparr>"
  by (simp add: set_nx_def)

lemma mem_other:
  assumes "addr a"
  shows "unat b < unat a \<or> unat a + 2 \<le> unat b \<Longrightarrow> mem (set_sz a v st) b = mem st b"
    and "unat b < unat a + 2 \<or> unat a + 4 \<le> unat b \<Longrightarrow> mem (set_nx a v st) b = mem st b"
proof -
  have e: "even (unat a)" "even (unat (a + 2))" using assms by (simp_all add: addr_plus) (simp_all add: addr_def)
  show "unat b < unat a \<or> unat a + 2 \<le> unat b \<Longrightarrow> mem (set_sz a v st) b = mem st b"
    using store16_other [OF e(1)] by (simp add: set_sz_def)
  show "unat b < unat a + 2 \<or> unat a + 4 \<le> unat b \<Longrightarrow> mem (set_nx a v st) b = mem st b"
    using store16_other [OF e(2), of b] unfolding addr_plus [OF assms] by (auto simp: set_nx_def)
qed

text \<open>Only bytes at the addresses of \<open>R\<close> differ.\<close>

definition writes :: "nat set \<Rightarrow> malloc_state \<Rightarrow> malloc_state \<Rightarrow> bool" where
  "writes R st st' \<longleftrightarrow> (\<forall>b. unat b \<notin> R \<longrightarrow> mem st' b = mem st b)"

lemma writes_refl [simp, intro]: "writes R st st"
  by (simp add: writes_def)

lemma writes_fields [simp]:
  "writes R st (st'\<lparr>flp := p\<rparr>) = writes R st st'" "writes R st (st'\<lparr>brkval := p\<rparr>) = writes R st st'"
  "writes R (st\<lparr>brkval := p\<rparr>) st' = writes R st st'"
  by (simp_all add: writes_def)

lemma writes_trans: "writes R st st' \<Longrightarrow> writes R st' st'' \<Longrightarrow> writes R st st''"
  by (simp add: writes_def)

lemma writes_mono: "writes R st st' \<Longrightarrow> R \<subseteq> R' \<Longrightarrow> writes R' st st'"
  by (auto simp: writes_def)

lemma writes_set:
  assumes "addr a"
  shows "{unat a..<unat a + 2} \<subseteq> R \<Longrightarrow> writes R st (set_sz a v st)"
    and "{unat a + 2..<unat a + 4} \<subseteq> R \<Longrightarrow> writes R st (set_nx a v st)"
proof -
  have "writes {unat a..<unat a + 2} st (set_sz a v st)" "writes {unat a + 2..<unat a + 4} st (set_nx a v st)"
    using mem_other [OF assms] by (auto simp: writes_def not_less not_le)
  then show "{unat a..<unat a + 2} \<subseteq> R \<Longrightarrow> writes R st (set_sz a v st)"
    and "{unat a + 2..<unat a + 4} \<subseteq> R \<Longrightarrow> writes R st (set_nx a v st)" by (blast intro: writes_mono)+
qed

text \<open>Addresses at least four bytes apart do not share fields.\<close>

definition spaced :: "u16 set \<Rightarrow> bool" where
  "spaced A \<longleftrightarrow> (\<forall>a \<in> A. addr a) \<and> (\<forall>a \<in> A. \<forall>b \<in> A. a \<noteq> b \<longrightarrow> unat a + 4 \<le> unat b \<or> unat b + 4 \<le> unat a)"

lemma spaced_fields:
  assumes "spaced A" and "a \<in> A" and "b \<in> A"
  shows "sz (set_sz a v st) b = (if a = b then v else sz st b)" "nx (set_nx a v st) b = (if a = b then v else nx st b)"
    and "sz (set_nx a v st) b = sz st b" "nx (set_sz a v st) b = nx st b"
proof -
  have ad: "addr a" "addr b" and ap: "a \<noteq> b \<longrightarrow> unat a + 4 \<le> unat b \<or> unat b + 4 \<le> unat a" using assms by (auto simp: spaced_def)
  have "a + 2 \<noteq> b" "a \<noteq> b + 2" using ap addr_plus [OF ad(1)] addr_plus [OF ad(2)] by auto
  then show "sz (set_sz a v st) b = (if a = b then v else sz st b)" "nx (set_nx a v st) b = (if a = b then v else nx st b)"
    and "sz (set_nx a v st) b = sz st b" "nx (set_sz a v st) b = nx st b"
    using ad by simp_all
qed

fun chunks :: "(u16 \<Rightarrow> u16) \<Rightarrow> nat \<Rightarrow> u16 list \<Rightarrow> nat \<Rightarrow> bool" where
  "chunks szf a [] e \<longleftrightarrow> a = e"
| "chunks szf a (x # xs) e \<longleftrightarrow> unat x = a \<and> addr x \<and> even (unat (szf x)) \<and> 2 \<le> unat (szf x)
     \<and> chunks szf (a + 2 + unat (szf x)) xs e"

lemma chunks_append: "chunks szf a (xs @ ys) e \<longleftrightarrow> (\<exists>m. chunks szf a xs m \<and> chunks szf m ys e)"
  by (induction xs arbitrary: a) auto

lemma chunks_cong: "(\<And>x. x \<in> set xs \<Longrightarrow> szf x = szf' x) \<Longrightarrow> chunks szf a xs e = chunks szf' a xs e"
  by (induction xs arbitrary: a) auto

lemma chunks_upd [simp]: "x \<notin> set xs \<Longrightarrow> chunks (szf(x := v)) a xs e = chunks szf a xs e"
  by (rule chunks_cong) auto

lemma chunks_le: "chunks szf a xs e \<Longrightarrow> a \<le> e"
  by (induction xs arbitrary: a) force+

lemma chunks_in:
  "chunks szf a xs e \<Longrightarrow> x \<in> set xs \<Longrightarrow> a \<le> unat x \<and> unat x + 2 + unat (szf x) \<le> e \<and> addr x \<and> even (unat (szf x)) \<and> 2 \<le> unat (szf x)"
  by (induction xs arbitrary: a) (auto dest: chunks_le, fastforce+)

text \<open>Two chunks do not overlap.\<close>

lemma chunks_apart:
  "chunks szf a xs e \<Longrightarrow> x \<in> set xs \<Longrightarrow> y \<in> set xs \<Longrightarrow> x \<noteq> y \<Longrightarrow>
     unat x + 2 + unat (szf x) \<le> unat y \<or> unat y + 2 + unat (szf y) \<le> unat x"
proof (induction xs arbitrary: a)
  case (Cons z zs)
  then have "chunks szf (a + 2 + unat (szf z)) zs e" "unat z = a" by simp_all
  then show ?case using Cons chunks_in [of szf "a + 2 + unat (szf z)" zs e] by (auto dest: chunks_in)
qed simp

lemma chunks_distinct: "chunks szf a xs e \<Longrightarrow> distinct xs"
proof (induction xs arbitrary: a)
  case (Cons z zs)
  then show ?case using chunks_in [of szf "a + 2 + unat (szf z)" zs e z] by auto
qed simp

lemma chunks_spaced: "chunks szf a xs e \<Longrightarrow> spaced (set xs)"
  unfolding spaced_def
proof (intro conjI ballI impI)
  fix x y
  assume c: "chunks szf a xs e" and x: "x \<in> set xs" and y: "y \<in> set xs" and "x \<noteq> y"
  then show "unat x + 4 \<le> unat y \<or> unat y + 4 \<le> unat x"
    using chunks_apart [OF c x y] chunks_in [OF c x] chunks_in [OF c y] by linarith
qed (auto dest: chunks_in)

text \<open>Two adjacent chunks become one, and one becomes two.\<close>

lemma chunks_merge:
  assumes c: "chunks szf a (us @ x # z # ws) e" and e: "e < 65536"
  shows "chunks (szf(x := szf x + (szf z + 2))) a (us @ x # ws) e"
    and "unat (szf x + (szf z + 2)) = unat (szf x) + 2 + unat (szf z)"
proof -
  have d: "distinct (us @ x # z # ws)" by (rule chunks_distinct [OF c])
  obtain m where m: "chunks szf a us m" "chunks szf m (x # z # ws) e" using c by (auto simp: chunks_append simp del: chunks.simps)
  have zz: "unat z = m + 2 + unat (szf x)" and "unat x = m" "addr x" "even (unat (szf x))" "even (unat (szf z))"
    and ws: "chunks szf (unat z + 2 + unat (szf z)) ws e" using m(2) by auto
  have "unat x + 2 + unat (szf x) + 2 + unat (szf z) \<le> e" using chunks_le [OF ws] zz \<open>unat x = m\<close> by simp
  then show s: "unat (szf x + (szf z + 2)) = unat (szf x) + 2 + unat (szf z)" using e by (simp add: unat_word_ariths)
  have "chunks (szf(x := szf x + (szf z + 2))) a us m" "chunks (szf(x := szf x + (szf z + 2))) (unat z + 2 + unat (szf z)) ws e"
    using m(1) ws d by simp_all
  then show "chunks (szf(x := szf x + (szf z + 2))) a (us @ x # ws) e"
    using s zz \<open>unat x = m\<close> \<open>addr x\<close> \<open>even (unat (szf x))\<close> \<open>even (unat (szf z))\<close>
    by (auto simp: chunks_append algebra_simps intro!: exI [of _ m])
qed

lemma chunks_split:
  assumes c: "chunks szf a (us @ x # ws) e" and e: "e < 65536"
    and len: "even (unat len)" "2 \<le> unat len" "unat len + 4 \<le> unat (szf x)"
  defines "y \<equiv> x + (szf x - len)"
  shows "chunks (szf(y := len, x := szf x - len - 2)) a (us @ x # y # ws) e"
    and "unat y = unat x + unat (szf x) - unat len" and "unat (szf x - len - 2) = unat (szf x) - unat len - 2"
proof -
  have d: "distinct (us @ x # ws)" by (rule chunks_distinct [OF c])
  obtain m where m: "chunks szf a us m" "chunks szf m (x # ws) e" using c by (auto simp: chunks_append simp del: chunks.simps)
  have x: "unat x = m" "addr x" "even (unat (szf x))" and ws: "chunks szf (m + 2 + unat (szf x)) ws e" using m(2) by auto
  have top: "unat x + 2 + unat (szf x) \<le> e" using chunks_le [OF ws] x(1) by simp
  have s: "unat (szf x - len) = unat (szf x) - unat len" using len(3) by (simp add: unat_sub_if')
  show y: "unat y = unat x + unat (szf x) - unat len" using s top e len(3) by (simp add: y_def unat_word_ariths)
  show s2: "unat (szf x - len - 2) = unat (szf x) - unat len - 2" using s len(3) by (simp add: unat_sub_if')
  have ay: "addr y" using x y top e len by (auto simp: addr_def)
  have "y \<notin> set us" using chunks_in [OF m(1), of y] y x(1) len(3) by auto
  have "y \<notin> set ws" using chunks_in [OF ws, of y] y x(1) len(3) by auto
  have "y \<noteq> x" using y len(3) by auto
  define f where "f = szf(y := len, x := szf x - len - 2)"
  have fx: "f x = szf x - len - 2" "f y = len" using \<open>y \<noteq> x\<close> by (simp_all add: f_def)
  have fus: "chunks f a us m" and fws: "chunks f (m + 2 + unat (szf x)) ws e"
    unfolding f_def using m(1) ws d \<open>y \<notin> set us\<close> \<open>y \<notin> set ws\<close> by simp_all
  have nxt: "m + 2 + unat (f x) = unat y" "unat y + 2 + unat len = m + 2 + unat (szf x)"
    using y s2 x(1) len(3) fx by simp_all
  have "even (unat (f x))" "2 \<le> unat (f x)" using s2 len x(3) fx by auto
  then have "chunks f m (x # y # ws) e" unfolding chunks.simps fx(2) nxt using x ay len(1,2) fws by blast
  then show "chunks (szf(y := len, x := szf x - len - 2)) a (us @ x # y # ws) e"
    using fus unfolding f_def chunks_append by blast
qed

section \<open>Invariant\<close>

fun fseg :: "(u16 \<Rightarrow> u16) \<Rightarrow> u16 \<Rightarrow> u16 list \<Rightarrow> u16 \<Rightarrow> bool" where
  "fseg nxf p [] q \<longleftrightarrow> p = q"
| "fseg nxf p (x # xs) q \<longleftrightarrow> p = x \<and> fseg nxf (nxf x) xs q"

definition ascending :: "u16 list \<Rightarrow> bool" where
  "ascending fs \<longleftrightarrow> sorted_wrt (\<lambda>a b. unat a < unat b) fs"

definition heap_brk :: "malloc_state \<Rightarrow> u16" where
  "heap_brk st = (if brkval st = 0 then malloc_heap_start st else brkval st)"

definition heap_inv :: "malloc_state \<Rightarrow> u16 list \<Rightarrow> u16 list \<Rightarrow> bool" where
  "heap_inv st xs fs \<longleftrightarrow> 0 < malloc_heap_start st \<and> even (unat (malloc_heap_start st))
     \<and> chunks (sz st) (unat (malloc_heap_start st)) xs (unat (heap_brk st))
     \<and> set fs \<subseteq> set xs \<and> ascending fs \<and> fseg (nx st) (flp st) fs 0"

lemma ascending_distinct: "ascending fs \<Longrightarrow> distinct fs"
  by (induction fs) (auto simp: ascending_def)

lemma ascending_sub: "ascending (ps @ x # ss) \<Longrightarrow> ascending (ps @ ss)"
  by (auto simp: ascending_def sorted_wrt_append)

lemma fseg_cong: "(\<And>x. x \<in> set fs \<Longrightarrow> f x = g x) \<Longrightarrow> fseg f p fs q = fseg g p fs q"
  by (induction fs arbitrary: p) auto

lemma fseg_append: "fseg f p (as @ bs) q \<longleftrightarrow> (\<exists>m. fseg f p as m \<and> fseg f m bs q)"
  by (induction as arbitrary: p) auto

lemma fseg_upd [simp]: "x \<notin> set fs \<Longrightarrow> fseg (f(x := v)) p fs q = fseg f p fs q"
  by (rule fseg_cong) auto

lemma fseg_redirect: "fseg f p (as @ [x]) m \<Longrightarrow> distinct (as @ [x]) \<Longrightarrow> fseg (f(x := v)) p (as @ [x]) v"
  by (auto simp: fseg_append)

lemma fseg_head: "fseg f p fs 0 \<Longrightarrow> 0 \<notin> set fs \<Longrightarrow> p = (if fs = [] then 0 else hd fs)"
  by (cases fs) auto

text \<open>The last element, or \<open>NULL\<close>.\<close>

definition lastz :: "u16 list \<Rightarrow> u16" where
  "lastz ps = (if ps = [] then 0 else last ps)"

lemma lastz_simps [simp]: "lastz [] = 0" "lastz (ps @ [x]) = x" "ps \<noteq> [] \<Longrightarrow> lastz ps = last ps"
  by (simp_all add: lastz_def)

lemma heap_invD:
  assumes "heap_inv st xs fs"
  shows "spaced (set xs)" "distinct xs" "distinct fs" "0 \<notin> set xs" "set fs \<subseteq> set xs"
    "chunks (sz st) (unat (malloc_heap_start st)) xs (unat (heap_brk st))" "ascending fs" "fseg (nx st) (flp st) fs 0"
  using assms chunks_in [of "sz st" "unat (malloc_heap_start st)" xs "unat (heap_brk st)" 0]
  by (auto simp: heap_inv_def ascending_distinct intro: chunks_spaced chunks_distinct) (simp add: addr_def)

section \<open>malloc\<close>

text \<open>The state of the walk after the entries \<open>pre\<close>: the best fit among them, with its predecessor.\<close>

definition best_fit :: "malloc_state \<Rightarrow> u16 \<Rightarrow> u16 list \<Rightarrow> u16 \<Rightarrow> u16 \<Rightarrow> u16 \<Rightarrow> bool" where
  "best_fit st len pre s sfp1 sfp2 \<longleftrightarrow>
     (if s = 0 then \<forall>x \<in> set pre. sz st x < len
      else len < s \<and> (\<forall>x \<in> set pre. sz st x < len \<or> s \<le> sz st x)
        \<and> (\<exists>ps ss. pre = ps @ sfp1 # ss \<and> sfp2 = lastz ps \<and> s = sz st sfp1))"

lemma best_fit_smaller: "best_fit st len pre s a b \<Longrightarrow> sz st x < len \<Longrightarrow> best_fit st len (pre @ [x]) s a b"
  by (auto simp: best_fit_def split: if_splits) blast

lemma best_fit_larger: "best_fit st len pre s a b \<Longrightarrow> s \<noteq> 0 \<Longrightarrow> s \<le> sz st x \<Longrightarrow> best_fit st len (pre @ [x]) s a b"
  by (auto simp: best_fit_def split: if_splits) blast

lemma best_fit_better:
  "best_fit st len pre s a b \<Longrightarrow> s = 0 \<or> sz st x < s \<Longrightarrow> len < sz st x \<Longrightarrow> best_fit st len (pre @ [x]) (sz st x) x (lastz pre)"
  by (fastforce simp: best_fit_def split: if_splits)

definition walk_result :: "malloc_state \<Rightarrow> u16 \<Rightarrow> u16 list \<Rightarrow> walk \<Rightarrow> bool" where
  "walk_result st len fs w \<longleftrightarrow>
     (case w of
        Exact x b \<Rightarrow> sz st x = len \<and> (\<exists>ps ss. fs = ps @ x # ss \<and> b = lastz ps)
      | Best s a b \<Rightarrow> best_fit st len fs s a b)"

lemma malloc_walk_spec:
  "fseg (nx st) fp1 rest 0 \<Longrightarrow> 0 \<notin> set rest \<Longrightarrow> best_fit st len pre s a b \<Longrightarrow>
   \<exists>w. malloc_walk st len s fp1 (lastz pre) a b = Some w \<and> walk_result st len (pre @ rest) w"
proof (induction rest arbitrary: fp1 pre s a b)
  case Nil
  then show ?case by (subst malloc_walk.simps) (simp add: walk_result_def)
next
  case (Cons x rest)
  have x: "fp1 = x" "x \<noteq> 0" "fseg (nx st) (nx st x) rest 0" "0 \<notin> set rest" using Cons.prems by auto
  note IH = Cons.IH [OF x(3,4), where pre = "pre @ [x]", simplified]
  consider "sz st x < len" | "sz st x = len" | "len < sz st x" "s = 0 \<or> sz st x < s" | "len < sz st x" "s \<noteq> 0" "s \<le> sz st x"
    by (metis not_less_iff_gr_or_eq not_less)
  then show ?case
  proof cases
    case 1
    then show ?thesis using IH [OF best_fit_smaller [OF Cons.prems(3)]] x by (subst malloc_walk.simps) simp
  next
    case 2
    then show ?thesis using x by (subst malloc_walk.simps) (auto simp: walk_result_def)
  next
    case 3
    then show ?thesis using IH [OF best_fit_better [OF Cons.prems(3)]] x by (subst malloc_walk.simps) auto
  next
    case 4
    then show ?thesis using IH [OF best_fit_larger [OF Cons.prems(3)]] x by (subst malloc_walk.simps) auto
  qed
qed

lemma unlink_spec:
  assumes inv: "heap_inv st xs (ps @ x # ss)"
  defines "st' \<equiv> unlink x (lastz ps) st"
  shows "heap_inv st' xs (ps @ ss)" and "\<forall>y \<in> set xs. sz st' y = sz st y"
    and "writes (\<Union>y \<in> set ps. {unat y..<unat y + 2 + unat (sz st y)}) st st'"
proof -
  note i = heap_invD [OF inv]
  obtain m where m: "fseg (nx st) (flp st) ps m" "m = x" "fseg (nx st) (nx st x) ss 0"
    using i(8) by (auto simp: fseg_append)
  have "heap_inv st' xs (ps @ ss) \<and> (\<forall>y \<in> set xs. sz st' y = sz st y)
      \<and> writes (\<Union>y \<in> set ps. {unat y..<unat y + 2 + unat (sz st y)}) st st'"
  proof (cases ps rule: rev_cases)
    case Nil
    then show ?thesis using inv m i ascending_sub [OF i(7)]
      by (auto simp: st'_def unlink_def heap_inv_def heap_brk_def)
  next
    case (snoc qs z)
    have z: "z \<in> set xs" "z \<noteq> 0" using i(4,5) snoc by auto
    have st': "st' = set_nx z (nx st x) st" using z snoc by (simp add: st'_def unlink_def)
    have f: "sz st' y = sz st y" "nx st' y = ((nx st)(z := nx st x)) y" if "y \<in> set xs" for y
      using spaced_fields [OF i(1) z(1) that] by (auto simp: st')
    have "fseg ((nx st)(z := nx st x)) (flp st) (qs @ [z]) (nx st x)" "z \<notin> set ss"
      using fseg_redirect [of "nx st" "flp st" qs z m] m i(3) snoc by auto
    then have "fseg ((nx st)(z := nx st x)) (flp st) (ps @ ss) 0" using m(3) snoc by (auto simp: fseg_append)
    moreover have "fseg (nx st') (flp st) (ps @ ss) 0 = fseg ((nx st)(z := nx st x)) (flp st) (ps @ ss) 0"
      using i(5) f(2) by (intro fseg_cong) auto
    moreover have "chunks (sz st') a xs e = chunks (sz st) a xs e" for a e by (rule chunks_cong [OF f(1)])
    ultimately have "heap_inv st' xs (ps @ ss)"
      using inv i(5) ascending_sub [OF i(7)] by (auto simp: heap_inv_def heap_brk_def st')
    moreover have "writes (\<Union>y \<in> set ps. {unat y..<unat y + 2 + unat (sz st y)}) st st'"
      unfolding st' using chunks_in [OF i(6) z(1)] snoc by (intro writes_set) auto
    ultimately show ?thesis using f(1) by blast
  qed
  then show "heap_inv st' xs (ps @ ss)" "\<forall>y \<in> set xs. sz st' y = sz st y"
    "writes (\<Union>y \<in> set ps. {unat y..<unat y + 2 + unat (sz st y)}) st st'" by blast+
qed

text \<open>The end of the memory the heap may grow into.\<close>

definition heap_limit :: "u16 \<Rightarrow> malloc_state \<Rightarrow> u16" where
  "heap_limit r1 st = (if malloc_heap_end st = 0 then r1 - malloc_margin st else malloc_heap_end st)"

text \<open>
  \<open>takes st xs fs c st' xs' fs'\<close>: the chunk \<open>c\<close> is allocated in addition to the chunks that were, and their bytes
  are untouched.
\<close>

definition keeps :: "u16 set \<Rightarrow> malloc_state \<Rightarrow> malloc_state \<Rightarrow> bool" where
  "keeps A st st' \<longleftrightarrow> (\<forall>a \<in> A. sz st' a = sz st a
     \<and> (\<forall>b. unat a \<le> unat b \<and> unat b < unat a + 2 + unat (sz st a) \<longrightarrow> mem st' b = mem st b))"

lemma fields_writes:
  assumes "addr x" and "writes R st st'"
  shows "{unat x..<unat x + 2} \<inter> R = {} \<Longrightarrow> sz st' x = sz st x" and "{unat x + 2..<unat x + 4} \<inter> R = {} \<Longrightarrow> nx st' x = nx st x"
proof -
  have e: "even (unat x)" "even (unat (x + 2))" and p: "unat (x + 2) = unat x + 2"
    using assms(1) addr_plus [OF assms(1)] by (simp_all add: addr_def)
  have n: "unat (x + 1) = unat x + 1" "unat (x + 2 + 1) = unat x + 3" using unat_Suc_even [OF e(1)] unat_Suc_even [OF e(2)] p by simp_all
  have w: "mem st' b = mem st b" if "unat b \<notin> R" for b using assms(2) that by (simp add: writes_def)
  show "sz st' x = sz st x" if "{unat x..<unat x + 2} \<inter> R = {}"
  proof -
    have "unat x \<notin> R" "unat x + 1 \<notin> R" using that by (auto simp: disjoint_iff)
    then show ?thesis using w [of x] w [of "x + 1"] n(1) by (simp add: sz_def load16_def even_addr_even even_or_1 e)
  qed
  show "nx st' x = nx st x" if "{unat x + 2..<unat x + 4} \<inter> R = {}"
  proof -
    have "unat x + 2 \<notin> R" "unat x + 3 \<notin> R" using that by (auto simp: disjoint_iff)
    then show ?thesis using w [of "x + 2"] w [of "x + 2 + 1"] n(2) p by (simp add: nx_def load16_def even_addr_even even_or_1 e)
  qed
qed

lemma keepsI:
  assumes w: "writes (- (\<Union>y \<in> A. {unat y..<unat y + 2 + unat (sz st y)})) st st'" and a: "\<forall>a \<in> A. addr a"
  shows "keeps A st st'"
  unfolding keeps_def
proof (intro ballI conjI allI impI)
  fix x
  assume x: "x \<in> A"
  have "{unat x..<unat x + 2} \<subseteq> {unat x..<unat x + 2 + unat (sz st x)}" by auto
  then show "sz st' x = sz st x" using a x by (intro fields_writes(1) [OF _ w]) blast+
  fix b :: u16
  assume "unat x \<le> unat b \<and> unat b < unat x + 2 + unat (sz st x)"
  then show "mem st' b = mem st b" using w x by (auto simp: writes_def)
qed

lemma keeps_trans: "keeps A st st' \<Longrightarrow> keeps A st' st'' \<Longrightarrow> keeps A st st''"
  by (simp add: keeps_def)

lemma keeps_fields [simp]:
  "keeps A st (st'\<lparr>flp := p\<rparr>) = keeps A st st'" "keeps A (st\<lparr>flp := p\<rparr>) st' = keeps A st st'"
  "keeps A st (st'\<lparr>brkval := p\<rparr>) = keeps A st st'"
  by (simp_all add: keeps_def)

lemma keeps_refl [simp]: "keeps A st st"
  by (simp add: keeps_def)

definition takes :: "malloc_state \<Rightarrow> u16 list \<Rightarrow> u16 list \<Rightarrow> u16 \<Rightarrow> malloc_state \<Rightarrow> u16 list \<Rightarrow> u16 list \<Rightarrow> bool" where
  "takes st xs fs c st' xs' fs' \<longleftrightarrow> heap_inv st' xs' fs' \<and> c \<notin> set xs - set fs
     \<and> set xs' - set fs' = insert c (set xs - set fs)
     \<and> keeps (set xs - set fs) st st'"

lemma takesI:
  assumes "heap_inv st xs fs" and "heap_inv st' xs' fs'" and "c \<notin> set xs - set fs" and "set xs' - set fs' = insert c (set xs - set fs)"
    and "writes (- (\<Union>y \<in> set xs - set fs. {unat y..<unat y + 2 + unat (sz st y)})) st st'"
  shows "takes st xs fs c st' xs' fs'"
  using assms keepsI [OF assms(5)] heap_invD(1) [OF assms(1)] by (auto simp: takes_def spaced_def)

lemma chunks_even: "chunks szf a xs e \<Longrightarrow> even a \<Longrightarrow> even e"
  by (induction xs arbitrary: a) auto

lemma heap_brk_0: "heap_inv st xs fs \<Longrightarrow> 0 < unat (heap_brk st) \<and> even (unat (heap_brk st))"
  using chunks_even [of "sz st"] chunks_le [of "sz st"] by (fastforce simp: heap_inv_def word_less_nat_alt)

lemma chunks_outside:
  assumes "chunks szf a xs e" and "y \<in> set xs" and "B \<subseteq> set xs" and "y \<notin> B"
  shows "{unat y..<unat y + 2 + unat (szf y)} \<subseteq> - (\<Union>y \<in> B. {unat y..<unat y + 2 + unat (szf y)})"
proof
  fix k
  assume k: "k \<in> {unat y..<unat y + 2 + unat (szf y)}"
  have "k \<notin> {unat z..<unat z + 2 + unat (szf z)}" if "z \<in> B" for z
  proof -
    have "z \<in> set xs" "y \<noteq> z" using that assms(3,4) by auto
    then show ?thesis using chunks_apart [OF assms(1,2)] k by fastforce
  qed
  then show "k \<in> - (\<Union>y \<in> B. {unat y..<unat y + 2 + unat (szf y)})" by blast
qed

lemma unlink_takes:
  assumes inv: "heap_inv st xs (ps @ x # ss)"
  shows "takes st xs (ps @ x # ss) x (unlink x (lastz ps) st) xs (ps @ ss)"
proof -
  note i = heap_invD [OF inv]
  have "(\<Union>y \<in> set ps. {unat y..<unat y + 2 + unat (sz st y)})
      \<subseteq> - (\<Union>y \<in> set xs - set (ps @ x # ss). {unat y..<unat y + 2 + unat (sz st y)})"
  proof (rule UN_least)
    fix y
    assume "y \<in> set ps"
    then show "{unat y..<unat y + 2 + unat (sz st y)}
      \<subseteq> - (\<Union>y \<in> set xs - set (ps @ x # ss). {unat y..<unat y + 2 + unat (sz st y)})"
      using i(5) by (intro chunks_outside [OF i(6)]) auto
  qed
  then show ?thesis
    using unlink_spec [OF inv] i(3,5) by (intro takesI [OF inv]) (auto intro: writes_mono)
qed

text \<open>Cutting the chunk \<open>x\<close> in two, of which the upper has \<open>len\<close> bytes.\<close>

lemma split_inv:
  assumes inv: "heap_inv st xs fs" and x: "x \<in> set xs"
    and len: "even (unat len)" "2 \<le> unat len" "unat len + 4 \<le> unat (sz st x)"
  defines "y \<equiv> x + (sz st x - len)"
  defines "st' \<equiv> set_sz x (sz st x - len - 2) (set_sz y len st)"
  shows "\<exists>xs'. heap_inv st' xs' fs \<and> set xs' = insert y (set xs) \<and> y \<notin> set xs"
    and "sz st' y = len" "sz st' x = sz st x - len - 2"
    and "unat y = unat x + unat (sz st x) - unat len" "unat (sz st x - len - 2) = unat (sz st x) - unat len - 2"
    and "writes ({unat x..<unat x + 2} \<union> {unat y..<unat y + 2}) st st'"
proof -
  note i = heap_invD [OF inv]
  obtain us ws where xs: "xs = us @ x # ws" using x by (meson split_list)
  define xs' where "xs' = us @ x # y # ws"
  note c = chunks_split [OF i(6) [unfolded xs] unat_lt_16 len, folded y_def xs'_def]
  show "unat y = unat x + unat (sz st x) - unat len" "unat (sz st x - len - 2) = unat (sz st x) - unat len - 2" by (fact c(2,3))+
  have sp: "spaced (set xs')" and d: "distinct xs'" using chunks_spaced [OF c(1)] chunks_distinct [OF c(1)] by simp_all
  have in': "x \<in> set xs'" "y \<in> set xs'" "set xs' = insert y (set xs)" "y \<notin> set xs" "x \<noteq> y" using d by (auto simp: xs'_def xs)
  have f: "sz st' z = ((sz st)(y := len, x := sz st x - len - 2)) z" "nx st' z = nx st z" if "z \<in> set xs'" for z
    using spaced_fields [OF sp in'(1) that] spaced_fields [OF sp in'(2) that] by (auto simp: st'_def)
  show "sz st' y = len" "sz st' x = sz st x - len - 2" using f(1) [OF in'(2)] f(1) [OF in'(1)] in'(5) by simp_all
  have b: "heap_brk st' = heap_brk st" "malloc_heap_start st' = malloc_heap_start st" "flp st' = flp st"
    by (simp_all add: st'_def heap_brk_def)
  have "chunks (sz st') a xs' e = chunks ((sz st)(y := len, x := sz st x - len - 2)) a xs' e" for a e
    by (rule chunks_cong [OF f(1)])
  moreover have "fseg (nx st') p fs 0 = fseg (nx st) p fs 0" for p by (rule fseg_cong) (use f(2) i(5) in'(3) in blast)
  ultimately have "heap_inv st' xs' fs" using inv c(1) in'(3) by (auto simp: heap_inv_def b)
  then show "\<exists>xs'. heap_inv st' xs' fs \<and> set xs' = insert y (set xs) \<and> y \<notin> set xs" using in'(3,4) by blast
  have "addr x" "addr y" using sp in' by (auto simp: spaced_def)
  then have "writes ({unat x..<unat x + 2} \<union> {unat y..<unat y + 2}) st (set_sz y len st)"
      "writes ({unat x..<unat x + 2} \<union> {unat y..<unat y + 2}) (set_sz y len st) st'"
    unfolding st'_def by (auto intro!: writes_set)
  then show "writes ({unat x..<unat x + 2} \<union> {unat y..<unat y + 2}) st st'" by (rule writes_trans)
qed

lemma split_takes:
  assumes inv: "heap_inv st xs fs" and x: "x \<in> set fs"
    and len: "even (unat len)" "2 \<le> unat len" "unat len + 4 \<le> unat (sz st x)"
  defines "y \<equiv> x + (sz st x - len)"
  shows "\<exists>xs'. takes st xs fs y (set_sz x (sz st x - len - 2) (set_sz y len st)) xs' fs"
    and "sz (set_sz x (sz st x - len - 2) (set_sz y len st)) y = len"
proof -
  note i = heap_invD [OF inv]
  have xx: "x \<in> set xs" using x i(5) by blast
  define st' where "st' = set_sz x (sz st x - len - 2) (set_sz y len st)"
  note sp = split_inv [OF inv xx len, folded y_def, folded st'_def]
  obtain xs' where xs': "heap_inv st' xs' fs" "set xs' = insert y (set xs)" "y \<notin> set xs" using sp(1) by blast
  have "{unat x..<unat x + 2} \<union> {unat y..<unat y + 2} \<subseteq> {unat x..<unat x + 2 + unat (sz st x)}" using sp(4) len by auto
  also have "\<dots> \<subseteq> - (\<Union>y \<in> set xs - set fs. {unat y..<unat y + 2 + unat (sz st y)})"
    using x by (intro chunks_outside [OF i(6) xx]) auto
  finally have "writes (- (\<Union>y \<in> set xs - set fs. {unat y..<unat y + 2 + unat (sz st y)})) st st'" using sp(6) by (blast intro: writes_mono)
  then have "takes st xs fs y st' xs' fs" using xs' i(5) by (intro takesI [OF inv]) auto
  then show "\<exists>xs'. takes st xs fs y (set_sz x (sz st x - len - 2) (set_sz y len st)) xs' fs"
    and "sz (set_sz x (sz st x - len - 2) (set_sz y len st)) y = len" using sp(2) by (auto simp: st'_def)
qed

text \<open>The new block overlaps none of the others.\<close>

lemma takes_apart:
  assumes "takes st xs fs c st' xs' fs'"
  shows "c + 2 \<noteq> 0" "y \<in> set xs - set fs \<Longrightarrow> unat y + 2 + unat (sz st y) \<le> unat c \<or> unat c + 2 + unat (sz st' c) \<le> unat y"
proof -
  have t: "heap_inv st' xs' fs'" "c \<notin> set xs - set fs" "set xs' - set fs' = insert c (set xs - set fs)" "keeps (set xs - set fs) st st'"
    using assms by (auto simp: takes_def)
  have c: "c \<in> set xs'" using t(3) by blast
  note i = heap_invD [OF t(1)]
  show "c + 2 \<noteq> 0" using addr_plus [of c] i(1) c by (auto simp: spaced_def)
  assume y: "y \<in> set xs - set fs"
  then have "y \<in> set xs'" "y \<noteq> c" "sz st' y = sz st y" using t(2-4) by (auto simp: keeps_def)
  then show "unat y + 2 + unat (sz st y) \<le> unat c \<or> unat c + 2 + unat (sz st' c) \<le> unat y"
    using chunks_apart [OF i(6) \<open>y \<in> set xs'\<close> c] by simp
qed

text \<open>Both tests of the code are needed: the second alone would accept sizes that wrap around.\<close>

lemma extend_cond:
  assumes "0 < unat c" and "even (unat c)"
  shows "lim \<le> c \<or> \<not> (lim - c \<ge> len \<and> lim - c \<ge> len + 2) \<longleftrightarrow> unat (lim :: u16) < unat c + unat len + 2"
proof (cases "lim \<le> c")
  case False
  then have "unat (lim - c) = unat lim - unat c" "unat c < unat lim" by (simp_all add: unat_sub_if' word_le_nat_alt)
  then show ?thesis using False assms unat_lt_16 [of lim] unat_lt_16 [of len]
    by (auto simp: word_le_nat_alt unat_word_ariths mod_if split: if_splits)
qed (simp add: word_le_nat_alt)

lemma grow_takes:
  assumes inv: "heap_inv st xs fs" and len: "even (unat len)" "2 \<le> unat len"
    and c: "c = heap_brk st" and room: "unat c + unat len + 2 < 65536"
  defines "st' \<equiv> set_sz c len (st\<lparr>brkval := c + (len + 2)\<rparr>)"
  shows "takes st xs fs c st' (xs @ [c]) fs" and "sz st' c = len"
proof -
  note i = heap_invD [OF inv]
  have c0: "0 < unat c" "even (unat c)" using heap_brk_0 [OF inv] c by simp_all
  have nb: "unat (c + (len + 2)) = unat c + unat len + 2" using room by (simp add: unat_word_ariths)
  then have brk: "heap_brk st' = c + (len + 2)" using c0 by (auto simp: heap_brk_def st'_def)
  have ac: "addr c" using c0 room len by (simp add: addr_def)
  have "c \<notin> set xs" using chunks_in [OF i(6), of c] c by auto
  then have "chunks ((sz st)(c := len)) (unat (malloc_heap_start st)) xs (unat c)" using i(6) c by simp
  then have cs: "chunks ((sz st)(c := len)) (unat (malloc_heap_start st)) (xs @ [c]) (unat (heap_brk st'))"
    using ac len nb brk by (auto simp: chunks_append intro!: exI [of _ "unat c"])
  note sp = chunks_spaced [OF cs]
  have f: "sz st' z = ((sz st)(c := len)) z" "nx st' z = nx st z" if "z \<in> set (xs @ [c])" for z
    using spaced_fields [OF sp _ that, of c] by (auto simp: st'_def)
  then show "sz st' c = len" by simp
  have "chunks (sz st') a (xs @ [c]) e = chunks ((sz st)(c := len)) a (xs @ [c]) e" for a e by (rule chunks_cong [OF f(1)])
  moreover have "fseg (nx st') p fs 0 = fseg (nx st) p fs 0" for p by (rule fseg_cong) (use f(2) i(5) in auto)
  moreover have "malloc_heap_start st' = malloc_heap_start st" "flp st' = flp st" by (simp_all add: st'_def)
  ultimately have inv': "heap_inv st' (xs @ [c]) fs" using inv cs by (auto simp: heap_inv_def)
  have "{unat c..<unat c + 2} \<subseteq> - (\<Union>y \<in> set xs - set fs. {unat y..<unat y + 2 + unat (sz st y)})"
    using chunks_in [OF i(6)] c by fastforce
  then have "writes (- (\<Union>y \<in> set xs - set fs. {unat y..<unat y + 2 + unat (sz st y)})) (st\<lparr>brkval := c + (len + 2)\<rparr>) st'"
    unfolding st'_def by (intro writes_set ac)
  then show "takes st xs fs c st' (xs @ [c]) fs" using \<open>c \<notin> set xs\<close> i(5) by (intro takesI [OF inv inv']) auto
qed

lemma malloc_extend_eq:
  assumes "heap_inv st xs fs" and "c = heap_brk st"
  shows "malloc_extend r1 len st =
    (if unat c + unat len + 2 \<le> unat (heap_limit r1 st) then (c + 2, set_sz c len (st\<lparr>brkval := c + (len + 2)\<rparr>))
     else (0, if brkval st = 0 then st\<lparr>brkval := malloc_heap_start st\<rparr> else st))"
proof -
  have c0: "0 < unat c" "even (unat c)" using heap_brk_0 [OF assms(1)] assms(2) by simp_all
  define lim where "lim = heap_limit r1 st"
  have "malloc_extend r1 len st = (if lim \<le> c \<or> \<not> (lim - c \<ge> len \<and> lim - c \<ge> len + 2)
      then (0, if brkval st = 0 then st\<lparr>brkval := malloc_heap_start st\<rparr> else st)
      else (c + 2, set_sz c len (st\<lparr>brkval := c + (len + 2)\<rparr>)))"
    by (auto simp: malloc_extend_def Let_def lim_def heap_limit_def sizeof_size_t_def assms(2) heap_brk_def)
  then show ?thesis unfolding extend_cond [OF c0] lim_def by (simp add: not_less)
qed

lemma extend_takes:
  assumes inv: "heap_inv st xs fs" and len: "even (unat len)" "2 \<le> unat len"
  shows "if unat (heap_brk st) + unat len + 2 \<le> unat (heap_limit r1 st)
    then \<exists>c st'. malloc_extend r1 len st = (c + 2, st') \<and> sz st' c = len \<and> takes st xs fs c st' (xs @ [c]) fs
    else \<exists>st'. malloc_extend r1 len st = (0, st') \<and> heap_inv st' xs fs \<and> mem st' = mem st"
proof (cases "unat (heap_brk st) + unat len + 2 \<le> unat (heap_limit r1 st)")
  case True
  then show ?thesis
    using grow_takes [OF inv len refl] malloc_extend_eq [OF inv refl, of r1 len] unat_lt_16 [of "heap_limit r1 st"] by auto
next
  case False
  have "heap_inv (if brkval st = 0 then st\<lparr>brkval := malloc_heap_start st\<rparr> else st) xs fs"
    using inv by (auto simp: heap_inv_def heap_brk_def)
  then show ?thesis using malloc_extend_eq [OF inv refl, of r1 len] False by auto
qed

text \<open>
  A request for an even number of bytes gets a chunk that is large enough, from the free list or above the break,
  unless neither has room; then only the initial value of the break may be set.
\<close>

definition request :: "u16 \<Rightarrow> u16" where
  "request len = (if len < 2 then 2 else len)"

lemma malloc_walk_choice:
  "malloc r1 len st =
     (case malloc_walk st (request len) 0 (flp st) 0 0 0 of
        None \<Rightarrow> None
      | Some (Exact x b) \<Rightarrow> Some (x + 2, unlink x b st)
      | Some (Best s a b) \<Rightarrow>
          if s = 0 then Some (malloc_extend r1 (request len) st)
          else if s - request len < 4 then Some (a + 2, unlink a b st)
          else Some (a + (s - request len) + 2,
            set_sz a (s - request len - 2) (set_sz (a + (s - request len)) (request len) st)))"
  by (simp add: malloc_def request_def sizeof_freelist_def sizeof_size_t_def Let_def split: option.split walk.split)

lemma malloc_spec:
  assumes inv: "heap_inv st xs fs" and ev: "even (unat len)"
  defines "n \<equiv> unat (request len)"
  shows "\<exists>p st'. malloc r1 len st = Some (p, st') \<and>
    (if (\<exists>x \<in> set fs. n \<le> unat (sz st x)) \<or> unat (heap_brk st) + n + 2 \<le> unat (heap_limit r1 st)
     then \<exists>c xs' fs'. p = c + 2 \<and> n \<le> unat (sz st' c) \<and> takes st xs fs c st' xs' fs'
     else p = 0 \<and> heap_inv st' xs fs \<and> mem st' = mem st)"
proof -
  note i = heap_invD [OF inv]
  have n: "even n" "2 \<le> n" using ev by (auto simp: n_def request_def word_less_nat_alt)
  have z: "0 \<notin> set fs" using i(4,5) by blast
  obtain w where w: "malloc_walk st (request len) 0 (flp st) 0 0 0 = Some w" "walk_result st (request len) fs w"
    using malloc_walk_spec [OF i(8) z, of "request len" "[]" 0 0 0] by (auto simp: best_fit_def)
  have got: "takes st xs fs x (unlink x (lastz ps) st) xs (ps @ ss)" "sz (unlink x (lastz ps) st) x = sz st x"
    if "fs = ps @ x # ss" for ps x ss
    using unlink_takes [of st xs ps x ss] unlink_spec(2) [of st xs ps x ss] inv i(5) that by auto
  show ?thesis
  proof (cases w)
    case (Exact x b)
    then obtain ps ss where "sz st x = request len" "fs = ps @ x # ss" "b = lastz ps" using w(2) by (auto simp: walk_result_def)
    then show ?thesis using got [of ps x ss] w(1) Exact by (auto simp: malloc_walk_choice n_def)
  next
    case (Best s a b)
    then have bf: "best_fit st (request len) fs s a b" using w(2) by (simp add: walk_result_def)
    show ?thesis
    proof (cases "s = 0")
      case True
      then have small: "\<not> (\<exists>x \<in> set fs. n \<le> unat (sz st x))" using bf by (auto simp: best_fit_def n_def word_less_nat_alt)
      show ?thesis using extend_takes [OF inv n [unfolded n_def], of r1] small w(1) Best True
        by (auto simp: malloc_walk_choice n_def split: if_splits) blast
    next
      case False
      then obtain ps ss where s: "request len < s" "fs = ps @ a # ss" "b = lastz ps" "s = sz st a" using bf by (auto simp: best_fit_def)
      have fit: "\<exists>x \<in> set fs. n \<le> unat (sz st x)" using s by (auto simp: n_def word_less_nat_alt)
      show ?thesis
      proof (cases "s - request len < 4")
        case True
        then show ?thesis using got [OF s(2)] s w(1) Best False by (auto simp: malloc_walk_choice n_def word_less_nat_alt)
      next
        case False
        then have "unat (request len) + 4 \<le> unat (sz st a)" using s(1,4) by (simp add: word_less_nat_alt unat_sub_if')
        from split_takes [OF inv _ n [unfolded n_def] this] show ?thesis
          using False \<open>s \<noteq> 0\<close> s w(1) Best fit by (auto simp: malloc_walk_choice n_def)
      qed
    qed
  qed
qed

text \<open>
  A request for an odd number of bytes makes the next chunk start at an odd address; a word access
  ignores the lowest address bit, so that writing the size of that chunk overwrites the last byte of the
  block before it.
\<close>

lemma malloc_empty_list:
  assumes "flp st = 0"
  shows "malloc r1 len st = Some (malloc_extend r1 (request len) st)"
proof -
  have "malloc_walk st (request len) 0 0 0 0 0 = Some (Best 0 0 0)" by (subst malloc_walk.simps) simp
  then show ?thesis using assms by (simp add: malloc_walk_choice)
qed

lemma malloc_extend_raw:
  assumes "brkval st = c" and "c \<noteq> 0" and "unat c + unat len + 2 \<le> unat (heap_limit r1 st)"
  shows "malloc_extend r1 len st = (c + 2, set_sz c len (st\<lparr>brkval := c + (len + 2)\<rparr>))"
proof -
  have "unat (heap_limit r1 st - c) = unat (heap_limit r1 st) - unat c" using assms(3) by (simp add: unat_sub_if' word_le_nat_alt)
  moreover have "unat (len + 2) = unat len + 2" using assms(3) unat_lt_16 [of "heap_limit r1 st"] by (simp add: unat_word_ariths)
  ultimately have "\<not> heap_limit r1 st \<le> c" "len \<le> heap_limit r1 st - c" "len + 2 \<le> heap_limit r1 st - c"
    using assms(3) by (auto simp: word_le_nat_alt)
  then show ?thesis using assms(1,2) by (simp add: malloc_extend_def Let_def sizeof_size_t_def heap_limit_def)
qed

lemma malloc_odd_overwrites:
  assumes "flp st = 0" and "brkval st = c" and "0 < unat c" "even (unat c)" and "odd (unat len)" and "2 \<le> unat len" and "2 \<le> unat len2"
    and room: "unat c + unat len + unat len2 + 4 \<le> unat (heap_limit r1 st)"
  shows "\<exists>st1 st2. malloc r1 len st = Some (c + 2, st1) \<and> sz st1 c = len \<and> malloc r1 len2 st1 = Some (c + 2 + len + 2, st2)
    \<and> mem st2 (c + 2 + (len - 1)) = ucast len2"
proof -
  have rq: "request len = len" "request len2 = len2" using assms(6,7) by (auto simp: request_def word_less_nat_alt)
  define st1 where "st1 = set_sz c len (st\<lparr>brkval := c + (len + 2)\<rparr>)"
  define d where "d = c + (len + 2)"
  have d: "unat d = unat c + unat len + 2" using room unat_lt_16 [of "heap_limit r1 st"] by (simp add: d_def unat_word_ariths)
  have "c \<noteq> 0" using assms(3) by auto
  then have m1: "malloc r1 len st = Some (c + 2, st1)"
    using malloc_extend_raw [of st c len r1] malloc_empty_list [OF assms(1)] assms(2,3) room rq by (auto simp: st1_def)
  have "flp st1 = 0" "brkval st1 = d" "heap_limit r1 st1 = heap_limit r1 st" "d \<noteq> 0"
    using assms(1) d by (auto simp: st1_def d_def heap_limit_def)
  then have m2: "malloc r1 len2 st1 = Some (d + 2, set_sz d len2 (st1\<lparr>brkval := d + (len2 + 2)\<rparr>))"
    using malloc_extend_raw [of st1 d len2 r1] malloc_empty_list [of st1] room d rq by simp
  have "d = (d - 1) + 1" "unat (d - 1) = unat d - 1" using d by (simp_all add: unat_sub_if' \<open>d \<noteq> 0\<close> word_less_nat_alt)
  have ev: "even (unat (d - 1))" using d assms(4,5) \<open>unat (d - 1) = unat d - 1\<close> by simp
  have "even_addr d = d - 1"
  proof -
    have "even_addr ((d - 1) + 1) = d - 1"
      unfolding even_or_1 [OF ev, symmetric] even_addr_def using ev [unfolded even_unat_bit]
      by (intro bit_eqI) (auto simp: bit_and_iff bit_or_iff bit_not_iff bit_1_iff intro: ccontr)
    then show ?thesis by simp
  qed
  then have "mem (set_sz d len2 st') (d - 1) = ucast len2" for st'
    using even_or_1 [OF ev] by (simp add: set_sz_def store16_def)
  moreover have "c + 2 + (len - 1) = d - 1" "d + 2 = c + 2 + len + 2" by (simp_all add: d_def)
  moreover have "sz st1 c = len"
    using load16_store16 [of c c len] assms(4) by (simp add: st1_def set_sz_def sz_def)
  ultimately show ?thesis using m1 m2 by auto
qed

end
