(* ===== verification/Malloc_Free.thy ===== *)
theory Malloc_Free
  imports Malloc_Heap
begin

text \<open>
  \<open>free\<close> on the heap of \<open>Malloc_Heap\<close>: the chunk goes back to the free list in its place, joined with free neighbours,
  and a free chunk at the top is given back to the break.
\<close>

section \<open>Walks\<close>

text \<open>The walk splits the free list below and above the chunk.\<close>

lemma free_find_spec:
  "fseg (nx st) fp1 fs 0 \<Longrightarrow> 0 \<notin> set fs \<Longrightarrow>
   free_find st y fp1 (lastz pre) = Some (let hi = dropWhile (\<lambda>x. x < y) fs; lo = takeWhile (\<lambda>x. x < y) fs
     in (if hi = [] then 0 else hd hi, lastz (pre @ lo)))"
proof (induction fs arbitrary: fp1 pre)
  case Nil
  then show ?case by (subst free_find.simps) simp
next
  case (Cons x fs)
  then have x: "fp1 = x" "x \<noteq> 0" by auto
  show ?case
  proof (cases "x < y")
    case True
    then show ?thesis using Cons.IH [of "nx st x" "pre @ [x]"] Cons.prems x by (subst free_find.simps) simp
  next
    case False
    then show ?thesis using x by (subst free_find.simps) simp
  qed
qed

lemma free_last_spec:
  "fseg (nx st) p (fs @ [z]) 0 \<Longrightarrow> 0 \<notin> set fs \<Longrightarrow> z \<noteq> 0 \<Longrightarrow> free_last st p (lastz pre) = Some (z, lastz (pre @ fs))"
proof (induction fs arbitrary: p pre)
  case Nil
  then show ?case by (subst free_last.simps) simp
next
  case (Cons x fs)
  then have "p = x" "nx st x \<noteq> 0" by (auto simp: fseg_append) (cases fs; auto)
  then show ?case using Cons.IH [of "nx st x" "pre @ [x]"] Cons.prems by (subst free_last.simps) simp
qed

text \<open>Joining two adjacent free chunks that follow one another in the free list.\<close>

definition join :: "u16 \<Rightarrow> u16 \<Rightarrow> malloc_state \<Rightarrow> malloc_state" where
  "join x z st = (let st2 = set_sz x (sz st x + (sz st z + 2)) st in set_nx x (nx st2 z) st2)"

lemma chunks_next:
  assumes "chunks szf a xs e" and "x \<in> set xs" and "z \<in> set xs" and "unat x + 2 + unat (szf x) = unat z"
  shows "\<exists>us ws. xs = us @ x # z # ws"
proof -
  obtain us vs where xs: "xs = us @ x # vs" using assms(2) by (meson split_list)
  then obtain m where m: "chunks szf a us m" "unat x = m" "chunks szf (unat z) vs e"
    using assms(1,4) by (auto simp: chunks_append)
  have "z \<notin> set us" using chunks_in [OF m(1), of z] m(2) assms(4) by auto
  moreover have "z \<noteq> x" using assms(4) by auto
  ultimately have "vs \<noteq> []" using assms(3) xs by auto
  then obtain v ws where "vs = v # ws" by (cases vs) auto
  then have "v = z" using m(3) by (simp add: word_unat_eq_iff)
  then show ?thesis using xs \<open>vs = v # ws\<close> by blast
qed

lemma join_spec:
  assumes inv: "heap_inv st xs (ps @ x # z # ss)" and adj: "unat x + 2 + unat (sz st x) = unat z"
  shows "\<exists>xs'. heap_inv (join x z st) xs' (ps @ x # ss) \<and> set xs' = set xs - {z}"
    and "writes {unat x..<unat x + 2 + unat (sz st x)} st (join x z st)"
proof -
  note i = heap_invD [OF inv]
  have xz: "x \<in> set xs" "z \<in> set xs" "x \<noteq> z" using i(3,5) by auto
  then obtain us ws where xs: "xs = us @ x # z # ws" using chunks_next [OF i(6)] adj by blast
  note c = chunks_merge [OF i(6) [unfolded xs] unat_lt_16]
  define v where "v = sz st x + (sz st z + 2)"
  define st' where "st' = join x z st"
  have f: "sz st' y = ((sz st)(x := v)) y" "nx st' y = ((nx st)(x := nx st z)) y" if "y \<in> set xs" for y
    using spaced_fields [OF i(1) xz(1) that] spaced_fields [OF i(1) xz(1) xz(2)] xz
    by (auto simp: st'_def join_def v_def Let_def)
  have "chunks (sz st') a (us @ x # ws) e = chunks ((sz st)(x := v)) a (us @ x # ws) e" for a e
    by (rule chunks_cong) (use f(1) xs in auto)
  then have cs: "chunks (sz st') (unat (malloc_heap_start st)) (us @ x # ws) (unat (heap_brk st))" using c(1) by (simp add: v_def)
  have seg: "fseg (nx st) (flp st) ps x" "nx st x = z" "fseg (nx st) (nx st z) ss 0" using i(8) by (auto simp: fseg_append)
  have "x \<notin> set ps" "x \<notin> set ss" using i(3) by auto
  then have "fseg ((nx st)(x := nx st z)) (flp st) (ps @ x # ss) 0" using seg by (auto simp: fseg_append)
  moreover have "fseg (nx st') (flp st) (ps @ x # ss) 0 = fseg ((nx st)(x := nx st z)) (flp st) (ps @ x # ss) 0"
    by (rule fseg_cong) (use f(2) i(5) in auto)
  moreover have "malloc_heap_start st' = malloc_heap_start st" "flp st' = flp st" "heap_brk st' = heap_brk st"
    by (simp_all add: st'_def join_def Let_def heap_brk_def)
  moreover have "set (us @ x # ws) = set xs - {z}" using i(2) xs by auto
  moreover have "ascending (ps @ x # ss)" using ascending_sub [of "ps @ [x]" z ss] i(7) by simp
  moreover have "z \<notin> set (ps @ x # ss)" using i(3) by auto
  ultimately have "heap_inv st' (us @ x # ws) (ps @ x # ss)" using inv cs i(5) by (auto simp: heap_inv_def)
  then show "\<exists>xs'. heap_inv (join x z st) xs' (ps @ x # ss) \<and> set xs' = set xs - {z}"
    using \<open>set (us @ x # ws) = set xs - {z}\<close> by (auto simp: st'_def)
  have a: "addr x" "2 \<le> unat (sz st x)" using chunks_in [OF i(6) xz(1)] by auto
  have "writes {unat x..<unat x + 2 + unat (sz st x)} st (set_sz x v st)"
    and "writes {unat x..<unat x + 2 + unat (sz st x)} (set_sz x v st) (join x z st)"
    unfolding join_def Let_def v_def [symmetric] using a by (auto intro: writes_set)
  then show "writes {unat x..<unat x + 2 + unat (sz st x)} st (join x z st)" by (rule writes_trans)
qed

lemma keeps_one:
  assumes "chunks (sz st) a xs e" and "x \<in> set xs" and "A \<subseteq> set xs" and "x \<notin> A"
    and "writes {unat x..<unat x + 2 + unat (sz st x)} st st'"
  shows "keeps A st st'"
  using assms chunks_in [OF assms(1)] writes_mono [OF assms(5) chunks_outside [OF assms(1-4)]] by (intro keepsI) auto

lemma join_upper_eq: "join_upper x z st = (let st1 = set_nx x z st in if (x + 2) + sz st1 x = z then join x z st1 else st1)"
  by (simp add: join_upper_def join_def sizeof_size_t_def Let_def)

lemma join_lower_eq: "join_lower y x st = join_upper x y st"
  by (simp add: join_lower_def join_upper_def)

lemma chunk_end:
  assumes "heap_inv st xs fs" and "x \<in> set xs"
  shows "unat (x + 2 + sz st x) = unat x + 2 + unat (sz st x)" "unat x + 2 + unat (sz st x) \<le> unat (heap_brk st)"
  using chunks_in [OF heap_invD(6) [OF assms(1)] assms(2)] unat_lt_16 [of "heap_brk st"] by (simp_all add: unat_word_ariths)

lemma join_upper_spec:
  assumes inv: "heap_inv (set_nx x z st) xs (ps @ x # z # ss)" and A: "A = set xs - set (ps @ x # z # ss)"
  shows "\<exists>xs' ss'. heap_inv (join_upper x z st) xs' (ps @ x # ss') \<and> set xs' - set (ps @ x # ss') = A
    \<and> set xs' \<subseteq> set xs \<and> set ss' \<subseteq> set (z # ss) \<and> keeps A (set_nx x z st) (join_upper x z st)"
proof (cases "(x + 2) + sz (set_nx x z st) x = z")
  case True
  note i = heap_invD [OF inv]
  have x: "x \<in> set xs" using i(5) by auto
  have "unat x + 2 + unat (sz (set_nx x z st) x) = unat z" using chunk_end(1) [OF inv x] True by simp
  note j = join_spec [OF inv this]
  obtain xs' where xs': "heap_inv (join x z (set_nx x z st)) xs' (ps @ x # ss)" "set xs' = set xs - {z}" using j(1) by blast
  have "A \<subseteq> set xs" "x \<notin> A" using A by auto
  then have k: "keeps A (set_nx x z st) (join x z (set_nx x z st))" using keeps_one [OF i(6) x _ _ j(2)] by blast
  have "join_upper x z st = join x z (set_nx x z st)" using True by (simp add: join_upper_eq Let_def)
  moreover have "set xs' - set (ps @ x # ss) = A" "set xs' \<subseteq> set xs" "set ss \<subseteq> set (z # ss)" using xs'(2) A by auto
  ultimately show ?thesis using xs'(1) k by metis
next
  case False
  then show ?thesis using inv A by (intro exI [of _ xs] exI [of _ "z # ss"]) (auto simp: join_upper_eq Let_def)
qed

text \<open>Prefix, suffix and link.\<close>

lemma heap_inv_suffix:
  assumes "heap_inv st xs (lo @ hi)"
  shows "heap_inv (st\<lparr>flp := (if hi = [] then 0 else hd hi)\<rparr>) xs hi" "fseg (nx st) (flp st) lo (if hi = [] then 0 else hd hi)"
  using assms by (cases hi; auto simp: heap_inv_def heap_brk_def fseg_append ascending_def sorted_wrt_append)+

lemma set_nx_other:
  assumes inv: "heap_inv st xs fs" and y: "y \<in> set xs" "y \<notin> set fs"
  shows "heap_inv (set_nx y v st) xs fs" "\<forall>x \<in> set xs. sz (set_nx y v st) x = sz st x" "\<forall>x \<in> set xs - {y}. nx (set_nx y v st) x = nx st x"
proof -
  note i = heap_invD [OF inv]
  have f: "sz (set_nx y v st) x = sz st x" "x \<noteq> y \<Longrightarrow> nx (set_nx y v st) x = nx st x" if "x \<in> set xs" for x
    using spaced_fields [OF i(1) y(1) that] by auto
  then show "\<forall>x \<in> set xs. sz (set_nx y v st) x = sz st x" "\<forall>x \<in> set xs - {y}. nx (set_nx y v st) x = nx st x" by auto
  have "chunks (sz (set_nx y v st)) a xs e = chunks (sz st) a xs e" for a e by (rule chunks_cong [OF f(1)])
  moreover have "fseg (nx (set_nx y v st)) p fs 0 = fseg (nx st) p fs 0" for p by (rule fseg_cong) (use f(2) i(5) y(2) in blast)
  ultimately show "heap_inv (set_nx y v st) xs fs" using inv by (auto simp: heap_inv_def heap_brk_def)
qed

lemma link_spec:
  assumes inv: "heap_inv (st\<lparr>flp := q\<rparr>) xs rest" and seg: "fseg (nx st) p (qs @ [x]) m"
    and sub: "set (qs @ [x]) \<subseteq> set xs" and asc: "ascending (qs @ x # rest)"
  shows "heap_inv ((set_nx x q st)\<lparr>flp := p\<rparr>) xs (qs @ x # rest)"
proof -
  have x: "x \<in> set xs" "x \<notin> set rest" "distinct (qs @ [x])" using sub ascending_distinct [OF asc] by auto
  define st1 where "st1 = set_nx x q (st\<lparr>flp := q\<rparr>)"
  note o = set_nx_other [OF inv x(1,2), of q, folded st1_def]
  have n: "nx st1 y = ((nx st)(x := q)) y" if "y \<in> set xs" for y
    using spaced_fields(2) [OF heap_invD(1) [OF inv] x(1) that, of q "st\<lparr>flp := q\<rparr>"] by (simp add: st1_def)
  have "fseg ((nx st)(x := q)) p (qs @ [x]) q" using fseg_redirect [OF seg x(3)] .
  moreover have "fseg (nx st1) p (qs @ [x]) q = fseg ((nx st)(x := q)) p (qs @ [x]) q" by (rule fseg_cong) (use n sub in blast)
  ultimately have "fseg (nx st1) p (qs @ [x]) q" by blast
  moreover have "fseg (nx st1) q rest 0" using heap_invD(8) [OF o(1)] by (simp add: st1_def)
  ultimately have "fseg (nx st1) p (qs @ x # rest) 0" by (auto simp: fseg_append)
  moreover have "set (qs @ x # rest) \<subseteq> set xs" using sub heap_invD(5) [OF inv] by auto
  ultimately have "heap_inv (st1\<lparr>flp := p\<rparr>) xs (qs @ x # rest)" using o(1) asc by (auto simp: heap_inv_def heap_brk_def)
  moreover have "st1\<lparr>flp := p\<rparr> = (set_nx x q st)\<lparr>flp := p\<rparr>" by (simp add: st1_def set_nx_def)
  ultimately show ?thesis by simp
qed

text \<open>The last free chunk is given back to the break when it ends there.\<close>

lemma chunks_last:
  assumes "chunks szf a xs e" and "z \<in> set xs" and "unat z + 2 + unat (szf z) = e"
  shows "\<exists>ys. xs = ys @ [z]"
proof -
  obtain ys ws where xs: "xs = ys @ z # ws" using assms(2) by (meson split_list)
  then have "chunks szf e ws e" using assms(1,3) by (auto simp: chunks_append)
  then have "ws = []" by (cases ws) (auto dest: chunks_le)
  then show ?thesis using xs by blast
qed

definition trim :: "u16 \<Rightarrow> u16 \<Rightarrow> malloc_state \<Rightarrow> malloc_state" where
  "trim top1 top2 st =
     (if (top1 + 2) + sz st top1 = brkval st
      then (if top2 = 0 then st\<lparr>flp := 0\<rparr> else set_nx top2 0 st)\<lparr>brkval := top1\<rparr> else st)"

lemma trim_spec:
  assumes inv: "heap_inv st xs (fs @ [z])" and A: "A = set xs - set (fs @ [z])"
  shows "\<exists>xs' fs'. heap_inv (trim z (lastz fs) st) xs' fs' \<and> set xs' - set fs' = A \<and> keeps A st (trim z (lastz fs) st)"
proof (cases "(z + 2) + sz st z = brkval st")
  case True
  note i = heap_invD [OF inv]
  have z: "z \<in> set xs" "z \<noteq> 0" using i(4,5) by auto
  define b where "b = (if lastz fs = 0 then st\<lparr>flp := 0\<rparr> else set_nx (lastz fs) 0 st)"
  have un: "b = unlink z (lastz fs) st" using i(8) by (auto simp: b_def unlink_def fseg_append)
  have inv': "heap_inv b xs fs" and szs: "\<forall>y \<in> set xs. sz b y = sz st y" and t: "takes st xs (fs @ [z]) z b xs fs"
    using unlink_spec(1,2) [of st xs fs z "[]"] unlink_takes [of st xs fs z "[]"] inv by (simp_all add: un)
  have br: "brkval b = brkval st" "malloc_heap_start b = malloc_heap_start st" by (auto simp: b_def)
  have fin: "unat z + 2 + unat (sz st z) = unat (brkval st)" using chunk_end(1) [OF inv z(1)] True by simp
  then have nz: "brkval st \<noteq> 0" by auto
  then obtain ys where ys: "xs = ys @ [z]" using chunks_last [OF i(6) z(1)] fin by (auto simp: heap_brk_def)
  have "chunks (sz b) (unat (malloc_heap_start st)) ys (unat z)"
    using heap_invD(6) [OF inv'] ys br by (auto simp: chunks_append)
  moreover have "set fs \<subseteq> set ys" using i(3,5) ys by auto
  ultimately have "heap_inv (b\<lparr>brkval := z\<rparr>) ys fs" using inv' z(2) br by (simp add: heap_inv_def heap_brk_def)
  moreover have "set ys - set fs = A" using A ys i(2,3) by auto
  moreover have "keeps A st b" using t A by (simp add: takes_def)
  moreover have "trim z (lastz fs) st = b\<lparr>brkval := z\<rparr>" using True by (simp add: trim_def b_def)
  ultimately show ?thesis by (metis keeps_fields(3))
next
  case False
  then show ?thesis using inv A by (intro exI [of _ xs] exI [of _ "fs @ [z]"]) (simp add: trim_def)
qed

lemma free_eq:
  assumes "p \<noteq> 0" and "flp st \<noteq> 0" and f: "free_find (set_nx (p - 2) 0 st) (p - 2) (flp st) 0 = Some (fp1, fp2)"
  shows "free p st =
     (let st1 = set_nx (p - 2) 0 st;
          st2 = (if fp1 \<noteq> 0 then join_upper (p - 2) fp1 st1 else st1);
          st3 = join_upper fp2 (p - 2) st2
      in if fp1 \<noteq> 0 \<and> fp2 = 0 then Some (st2\<lparr>flp := p - 2\<rparr>) else if fp2 = 0 then None
         else map_option (\<lambda>(t1, t2). trim t1 t2 st3) (free_last st3 (flp st3) 0))"
proof -
  define st2 where "st2 = (if fp1 \<noteq> 0 then join_upper (p - 2) fp1 (set_nx (p - 2) 0 st) else set_nx (p - 2) 0 st)"
  define st3 where "st3 = join_upper fp2 (p - 2) st2"
  have "free p st = (if fp1 \<noteq> 0 \<and> fp2 = 0 then Some (st2\<lparr>flp := p - 2\<rparr>) else if fp2 = 0 then None
      else (case free_last st3 (flp st3) 0 of None \<Rightarrow> None | Some (t1, t2) \<Rightarrow>
        Some (if (t1 + 2) + sz st3 t1 = brkval st3 then (if t2 = 0 then st3\<lparr>flp := 0\<rparr> else set_nx t2 0 st3)\<lparr>brkval := t1 + 2 - 2\<rparr> else st3)))"
    using assms unfolding st3_def st2_def
    by (cases "free_last st3 (flp st3) 0") (auto simp: free_def sizeof_size_t_def join_lower_eq Let_def st3_def st2_def)
  then show ?thesis
    unfolding Let_def st2_def [symmetric] st3_def [symmetric]
    by (cases "free_last st3 (flp st3) 0") (auto simp: trim_def)
qed

lemma ascending_around:
  assumes "ascending fs" and "y \<notin> set fs"
  shows "ascending (takeWhile (\<lambda>x. x < y) fs @ y # dropWhile (\<lambda>x. x < y) fs)"
  using assms
proof (induction fs)
  case (Cons x fs)
  have a: "ascending fs" "\<forall>z \<in> set fs. unat x < unat z" using Cons.prems by (simp_all add: ascending_def)
  show ?case
  proof (cases "x < y")
    case True
    then show ?thesis
      using Cons.IH [OF a(1)] Cons.prems(2) a(2)
      by (auto simp: ascending_def word_less_nat_alt dest: set_takeWhileD set_dropWhileD)
  next
    case False
    moreover have "unat x \<noteq> unat y" using Cons.prems(2) by (auto simp: word_unat_eq_iff)
    ultimately have "unat y < unat x" by (simp add: word_less_nat_alt)
    then show ?thesis using False Cons.prems(1) a(2) by (auto simp: ascending_def)
  qed
qed (simp add: ascending_def)

lemma keeps_nx:
  assumes "keeps A st st'" and "a \<in> A" and "addr a" and "2 \<le> unat (sz st a)"
  shows "nx st' a = nx st a"
proof -
  have "writes (- {unat a..<unat a + 2 + unat (sz st a)}) st st'" using assms(1,2) by (auto simp: keeps_def writes_def)
  then show ?thesis by (rule fields_writes(2) [OF assms(3)]) (use assms(4) in auto)
qed

lemma set_nx_keeps:
  assumes "heap_inv st xs fs" and "x \<in> set xs" and "A \<subseteq> set xs" and "x \<notin> A"
  shows "keeps A st (set_nx x v st)"
proof -
  note c = heap_invD(6) [OF assms(1)]
  have "addr x" "2 \<le> unat (sz st x)" using chunks_in [OF c assms(2)] by auto
  then have "writes {unat x..<unat x + 2 + unat (sz st x)} st (set_nx x v st)" by (intro writes_set) auto
  then show ?thesis by (rule keeps_one [OF c assms(2-4)])
qed

lemma join_upper_fields [simp]:
  "flp (join_upper x z st) = flp st" "join_upper x z (st\<lparr>flp := p\<rparr>) = (join_upper x z st)\<lparr>flp := p\<rparr>"
  by (simp_all add: join_upper_def Let_def set_nx_def set_sz_def sz_def nx_def)

text \<open>The first half of \<open>free\<close>: the chunk goes before the free chunks above it, joined with the first when they touch.\<close>

lemma free_upper:
  assumes inv: "heap_inv (st\<lparr>flp := (if hi = [] then 0 else hd hi)\<rparr>) xs hi" and y: "y \<in> set xs" and asc: "ascending (y # hi)"
    and A: "A = set xs - set (y # hi)"
  defines "st2 \<equiv> (if hi = [] then set_nx y 0 st else join_upper y (hd hi) (set_nx y 0 st))"
  shows "\<exists>xs2 hi2. heap_inv (st2\<lparr>flp := y\<rparr>) xs2 (y # hi2) \<and> set xs2 - set (y # hi2) = A \<and> set xs2 \<subseteq> set xs
    \<and> set hi2 \<subseteq> set hi \<and> keeps A st st2 \<and> flp st2 = flp st"
proof -
  have yh: "y \<notin> set hi" using ascending_distinct [OF asc] by simp
  define st1 where "st1 = set_nx y 0 st"
  have k1: "keeps A st st1" using set_nx_keeps [OF inv y, of A 0] A by (simp add: st1_def keeps_def set_nx_def sz_def)
  show ?thesis
  proof (cases hi)
    case Nil
    then have "heap_inv (st1\<lparr>flp := y\<rparr>) xs [y]" using link_spec [of 0 st xs "[]" y "[]" y "nx st y"] inv y asc by (simp add: st1_def)
    then show ?thesis using Nil k1 A by (intro exI [of _ xs] exI [of _ "[]"]) (simp add: st2_def st1_def)
  next
    case (Cons h hs)
    have inv1: "heap_inv (st1\<lparr>flp := h\<rparr>) xs hi"
      using set_nx_other(1) [OF inv y yh, of 0] Cons by (simp add: st1_def set_nx_flp)
    then have "heap_inv ((set_nx y h st1)\<lparr>flp := y\<rparr>) xs (y # h # hs)"
      using link_spec [of h st1 xs hi y "[]" y "nx st1 y"] y asc Cons by simp
    then have l: "heap_inv (set_nx y h (st1\<lparr>flp := y\<rparr>)) xs ([] @ y # h # hs)" by (simp add: set_nx_flp)
    obtain xs' ss' where j: "heap_inv (join_upper y h (st1\<lparr>flp := y\<rparr>)) xs' (y # ss')" "set xs' - set (y # ss') = A"
        "set xs' \<subseteq> set xs" "set ss' \<subseteq> set hi" "keeps A (set_nx y h (st1\<lparr>flp := y\<rparr>)) (join_upper y h (st1\<lparr>flp := y\<rparr>))"
      using join_upper_spec [OF l, of A] A Cons by auto
    have k2: "keeps A st1 (set_nx y h st1)"
      using set_nx_keeps [OF inv1 y, of A h] A by (simp add: keeps_def set_nx_def sz_def)
    have k3: "keeps A (set_nx y h st1) (join_upper y h st1)" using j(5) by (simp add: keeps_def set_nx_def sz_def)
    have "st2 = join_upper y h st1" using Cons by (simp add: st2_def st1_def)
    then show ?thesis using j(1-4) keeps_trans [OF k1 keeps_trans [OF k2 k3]]
      by (intro exI [of _ xs'] exI [of _ ss']) (simp add: st1_def)
  qed
qed

text \<open>The second half: the free chunk below is linked to it, joined when they touch, and the top of the heap is trimmed.\<close>

lemma free_lower:
  assumes inv: "heap_inv (st2\<lparr>flp := y\<rparr>) xs (y # hi)" and seg: "fseg (nx st2) (flp st2) (qs @ [l]) m"
    and sub: "set (qs @ [l]) \<subseteq> set xs" and asc: "ascending (qs @ l # y # hi)" and A: "A = set xs - set (qs @ l # y # hi)"
  shows "\<exists>t1 t2 xs' fs'. free_last (join_upper l y st2) (flp st2) 0 = Some (t1, t2)
    \<and> heap_inv (trim t1 t2 (join_upper l y st2)) xs' fs' \<and> set xs' - set fs' = A \<and> keeps A st2 (trim t1 t2 (join_upper l y st2))"
proof -
  have l: "l \<in> set xs" using sub by simp
  have "heap_inv ((set_nx l y st2)\<lparr>flp := flp st2\<rparr>) xs (qs @ l # y # hi)" by (rule link_spec [OF inv seg sub asc])
  then have "heap_inv (set_nx l y st2) xs (qs @ l # y # hi)" by (simp add: set_nx_def)
  from join_upper_spec [OF this A] obtain xs' ss' where j: "heap_inv (join_upper l y st2) xs' (qs @ l # ss')"
      "set xs' - set (qs @ l # ss') = A" "keeps A (set_nx l y st2) (join_upper l y st2)" by blast
  have k2: "keeps A st2 (set_nx l y st2)"
    using set_nx_keeps [OF inv l, of A y] A by (simp add: keeps_def set_nx_def sz_def)
  obtain F z where F: "qs @ l # ss' = F @ [z]" by (metis append_butlast_last_id append_is_Nil_conv list.distinct(1))
  note i = heap_invD [OF j(1) [unfolded F]]
  have "0 \<notin> set F" "z \<noteq> 0" using i(4,5) by auto
  then have "free_last (join_upper l y st2) (flp st2) 0 = Some (z, lastz F)"
    using free_last_spec [of "join_upper l y st2" "flp st2" F z "[]"] i(8) by simp
  moreover obtain xs3 fs3 where "heap_inv (trim z (lastz F) (join_upper l y st2)) xs3 fs3" "set xs3 - set fs3 = A"
      "keeps A (join_upper l y st2) (trim z (lastz F) (join_upper l y st2))"
    using trim_spec [OF j(1) [unfolded F], of A] j(2) F by auto
  ultimately show ?thesis using keeps_trans [OF k2 keeps_trans [OF j(3)]] by blast
qed

lemma free_only:
  assumes inv: "heap_inv st xs []" and y: "y \<in> set xs" and A: "A = set xs - {y}"
  shows "\<exists>st' xs' fs'. free (y + 2) st = Some st' \<and> heap_inv st' xs' fs' \<and> set xs' - set fs' = A \<and> keeps A st st'"
proof -
  have f0: "flp st = 0" using heap_invD(8) [OF inv] by simp
  define st2 where "st2 = set_nx y 0 st"
  have "st\<lparr>flp := 0\<rparr> = st" using f0 by simp
  then have link: "heap_inv (st2\<lparr>flp := y\<rparr>) xs ([] @ [y])"
    using link_spec [of 0 st xs "[]" y "[]" y "nx st y"] inv y by (simp add: st2_def ascending_def)
  have k: "keeps A st (st2\<lparr>flp := y\<rparr>)" using set_nx_keeps [OF inv y, of A 0] A by (simp add: st2_def)
  have "y + 2 \<noteq> 0" using addr_plus [of y] heap_invD(1) [OF inv] y by (auto simp: spaced_def)
  then have "free (y + 2) st = Some (trim y (lastz []) (st2\<lparr>flp := y\<rparr>))"
    using f0 by (auto simp: free_def sizeof_size_t_def Let_def trim_def st2_def)
  moreover obtain xs' fs' where "heap_inv (trim y (lastz []) (st2\<lparr>flp := y\<rparr>)) xs' fs'" "set xs' - set fs' = A"
      "keeps A (st2\<lparr>flp := y\<rparr>) (trim y (lastz []) (st2\<lparr>flp := y\<rparr>))"
    using trim_spec [OF link, of A] A by auto
  ultimately show ?thesis using keeps_trans [OF k] by blast
qed

lemma free_found:
  assumes inv: "heap_inv st xs fs" and y: "y \<in> set xs" "y \<notin> set fs" and ne: "fs \<noteq> []"
  defines "lo \<equiv> takeWhile (\<lambda>x. x < y) fs" and "hi \<equiv> dropWhile (\<lambda>x. x < y) fs"
  defines "st2 \<equiv> (if hi = [] then set_nx y 0 st else join_upper y (hd hi) (set_nx y 0 st))"
  shows "free (y + 2) st =
    (if lo = [] then Some (st2\<lparr>flp := y\<rparr>)
     else map_option (\<lambda>(t1, t2). trim t1 t2 (join_upper (last lo) y st2)) (free_last (join_upper (last lo) y st2) (flp st2) 0))"
proof -
  note i = heap_invD [OF inv]
  have fs: "fs = lo @ hi" by (simp add: lo_def hi_def)
  have z: "0 \<notin> set fs" "0 \<notin> set lo" "0 \<notin> set hi" using i(4,5) fs by auto
  have p: "y + 2 \<noteq> 0" "y + 2 - 2 = y" using addr_plus [of y] i(1) y by (auto simp: spaced_def)
  define h where "h = (if hi = [] then 0 else hd hi)"
  have f0: "flp st \<noteq> 0" using fseg_head [OF i(8) z(1)] ne z(1) by (cases fs) auto
  have "heap_inv (set_nx y 0 st) xs fs" by (rule set_nx_other(1) [OF inv y])
  from free_find_spec [OF heap_invD(8) [OF this] z(1), of y "[]"]
  have find: "free_find (set_nx y 0 st) y (flp st) 0 = Some (h, lastz lo)" by (simp add: lo_def hi_def h_def Let_def)
  have h0: "h = 0 \<longleftrightarrow> hi = []" using z(3) by (cases hi) (auto simp: h_def)
  have st2: "(if h \<noteq> 0 then join_upper y h (set_nx y 0 st) else set_nx y 0 st) = st2" using h0 by (auto simp: st2_def h_def)
  have l0: "lastz lo = 0 \<longleftrightarrow> lo = []" using z(2) by (cases lo rule: rev_cases) auto
  have "lo = [] \<Longrightarrow> hi \<noteq> []" using ne fs by auto
  then show ?thesis
    using free_eq [OF p(1) f0, unfolded p(2), OF find, unfolded Let_def st2] h0 l0 by (cases "lo = []") simp_all
qed

lemma free_spec:
  assumes inv: "heap_inv st xs fs" and y: "y \<in> set xs" "y \<notin> set fs" and A: "A = set xs - set fs - {y}"
  shows "\<exists>st' xs' fs'. free (y + 2) st = Some st' \<and> heap_inv st' xs' fs' \<and> set xs' - set fs' = A \<and> keeps A st st'"
proof (cases "fs = []")
  case True
  then show ?thesis using free_only [of st xs y A] assms by simp
next
  case False
  note i = heap_invD [OF inv]
  define lo hi where lh: "lo = takeWhile (\<lambda>x. x < y) fs" "hi = dropWhile (\<lambda>x. x < y) fs"
  have fs: "fs = lo @ hi" by (simp add: lh)
  have asc: "ascending (lo @ y # hi)" using ascending_around [OF i(7)] y by (simp add: lh)
  define st2 where "st2 = (if hi = [] then set_nx y 0 st else join_upper y (hd hi) (set_nx y 0 st))"
  note eq = free_found [OF inv y False, folded lh, folded st2_def]
  note suf = heap_inv_suffix [OF inv [unfolded fs]]
  have asch: "ascending (y # hi)" using asc by (simp add: ascending_def sorted_wrt_append)
  define B where "B = set xs - set (y # hi)"
  obtain xs2 hi2 where u: "heap_inv (st2\<lparr>flp := y\<rparr>) xs2 (y # hi2)" "set xs2 - set (y # hi2) = B"
      "set hi2 \<subseteq> set hi" "keeps B st st2" "flp st2 = flp st"
    using free_upper [OF suf(1) y(1) asch B_def, folded st2_def] by blast
  show ?thesis
  proof (cases lo rule: rev_cases)
    case Nil
    then have "B = A" "free (y + 2) st = Some (st2\<lparr>flp := y\<rparr>)" using A fs eq by (auto simp: B_def)
    moreover have "keeps A st (st2\<lparr>flp := y\<rparr>)" using u(4) \<open>B = A\<close> by simp
    ultimately show ?thesis using u(1,2) by blast
  next
    case (snoc qs l)
    have loB: "set lo \<subseteq> B" using i(5) fs ascending_distinct [OF asc] by (auto simp: B_def)
    have "fseg (nx st2) (flp st) lo m = fseg (nx st) (flp st) lo m" for m
    proof (rule fseg_cong)
      fix x
      assume "x \<in> set lo"
      then have "x \<in> B" "x \<in> set xs" using loB by (auto simp: B_def)
      then show "nx st2 x = nx st x" using keeps_nx [OF u(4)] chunks_in [OF i(6)] by blast
    qed
    then have seg: "fseg (nx st2) (flp st2) (qs @ [l]) (if hi = [] then 0 else hd hi)" using suf(2) u(5) snoc by simp
    have sub: "set (qs @ [l]) \<subseteq> set xs2" using loB u(2) snoc by auto
    have "ascending (y # hi2)" by (rule heap_invD(7) [OF u(1)])
    then have asc2: "ascending (qs @ l # y # hi2)" using asc u(3) snoc by (auto simp: ascending_def sorted_wrt_append)
    have A2: "A = set xs2 - set (qs @ l # y # hi2)" using u(2) A fs snoc by (auto simp: B_def)
    obtain t1 t2 xs' fs' where r: "free_last (join_upper l y st2) (flp st2) 0 = Some (t1, t2)"
        "heap_inv (trim t1 t2 (join_upper l y st2)) xs' fs'" "set xs' - set fs' = A" "keeps A st2 (trim t1 t2 (join_upper l y st2))"
      using free_lower [OF u(1) seg sub asc2 A2] by blast
    have "free (y + 2) st = Some (trim t1 t2 (join_upper l y st2))" using eq snoc r(1) by simp
    moreover have "keeps A st st2" using u(4) A fs by (auto simp: keeps_def B_def)
    ultimately show ?thesis using r(2,3) keeps_trans [OF _ r(4)] by blast
  qed
qed

end
