(* ===== verification/Malloc_Realloc.thy ===== *)
theory Malloc_Realloc
  imports Malloc_Free
begin

text \<open>
  \<open>realloc\<close> on the heap of \<open>Malloc_Heap\<close>, for even sizes: shrinking in place, growing into the free chunk above
  or above the break, and moving; and \<open>calloc\<close>.
\<close>

section \<open>Results\<close>

lemma keeps_mono: "keeps A st st' \<Longrightarrow> B \<subseteq> A \<Longrightarrow> keeps B st st'"
  by (auto simp: keeps_def)

text \<open>\<open>n\<close> bytes at \<open>p\<close> are found at \<open>q\<close> afterwards.\<close>

definition copied :: "u16 \<Rightarrow> u16 \<Rightarrow> nat \<Rightarrow> malloc_state \<Rightarrow> malloc_state \<Rightarrow> bool" where
  "copied p q n st st' \<longleftrightarrow> (\<forall>i < n. mem st' (q + of_nat i) = mem st (p + of_nat i))"

text \<open>
  The chunk \<open>y\<close> was replaced by the chunk of the block \<open>q\<close>: large enough, with the old contents, and
  nothing else allocated was touched.
\<close>

definition resized ::
    "malloc_state \<Rightarrow> u16 list \<Rightarrow> u16 list \<Rightarrow> u16 \<Rightarrow> u16 \<Rightarrow> u16 \<Rightarrow> malloc_state \<Rightarrow> bool" where
  "resized st xs fs y len q st' \<longleftrightarrow> q \<noteq> 0 \<and> len \<le> sz st' (q - 2) \<and> q - 2 \<notin> set xs - set fs - {y}
     \<and> keeps (set xs - set fs - {y}) st st' \<and> copied (y + 2) q (min (unat len) (unat (sz st y))) st st'
     \<and> (\<exists>xs' fs'. heap_inv st' xs' fs' \<and> set xs' - set fs' = insert (q - 2) (set xs - set fs - {y}))"

lemma block_addr:
  assumes "heap_inv st xs fs" and "y \<in> set xs"
  shows "unat (y + 2) = unat y + 2" "y + 2 - 2 = y" "y + 2 \<noteq> 0" "addr y" "even (unat (sz st y))" "2 \<le> unat (sz st y)"
    "unat y + 2 + unat (sz st y) < 65536"
proof -
  have c: "addr y" "even (unat (sz st y))" "2 \<le> unat (sz st y)" "unat y + 2 + unat (sz st y) \<le> unat (heap_brk st)"
    using chunks_in [OF heap_invD(6) [OF assms(1)] assms(2)] by auto
  then show "unat (y + 2) = unat y + 2" "y + 2 - 2 = y" "addr y" "even (unat (sz st y))" "2 \<le> unat (sz st y)"
    by (simp_all add: addr_plus)
  then show "y + 2 \<noteq> 0" "unat y + 2 + unat (sz st y) < 65536" using c(4) unat_lt_16 [of "heap_brk st"] by auto
qed

lemma copied_same:
  assumes "unat p + n \<le> 65536" and "\<And>b. unat p \<le> unat b \<Longrightarrow> unat b < unat p + n \<Longrightarrow> mem st' b = mem st b"
  shows "copied p p n st st'"
  unfolding copied_def
proof (intro allI impI)
  fix i
  assume "i < n"
  then have "unat (p + of_nat i) = unat p + i" using assms(1) by (simp add: unat_word_ariths unsigned_of_nat take_bit_eq_mod)
  then show "mem st' (p + of_nat i) = mem st (p + of_nat i)" using assms(2) \<open>i < n\<close> by simp
qed

text \<open>A result in place.\<close>

lemma resizedI:
  assumes inv: "heap_inv st xs fs" and y: "y \<in> set xs" "y \<notin> set fs" and len: "len \<le> sz st' y"
    and k: "keeps (set xs - set fs - {y}) st st'"
    and same: "\<And>b. unat y + 2 \<le> unat b \<Longrightarrow> unat b < unat y + 2 + min (unat len) (unat (sz st y)) \<Longrightarrow> mem st' b = mem st b"
    and inv': "heap_inv st' xs' fs'" and A: "set xs' - set fs' = set xs - set fs"
  shows "resized st xs fs y len (y + 2) st'"
proof -
  note b = block_addr [OF inv y(1)]
  have "copied (y + 2) (y + 2) (min (unat len) (unat (sz st y))) st st'"
    using b(1,7) same by (intro copied_same) auto
  moreover have "set xs' - set fs' = insert y (set xs - set fs - {y})" using A y by auto
  ultimately show ?thesis unfolding resized_def b(2) using b(3) len k inv' by blast
qed

section \<open>Shrinking\<close>

lemma realloc_shrink:
  assumes inv: "heap_inv st xs fs" and y: "y \<in> set xs" "y \<notin> set fs" and len: "even (unat len)" "2 \<le> unat len" "unat len + 4 \<le> unat (sz st y)"
  defines "cp \<equiv> y + 2 + len"
  shows "\<exists>st3. free (cp + 2) (set_sz y len (set_sz cp (sz st y - len - 2) st)) = Some st3 \<and> resized st xs fs y len (y + 2) st3"
proof -
  define r where "r = sz st y - len - 2"
  have ur: "unat r = unat (sz st y) - unat len - 2" using len(3) by (simp add: r_def unat_sub_if')
  note b = block_addr [OF inv y(1)]
  have r: "even (unat r)" "2 \<le> unat r" "unat r + 4 \<le> unat (sz st y)" using ur len b(5) by auto
  have e: "y + (sz st y - r) = cp" "sz st y - r - 2 = len" by (simp_all add: cp_def r_def)
  define st2 where "st2 = set_sz y len (set_sz cp r st)"
  note sp = split_inv [OF inv y(1) r, unfolded e, folded st2_def]
  obtain xs' where xs': "heap_inv st2 xs' fs" "set xs' = insert cp (set xs)" "cp \<notin> set xs" using sp(1) by blast
  have sub: "set fs \<subseteq> set xs" by (rule heap_invD(5) [OF inv])
  then have cp: "cp \<in> set xs'" "cp \<notin> set fs" "set xs - set fs = set xs' - set fs - {cp}" using xs'(2,3) by auto
  obtain st3 xs3 fs3 where f: "free (cp + 2) st2 = Some st3" "heap_inv st3 xs3 fs3" "set xs3 - set fs3 = set xs - set fs"
      "keeps (set xs - set fs) st2 st3"
    using free_spec [OF xs'(1) cp] by blast
  have "writes {unat y..<unat y + 2 + unat (sz st y)} st st2"
    by (rule writes_mono [OF sp(6)]) (use sp(4) ur len(3) in auto)
  then have "keeps (set xs - set fs - {y}) st st2" using y by (intro keeps_one [OF heap_invD(6) [OF inv] y(1)]) auto
  then have k: "keeps (set xs - set fs - {y}) st st3" using keeps_mono [OF f(4)] by (rule keeps_trans) blast
  have ky: "sz st3 y = len" "\<And>b. unat y \<le> unat b \<Longrightarrow> unat b < unat y + 2 + unat len \<Longrightarrow> mem st3 b = mem st2 b"
    using f(4) y sp(3) unfolding keeps_def by auto
  have "mem st3 b = mem st b" if "unat y + 2 \<le> unat b" "unat b < unat y + 2 + min (unat len) (unat (sz st y))" for b
  proof -
    have "unat b < unat cp" using sp(4) that ur len(3) by auto
    then have "mem st2 b = mem st b" using sp(6) that(1) by (auto simp: writes_def)
    then show ?thesis using ky(2) [of b] that by simp
  qed
  then have "resized st xs fs y len (y + 2) st3" using ky(1) by (intro resizedI [OF inv y _ k _ f(2,3)]) auto
  then show ?thesis using f(1) by (auto simp: st2_def r_def)
qed

section \<open>The walk\<close>

definition largest :: "malloc_state \<Rightarrow> u16 \<Rightarrow> u16 list \<Rightarrow> u16" where
  "largest st s fs = fold (\<lambda>x m. if sz st x > m then sz st x else m) fs s"

lemma realloc_walk_spec:
  "fseg (nx st) fp3 rest 0 \<Longrightarrow> 0 \<notin> set rest \<Longrightarrow>
   realloc_walk st z incr s (lastz pre) fp3 =
     (if z \<in> set rest \<and> sz st z + 2 \<ge> incr then Some (Above z (lastz (pre @ takeWhile (\<lambda>x. x \<noteq> z) rest)))
      else Some (Largest (largest st s rest)))"
proof (induction rest arbitrary: fp3 pre s)
  case Nil
  then show ?case by (subst realloc_walk.simps) (simp add: largest_def)
next
  case (Cons x rest)
  then have x: "fp3 = x" "x \<noteq> 0" by auto
  show ?case
  proof (cases "x = z \<and> sz st z + 2 \<ge> incr")
    case True
    then show ?thesis using x by (subst realloc_walk.simps) (simp add: sizeof_size_t_def)
  next
    case False
    have "realloc_walk st z incr s (lastz pre) fp3
        = realloc_walk st z incr (if sz st x > s then sz st x else s) (lastz (pre @ [x])) (nx st x)"
      using False x by (subst realloc_walk.simps) (auto simp: sizeof_size_t_def)
    then show ?thesis using Cons.IH [of "nx st x" "if sz st x > s then sz st x else s" "pre @ [x]"] Cons.prems x False
      by (auto simp: largest_def)
  qed
qed

section \<open>Growing\<close>

text \<open>An allocated chunk takes over the allocated chunk above it.\<close>

lemma merge_inv:
  assumes inv: "heap_inv st xs fs" and yz: "y \<in> set xs" "z \<in> set xs" "z \<notin> set fs" and adj: "unat y + 2 + unat (sz st y) = unat z"
  defines "st' \<equiv> set_sz y (sz st y + (sz st z + 2)) st"
  shows "\<exists>xs'. heap_inv st' xs' fs \<and> set xs' = set xs - {z}" and "unat (sz st' y) = unat (sz st y) + 2 + unat (sz st z)"
    and "writes {unat y..<unat y + 2} st st'"
proof -
  note i = heap_invD [OF inv]
  obtain us ws where xs: "xs = us @ y # z # ws" using chunks_next [OF i(6) yz(1,2) adj] by blast
  note c = chunks_merge [OF i(6) [unfolded xs] unat_lt_16]
  have f: "sz st' x = ((sz st)(y := sz st y + (sz st z + 2))) x" "nx st' x = nx st x" if "x \<in> set xs" for x
    using spaced_fields [OF i(1) yz(1) that] by (auto simp: st'_def)
  have "chunks (sz st') a (us @ y # ws) e = chunks ((sz st)(y := sz st y + (sz st z + 2))) a (us @ y # ws) e" for a e
    by (rule chunks_cong) (use f(1) xs in auto)
  then have cs: "chunks (sz st') (unat (malloc_heap_start st)) (us @ y # ws) (unat (heap_brk st))" using c(1) by simp
  moreover have "fseg (nx st') p fs 0 = fseg (nx st) p fs 0" for p by (rule fseg_cong) (use f(2) i(5) in blast)
  moreover have "malloc_heap_start st' = malloc_heap_start st" "flp st' = flp st" "heap_brk st' = heap_brk st"
    by (simp_all add: st'_def heap_brk_def)
  moreover have set: "set (us @ y # ws) = set xs - {z}" using i(2) xs by auto
  ultimately have "heap_inv st' (us @ y # ws) fs" using inv i(5) yz(3) by (auto simp: heap_inv_def)
  then show "\<exists>xs'. heap_inv st' xs' fs \<and> set xs' = set xs - {z}" using set by blast
  show "unat (sz st' y) = unat (sz st y) + 2 + unat (sz st z)" using f(1) [OF yz(1)] c(2) by simp
  show "writes {unat y..<unat y + 2} st st'" unfolding st'_def using block_addr(4) [OF inv yz(1)] by (intro writes_set) auto
qed

text \<open>Writes to different chunks commute.\<close>

lemma set_commute:
  assumes "spaced A" and "a \<in> A" and "b \<in> A" and "a \<noteq> b"
  shows "set_sz a v (set_nx b w st) = set_nx b w (set_sz a v st)"
proof -
  have ad: "addr a" "addr b" and ap: "unat a + 4 \<le> unat b \<or> unat b + 4 \<le> unat a" using assms by (auto simp: spaced_def)
  have e: "even (unat a)" "even (unat (b + 2))" "unat (b + 2) = unat b + 2" using ad addr_plus [of b] by (auto simp: addr_def)
  have "a \<noteq> b + 2" "a + 1 \<noteq> b + 2" "a \<noteq> b + 2 + 1" "a + 1 \<noteq> b + 2 + 1"
    unfolding word_unat_eq_iff unat_Suc_even [OF e(1)] unat_Suc_even [OF e(2)] e(3) using ap by linarith+
  then show ?thesis
    by (simp add: set_sz_def set_nx_def store16_def even_addr_even e(1,2) even_or_1 fun_upd_twist fun_eq_iff)
qed

lemma grow_whole:
  assumes inv: "heap_inv st xs (ps @ z # ss)" and y: "y \<in> set xs" "y \<notin> set (ps @ z # ss)"
    and adj: "unat y + 2 + unat (sz st y) = unat z" and len: "unat len \<le> unat (sz st y) + 2 + unat (sz st z)" "sz st y \<le> len"
  shows "resized st xs (ps @ z # ss) y len (y + 2) (unlink z (lastz ps) (set_sz y (sz st y + (sz st z + 2)) st))"
proof -
  note i = heap_invD [OF inv]
  have z: "z \<in> set xs" "z \<notin> set (ps @ ss)" using i(3,5) by auto
  define v where "v = sz st y + (sz st z + 2)"
  define u where "u = unlink z (lastz ps) st"
  define st' where "st' = set_sz y v u"
  note us = unlink_spec [OF inv, folded u_def]
  have t: "takes st xs (ps @ z # ss) z u xs (ps @ ss)" unfolding u_def by (rule unlink_takes [OF inv])
  have szu: "sz u y = sz st y" "sz u z = sz st z" using us(2) y z by auto
  have adj': "unat y + 2 + unat (sz u y) = unat z" using adj szu by simp
  note m = merge_inv [OF us(1) y(1) z adj', unfolded szu, folded v_def, folded st'_def]
  have eq: "unlink z (lastz ps) (set_sz y v st) = st'"
  proof (cases ps rule: rev_cases)
    case Nil
    then show ?thesis using spaced_fields(4) [OF i(1) y(1) z(1)] by (simp add: unlink_def st'_def u_def set_sz_def)
  next
    case (snoc qs l)
    then have l: "l \<in> set xs" "l \<noteq> 0" "y \<noteq> l" using i(4,5) y by auto
    then show ?thesis using spaced_fields(4) [OF i(1) y(1) z(1)] set_commute [OF i(1) y(1) l(1,3)] snoc
      by (simp add: unlink_def st'_def u_def)
  qed
  obtain xs' where xs': "heap_inv st' xs' (ps @ ss)" "set xs' = set xs - {z}" using m(1) by blast
  have ku: "keeps (set xs - set (ps @ z # ss)) st u" using t by (simp add: takes_def)
  have w: "writes {unat y..<unat y + 2 + unat (sz u y)} u st'" by (rule writes_mono [OF m(3)]) auto
  have "keeps (set xs - set (ps @ z # ss) - {y}) u st'" by (rule keeps_one [OF heap_invD(6) [OF us(1)] y(1) _ _ w]) auto
  moreover have "keeps (set xs - set (ps @ z # ss) - {y}) st u" by (rule keeps_mono [OF ku]) auto
  ultimately have k: "keeps (set xs - set (ps @ z # ss) - {y}) st st'" by (rule keeps_trans [rotated])
  have "mem st' b = mem st b" if "unat y + 2 \<le> unat b" "unat b < unat y + 2 + min (unat len) (unat (sz st y))" for b
  proof -
    have "mem st' b = mem u b" using m(3) that(1) by (auto simp: writes_def)
    also have "\<dots> = mem st b" using ku y that unfolding keeps_def by simp
    finally show ?thesis .
  qed
  then have "resized st xs (ps @ z # ss) y len (y + 2) st'"
    using m(2) len(1) xs' z by (intro resizedI [OF inv y _ k _ xs'(1)]) (auto simp: word_le_nat_alt)
  then show ?thesis using eq by (simp add: v_def)
qed

text \<open>The chunk above is larger than needed: its lower part is taken, the rest replaces it in the free list.\<close>

lemma fseg_replace:
  assumes f: "fseg f p (ps @ z # ss) 0" and "g w = f z" and "\<forall>x \<in> set ss. g x = f x" and "\<forall>x \<in> set (butlast ps). g x = f x"
    and "ps = [] \<Longrightarrow> p' = w" and "ps \<noteq> [] \<Longrightarrow> p' = p \<and> g (last ps) = w"
  shows "fseg g p' (ps @ w # ss) 0"
proof -
  have "fseg f (f z) ss 0" using f by (auto simp: fseg_append)
  then have ss: "fseg g (g w) ss 0" using assms(2,3) fseg_cong [of ss f g] by simp
  show ?thesis
  proof (cases ps rule: rev_cases)
    case Nil
    then show ?thesis using ss assms(5) by simp
  next
    case (snoc qs l)
    then have "fseg f p qs l" using f by (auto simp: fseg_append)
    then have "fseg g p qs l" using assms(4) snoc fseg_cong [of qs f g] by simp
    then show ?thesis using ss assms(6) snoc by (auto simp: fseg_append)
  qed
qed

lemma chunks_resplit:
  assumes c: "chunks szf a (us @ y # z # ws) e" and e: "e < 65536"
    and len: "even (unat len)" "unat (szf y) < unat len" "unat len + 2 \<le> unat (szf y) + unat (szf z)"
  defines "w \<equiv> y + 2 + len" and "r \<equiv> szf z - (len - szf y)"
  shows "chunks (szf(w := r, y := len)) a (us @ y # w # ws) e" and "unat w = unat y + 2 + unat len"
    and "unat r = unat (szf y) + unat (szf z) - unat len"
proof -
  note m = chunks_merge [OF c e]
  have sy: "even (unat (szf y))" "2 \<le> unat (szf y)" "even (unat (szf z))" "unat z = unat y + 2 + unat (szf y)"
    using c by (auto simp: chunks_append)
  have i: "unat (len - szf y) = unat len - unat (szf y)" using len(2) by (simp add: unat_sub_if')
  then have "unat r = unat (szf z) - (unat len - unat (szf y))" using len unfolding r_def by (subst unat_sub) (auto simp: word_le_nat_alt)
  then show r: "unat r = unat (szf y) + unat (szf z) - unat len" using len by linarith
  define f1 where "f1 = szf(y := szf y + (szf z + 2))"
  have f1: "f1 y = szf y + (szf z + 2)" "unat (f1 y) = unat (szf y) + 2 + unat (szf z)" using m(2) by (simp_all add: f1_def)
  have "even (unat r)" "2 \<le> unat r" "unat r + 4 \<le> unat (f1 y)" using r sy len f1 by auto
  note sp = chunks_split [OF m(1) [folded f1_def] e this]
  have eq: "y + (f1 y - r) = w" "f1 y - r - 2 = len" by (simp_all add: f1 r_def w_def)
  have "f1(w := r, y := len) = szf(w := r, y := len)" by (auto simp: f1_def fun_eq_iff)
  then show "chunks (szf(w := r, y := len)) a (us @ y # w # ws) e" using sp(1) unfolding eq by simp
  show "unat w = unat y + 2 + unat len" using sp(2) r f1(2) len(3) unfolding eq by simp
qed

lemma ascending_replace:
  assumes asc: "ascending (ps @ z # ss)" and zw: "unat z \<le> unat w" and ss: "\<forall>x \<in> set ss. unat w < unat x"
  shows "ascending (ps @ w # ss)"
  using assms by (auto simp: ascending_def sorted_wrt_append intro: less_le_trans)

definition relocate :: "u16 \<Rightarrow> u16 \<Rightarrow> u16 \<Rightarrow> u16 \<Rightarrow> u16 \<Rightarrow> u16 \<Rightarrow> malloc_state \<Rightarrow> malloc_state" where
  "relocate y len w r v l st =
     (let st3 = set_sz y len (set_sz w r (set_nx w v st)) in if l \<noteq> 0 then set_nx l w st3 else st3\<lparr>flp := w\<rparr>)"

lemma relocate_fields:
  assumes sp: "spaced A" and yw: "y \<in> A" "w \<in> A" "y \<noteq> w" and x: "x \<in> A" and l: "l \<noteq> 0 \<Longrightarrow> l \<in> A \<and> l \<noteq> y \<and> l \<noteq> w"
  shows "sz (relocate y len w r v l st) x = ((sz st)(w := r, y := len)) x"
    "nx (relocate y len w r v l st) x = (if l \<noteq> 0 \<and> x = l then w else ((nx st)(w := v)) x)"
proof -
  define st3 where "st3 = set_sz y len (set_sz w r (set_nx w v st))"
  have f: "sz st3 x = ((sz st)(w := r, y := len)) x" "nx st3 x = ((nx st)(w := v)) x"
    using spaced_fields [OF sp yw(1) x] spaced_fields [OF sp yw(2) x] yw(3) by (auto simp: st3_def)
  have r: "relocate y len w r v l st = (if l \<noteq> 0 then set_nx l w st3 else st3\<lparr>flp := w\<rparr>)" by (simp add: relocate_def st3_def)
  show "sz (relocate y len w r v l st) x = ((sz st)(w := r, y := len)) x"
    "nx (relocate y len w r v l st) x = (if l \<noteq> 0 \<and> x = l then w else ((nx st)(w := v)) x)"
    unfolding r using f spaced_fields(2,3) [OF sp _ x, of l] l by (cases "l = 0"; simp)+
qed

lemma relocate_globals:
  "malloc_heap_start (relocate y len w r v l st) = malloc_heap_start st" "heap_brk (relocate y len w r v l st) = heap_brk st"
  "flp (relocate y len w r v l st) = (if l \<noteq> 0 then flp st else w)"
  by (simp_all add: relocate_def Let_def heap_brk_def)

lemma relocate_writes:
  assumes "addr y" and "addr w" and "l \<noteq> 0 \<Longrightarrow> addr l \<and> {unat l + 2..<unat l + 4} \<subseteq> R"
    and "{unat y..<unat y + 2} \<subseteq> R" and "{unat w..<unat w + 4} \<subseteq> R"
  shows "writes R st (relocate y len w r v l st)"
proof -
  define s1 where "s1 = set_nx w v st"
  define s2 where "s2 = set_sz w r s1"
  define s3 where "s3 = set_sz y len s2"
  have "{unat w + 2..<unat w + 4} \<subseteq> R" "{unat w..<unat w + 2} \<subseteq> R" using assms(5) by auto
  then have "writes R st s1" "writes R s1 s2" "writes R s2 s3"
    unfolding s1_def s2_def s3_def using assms(1,2,4) by (blast intro: writes_set)+
  then have w3: "writes R st s3" by (blast intro: writes_trans)
  have w4: "writes R s3 (if l \<noteq> 0 then set_nx l w s3 else s3\<lparr>flp := w\<rparr>)"
  proof (cases "l = 0")
    case False
    then have "writes R s3 (set_nx l w s3)" using assms(3) by (intro writes_set) blast+
    then show ?thesis using False by simp
  qed simp
  have "relocate y len w r v l st = (if l \<noteq> 0 then set_nx l w s3 else s3\<lparr>flp := w\<rparr>)"
    by (simp add: relocate_def s1_def s2_def s3_def Let_def)
  then show ?thesis using writes_trans [OF w3 w4] by simp
qed

lemma relocate_inv:
  assumes inv: "heap_inv st xs (ps @ z # ss)" and c: "chunks ((sz st)(w := r, y := len)) (unat (malloc_heap_start st)) xs' (unat (heap_brk st))"
    and xs': "set xs' = insert w (set xs - {z})" "w \<notin> set xs - {z}" and y: "y \<in> set xs" "y \<noteq> z" "y \<noteq> w" "y \<notin> set (ps @ ss)"
    and asc: "ascending (ps @ w # ss)"
  shows "heap_inv (relocate y len w r (nx st z) (lastz ps) st) xs' (ps @ w # ss)"
    and "sz (relocate y len w r (nx st z) (lastz ps) st) y = len"
proof -
  note i = heap_invD [OF inv]
  define st4 where "st4 = relocate y len w r (nx st z) (lastz ps) st"
  have ps: "set ps \<subseteq> set xs - {z}" "set ss \<subseteq> set xs - {z}" "0 \<notin> set ps" using i(3,4,5) by auto
  have l: "lastz ps \<noteq> 0 \<longleftrightarrow> ps \<noteq> []" using ps(3) by (cases ps rule: rev_cases) auto
  have lin: "last ps \<in> set xs - {z}" "last ps \<noteq> y" "last ps \<noteq> w" if "ps \<noteq> []"
    using that ps(1) xs'(2) y(4) by (cases ps rule: rev_cases; auto)+
  have f: "sz st4 x = ((sz st)(w := r, y := len)) x"
      "nx st4 x = (if ps \<noteq> [] \<and> x = last ps then w else ((nx st)(w := nx st z)) x)" if "x \<in> set xs'" for x
    using relocate_fields [OF chunks_spaced [OF c] _ _ y(3) that, of "lastz ps"] lin l xs' y unfolding st4_def by (auto simp: lastz_def)
  have n: "nx st4 x = nx st x" if "x \<in> set xs - {z}" "ps \<noteq> [] \<Longrightarrow> x \<noteq> last ps" for x
    using f(2) [of x] that xs' by auto
  have "fseg (nx st4) (flp st4) (ps @ w # ss) 0"
  proof (rule fseg_replace [OF i(8)])
    show "nx st4 w = nx st z" using f(2) [of w] xs' lin by auto
    show "\<forall>x \<in> set ss. nx st4 x = nx st x" using n ps(2) i(3) by (cases ps rule: rev_cases) auto
    show "\<forall>x \<in> set (butlast ps). nx st4 x = nx st x" using n ps(1) i(3) by (cases ps rule: rev_cases) auto
    show "flp st4 = w" if "ps = []" using that by (simp add: st4_def relocate_globals)
    show "flp st4 = flp st \<and> nx st4 (last ps) = w" if "ps \<noteq> []"
      using that l lin f(2) [of "last ps"] xs' by (simp add: st4_def relocate_globals)
  qed
  moreover have "chunks (sz st4) a xs' e = chunks ((sz st)(w := r, y := len)) a xs' e" for a e by (rule chunks_cong [OF f(1)])
  moreover have "set (ps @ w # ss) \<subseteq> set xs'" using ps xs' by auto
  ultimately have "heap_inv st4 xs' (ps @ w # ss)" using inv c asc by (simp add: heap_inv_def st4_def relocate_globals)
  then show "heap_inv (relocate y len w r (nx st z) (lastz ps) st) xs' (ps @ w # ss)" by (simp add: st4_def)
  show "sz (relocate y len w r (nx st z) (lastz ps) st) y = len" using f(1) [of y] y xs' by (simp add: st4_def)
qed

text \<open>Writes to free chunks and to the header of \<open>y\<close> leave the other blocks and the contents of \<open>y\<close> alone.\<close>

lemma writes_to_free:
  assumes inv: "heap_inv st xs fs" and y: "y \<in> set xs" "y \<notin> set fs"
    and w: "writes ({unat y..<unat y + 2} \<union> (\<Union>x \<in> set fs. {unat x..<unat x + 2 + unat (sz st x)})) st st'"
  shows "keeps (set xs - set fs - {y}) st st'"
    and "unat y + 2 \<le> unat b \<Longrightarrow> unat b < unat y + 2 + unat (sz st y) \<Longrightarrow> mem st' b = mem st b"
proof -
  note i = heap_invD [OF inv]
  define A where "A = set xs - set fs - {y}"
  have out: "{unat x..<unat x + 2 + unat (sz st x)} \<subseteq> - (\<Union>y \<in> B. {unat y..<unat y + 2 + unat (sz st y)})"
    if "x \<in> set xs" "B \<subseteq> set xs" "x \<notin> B" for x B using chunks_outside [OF i(6) that] .
  have "{unat y..<unat y + 2} \<subseteq> {unat y..<unat y + 2 + unat (sz st y)}" by auto
  also have "\<dots> \<subseteq> - (\<Union>y \<in> A. {unat y..<unat y + 2 + unat (sz st y)})" using y by (intro out) (auto simp: A_def)
  moreover have "(\<Union>x \<in> set fs. {unat x..<unat x + 2 + unat (sz st x)}) \<subseteq> - (\<Union>y \<in> A. {unat y..<unat y + 2 + unat (sz st y)})"
  proof (rule UN_least)
    fix x
    assume "x \<in> set fs"
    then show "{unat x..<unat x + 2 + unat (sz st x)} \<subseteq> - (\<Union>y \<in> A. {unat y..<unat y + 2 + unat (sz st y)})"
      using i(5) by (intro out) (auto simp: A_def)
  qed
  ultimately have "writes (- (\<Union>y \<in> A. {unat y..<unat y + 2 + unat (sz st y)})) st st'" by (blast intro: writes_mono [OF w])
  then show "keeps (set xs - set fs - {y}) st st'" using i(1) by (fold A_def, intro keepsI) (auto simp: A_def spaced_def)
  assume b: "unat y + 2 \<le> unat b" "unat b < unat y + 2 + unat (sz st y)"
  have "unat b \<in> {unat y..<unat y + 2 + unat (sz st y)}" using b by simp
  then have "unat b \<notin> (\<Union>x \<in> set fs. {unat x..<unat x + 2 + unat (sz st x)})" using out [OF y(1) i(5) y(2)] by blast
  then have "unat b \<notin> {unat y..<unat y + 2} \<union> (\<Union>x \<in> set fs. {unat x..<unat x + 2 + unat (sz st x)})" using b(1) by auto
  then show "mem st' b = mem st b" using w by (simp add: writes_def)
qed

lemma grow_part:
  assumes inv: "heap_inv st xs (ps @ z # ss)" and y: "y \<in> set xs" "y \<notin> set (ps @ z # ss)"
    and adj: "unat y + 2 + unat (sz st y) = unat z"
    and len: "even (unat len)" "unat (sz st y) < unat len" "unat len + 2 \<le> unat (sz st y) + unat (sz st z)"
  defines "st4 \<equiv> relocate y len (y + 2 + len) (sz st z - (len - sz st y)) (nx st z) (lastz ps) st"
  shows "resized st xs (ps @ z # ss) y len (y + 2) st4"
proof -
  note i = heap_invD [OF inv]
  define w r where wr: "w = y + 2 + len" "r = sz st z - (len - sz st y)"
  have st4: "st4 = relocate y len w r (nx st z) (lastz ps) st" by (simp add: st4_def wr)
  have z: "z \<in> set xs" "y \<noteq> z" using i(5) y by auto
  obtain us ws where xs: "xs = us @ y # z # ws" using chunks_next [OF i(6) y(1) z(1) adj] by blast
  define xs' where "xs' = us @ y # w # ws"
  note c = chunks_resplit [OF i(6) [unfolded xs] unat_lt_16 len, folded wr, folded xs'_def]
  have d: "distinct xs'" "y \<noteq> w" "y \<in> set xs'" "w \<in> set xs'" using chunks_distinct [OF c(1)] by (auto simp: xs'_def)
  have set': "set xs' = insert w (set xs - {z})" "w \<notin> set xs - {z}" using d(1) i(2) by (auto simp: xs'_def xs)
  have zw: "unat z < unat w" "unat w + 4 \<le> unat z + 2 + unat (sz st z)" using c(2) adj len by linarith+
  have "unat w < unat x" if "x \<in> set ss" for x
  proof -
    have "unat z < unat x" using i(7) that by (auto simp: ascending_def sorted_wrt_append)
    moreover have "x \<in> set xs" "z \<noteq> x" using i(3,5) that by auto
    ultimately show ?thesis using chunks_apart [OF i(6) z(1) \<open>x \<in> set xs\<close> \<open>z \<noteq> x\<close>] zw by linarith
  qed
  then have asc: "ascending (ps @ w # ss)" using ascending_replace [OF i(7)] zw(1) by auto
  have "y \<notin> set (ps @ ss)" using y by auto
  note inv4 = relocate_inv [OF inv c(1) set' y(1) z(2) d(2) this asc, folded st4]
  define R where "R = {unat y..<unat y + 2} \<union> (\<Union>x \<in> set (ps @ z # ss). {unat x..<unat x + 2 + unat (sz st x)})"
  have ext: "{unat x..<unat x + 2 + unat (sz st x)} \<subseteq> R" if "x \<in> set (ps @ z # ss)" for x using that by (auto simp: R_def)
  have l: "addr (lastz ps) \<and> {unat (lastz ps) + 2..<unat (lastz ps) + 4} \<subseteq> R" if "lastz ps \<noteq> 0"
  proof -
    have lp: "lastz ps \<in> set (ps @ z # ss)" "lastz ps \<in> set xs" using that i(5) by (cases ps rule: rev_cases; auto)+
    have "{unat (lastz ps) + 2..<unat (lastz ps) + 4} \<subseteq> {unat (lastz ps)..<unat (lastz ps) + 2 + unat (sz st (lastz ps))}"
      using block_addr(6) [OF inv lp(2)] by auto
    then show ?thesis using ext [OF lp(1)] block_addr(4) [OF inv lp(2)] by blast
  qed
  have "{unat w..<unat w + 4} \<subseteq> {unat z..<unat z + 2 + unat (sz st z)}" using zw by auto
  then have "{unat w..<unat w + 4} \<subseteq> R" "{unat y..<unat y + 2} \<subseteq> R" using ext [of z] by (auto simp: R_def)
  moreover have ad: "addr y" "addr w" using chunks_spaced [OF c(1)] d by (auto simp: spaced_def)
  ultimately have "writes R st st4" unfolding st4 using l by (intro relocate_writes) blast+
  note k = writes_to_free [OF inv y this [unfolded R_def]]
  have "set xs' - set (ps @ w # ss) = set xs - set (ps @ z # ss)" using set' by auto
  then show ?thesis using k(2) inv4(2) by (intro resizedI [OF inv y _ k(1) _ inv4(1)]) auto
qed

lemma realloc_grow_spec:
  assumes inv: "heap_inv st xs fs" and y: "y \<in> set xs" "y \<notin> set fs" and z: "z = y + 2 + sz st y" "z \<in> set fs"
    and len: "even (unat len)" "unat (sz st y) < unat len" "len - sz st y \<le> sz st z + 2"
  shows "resized st xs fs y len (y + 2) (realloc_grow (y + 2) len y z (lastz (takeWhile (\<lambda>x. x \<noteq> z) fs)) (len - sz st y) st)"
proof -
  note i = heap_invD [OF inv]
  define ps where "ps = takeWhile (\<lambda>x. x \<noteq> z) fs"
  obtain ys ss where "fs = ys @ z # ss" "z \<notin> set ys" using z(2) split_list_first by metis
  then have fs: "fs = ps @ z # ss" by (auto simp: ps_def takeWhile_append)
  have zx: "z \<in> set xs" using z(2) i(5) by blast
  have adj: "unat y + 2 + unat (sz st y) = unat z" using chunk_end(1) [OF inv y(1)] z(1) by simp
  note yb = block_addr [OF inv y(1)] and bz = block_addr [OF inv zx]
  have incr: "unat (len - sz st y) = unat len - unat (sz st y)" using len(2) by (simp add: unat_sub_if')
  have z2: "unat (sz st z + 2) = unat (sz st z) + 2" using bz(7) by (simp add: unat_word_ariths)
  have le: "unat len \<le> unat (sz st y) + 2 + unat (sz st z)" using len(3) incr z2 by (simp add: word_le_nat_alt)
  have rest: "unat (sz st z + 2 - (len - sz st y)) = unat (sz st z) + 2 - (unat len - unat (sz st y))"
    using len(3) incr z2 by (simp add: unat_sub)
  show ?thesis
  proof (cases "sz st z + 2 - (len - sz st y) > 4")
    case True
    then have l2: "unat len + 2 \<le> unat (sz st y) + unat (sz st z)" using rest len(2) by (simp add: word_less_nat_alt)
    obtain us ws where "xs = us @ y # z # ws" using chunks_next [OF i(6) y(1) zx adj] by blast
    then have c: "chunks (sz st) (unat (malloc_heap_start st)) (us @ y # z # ws) (unat (heap_brk st))" using i(6) by simp
    have w: "unat (y + 2 + len) = unat y + 2 + unat len" by (rule chunks_resplit(2) [OF c unat_lt_16 len(1,2) l2])
    have "addr (y + 2 + len)" unfolding addr_def w using adj l2 bz(7) yb(4) len(1) by (auto simp: addr_def)
    moreover have "y + 2 + len + 2 \<noteq> z"
    proof
      assume "y + 2 + len + 2 = z"
      then have "unat (y + 2 + len + 2) = unat z" by simp
      then show False using addr_plus [OF \<open>addr (y + 2 + len)\<close>] w adj len(2) by simp
    qed
    ultimately have "sz (set_nx (y + 2 + len) v st) z = sz st z" for v using bz(4) by simp
    then have "realloc_grow (y + 2) len y z (lastz ps) (len - sz st y) st
        = relocate y len (y + 2 + len) (sz st z - (len - sz st y)) (nx st z) (lastz ps) st"
      using True by (simp add: realloc_grow_def relocate_def sizeof_size_t_def sizeof_freelist_def Let_def)
    then show ?thesis unfolding ps_def [symmetric] using grow_part [OF inv [unfolded fs] y(1) _ adj len(1,2) l2] y(2) by (simp add: fs)
  next
    case False
    then have "realloc_grow (y + 2) len y z (lastz ps) (len - sz st y) st = unlink z (lastz ps) (set_sz y (sz st y + (sz st z + 2)) st)"
      by (simp add: realloc_grow_def unlink_def sizeof_size_t_def sizeof_freelist_def Let_def)
    then show ?thesis unfolding ps_def [symmetric] using grow_whole [OF inv [unfolded fs] y(1) _ adj le] y(2) len(2)
      by (simp add: fs word_le_nat_alt)
  qed
qed

lemma grow_top:
  assumes inv: "heap_inv st xs fs" and y: "y \<in> set xs" "y \<notin> set fs" and last: "brkval st = y + 2 + sz st y"
    and len: "even (unat len)" "unat (sz st y) < unat len" "unat y + 2 + unat len < 65536"
  defines "st' \<equiv> set_sz y len (st\<lparr>brkval := y + 2 + len\<rparr>)"
  shows "resized st xs fs y len (y + 2) st'"
proof -
  note i = heap_invD [OF inv] and b = block_addr [OF inv y(1)]
  have e: "unat y + 2 + unat (sz st y) = unat (brkval st)" using chunk_end(1) [OF inv y(1)] last by simp
  then have "heap_brk st = brkval st" by (auto simp: heap_brk_def)
  then obtain us where xs: "xs = us @ [y]" using chunks_last [OF i(6) y(1)] e by auto
  have w: "unat (y + 2 + len) = unat y + 2 + unat len" using len(3) by (simp add: unat_word_ariths)
  then have brk: "heap_brk st' = y + 2 + len" by (auto simp: heap_brk_def st'_def)
  have f: "sz st' x = ((sz st)(y := len)) x" "nx st' x = nx st x" if "x \<in> set xs" for x
    using spaced_fields [OF i(1) y(1) that] by (auto simp: st'_def)
  have "y \<notin> set us" using i(2) xs by auto
  then have "chunks ((sz st)(y := len)) (unat (malloc_heap_start st)) xs (unat (heap_brk st'))"
    using i(6) xs w brk len b by (auto simp: chunks_append)
  moreover have "chunks (sz st') a xs e = chunks ((sz st)(y := len)) a xs e" for a e by (rule chunks_cong [OF f(1)])
  moreover have "fseg (nx st') p fs 0 = fseg (nx st) p fs 0" for p by (rule fseg_cong) (use f(2) i(5) in blast)
  moreover have "malloc_heap_start st' = malloc_heap_start st" "flp st' = flp st" by (simp_all add: st'_def)
  ultimately have inv': "heap_inv st' xs fs" using inv by (simp add: heap_inv_def)
  have "writes {unat y..<unat y + 2} (st\<lparr>brkval := y + 2 + len\<rparr>) st'" unfolding st'_def using b(4) by (intro writes_set) auto
  then have "writes ({unat y..<unat y + 2} \<union> (\<Union>x \<in> set fs. {unat x..<unat x + 2 + unat (sz st x)})) st st'"
    by (simp add: writes_def)
  note k = writes_to_free [OF inv y this]
  show ?thesis using k(2) f(1) [OF y(1)] by (intro resizedI [OF inv y _ k(1) _ inv']) auto
qed

section \<open>Moving\<close>

lemma memcpy_spec:
  "unat dst + n \<le> 65536 \<Longrightarrow> unat src + n \<le> 65536 \<Longrightarrow> unat dst + n \<le> unat src \<or> unat src + n \<le> unat dst \<Longrightarrow>
   memcpy dst src n m b =
     (if unat dst \<le> unat b \<and> unat b < unat dst + n then m (src + (b - dst)) else m b)"
proof (induction n arbitrary: dst src m)
  case (Suc n)
  define m' where "m' = m(dst := m src)"
  have shift: "src + 1 + (b - (dst + 1)) = src + (b - dst)" by simp
  have IH: "memcpy (dst + 1) (src + 1) n m' b =
      (if unat dst + 1 \<le> unat b \<and> unat b < unat dst + 1 + n then m' (src + (b - dst)) else m' b)"
  proof (cases "n = 0")
    case False
    then have d: "unat (dst + 1) = unat dst + 1" "unat (src + 1) = unat src + 1" using Suc.prems by (simp_all add: unat_word_ariths)
    show ?thesis using Suc.IH [of "dst + 1" "src + 1" m', unfolded d shift] Suc.prems by fastforce
  qed auto
  have far: "src + (b - dst) \<noteq> dst" if "unat dst \<le> unat b" "unat b < unat dst + Suc n"
  proof
    assume eq: "src + (b - dst) = dst"
    have "unat (b - dst) = unat b - unat dst" using that(1) by (simp add: unat_sub word_le_nat_alt)
    then have "unat (src + (b - dst)) = unat src + (unat b - unat dst)" using Suc.prems(2) that by (simp add: unat_word_ariths)
    then show False using eq Suc.prems(3) that by auto
  qed
  show ?case
  proof (cases "b = dst")
    case True
    then show ?thesis using IH by (simp add: m'_def [symmetric]) (simp add: m'_def)
  next
    case False
    then have "unat b \<noteq> unat dst" by (simp add: word_unat_eq_iff)
    then show ?thesis using IH far False by (auto simp: m'_def)
  qed
qed auto

text \<open>A change of the contents of an allocated block is none of the heap.\<close>

lemma heap_inv_contents:
  assumes inv: "heap_inv st xs fs" and c: "c \<in> set xs" "c \<notin> set fs"
    and w: "writes {unat c + 2..<unat c + 2 + unat (sz st c)} st st'"
    and same: "malloc_heap_start st' = malloc_heap_start st" "brkval st' = brkval st" "flp st' = flp st"
  shows "heap_inv st' xs fs" "\<forall>x \<in> set xs. sz st' x = sz st x" "keeps (set xs - {c}) st st'"
proof -
  note i = heap_invD [OF inv]
  define R where "R = {unat c + 2..<unat c + 2 + unat (sz st c)}"
  have ap: "{unat x..<unat x + 2 + unat (sz st x)} \<inter> R = {}" if "x \<in> set xs" "x \<noteq> c" for x
    using chunks_apart [OF i(6) that(1) c(1) that(2)] by (auto simp: R_def)
  have szs: "sz st' x = sz st x" if "x \<in> set xs" for x
  proof (rule fields_writes(1) [OF _ w])
    show "addr x" using block_addr(4) [OF inv that] .
    show "{unat x..<unat x + 2} \<inter> {unat c + 2..<unat c + 2 + unat (sz st c)} = {}"
      using ap [OF that] by (cases "x = c") (auto simp: R_def)
  qed
  then show "\<forall>x \<in> set xs. sz st' x = sz st x" by blast
  have nxs: "nx st' x = nx st x" if "x \<in> set fs" for x
  proof (rule fields_writes(2) [OF _ w])
    have x: "x \<in> set xs" "x \<noteq> c" using that i(5) c(2) by auto
    show "addr x" using block_addr(4) [OF inv x(1)] .
    have "{unat x + 2..<unat x + 4} \<subseteq> {unat x..<unat x + 2 + unat (sz st x)}" using block_addr(6) [OF inv x(1)] by auto
    then show "{unat x + 2..<unat x + 4} \<inter> {unat c + 2..<unat c + 2 + unat (sz st c)} = {}" using ap [OF x] by (auto simp: R_def)
  qed
  have "chunks (sz st') a xs e = chunks (sz st) a xs e" for a e by (rule chunks_cong [OF szs])
  moreover have "fseg (nx st') p fs 0 = fseg (nx st) p fs 0" for p by (rule fseg_cong [OF nxs])
  moreover have "heap_brk st' = heap_brk st" using same by (simp add: heap_brk_def)
  ultimately show "heap_inv st' xs fs" using inv same by (simp add: heap_inv_def)
  have "writes {unat c..<unat c + 2 + unat (sz st c)} st st'" by (rule writes_mono [OF w]) auto
  then show "keeps (set xs - {c}) st st'" by (intro keeps_one [OF i(6) c(1)]) auto
qed

text \<open>The contents of \<open>y\<close> copied to the allocated chunk \<open>c\<close>.\<close>

lemma copy_block:
  assumes inv: "heap_inv st xs fs" and c: "c \<in> set xs" "c \<notin> set fs" and y: "y \<in> set xs" "y \<noteq> c" and n: "n \<le> unat (sz st c)" "n \<le> unat (sz st y)"
  defines "st' \<equiv> st\<lparr>mem := memcpy (c + 2) (y + 2) n (mem st)\<rparr>"
  shows "writes {unat c + 2..<unat c + 2 + unat (sz st c)} st st'" "copied (y + 2) (c + 2) n st st'"
proof -
  note bc = block_addr [OF inv c(1)] and yb = block_addr [OF inv y(1)]
  have ap: "unat (c + 2) + n \<le> unat (y + 2) \<or> unat (y + 2) + n \<le> unat (c + 2)"
    using chunks_apart [OF heap_invD(6) [OF inv] y(1) c(1) y(2)] bc(1) yb(1) n by linarith
  have m: "mem st' b = (if unat (c + 2) \<le> unat b \<and> unat b < unat (c + 2) + n then mem st (y + 2 + (b - (c + 2))) else mem st b)" for b
    unfolding st'_def using memcpy_spec [of "c + 2" n "y + 2" "mem st" b] ap bc(1,7) yb(1,7) n by simp
  then show "writes {unat c + 2..<unat c + 2 + unat (sz st c)} st st'" using bc(1) n(1) by (auto simp: writes_def)
  show "copied (y + 2) (c + 2) n st st'"
    unfolding copied_def
  proof (intro allI impI)
    fix k
    assume k: "k < n"
    then have "unat (c + 2 + of_nat k) = unat (c + 2) + k"
      using bc(1,7) n(1) by (simp add: unat_word_ariths unsigned_of_nat take_bit_eq_mod)
    then show "mem st' (c + 2 + of_nat k) = mem st (y + 2 + of_nat k)" using m [of "c + 2 + of_nat k"] k by simp
  qed
qed

lemma copied_trans:
  assumes "copied p q n st st'" and "\<And>i. i < n \<Longrightarrow> mem st0 (p + of_nat i) = mem st (p + of_nat i)"
    and "\<And>i. i < n \<Longrightarrow> mem st1 (q + of_nat i) = mem st' (q + of_nat i)"
  shows "copied p q n st0 st1"
  using assms by (simp add: copied_def)

lemma keeps_byte:
  assumes "keeps A st st'" and "x \<in> A" and "unat (x + 2) = unat x + 2" and "unat x + 2 + unat (sz st x) < 65536" and "i < unat (sz st x)"
  shows "mem st' (x + 2 + of_nat i) = mem st (x + 2 + of_nat i)"
proof -
  have "unat (x + 2 + of_nat i) = unat x + 2 + i"
    using assms(3-5) by (simp add: unat_word_ariths unsigned_of_nat take_bit_eq_mod)
  then show ?thesis using assms(1,2,5) by (auto simp: keeps_def)
qed

lemma move_block:
  assumes inv: "heap_inv st xs fs" and y: "y \<in> set xs" "y \<notin> set fs" and len: "unat (sz st y) < unat len" "unat len \<le> unat (sz st1 c)"
    and tk: "takes st xs fs c st1 xs1 fs1"
  shows "\<exists>st3. free (y + 2) (st1\<lparr>mem := memcpy (c + 2) (y + 2) (unat (sz st y)) (mem st1)\<rparr>) = Some st3 \<and> resized st xs fs y len (c + 2) st3"
proof -
  define B where "B = set xs - set fs - {y}"
  have t: "heap_inv st1 xs1 fs1" "c \<notin> set xs - set fs" "set xs1 - set fs1 = insert c (set xs - set fs)" "keeps (set xs - set fs) st st1"
    using tk by (auto simp: takes_def)
  have in1: "c \<in> set xs1" "c \<notin> set fs1" "y \<in> set xs1" "y \<notin> set fs1" "y \<noteq> c" "B \<subseteq> set xs1 - {c}" "c \<notin> B"
    using t(2,3) y by (auto simp: B_def)
  have sy: "sz st1 y = sz st y" using t(4) y by (simp add: keeps_def)
  define n where "n = unat (sz st y)"
  define st2 where "st2 = st1\<lparr>mem := memcpy (c + 2) (y + 2) n (mem st1)\<rparr>"
  have "n \<le> unat (sz st1 c)" "n \<le> unat (sz st1 y)" using len sy by (simp_all add: n_def)
  note cp = copy_block [OF t(1) in1(1,2,3,5) this, folded st2_def]
  note h = heap_inv_contents [OF t(1) in1(1,2) cp(1)]
  have inv2: "heap_inv st2 xs1 fs1" "\<forall>x \<in> set xs1. sz st2 x = sz st1 x" "keeps (set xs1 - {c}) st1 st2" using h by (simp_all add: st2_def)
  have A: "insert c B = set xs1 - set fs1 - {y}" using t(3) in1(5) by (auto simp: B_def)
  obtain st3 xs3 fs3 where f: "free (y + 2) st2 = Some st3" "heap_inv st3 xs3 fs3" "set xs3 - set fs3 = insert c B" "keeps (insert c B) st2 st3"
    using free_spec [OF inv2(1) in1(3,4) A] by blast
  note yb = block_addr [OF inv y(1)] and bc = block_addr [OF inv2(1) in1(1)]
  have "keeps B st st1" "keeps B st1 st2" "keeps B st2 st3"
    using keeps_mono [OF t(4)] keeps_mono [OF inv2(3) in1(6)] keeps_mono [OF f(4)] by (auto simp: B_def)
  then have "keeps B st st3" by (blast intro: keeps_trans)
  moreover have szc: "sz st2 c = sz st1 c" "sz st3 c = sz st2 c" using inv2(2) in1(1) f(4) by (auto simp: keeps_def)
  moreover have "copied (y + 2) (c + 2) n st st3"
  proof (rule copied_trans [OF cp(2)])
    show "mem st (y + 2 + of_nat i) = mem st1 (y + 2 + of_nat i)" if "i < n" for i
      using keeps_byte [OF t(4) _ yb(1,7), of i] y that by (simp add: n_def)
    show "mem st3 (c + 2 + of_nat i) = mem st2 (c + 2 + of_nat i)" if "i < n" for i
      using keeps_byte [OF f(4) _ bc(1,7), of i] szc(1) len that by (simp add: n_def)
  qed
  then have "copied (y + 2) (c + 2) (min (unat len) (unat (sz st y))) st st3" using len(1) by (simp add: n_def)
  ultimately have "resized st xs fs y len (c + 2) st3" unfolding resized_def bc(2) B_def [symmetric]
    using bc(3) len(2) in1(7) f(2,3) by (auto simp: word_le_nat_alt)
  then show ?thesis using f(1) by (simp add: st2_def n_def)
qed

lemma realloc_move_spec:
  assumes inv: "heap_inv st xs fs" and y: "y \<in> set xs" "y \<notin> set fs" and len: "even (unat len)" "unat (sz st y) < unat len"
  shows "\<exists>q st'. realloc_move r1 (y + 2) len y st = Some (q, st')
    \<and> (resized st xs fs y len q st' \<or> q = 0 \<and> heap_inv st' xs fs \<and> mem st' = mem st)"
proof -
  have rq: "request len = len" using block_addr(6) [OF inv y(1)] len(2) by (simp add: request_def word_less_nat_alt)
  obtain p st1 where m: "malloc r1 len st = Some (p, st1)"
    "(\<exists>c xs' fs'. p = c + 2 \<and> unat len \<le> unat (sz st1 c) \<and> takes st xs fs c st1 xs' fs') \<or> p = 0 \<and> heap_inv st1 xs fs \<and> mem st1 = mem st"
    using malloc_spec [OF inv len(1), of r1] unfolding rq by (auto split: if_splits) blast+
  from m(2) show ?thesis
  proof
    assume "p = 0 \<and> heap_inv st1 xs fs \<and> mem st1 = mem st"
    then show ?thesis using m(1) by (simp add: realloc_move_def)
  next
    assume "\<exists>c xs' fs'. p = c + 2 \<and> unat len \<le> unat (sz st1 c) \<and> takes st xs fs c st1 xs' fs'"
    then obtain c xs1 fs1 where c: "p = c + 2" "unat len \<le> unat (sz st1 c)" "takes st xs fs c st1 xs1 fs1" by blast
    have "sz st1 y = sz st y" using c(3) y by (simp add: takes_def keeps_def)
    then show ?thesis using move_block [OF inv y len(2) c(2,3)] m(1) c(1) takes_apart(1) [OF c(3)]
      by (auto simp: realloc_move_def)
  qed
qed

section \<open>realloc\<close>

text \<open>The new end of the block, and the test for wrap-around.\<close>

lemma realloc_end:
  fixes y len :: u16
  assumes "unat (y + 2) = unat y + 2" and "unat len < 65534"
  shows "y + 2 + len < y \<longleftrightarrow> 65536 \<le> unat y + 2 + unat len" and "\<not> y + 2 + len < y \<Longrightarrow> unat (y + 2 + len) = unat y + 2 + unat len"
  using assms unat_lt_16 [of y] by (auto simp: word_less_nat_alt unat_word_ariths mod_if split: if_splits)

text \<open>
  A larger size: into the free chunk just above when it is large enough, by moving the break when the block is
  the topmost one, or by moving the block.
\<close>

lemma realloc_enlarge:
  assumes inv: "heap_inv st xs fs" and y: "y \<in> set xs" "y \<notin> set fs" and len: "even (unat len)" "unat (sz st y) < unat len"
    and fits: "\<not> y + 2 + len < y" "unat (y + 2 + len) = unat y + 2 + unat len"
  shows "\<exists>q st'. realloc r1 (y + 2) len st = Some (q, st')
    \<and> (resized st xs fs y len q st' \<or> q = 0 \<and> heap_inv st' xs fs \<and> mem st' = mem st)"
proof -
  note b = block_addr [OF inv y(1)] and i = heap_invD [OF inv]
  define z where "z = y + 2 + sz st y"
  define incr where "incr = len - sz st y"
  have nz: "0 \<notin> set fs" using i(4,5) by blast
  have walk: "realloc_walk st z incr 0 0 (flp st) = (if z \<in> set fs \<and> sz st z + 2 \<ge> incr
      then Some (Above z (lastz (takeWhile (\<lambda>x. x \<noteq> z) fs))) else Some (Largest (largest st 0 fs)))"
    using realloc_walk_spec [OF i(8) nz, of z incr 0 "[]"] by simp
  have unfold: "realloc r1 (y + 2) len st = Option.bind (realloc_walk st z incr 0 0 (flp st)) (\<lambda>g. case g of
      Above fp3 ofp3 \<Rightarrow> Some (y + 2, realloc_grow (y + 2) len y fp3 ofp3 incr st)
    | Largest s \<Rightarrow> if brkval st = z \<and> len > s
        then if y + 2 + len < heap_limit r1 st then Some (y + 2, set_sz y len (st\<lparr>brkval := y + 2 + len\<rparr>)) else Some (0, st)
        else realloc_move r1 (y + 2) len y st)"
    using b(2,3) fits(1) len(2)
    unfolding realloc_def Let_def sizeof_size_t_def heap_limit_def [symmetric] z_def incr_def b(2)
    by (simp add: word_le_nat_alt)
  show ?thesis
  proof (cases "z \<in> set fs \<and> sz st z + 2 \<ge> incr")
    case True
    then have "resized st xs fs y len (y + 2) (realloc_grow (y + 2) len y z (lastz (takeWhile (\<lambda>x. x \<noteq> z) fs)) incr st)"
      using realloc_grow_spec [OF inv y z_def _ len] by (simp add: incr_def)
    then show ?thesis using True by (simp add: unfold walk)
  next
    case False
    then have w: "realloc_walk st z incr 0 0 (flp st) = Some (Largest (largest st 0 fs))" using walk by (simp only: if_False)
    show ?thesis
    proof (cases "brkval st = z \<and> len > largest st 0 fs")
      case True
      have "resized st xs fs y len (y + 2) (set_sz y len (st\<lparr>brkval := y + 2 + len\<rparr>))"
        using grow_top [OF inv y _ len] True fits(2) unat_lt_16 [of "y + 2 + len"] by (simp add: z_def)
      then show ?thesis using True inv by (cases "y + 2 + len < heap_limit r1 st") (simp_all add: unfold w)
    next
      case False
      then have "realloc r1 (y + 2) len st = realloc_move r1 (y + 2) len y st" by (auto simp: unfold w)
      then show ?thesis using realloc_move_spec [OF inv y len, of r1] by (simp only:)
    qed
  qed
qed

lemma realloc_spec:
  assumes inv: "heap_inv st xs fs" and y: "y \<in> set xs" "y \<notin> set fs" and len: "even (unat len)" "2 \<le> unat len" "unat len < 65534"
  shows "\<exists>q st'. realloc r1 (y + 2) len st = Some (q, st')
    \<and> (resized st xs fs y len q st' \<or> q = 0 \<and> heap_inv st' xs fs \<and> mem st' = mem st)"
proof -
  note b = block_addr [OF inv y(1)] and i = heap_invD [OF inv]
  note e = realloc_end [OF b(1) len(3)]
  consider "y + 2 + len < y" | "\<not> y + 2 + len < y" "unat len \<le> unat (sz st y)" "unat (sz st y) < unat len + 4"
    | "\<not> y + 2 + len < y" "unat len + 4 \<le> unat (sz st y)" | "\<not> y + 2 + len < y" "unat (sz st y) < unat len" by linarith
  then show ?thesis
  proof cases
    case 1
    then show ?thesis using inv b(2,3) by (simp add: realloc_def sizeof_size_t_def Let_def)
  next
    case 2
    then have "realloc r1 (y + 2) len st = Some (y + 2, st)"
      using b(2,3) by (auto simp: realloc_def sizeof_size_t_def sizeof_freelist_def Let_def word_le_nat_alt word_less_nat_alt unat_sub_if')
    moreover have "resized st xs fs y len (y + 2) st" using 2(2) by (intro resizedI [OF inv y _ _ _ inv]) (auto simp: word_le_nat_alt)
    ultimately show ?thesis by blast
  next
    case 3
    then have "len \<le> sz st y" "\<not> (sz st y \<le> 4 \<or> len > sz st y - 4)" using len(2) by (auto simp: word_le_nat_alt word_less_nat_alt unat_sub_if')
    then show ?thesis using realloc_shrink [OF inv y len(1,2) 3(2)] b(2,3) 3(1)
      by (auto simp: realloc_def sizeof_size_t_def sizeof_freelist_def Let_def)
  next
    case 4
    then show ?thesis using realloc_enlarge [OF inv y len(1)] e(2) by simp
  qed
qed

section \<open>The test for wrap-around\<close>

text \<open>
  The test compares the end of the block with the address of its header, two below the block, so a size of
  65534 passes it: the end wraps around to the header itself, which lies below the limit of the heap. The topmost
  block is then \<open>enlarged\<close> in place by a break lowered to its own header.
\<close>

lemma realloc_wrapped:
  assumes inv: "heap_inv st xs []" and y: "y \<in> set xs" and last: "brkval st = y + 2 + sz st y" and lim: "y < heap_limit r1 st"
  shows "realloc r1 (y + 2) 65534 st = Some (y + 2, set_sz y 65534 (st\<lparr>brkval := y\<rparr>))"
    and "sz (set_sz y 65534 (st\<lparr>brkval := y\<rparr>)) y = 65534"
proof -
  note b = block_addr [OF inv y]
  have "flp st = 0" using heap_invD(8) [OF inv] by simp
  then have w: "realloc_walk st fp2 incr 0 0 (flp st) = Some (Largest 0)" for fp2 incr by (subst realloc_walk.simps) simp
  have e: "y + 2 + 65534 = y" by simp
  have "sz st y < 65534" using b(1,7) by (simp add: word_less_nat_alt)
  then show "realloc r1 (y + 2) 65534 st = Some (y + 2, set_sz y 65534 (st\<lparr>brkval := y\<rparr>))"
    using b(3) last lim w unfolding realloc_def Let_def sizeof_size_t_def heap_limit_def [symmetric] e b(2)
    by (simp add: linorder_not_le [symmetric])
  show "sz (set_sz y 65534 (st\<lparr>brkval := y\<rparr>)) y = 65534" using b(4) by simp
qed

section \<open>calloc\<close>

lemma memset0_spec:
  "unat dst + n \<le> 65536 \<Longrightarrow> memset0 dst n m b = (if unat dst \<le> unat b \<and> unat b < unat dst + n then 0 else m b)"
proof (induction n arbitrary: dst m)
  case (Suc n)
  show ?case
  proof (cases "n = 0")
    case True
    then show ?thesis by (auto simp: word_unat_eq_iff)
  next
    case False
    then have d: "unat (dst + 1) = unat dst + 1" using Suc.prems by (simp add: unat_word_ariths)
    define m' where "m' = m(dst := 0)"
    have "memset0 (dst + 1) n m' b = (if unat dst + 1 \<le> unat b \<and> unat b < unat dst + 1 + n then 0 else m' b)"
      using Suc.IH [of "dst + 1" m', unfolded d] Suc.prems by simp
    moreover have "m' b = (if unat b = unat dst then 0 else m b)" by (simp add: m'_def word_unat_eq_iff)
    moreover have "memset0 dst (Suc n) m b = memset0 (dst + 1) n m' b" by (simp add: m'_def)
    ultimately show ?thesis by auto
  qed
qed auto

text \<open>
  For an even product that does not overflow, \<open>calloc\<close> gives a fresh block of that many zeros, or 0 when there is no room.
\<close>

lemma calloc_spec:
  assumes inv: "heap_inv st xs fs" and n: "unat nele * unat elsize < 65536" "even (unat nele * unat elsize)"
  shows "\<exists>p st'. calloc r1 nele elsize st = Some (p, st')
    \<and> (p = 0 \<and> heap_inv st' xs fs \<and> mem st' = mem st
       \<or> (\<exists>xs' fs'. takes st xs fs (p - 2) st' xs' fs' \<and> unat nele * unat elsize \<le> unat (sz st' (p - 2))
            \<and> (\<forall>i < unat nele * unat elsize. mem st' (p + of_nat i) = 0)))"
proof -
  define len where "len = nele * elsize"
  have len: "unat len = unat nele * unat elsize" using n(1) by (simp add: len_def unat_word_ariths)
  have ev: "even (unat len)" using n(2) len by simp
  have rq: "unat len \<le> unat (request len)" by (simp add: request_def word_less_nat_alt)
  obtain p st1 where m: "malloc r1 len st = Some (p, st1)"
    "(\<exists>c xs' fs'. p = c + 2 \<and> unat (request len) \<le> unat (sz st1 c) \<and> takes st xs fs c st1 xs' fs') \<or> p = 0 \<and> heap_inv st1 xs fs \<and> mem st1 = mem st"
    using malloc_spec [OF inv ev, of r1] by (auto split: if_splits) blast+
  from m(2) show ?thesis
  proof
    assume "p = 0 \<and> heap_inv st1 xs fs \<and> mem st1 = mem st"
    then show ?thesis using m(1) by (simp add: calloc_def len_def)
  next
    assume "\<exists>c xs' fs'. p = c + 2 \<and> unat (request len) \<le> unat (sz st1 c) \<and> takes st xs fs c st1 xs' fs'"
    then obtain c xs' fs' where c: "p = c + 2" "unat (request len) \<le> unat (sz st1 c)" "takes st xs fs c st1 xs' fs'" by blast
    then have t: "heap_inv st1 xs' fs'" "c \<in> set xs'" "c \<notin> set fs'" "set xs - set fs \<subseteq> set xs' - {c}"
      by (auto simp: takes_def)
    note b = block_addr [OF t(1,2)]
    define st2 where "st2 = st1\<lparr>mem := memset0 (c + 2) (unat len) (mem st1)\<rparr>"
    have z: "mem st2 x = (if unat c + 2 \<le> unat x \<and> unat x < unat c + 2 + unat len then 0 else mem st1 x)" for x
      using memset0_spec [of "c + 2" "unat len" "mem st1" x] b(1,7) c(2) rq by (simp add: st2_def)
    have "writes {unat c + 2..<unat c + 2 + unat (sz st1 c)} st1 st2" using z c(2) rq by (auto simp: writes_def)
    note h = heap_inv_contents [OF t(1-3) this]
    have "heap_inv st2 xs' fs'" "sz st2 c = sz st1 c" "keeps (set xs - set fs) st1 st2"
      using h t(2) keeps_mono [OF h(3) t(4)] by (simp_all add: st2_def)
    moreover have "keeps (set xs - set fs) st st1" using c(3) by (simp add: takes_def)
    ultimately have tk: "takes st xs fs c st2 xs' fs'" using c(3) keeps_trans [of "set xs - set fs" st st1 st2] by (simp add: takes_def)
    have "mem st2 (c + 2 + of_nat i) = 0" if "i < unat len" for i
    proof -
      have "unat (c + 2 + of_nat i) = unat c + 2 + i"
        using that b(1,7) c(2) rq by (simp add: unat_word_ariths unsigned_of_nat take_bit_eq_mod)
      then show ?thesis using z that by simp
    qed
    moreover have "calloc r1 nele elsize st = Some (c + 2, st2)"
      using m(1) c(1) b(3) by (simp add: calloc_def len_def [symmetric] st2_def)
    ultimately show ?thesis using tk b(2) c(2) rq \<open>sz st2 c = sz st1 c\<close> len by (intro exI [of _ "c + 2"] exI [of _ st2]) auto
  qed
qed

text \<open>The product is not checked: a request for 257 elements of 256 bytes is one for 256 bytes.\<close>

lemma calloc_overflows: "calloc r1 257 256 st = calloc r1 1 256 st"
proof -
  have "257 * 256 = (1 * 256 :: u16)" by simp
  then show ?thesis by (simp only: calloc_def)
qed

end
