(* ===== verification/Flashpage.thy ===== *)
theory Flashpage
  imports Malloc_Realloc
begin

text \<open>
  Flash pages: \<open>cpu/msp430-sancus/periph/flashpage.c\<close>, \<open>drivers/periph_common/flashpage.c\<close> and
  \<open>drivers/include/periph/flashpage.h\<close>. The flash controller is the argument \<open>store\<close>: the effect of writing a byte while
  its two control registers have given values. \<open>flash_device\<close> states what the controller's documentation says of it; its
  status is the sequence of values read from \<open>FCTL3\<close>. The start of the flash and the number of pages depend on the
  processor and are arguments.
\<close>

section \<open>The driver\<close>

definition FLASHPAGE_SIZE :: nat where "FLASHPAGE_SIZE = 512"

definition FWKEY :: u16 where "FWKEY = 0xA500"
definition ERASE :: u16 where "ERASE = 0x0002"
definition WRT :: u16 where "WRT = 0x0040"
definition BUSY :: u16 where "BUSY = 0x0001"
definition WAIT :: u16 where "WAIT = 0x0008"
definition LOCK :: u16 where "LOCK = 0x0010"

definition FLASHPAGE_OK :: int where "FLASHPAGE_OK = 0"
definition FLASHPAGE_NOMATCH :: int where "FLASHPAGE_NOMATCH = -1"

record flash_state =
  flash_mem :: memory
  FCTL1 :: u16
  FCTL3 :: u16
  fctl3_reads :: "nat \<Rightarrow> u16"
  fctl3_k :: nat

text \<open>
  The address of a page, and the page of an address, in the 16-bit \<open>int\<close> of the processor; a start of the flash below
  0x8000 is an \<open>int\<close> constant.
\<close>

definition flashpage_addr :: "int \<Rightarrow> int \<Rightarrow> u16" where
  "flashpage_addr base page = word_of_int (base + page * int FLASHPAGE_SIZE)"

definition flashpage_page :: "int \<Rightarrow> u16 \<Rightarrow> int" where
  "flashpage_page base a =
     (let d = sint (word_of_int (sint a - base) :: u16) in sgn d * (\<bar>d\<bar> div int FLASHPAGE_SIZE))"

text \<open>Waiting for the controller.\<close>

partial_function (option) flash_wait :: "(u16 \<Rightarrow> bool) \<Rightarrow> (nat \<Rightarrow> u16) \<Rightarrow> nat \<Rightarrow> nat option" where
  "flash_wait again r k = (if again (r k) then flash_wait again r (Suc k) else Some (Suc k))"

definition wait_ready :: "(u16 \<Rightarrow> bool) \<Rightarrow> flash_state \<Rightarrow> flash_state option" where
  "wait_ready again s = map_option (\<lambda>k. s\<lparr>fctl3_k := k\<rparr>) (flash_wait again (fctl3_reads s) (fctl3_k s))"

type_synonym controller = "u16 \<Rightarrow> u16 \<Rightarrow> u16 \<Rightarrow> u8 \<Rightarrow> memory \<Rightarrow> memory"

definition flash_store :: "controller \<Rightarrow> u16 \<Rightarrow> u8 \<Rightarrow> flash_state \<Rightarrow> flash_state" where
  "flash_store store a v s = s\<lparr>flash_mem := store (FCTL1 s) (FCTL3 s) a v (flash_mem s)\<rparr>"

fun flash_copy :: "controller \<Rightarrow> u16 \<Rightarrow> u16 \<Rightarrow> nat \<Rightarrow> flash_state \<Rightarrow> flash_state option" where
  "flash_copy store dst src 0 s = Some s"
| "flash_copy store dst src (Suc n) s = do {
     s1 \<leftarrow> wait_ready (\<lambda>v. v AND WAIT = 0) (flash_store store dst (flash_mem s src) s);
     flash_copy store (dst + 1) (src + 1) n s1
   }"

definition flashpage_write :: "controller \<Rightarrow> int \<Rightarrow> int \<Rightarrow> int \<Rightarrow> u16 \<Rightarrow> flash_state \<Rightarrow> flash_state option" where
  "flashpage_write store base numof page data s =
     (if page < numof then do {
        let dst = flashpage_addr base page;
        s1 \<leftarrow> wait_ready (\<lambda>v. v AND BUSY \<noteq> 0) (s\<lparr>FCTL3 := FWKEY\<rparr>);
        s2 \<leftarrow> wait_ready (\<lambda>v. v AND BUSY \<noteq> 0) (flash_store store dst 0 (s1\<lparr>FCTL1 := FWKEY OR ERASE\<rparr>));
        s3 \<leftarrow> (if data \<noteq> 0 then flash_copy store dst data FLASHPAGE_SIZE (s2\<lparr>FCTL1 := FWKEY OR WRT\<rparr>) else Some s2);
        Some (s3\<lparr>FCTL1 := FWKEY, FCTL3 := FWKEY OR LOCK\<rparr>)
      }
      else None)"

definition flashpage_read :: "int \<Rightarrow> int \<Rightarrow> int \<Rightarrow> u16 \<Rightarrow> flash_state \<Rightarrow> flash_state option" where
  "flashpage_read base numof page data s =
     (if page < numof then Some (s\<lparr>flash_mem := memcpy data (flashpage_addr base page) FLASHPAGE_SIZE (flash_mem s)\<rparr>) else None)"

fun memcmp_eq :: "memory \<Rightarrow> u16 \<Rightarrow> u16 \<Rightarrow> nat \<Rightarrow> bool" where
  "memcmp_eq m p q 0 = True"
| "memcmp_eq m p q (Suc n) = (m p = m q \<and> memcmp_eq m (p + 1) (q + 1) n)"

definition flashpage_verify :: "int \<Rightarrow> int \<Rightarrow> int \<Rightarrow> u16 \<Rightarrow> flash_state \<Rightarrow> int option" where
  "flashpage_verify base numof page data s =
     (if page < numof then
        Some (if memcmp_eq (flash_mem s) (flashpage_addr base page) data FLASHPAGE_SIZE then FLASHPAGE_OK else FLASHPAGE_NOMATCH)
      else None)"

definition flashpage_write_and_verify ::
    "controller \<Rightarrow> int \<Rightarrow> int \<Rightarrow> int \<Rightarrow> u16 \<Rightarrow> flash_state \<Rightarrow> (int \<times> flash_state) option" where
  "flashpage_write_and_verify store base numof page data s = do {
     s1 \<leftarrow> flashpage_write store base numof page data s;
     r \<leftarrow> flashpage_verify base numof page data s1;
     Some (r, s1)
   }"

section \<open>The controller\<close>

definition segment :: "u16 \<Rightarrow> u16 set" where
  "segment a = {b. unat b div FLASHPAGE_SIZE = unat a div FLASHPAGE_SIZE}"

text \<open>
  Unlocked, a write in erase mode sets the whole segment to ones, and a write in write mode can only clear bits.
\<close>

definition flash_device :: "controller \<Rightarrow> bool" where
  "flash_device store \<longleftrightarrow> (\<forall>a v m.
     store (FWKEY OR ERASE) FWKEY a v m = (\<lambda>b. if b \<in> segment a then 0xFF else m b)
     \<and> store (FWKEY OR WRT) FWKEY a v m = m(a := m a AND v))"

text \<open>The controller becomes ready again and again.\<close>

definition flash_ready :: "flash_state \<Rightarrow> bool" where
  "flash_ready s \<longleftrightarrow> (\<forall>k. \<exists>n \<ge> k. fctl3_reads s n AND BUSY = 0) \<and> (\<forall>k. \<exists>n \<ge> k. fctl3_reads s n AND WAIT \<noteq> 0)"

lemma flash_wait_ends:
  assumes "\<exists>n \<ge> k. \<not> again (r n)"
  shows "\<exists>k'. flash_wait again r k = Some k'"
proof -
  obtain d where "\<not> again (r (k + d))" using assms le_Suc_ex by blast
  then show ?thesis
  proof (induction d arbitrary: k)
    case 0
    then show ?case by (subst flash_wait.simps) simp
  next
    case (Suc d)
    then have "\<exists>k'. flash_wait again r (Suc k) = Some k'" by simp
    then show ?case by (subst flash_wait.simps) simp
  qed
qed

lemma wait_ready_ends:
  assumes "flash_ready s"
  shows "\<exists>k. wait_ready (\<lambda>v. v AND BUSY \<noteq> 0) s = Some (s\<lparr>fctl3_k := k\<rparr>)"
    and "\<exists>k. wait_ready (\<lambda>v. v AND WAIT = 0) s = Some (s\<lparr>fctl3_k := k\<rparr>)"
proof -
  have "\<exists>n \<ge> fctl3_k s. \<not> fctl3_reads s n AND BUSY \<noteq> 0" "\<exists>n \<ge> fctl3_k s. \<not> fctl3_reads s n AND WAIT = 0"
    using assms unfolding flash_ready_def by simp_all
  then show "\<exists>k. wait_ready (\<lambda>v. v AND BUSY \<noteq> 0) s = Some (s\<lparr>fctl3_k := k\<rparr>)" "\<exists>k. wait_ready (\<lambda>v. v AND WAIT = 0) s = Some (s\<lparr>fctl3_k := k\<rparr>)"
    using flash_wait_ends [of "fctl3_k s" "\<lambda>v. v AND BUSY \<noteq> 0" "fctl3_reads s"]
      flash_wait_ends [of "fctl3_k s" "\<lambda>v. v AND WAIT = 0" "fctl3_reads s"] by (auto simp: wait_ready_def)
qed

section \<open>Pages\<close>

lemma flashpage_addr_unat:
  assumes "0 \<le> base" and "0 \<le> page" and "base + page * 512 < 65536"
  shows "unat (flashpage_addr base page) = nat (base + page * 512)"
proof -
  have "uint (flashpage_addr base page) = (base + page * 512) mod 65536"
    by (simp only: flashpage_addr_def FLASHPAGE_SIZE_def uint_word_of_int) simp
  also have "\<dots> = base + page * 512" using assms by (intro mod_pos_pos_trivial) auto
  finally have "uint (flashpage_addr base page) = base + page * 512" .
  then show ?thesis by (simp only: unat_eq_nat_uint)
qed

lemma sint_16: "sint (word_of_int k :: u16) = (k + 32768) mod 65536 - 32768"
  by (simp add: signed_of_int signed_take_bit_eq_take_bit_shift take_bit_eq_mod)

text \<open>The page of an address is found below page 64 only: the difference is taken in a signed 16-bit integer.\<close>

lemma flashpage_page_addr:
  assumes "0 \<le> page" and "page < 128"
  shows "flashpage_page base (flashpage_addr base page) = (if page < 64 then page else page - 128)"
proof -
  have "word_of_int (sint (flashpage_addr base page) - base) = (word_of_int (page * 512) :: u16)"
  proof -
    have "(word_of_int (sint (flashpage_addr base page) - base) :: u16) = word_of_int (sint (flashpage_addr base page)) - word_of_int base"
      by (rule of_int_diff)
    also have "\<dots> = word_of_int (base + page * 512) - word_of_int base"
      by (simp add: flashpage_addr_def FLASHPAGE_SIZE_def)
    also have "\<dots> = word_of_int (page * 512)" by simp
    finally show ?thesis .
  qed
  then have d: "sint (word_of_int (sint (flashpage_addr base page) - base) :: u16) = (page * 512 + 32768) mod 65536 - 32768"
    by (simp only: sint_16)
  show ?thesis
  proof (cases "page < 64")
    case True
    then have "(page * 512 + 32768) mod 65536 = page * 512 + 32768" using assms by (intro mod_pos_pos_trivial) auto
    then have e: "sint (word_of_int (sint (flashpage_addr base page) - base) :: u16) = page * 512" using d by simp
    show ?thesis unfolding flashpage_page_def Let_def e FLASHPAGE_SIZE_def using True assms(1) by (simp add: sgn_if)
  next
    case False
    have "(page * 512 + 32768) mod 65536 = (page * 512 - 32768) mod 65536" using mod_add_self2 [of "page * 512 - 32768" 65536] by (simp add: add.commute)
    also have "\<dots> = page * 512 - 32768" using False assms by (intro mod_pos_pos_trivial) auto
    finally have e: "sint (word_of_int (sint (flashpage_addr base page) - base) :: u16) = - ((128 - page) * 512)" using d by simp
    show ?thesis unfolding flashpage_page_def Let_def e FLASHPAGE_SIZE_def using False assms by (simp add: sgn_if)
  qed
qed

section \<open>Writing a page\<close>

text \<open>The bytes at \<open>n\<close> consecutive addresses.\<close>

definition byte_range :: "u16 \<Rightarrow> nat \<Rightarrow> u16 set" where
  "byte_range a n = {b. unat a \<le> unat b \<and> unat b < unat a + n}"

lemma mask_eq_minus_one_255: "(0xFF :: u8) = -1"
  by simp

lemma range_one: "byte_range a (Suc 0) = {a}"
  by (auto simp: byte_range_def word_unat_eq_iff)

lemma range_Suc: "unat a + 1 < 65536 \<Longrightarrow> byte_range (a + 1) n \<subseteq> byte_range a (Suc n) - {a}"
  by (auto simp: byte_range_def unat_word_ariths)

text \<open>On an erased page the copy is a \<open>memcpy\<close>.\<close>

lemma flash_copy_spec:
  assumes "flash_device store" and "flash_ready s" and "FCTL1 s = FWKEY OR WRT" and "FCTL3 s = FWKEY" and "unat dst + n \<le> 65536"
    and "\<forall>b \<in> byte_range dst n. flash_mem s b = 0xFF"
  shows "\<exists>s'. flash_copy store dst src n s = Some s' \<and> flash_mem s' = memcpy dst src n (flash_mem s)"
  using assms
proof (induction n arbitrary: dst src s)
  case (Suc n)
  define s1 where "s1 = flash_store store dst (flash_mem s src) s"
  have ff: "0xFF AND v = v" for v :: u8 using mask_eq_minus_one_255 by (simp only:) simp
  have "dst \<in> byte_range dst (Suc n)" by (simp add: byte_range_def)
  then have m1: "flash_mem s1 = (flash_mem s)(dst := flash_mem s src)"
    using Suc.prems(1,3,4,6) by (simp add: s1_def flash_store_def flash_device_def ff)
  have r1: "flash_ready s1" using Suc.prems(2) by (simp add: s1_def flash_store_def flash_ready_def)
  then obtain k where k: "wait_ready (\<lambda>v. v AND WAIT = 0) s1 = Some (s1\<lparr>fctl3_k := k\<rparr>)" using wait_ready_ends(2) by blast
  then have step: "flash_copy store dst src (Suc n) s = flash_copy store (dst + 1) (src + 1) n (s1\<lparr>fctl3_k := k\<rparr>)"
    by (simp add: s1_def)
  show ?case
  proof (cases n)
    case 0
    then show ?thesis unfolding step using m1 by (simp add: fun_upd_def)
  next
    case (Suc n')
    then have d: "unat dst + 1 < 65536" using Suc.prems(5) by simp
    have "\<exists>s'. flash_copy store (dst + 1) (src + 1) n (s1\<lparr>fctl3_k := k\<rparr>) = Some s'
        \<and> flash_mem s' = memcpy (dst + 1) (src + 1) n (flash_mem (s1\<lparr>fctl3_k := k\<rparr>))"
    proof (rule Suc.IH)
      show "flash_ready (s1\<lparr>fctl3_k := k\<rparr>)" using r1 by (simp add: flash_ready_def)
      show "\<forall>b \<in> byte_range (dst + 1) n. flash_mem (s1\<lparr>fctl3_k := k\<rparr>) b = 0xFF" using range_Suc [OF d, of n] Suc.prems(6) m1 by auto
      show "unat (dst + 1) + n \<le> 65536" using d Suc.prems(5) by (simp add: unat_word_ariths)
    qed (use Suc.prems in \<open>simp_all add: s1_def flash_store_def\<close>)
    then show ?thesis unfolding step using m1 by (simp add: fun_upd_def)
  qed
qed simp

lemma memcmp_eq_iff:
  "unat p + n \<le> 65536 \<Longrightarrow> memcmp_eq m p q n \<longleftrightarrow> (\<forall>b \<in> byte_range p n. m b = m (q + (b - p)))"
proof (induction n arbitrary: p q)
  case 0
  then show ?case by (auto simp: byte_range_def)
next
  case (Suc n)
  have one: "byte_range p (Suc n) = insert p (byte_range (p + 1) n)" if "n \<noteq> 0"
    using that Suc.prems by (auto simp: byte_range_def unat_word_ariths word_unat_eq_iff)
  have q: "q + 1 + (b - (p + 1)) = q + (b - p)" for b by simp
  show ?case
  proof (cases "n = 0")
    case True
    then show ?thesis using range_one [of p] by simp
  next
    case False
    have "unat (p + 1) + n \<le> 65536" using Suc.prems False by (simp add: unat_word_ariths)
    then show ?thesis using Suc.IH [of "p + 1" "q + 1"] one [OF False] q by simp
  qed
qed

lemma range_shift:
  assumes "b \<in> byte_range a n" and "unat c + n \<le> 65536"
  shows "c + (b - a) \<in> byte_range c n"
proof -
  have "unat (b - a) = unat b - unat a" using assms(1) by (simp add: byte_range_def unat_sub word_le_nat_alt)
  then show ?thesis using assms by (auto simp: byte_range_def unat_word_ariths)
qed

lemma range_apart: "byte_range a n \<inter> byte_range c n = {} \<Longrightarrow> 0 < n \<Longrightarrow> unat a + n \<le> unat c \<or> unat c + n \<le> unat a"
proof (rule ccontr)
  assume e: "byte_range a n \<inter> byte_range c n = {}" and "0 < n" "\<not> (unat a + n \<le> unat c \<or> unat c + n \<le> unat a)"
  then have "a \<in> byte_range c n \<or> c \<in> byte_range a n" by (simp add: byte_range_def) linarith
  moreover have "a \<in> byte_range a n" "c \<in> byte_range c n" using \<open>0 < n\<close> by (simp_all add: byte_range_def)
  ultimately show False using e by blast
qed

lemma segment_page:
  assumes "unat a mod 512 = 0"
  shows "segment a = byte_range a 512"
proof -
  obtain k where k: "unat a = 512 * k" using assms by (metis mod_0_imp_dvd dvd_def)
  have "n div 512 = k \<longleftrightarrow> 512 * k \<le> n \<and> n < 512 * k + 512" for n :: nat by auto
  then show ?thesis by (simp add: segment_def byte_range_def FLASHPAGE_SIZE_def k)
qed

lemma flashpage_write_spec:
  assumes dev: "flash_device store" and rdy: "flash_ready s" and page: "0 \<le> page" "page < numof"
    and base: "0 \<le> base" "base mod 512 = 0" "base + page * 512 + 512 \<le> 65536"
    and data: "data \<noteq> 0" "unat data + 512 \<le> 65536" "byte_range (flashpage_addr base page) 512 \<inter> byte_range data 512 = {}"
  defines "dst \<equiv> flashpage_addr base page"
  shows "\<exists>s'. flashpage_write store base numof page data s = Some s'
    \<and> (\<forall>b. flash_mem s' b = (if b \<in> byte_range dst 512 then flash_mem s (data + (b - dst)) else flash_mem s b))"
proof -
  have u: "unat dst = nat (base + page * 512)" using base page unfolding dst_def by (intro flashpage_addr_unat) auto
  then have al: "unat dst mod 512 = 0" "unat dst + 512 \<le> 65536" using base page by (simp_all add: nat_mod_as_int)
  obtain k1 where k1: "wait_ready (\<lambda>v. v AND BUSY \<noteq> 0) (s\<lparr>FCTL3 := FWKEY\<rparr>) = Some (s\<lparr>FCTL3 := FWKEY, fctl3_k := k1\<rparr>)"
    using wait_ready_ends(1) [of "s\<lparr>FCTL3 := FWKEY\<rparr>"] rdy by (auto simp: flash_ready_def)
  define m where "m = (\<lambda>b. if b \<in> byte_range dst 512 then 0xFF else flash_mem s b)"
  define s2 where "s2 = flash_store store dst 0 (s\<lparr>FCTL3 := FWKEY, fctl3_k := k1, FCTL1 := FWKEY OR ERASE\<rparr>)"
  have m2: "flash_mem s2 = m" using dev segment_page [OF al(1)] by (simp add: s2_def flash_store_def flash_device_def m_def)
  have "flash_ready s2" using rdy by (simp add: s2_def flash_store_def flash_ready_def)
  then obtain k2 where k2: "wait_ready (\<lambda>v. v AND BUSY \<noteq> 0) s2 = Some (s2\<lparr>fctl3_k := k2\<rparr>)" using wait_ready_ends(1) by blast
  define s3 where "s3 = s2\<lparr>fctl3_k := k2, FCTL1 := FWKEY OR WRT\<rparr>"
  have "\<exists>s'. flash_copy store dst data 512 s3 = Some s' \<and> flash_mem s' = memcpy dst data 512 (flash_mem s3)"
    by (rule flash_copy_spec [OF dev])
      (use \<open>flash_ready s2\<close> m2 al(2) in \<open>simp_all add: s3_def flash_ready_def s2_def flash_store_def m_def\<close>)
  then obtain s4 where s4: "flash_copy store dst data 512 s3 = Some s4" "flash_mem s4 = memcpy dst data 512 m" using m2 by (auto simp: s3_def)
  have w: "flashpage_write store base numof page data s = Some (s4\<lparr>FCTL1 := FWKEY, FCTL3 := FWKEY OR LOCK\<rparr>)"
    using page data(1) k1 k2 s4(1) by (simp add: flashpage_write_def Let_def dst_def [symmetric] s2_def s3_def FLASHPAGE_SIZE_def)
  have ap: "unat dst + 512 \<le> unat data \<or> unat data + 512 \<le> unat dst" using range_apart [OF data(3) [folded dst_def]] by simp
  have "memcpy dst data 512 m b = (if b \<in> byte_range dst 512 then flash_mem s (data + (b - dst)) else flash_mem s b)" for b
  proof (cases "b \<in> byte_range dst 512")
    case True
    then have "data + (b - dst) \<in> byte_range data 512" using data(2) by (rule range_shift)
    then have "data + (b - dst) \<notin> byte_range dst 512" using data(3) by (auto simp: dst_def)
    then show ?thesis using memcpy_spec [OF al(2) data(2) ap] True by (auto simp: m_def byte_range_def)
  next
    case False
    then show ?thesis using memcpy_spec [OF al(2) data(2) ap] by (auto simp: m_def byte_range_def)
  qed
  then show ?thesis using w s4(2) by simp
qed

lemma flashpage_write_and_verify_spec:
  assumes "flash_device store" and "flash_ready s" and "0 \<le> page" "page < numof"
    and "0 \<le> base" "base mod 512 = 0" "base + page * 512 + 512 \<le> 65536"
    and "data \<noteq> 0" "unat data + 512 \<le> 65536" "byte_range (flashpage_addr base page) 512 \<inter> byte_range data 512 = {}"
  shows "\<exists>s'. flashpage_write_and_verify store base numof page data s = Some (FLASHPAGE_OK, s')
    \<and> (\<forall>b. flash_mem s' b = (if b \<in> byte_range (flashpage_addr base page) 512 then flash_mem s (data + (b - flashpage_addr base page)) else flash_mem s b))"
proof -
  define dst where "dst = flashpage_addr base page"
  obtain s' where s': "flashpage_write store base numof page data s = Some s'"
    "\<And>b. flash_mem s' b = (if b \<in> byte_range dst 512 then flash_mem s (data + (b - dst)) else flash_mem s b)"
    using flashpage_write_spec [OF assms] by (auto simp: dst_def)
  have u: "unat dst = nat (base + page * 512)" using assms unfolding dst_def by (intro flashpage_addr_unat) auto
  have "data + (b - dst) \<notin> byte_range dst 512" if "b \<in> byte_range dst 512" for b
    using range_shift [OF that assms(9)] assms(10) by (auto simp: dst_def)
  then have "memcmp_eq (flash_mem s') dst data 512" using u assms by (subst memcmp_eq_iff) (auto simp: s'(2))
  then have "flashpage_write_and_verify store base numof page data s = Some (FLASHPAGE_OK, s')"
    using s'(1) assms(4) by (simp add: flashpage_write_and_verify_def flashpage_verify_def dst_def FLASHPAGE_SIZE_def)
  then show ?thesis using s'(2) by (auto simp: dst_def)
qed

text \<open>
  When the flash does not begin on a segment boundary, as for the MSP430F2617, the pages straddle two segments: an erase
  destroys what lies below the page and leaves its upper part.
\<close>

lemma flashpage_erase_misaligned:
  assumes "flash_device store" and "flash_ready s" and "page < numof" and "unat (flashpage_addr base page) mod 512 \<noteq> 0"
  shows "\<exists>s'. flashpage_write store base numof page 0 s = Some s'
    \<and> flash_mem s' (flashpage_addr base page - 1) = 0xFF \<and> flash_mem s' (flashpage_addr base page + 511) = flash_mem s (flashpage_addr base page + 511)"
proof -
  define dst where "dst = flashpage_addr base page"
  obtain k1 where k1: "wait_ready (\<lambda>v. v AND BUSY \<noteq> 0) (s\<lparr>FCTL3 := FWKEY\<rparr>) = Some (s\<lparr>FCTL3 := FWKEY, fctl3_k := k1\<rparr>)"
    using wait_ready_ends(1) [of "s\<lparr>FCTL3 := FWKEY\<rparr>"] assms(2) by (auto simp: flash_ready_def)
  define s2 where "s2 = flash_store store dst 0 (s\<lparr>FCTL3 := FWKEY, fctl3_k := k1, FCTL1 := FWKEY OR ERASE\<rparr>)"
  have m2: "flash_mem s2 = (\<lambda>b. if b \<in> segment dst then 0xFF else flash_mem s b)"
    using assms(1) by (simp add: s2_def flash_store_def flash_device_def)
  have "flash_ready s2" using assms(2) by (simp add: s2_def flash_store_def flash_ready_def)
  then obtain k2 where k2: "wait_ready (\<lambda>v. v AND BUSY \<noteq> 0) s2 = Some (s2\<lparr>fctl3_k := k2\<rparr>)" using wait_ready_ends(1) by blast
  define q r where "q = unat dst div 512" and "r = unat dst mod 512"
  have u: "unat dst = 512 * q + r" "0 < r" "r < 512" using assms(4) by (simp_all add: q_def r_def dst_def)
  have seg: "b \<in> segment dst \<longleftrightarrow> 512 * q \<le> unat b \<and> unat b < 512 * q + 512" for b
    by (auto simp: segment_def FLASHPAGE_SIZE_def q_def [symmetric])
  have "1 \<le> dst" using u by (simp add: word_le_nat_alt)
  then have "unat (dst - 1) = 512 * q + r - 1" using u by (simp add: unat_sub)
  then have lo: "dst - 1 \<in> segment dst" using u(2,3) by (simp add: seg) linarith
  have "unat (dst + 511) = unat dst + 511 \<or> unat (dst + 511) + 65536 = unat dst + 511"
    using unat_lt_16 [of dst] by (cases "unat dst + 511 < 65536") (auto simp: unat_word_ariths mod_if)
  then have hi: "dst + 511 \<notin> segment dst" using u unat_lt_16 [of dst] unfolding seg by linarith
  show ?thesis using k1 k2 m2 lo hi assms(3) by (simp add: flashpage_write_def Let_def dst_def [symmetric] s2_def)
qed

text \<open>The last page of the MSP430F1612's configuration wraps around to address 0.\<close>

lemma flashpage_addr_wraps: "flashpage_addr 0x2600 109 = 0"
  by (simp add: flashpage_addr_def FLASHPAGE_SIZE_def)

end
