(* ===== verification/Simulation.thy ===== *)
theory Simulation
  imports Prelude
begin

text \<open>
  The interface between a component and the clients that call it: the concrete operations, the calls an abstract
  specification allows and the answers it permits. A client decides its next call from the answers it got so far;
  what is proved about all clients once, in the locale, holds for every component that interprets it.
\<close>

section \<open>Clients\<close>

type_synonym ('c, 'r) client = "'r list \<Rightarrow> 'c"

text \<open>The first \<open>n\<close> calls of a client on the concrete component, with the answers it got.\<close>

fun exec :: "('c \<Rightarrow> 's \<Rightarrow> ('r \<times> 's) option) \<Rightarrow> ('c, 'r) client \<Rightarrow> nat \<Rightarrow> 's \<Rightarrow> ('r list \<times> 's) option" where
  "exec step client 0 s = Some ([], s)"
| "exec step client (Suc n) s = do {
     (rs, s1) \<leftarrow> exec step client n s;
     (r, s2) \<leftarrow> step (client rs) s1;
     Some (rs @ [r], s2)
   }"

text \<open>The answers the specification permits a client to get.\<close>

inductive trace :: "('c \<Rightarrow> 'r \<Rightarrow> 'a \<Rightarrow> 'a \<Rightarrow> bool) \<Rightarrow> ('c, 'r) client \<Rightarrow> 'r list \<Rightarrow> 'a \<Rightarrow> 'a \<Rightarrow> bool"
  for spec client where
  trace_Nil: "trace spec client [] a a"
| trace_snoc: "trace spec client rs a b \<Longrightarrow> spec (client rs) r b c \<Longrightarrow> trace spec client (rs @ [r]) a c"

inductive_simps trace_Nil_simps [simp]: "trace spec client [] a c"
inductive_simps trace_snoc_simps: "trace spec client (rs @ [r]) a c"

lemma trace_one: "trace spec client [r] a c \<longleftrightarrow> spec (client []) r a c"
  using trace_snoc_simps [of spec client "[]" r a c] by simp

text \<open>A client that keeps to the specification, whatever answers it permits.\<close>

definition well_behaved :: "('c \<Rightarrow> 'r \<Rightarrow> 'a \<Rightarrow> 'a \<Rightarrow> bool) \<Rightarrow> ('a \<Rightarrow> 'c \<Rightarrow> bool) \<Rightarrow> ('c, 'r) client \<Rightarrow> 'a \<Rightarrow> bool" where
  "well_behaved spec allowed client a \<longleftrightarrow> (\<forall>rs b. trace spec client rs a b \<longrightarrow> allowed b (client rs))"

section \<open>Components that implement a specification\<close>

locale simulation =
  fixes step :: "'c \<Rightarrow> 's \<Rightarrow> ('r \<times> 's) option"
    and spec :: "'c \<Rightarrow> 'r \<Rightarrow> 'a \<Rightarrow> 'a \<Rightarrow> bool"
    and allowed :: "'a \<Rightarrow> 'c \<Rightarrow> bool"
    and implements :: "'s \<Rightarrow> 'a \<Rightarrow> bool"
  assumes simulates:
    "implements s a \<Longrightarrow> allowed a c \<Longrightarrow> \<exists>r s' a'. step c s = Some (r, s') \<and> spec c r a a' \<and> implements s' a'"
begin

text \<open>A client that is well behaved is always answered, and only as the specification permits.\<close>

lemma exec_simulates:
  assumes "implements s a" and "well_behaved spec allowed client a"
  shows "\<exists>rs s' a'. exec step client n s = Some (rs, s') \<and> length rs = n \<and> trace spec client rs a a' \<and> implements s' a'"
proof (induction n)
  case 0
  then show ?case using assms(1) by simp
next
  case (Suc n)
  then obtain rs s1 b where n: "exec step client n s = Some (rs, s1)" "length rs = n" "trace spec client rs a b" "implements s1 b" by blast
  then obtain r s2 c where "step (client rs) s1 = Some (r, s2)" "spec (client rs) r b c" "implements s2 c"
    using simulates [of s1 b "client rs"] assms(2) by (auto simp: well_behaved_def)
  then show ?case using n by (auto intro: trace_snoc)
qed

text \<open>An invariant of the specification is one of every state a well behaved client can reach.\<close>

lemma exec_invariant:
  assumes "implements s a" and "well_behaved spec allowed client a" and "P a"
    and "\<And>c r b b'. P b \<Longrightarrow> allowed b c \<Longrightarrow> spec c r b b' \<Longrightarrow> P b'" and "exec step client n s = Some (rs, s')"
  shows "\<exists>b. implements s' b \<and> P b"
proof -
  have "P b" if "trace spec client rs a b" for rs b
    using that assms(2-4) unfolding well_behaved_def by (induction rule: trace.induct) blast+
  then show ?thesis using exec_simulates [OF assms(1,2), of n] assms(5) by auto
qed

end

end
