(* ===== verification/Heap_Refine.thy ===== *)
theory Heap_Refine
  imports Malloc_Realloc Simulation
begin

text \<open>
  What the heap of \<open>cpu/msp430-sancus/malloc.c\<close> promises to the code that calls it, and that \<open>malloc\<close>, \<open>free\<close>,
  \<open>realloc\<close> and \<open>calloc\<close> keep the promise. The specification knows nothing of chunks, size fields, the free list or the
  break: its state maps the address of each live block to its bytes. Clients use even sizes, as the code needs them to
  (see \<open>Malloc_Heap\<close>), and sizes that \<open>realloc\<close> computes without wrap-around.
\<close>

section \<open>Calls\<close>

type_synonym blocks = "u16 \<rightharpoonup> u8 list"

datatype heap_call =
    Malloc u16 u16
  | Free u16
  | Realloc u16 u16 u16
  | Calloc u16 u16 u16
  | Peek u16 nat
  | Poke u16 nat u8

text \<open>
  The calls on the model of the code; the first argument of the allocating ones is the stack pointer, which bounds the
  heap. Reading and writing a byte is an access of the client to memory.
\<close>

fun heap_exec :: "heap_call \<Rightarrow> malloc_state \<Rightarrow> (u16 \<times> malloc_state) option" where
  "heap_exec (Malloc r1 len) st = malloc r1 len st"
| "heap_exec (Free p) st = map_option (Pair 0) (free p st)"
| "heap_exec (Realloc r1 p len) st = realloc r1 p len st"
| "heap_exec (Calloc r1 nele elsize) st = calloc r1 nele elsize st"
| "heap_exec (Peek p i) st = Some (ucast (mem st (p + of_nat i)), st)"
| "heap_exec (Poke p i v) st = Some (0, st\<lparr>mem := (mem st)(p + of_nat i := v)\<rparr>)"

text \<open>Blocks that do not overlap, above address 0 and within memory.\<close>

definition separate :: "blocks \<Rightarrow> bool" where
  "separate B \<longleftrightarrow> (\<forall>p bs. B p = Some bs \<longrightarrow> p \<noteq> 0 \<and> unat p + length bs < 65536)
     \<and> (\<forall>p q bs cs. B p = Some bs \<longrightarrow> B q = Some cs \<longrightarrow> p \<noteq> q \<longrightarrow>
          unat p + length bs \<le> unat q \<or> unat q + length cs \<le> unat p)"

text \<open>\<open>fresh n B p bs B'\<close>: the block \<open>p\<close> with the contents \<open>bs\<close>, of at least \<open>n\<close> bytes, is added to \<open>B\<close>.\<close>

definition fresh :: "nat \<Rightarrow> blocks \<Rightarrow> u16 \<Rightarrow> u8 list \<Rightarrow> blocks \<Rightarrow> bool" where
  "fresh n B p bs B' \<longleftrightarrow> p \<notin> dom B \<and> n \<le> length bs \<and> B' = B(p \<mapsto> bs) \<and> separate B'"

inductive heap_spec :: "heap_call \<Rightarrow> u16 \<Rightarrow> blocks \<Rightarrow> blocks \<Rightarrow> bool" where
  spec_malloc: "fresh (unat len) B p bs B' \<Longrightarrow> heap_spec (Malloc r1 len) p B B'"
| spec_malloc_NULL: "heap_spec (Malloc r1 len) 0 B B"
| spec_free_NULL: "heap_spec (Free 0) 0 B B"
| spec_free: "p \<in> dom B \<Longrightarrow> heap_spec (Free p) 0 B (B(p := None))"
| spec_realloc_new: "fresh (unat len) B p bs B' \<Longrightarrow> heap_spec (Realloc r1 0 len) p B B'"
| spec_realloc: "B p = Some as \<Longrightarrow> fresh (unat len) (B(p := None)) q bs B' \<Longrightarrow> n = min (unat len) (length as) \<Longrightarrow>
    take n bs = take n as \<Longrightarrow> heap_spec (Realloc r1 p len) q B B'"
| spec_realloc_NULL: "heap_spec (Realloc r1 p len) 0 B B"
| spec_calloc: "n = unat nele * unat elsize \<Longrightarrow> fresh n B p bs B' \<Longrightarrow> take n bs = replicate n 0 \<Longrightarrow>
    heap_spec (Calloc r1 nele elsize) p B B'"
| spec_calloc_NULL: "heap_spec (Calloc r1 nele elsize) 0 B B"
| spec_peek: "B p = Some bs \<Longrightarrow> i < length bs \<Longrightarrow> heap_spec (Peek p i) (ucast (bs ! i)) B B"
| spec_poke: "B p = Some bs \<Longrightarrow> i < length bs \<Longrightarrow> heap_spec (Poke p i v) 0 B (B(p \<mapsto> bs[i := v]))"

fun heap_allowed :: "blocks \<Rightarrow> heap_call \<Rightarrow> bool" where
  "heap_allowed B (Malloc r1 len) \<longleftrightarrow> even (unat len)"
| "heap_allowed B (Free p) \<longleftrightarrow> p = 0 \<or> p \<in> dom B"
| "heap_allowed B (Realloc r1 p len) \<longleftrightarrow> even (unat len) \<and> (p = 0 \<or> p \<in> dom B \<and> 2 \<le> unat len \<and> unat len < 65534)"
| "heap_allowed B (Calloc r1 nele elsize) \<longleftrightarrow> unat nele * unat elsize < 65536 \<and> even (unat nele * unat elsize)"
| "heap_allowed B (Peek p i) \<longleftrightarrow> (case B p of None \<Rightarrow> False | Some bs \<Rightarrow> i < length bs)"
| "heap_allowed B (Poke p i v) \<longleftrightarrow> (case B p of None \<Rightarrow> False | Some bs \<Rightarrow> i < length bs)"

section \<open>The abstraction\<close>

definition contents :: "malloc_state \<Rightarrow> u16 \<Rightarrow> u8 list" where
  "contents st p = map (\<lambda>i. mem st (p + of_nat i)) [0..<unat (sz st (p - 2))]"

definition live :: "u16 list \<Rightarrow> u16 list \<Rightarrow> u16 set" where
  "live xs fs = set xs - set fs"

definition blocks_of :: "malloc_state \<Rightarrow> u16 set \<Rightarrow> blocks" where
  "blocks_of st A p = (if p - 2 \<in> A then Some (contents st p) else None)"

definition heap_implements :: "malloc_state \<Rightarrow> blocks \<Rightarrow> bool" where
  "heap_implements st B \<longleftrightarrow> (\<exists>xs fs. heap_inv st xs fs \<and> B = blocks_of st (live xs fs))"

lemma heap_implementsI: "heap_inv st xs fs \<Longrightarrow> A = live xs fs \<Longrightarrow> heap_implements st (blocks_of st A)"
  by (auto simp: heap_implements_def)

lemma length_block [simp]: "length (contents st p) = unat (sz st (p - 2))"
  by (simp add: contents_def)

lemma nth_block [simp]: "i < unat (sz st (p - 2)) \<Longrightarrow> contents st p ! i = mem st (p + of_nat i)"
  by (simp add: contents_def)

lemma dom_blocks_of [simp]: "p \<in> dom (blocks_of st A) \<longleftrightarrow> p - 2 \<in> A"
  by (simp add: blocks_of_def dom_def)

text \<open>The address of a byte of a block.\<close>

lemma block_byte:
  assumes "heap_inv st xs fs" and "y \<in> set xs" and "i < unat (sz st y)"
  shows "unat (y + 2 + of_nat i) = unat y + 2 + i"
proof -
  note b = block_addr [OF assms(1,2)]
  have "i < 65536" using assms(3) b(7) by simp
  then have "unat (of_nat i :: u16) = i" by (simp add: unat_of_nat take_bit_eq_mod)
  then show ?thesis using b(1,7) assms(3) by (simp add: unat_word_ariths)
qed

text \<open>What is kept of a set of chunks is kept of the blocks.\<close>

lemma contents_keeps:
  assumes inv: "heap_inv st xs fs" and k: "keeps A st st'" and y: "y \<in> A" "y \<in> set xs"
  shows "contents st' (y + 2) = contents st (y + 2)"
proof (rule nth_equalityI)
  have s: "sz st' y = sz st y" using k y(1) by (simp add: keeps_def)
  then show "length (contents st' (y + 2)) = length (contents st (y + 2))" by simp
  fix i
  assume "i < length (contents st' (y + 2))"
  then have i: "i < unat (sz st y)" using s by simp
  have "mem st' (y + 2 + of_nat i) = mem st (y + 2 + of_nat i)"
    using k y(1) block_byte [OF inv y(2) i] i by (simp add: keeps_def)
  then show "contents st' (y + 2) ! i = contents st (y + 2) ! i" using i s by simp
qed

lemma blocks_of_keeps:
  assumes inv: "heap_inv st xs fs" and k: "keeps A st st'" and A: "A \<subseteq> set xs"
  shows "blocks_of st' A = blocks_of st A"
proof
  fix p
  show "blocks_of st' A p = blocks_of st A p"
    using contents_keeps [OF inv k, of "p - 2"] A by (auto simp: blocks_of_def)
qed

lemma blocks_of_insert: "blocks_of st (insert c A) = (blocks_of st A)(c + 2 \<mapsto> contents st (c + 2))"
  by (auto simp: blocks_of_def fun_eq_iff)

lemma blocks_of_remove: "blocks_of st (A - {c}) = (blocks_of st A)(c + 2 := None)"
  by (auto simp: blocks_of_def fun_eq_iff)

text \<open>The blocks of a well-formed heap are separate.\<close>

lemma separate_blocks:
  assumes inv: "heap_inv st xs fs" and A: "A \<subseteq> set xs"
  shows "separate (blocks_of st A)"
  unfolding separate_def
proof (intro conjI allI impI)
  note i = heap_invD [OF inv]
  fix p bs
  assume "blocks_of st A p = Some bs"
  then have p: "p - 2 \<in> set xs" "bs = contents st p" using A by (auto simp: blocks_of_def split: if_splits)
  note b = block_addr [OF inv p(1)]
  show "p \<noteq> 0" using b(3) by simp
  show "unat p + length bs < 65536" using b(1,7) p(2) by simp
  fix q cs
  assume "blocks_of st A q = Some cs" and ne: "p \<noteq> q"
  then have q: "q - 2 \<in> set xs" "cs = contents st q" using A by (auto simp: blocks_of_def split: if_splits)
  have "p - 2 \<noteq> q - 2" using ne by simp
  then show "unat p + length bs \<le> unat q \<or> unat q + length cs \<le> unat p"
    using chunks_apart [OF i(6) p(1) q(1)] b(1) block_addr(1) [OF inv q(1)] p(2) q(2) by auto
qed

lemma live_subset: "live xs fs \<subseteq> set xs"
  by (auto simp: live_def)

section \<open>The simulation\<close>

text \<open>A chunk that is taken is a fresh block.\<close>

lemma takes_fresh:
  assumes inv: "heap_inv st xs fs" and t: "takes st xs fs c st' xs' fs'" and n: "n \<le> unat (sz st' c)"
  defines "B' \<equiv> blocks_of st' (live xs' fs')"
  shows "fresh n (blocks_of st (live xs fs)) (c + 2) (contents st' (c + 2)) B'" and "heap_implements st' B'"
proof -
  have t': "heap_inv st' xs' fs'" "c \<notin> live xs fs" "live xs' fs' = insert c (live xs fs)" "keeps (live xs fs) st st'"
    using t by (auto simp: takes_def live_def)
  have "B' = (blocks_of st (live xs fs))(c + 2 \<mapsto> contents st' (c + 2))"
    unfolding B'_def t'(3) blocks_of_insert blocks_of_keeps [OF inv t'(4) live_subset] ..
  moreover have "separate B'" unfolding B'_def by (rule separate_blocks [OF t'(1) live_subset])
  ultimately show "fresh n (blocks_of st (live xs fs)) (c + 2) (contents st' (c + 2)) B'"
    using t'(2) n by (simp add: fresh_def)
  show "heap_implements st' B'" unfolding B'_def by (rule heap_implementsI [OF t'(1)]) (rule refl)
qed

lemma contents_mem: "mem st' = mem st \<Longrightarrow> blocks_of st' A = blocks_of st A"
  by (rule ext) (simp add: blocks_of_def contents_def sz_def)

lemma sim_failed:
  assumes "heap_inv st' xs fs" and "mem st' = mem st"
  shows "heap_implements st' (blocks_of st (live xs fs))"
  using heap_implementsI [OF assms(1) refl] contents_mem [OF assms(2)] by simp

lemma sim_malloc:
  assumes inv: "heap_inv st xs fs" and B: "B = blocks_of st (live xs fs)" and ev: "even (unat len)"
  shows "\<exists>p st' B'. malloc r1 len st = Some (p, st') \<and> (p = 0 \<and> B' = B \<or> (\<exists>bs. fresh (unat len) B p bs B')) \<and> heap_implements st' B'"
proof -
  have rq: "unat len \<le> unat (request len)" by (simp add: request_def word_less_nat_alt)
  obtain p st' where m: "malloc r1 len st = Some (p, st')"
    "(\<exists>c xs' fs'. p = c + 2 \<and> unat (request len) \<le> unat (sz st' c) \<and> takes st xs fs c st' xs' fs') \<or> p = 0 \<and> heap_inv st' xs fs \<and> mem st' = mem st"
    using malloc_spec [OF inv ev, of r1] by (auto split: if_splits) blast+
  from m(2) show ?thesis
  proof
    assume "p = 0 \<and> heap_inv st' xs fs \<and> mem st' = mem st"
    then show ?thesis using m(1) sim_failed [of st' xs fs st] B by blast
  next
    assume "\<exists>c xs' fs'. p = c + 2 \<and> unat (request len) \<le> unat (sz st' c) \<and> takes st xs fs c st' xs' fs'"
    then obtain c xs' fs' where c: "p = c + 2" "unat len \<le> unat (sz st' c)" "takes st xs fs c st' xs' fs'" using rq le_trans by blast
    then show ?thesis using m(1) takes_fresh [OF inv c(3,2)] B by blast
  qed
qed

lemma sim_free:
  assumes inv: "heap_inv st xs fs" and B: "B = blocks_of st (live xs fs)" and p: "p - 2 \<in> live xs fs"
  shows "\<exists>st'. free p st = Some st' \<and> heap_implements st' (B(p := None))"
proof -
  define y where "y = p - 2"
  have y: "p = y + 2" "y \<in> set xs" "y \<notin> set fs" using p by (auto simp: y_def live_def)
  obtain st' xs' fs' where f: "free (y + 2) st = Some st'" "heap_inv st' xs' fs'" "set xs' - set fs' = set xs - set fs - {y}"
    "keeps (set xs - set fs - {y}) st st'" using free_spec [OF inv y(2,3) refl] by blast
  have l: "live xs' fs' = live xs fs - {y}" using f(3) by (simp add: live_def)
  have "keeps (live xs fs - {y}) st st'" "live xs fs - {y} \<subseteq> set xs" using f(4) by (auto simp: live_def)
  from blocks_of_keeps [OF inv this] have "blocks_of st' (live xs' fs') = B(p := None)"
    unfolding l by (simp add: blocks_of_remove [of st] B y(1))
  then show ?thesis using f(1) heap_implementsI [OF f(2) refl] y(1) by auto
qed

text \<open>A chunk that was resized is a fresh block in place of the old one, with its contents.\<close>

lemma resized_fresh:
  assumes inv: "heap_inv st xs fs" and y: "y \<in> set xs" "y \<notin> set fs" and r: "resized st xs fs y len q st'"
    and B: "B = blocks_of st (live xs fs)" and n: "n = min (unat len) (unat (sz st y))"
  shows "\<exists>B'. fresh (unat len) (B(y + 2 := None)) q (contents st' q) B' \<and> take n (contents st' q) = take n (contents st (y + 2))
    \<and> heap_implements st' B'"
proof -
  define A where "A = live xs fs - {y}"
  have r': "unat len \<le> unat (sz st' (q - 2))" "q - 2 \<notin> A" "keeps A st st'" "copied (y + 2) q n st st'"
    "\<exists>xs' fs'. heap_inv st' xs' fs' \<and> live xs' fs' = insert (q - 2) A"
    using r n by (auto simp: resized_def A_def live_def word_le_nat_alt)
  obtain xs' fs' where i': "heap_inv st' xs' fs'" "live xs' fs' = insert (q - 2) A" using r'(5) by blast
  have "A \<subseteq> set xs" by (auto simp: A_def live_def)
  then have "blocks_of st' A = B(y + 2 := None)"
    using blocks_of_keeps [OF inv r'(3)] by (simp add: A_def B blocks_of_remove)
  then have "blocks_of st' (insert (q - 2) A) = (B(y + 2 := None))(q \<mapsto> contents st' q)"
    using blocks_of_insert [of st' "q - 2" A] by simp
  moreover have "separate (blocks_of st' (live xs' fs'))" by (rule separate_blocks [OF i'(1) live_subset])
  moreover have "q \<notin> dom (B(y + 2 := None))" using r'(2) by (auto simp: A_def B dom_def blocks_of_def split: if_splits)
  ultimately have "fresh (unat len) (B(y + 2 := None)) q (contents st' q) (blocks_of st' (live xs' fs'))"
    using r'(1) i'(2) by (simp add: fresh_def)
  moreover have "take n (contents st' q) = take n (contents st (y + 2))"
    using r'(1,4) n by (intro nth_equalityI) (auto simp: copied_def)
  ultimately show ?thesis using heap_implementsI [OF i'(1) refl] by blast
qed

lemma sim_realloc:
  assumes inv: "heap_inv st xs fs" and B: "B = blocks_of st (live xs fs)" and p: "p - 2 \<in> live xs fs"
    and len: "even (unat len)" "2 \<le> unat len" "unat len < 65534"
  shows "\<exists>q st' B'. realloc r1 p len st = Some (q, st') \<and> heap_spec (Realloc r1 p len) q B B' \<and> heap_implements st' B'"
proof -
  define y where "y = p - 2"
  have y: "p = y + 2" "y \<in> set xs" "y \<notin> set fs" using p by (auto simp: y_def live_def)
  have Bp: "B p = Some (contents st p)" using p by (simp add: B blocks_of_def)
  obtain q st' where r: "realloc r1 p len st = Some (q, st')"
    "resized st xs fs y len q st' \<or> q = 0 \<and> heap_inv st' xs fs \<and> mem st' = mem st"
    using realloc_spec [OF inv y(2,3) len, of r1] y(1) by auto
  from r(2) show ?thesis
  proof
    assume "resized st xs fs y len q st'"
    from resized_fresh [OF inv y(2,3) this B refl] obtain B' where "fresh (unat len) (B(p := None)) q (contents st' q) B'" "heap_implements st' B'"
      "take (min (unat len) (length (contents st p))) (contents st' q) = take (min (unat len) (length (contents st p))) (contents st p)"
      by (auto simp: y(1))
    then show ?thesis using r(1) spec_realloc [of B p "contents st p" len q "contents st' q"] Bp by blast
  next
    assume "q = 0 \<and> heap_inv st' xs fs \<and> mem st' = mem st"
    then show ?thesis using r(1) sim_failed [of st' xs fs st] B spec_realloc_NULL by blast
  qed
qed

lemma sim_calloc:
  assumes inv: "heap_inv st xs fs" and B: "B = blocks_of st (live xs fs)"
    and n: "unat nele * unat elsize < 65536" "even (unat nele * unat elsize)"
  shows "\<exists>p st' B'. calloc r1 nele elsize st = Some (p, st') \<and> heap_spec (Calloc r1 nele elsize) p B B' \<and> heap_implements st' B'"
proof -
  define n where "n = unat nele * unat elsize"
  obtain p st' where c: "calloc r1 nele elsize st = Some (p, st')"
    "p = 0 \<and> heap_inv st' xs fs \<and> mem st' = mem st \<or> (\<exists>xs' fs'. takes st xs fs (p - 2) st' xs' fs'
       \<and> n \<le> unat (sz st' (p - 2)) \<and> (\<forall>i < n. mem st' (p + of_nat i) = 0))"
    using calloc_spec [OF inv n, of r1] by (auto simp: n_def)
  from c(2) show ?thesis
  proof
    assume "p = 0 \<and> heap_inv st' xs fs \<and> mem st' = mem st"
    then show ?thesis using c(1) sim_failed [of st' xs fs st] B spec_calloc_NULL by blast
  next
    assume "\<exists>xs' fs'. takes st xs fs (p - 2) st' xs' fs' \<and> n \<le> unat (sz st' (p - 2)) \<and> (\<forall>i < n. mem st' (p + of_nat i) = 0)"
    then obtain xs' fs' where t: "takes st xs fs (p - 2) st' xs' fs'" "n \<le> unat (sz st' (p - 2))"
      and z: "\<forall>i < n. mem st' (p + of_nat i) = 0" by blast
    have "take n (contents st' p) = replicate n 0" using z t(2) by (intro nth_equalityI) auto
    then show ?thesis using c(1) takes_fresh [OF inv t] spec_calloc [OF n_def, of B p] B by auto
  qed
qed

text \<open>A byte that the client writes into a block changes nothing else.\<close>

lemma sim_poke:
  assumes inv: "heap_inv st xs fs" and B: "B = blocks_of st (live xs fs)" and p: "B p = Some bs" and i: "i < length bs"
  shows "heap_implements (st\<lparr>mem := (mem st)(p + of_nat i := v)\<rparr>) (B(p \<mapsto> bs[i := v]))"
proof -
  define y where "y = p - 2"
  define st' where "st' = st\<lparr>mem := (mem st)(p + of_nat i := v)\<rparr>"
  have y: "p = y + 2" "y \<in> set xs" "y \<notin> set fs" "y \<in> live xs fs" and bs: "bs = contents st p"
    using p B by (auto simp: y_def live_def blocks_of_def split: if_splits)
  have i': "i < unat (sz st y)" using i bs y(1) by simp
  have a: "unat (p + of_nat j) = unat y + 2 + j" if "j < unat (sz st y)" for j
    using block_byte [OF inv y(2) that] y(1) by simp
  have w: "writes {unat y + 2..<unat y + 2 + unat (sz st y)} st st'"
    using a [OF i'] i' by (auto simp: writes_def st'_def)
  have k: "heap_inv st' xs fs" "sz st' y = sz st y" "keeps (set xs - {y}) st st'"
    using heap_inv_contents [OF inv y(2,3) w] y(2) by (simp_all add: st'_def)
  have "contents st' p = bs[i := v]"
  proof (rule nth_equalityI)
    show "length (contents st' p) = length (bs[i := v])" using k(2) bs y(1) by simp
    fix j
    assume "j < length (contents st' p)"
    then have j: "j < unat (sz st y)" using k(2) y(1) by simp
    have "p + of_nat j = p + of_nat i \<longleftrightarrow> j = i" using a [OF j] a [OF i'] by (metis add_left_cancel)
    then have "mem st' (p + of_nat j) = (if j = i then v else mem st (p + of_nat j))" by (simp add: st'_def)
    then show "contents st' p ! j = bs[i := v] ! j" using j i' k(2) bs y(1) by (simp add: nth_list_update)
  qed
  moreover have "live xs fs = insert y (live xs fs - {y})" "live xs fs - {y} \<subseteq> set xs" "keeps (live xs fs - {y}) st st'"
    using y(4) k(3) by (auto simp: live_def keeps_def)
  ultimately have "blocks_of st' (live xs fs) = B(p \<mapsto> bs[i := v])"
    using blocks_of_insert [of st' y "live xs fs - {y}"] blocks_of_keeps [OF inv, of "live xs fs - {y}" st']
      blocks_of_remove [of st "live xs fs" y] B y(1) by simp
  then show ?thesis using heap_implementsI [OF k(1) refl] by (simp add: st'_def)
qed

lemma sim_peek:
  assumes "B = blocks_of st A" and "B p = Some bs" and "i < length bs"
  shows "mem st (p + of_nat i) = bs ! i"
  using assms by (auto simp: blocks_of_def split: if_splits)

lemma heap_simulates:
  assumes "heap_implements st B" and al: "heap_allowed B c"
  shows "\<exists>r st' B'. heap_exec c st = Some (r, st') \<and> heap_spec c r B B' \<and> heap_implements st' B'"
proof -
  obtain xs fs where h: "heap_inv st xs fs" "B = blocks_of st (live xs fs)" using assms(1) by (auto simp: heap_implements_def)
  show ?thesis
  proof (cases c)
    case (Malloc r1 len)
    then show ?thesis using sim_malloc [OF h, of len r1] al spec_malloc spec_malloc_NULL by (fastforce simp del: fun_upd_apply)
  next
    case (Free p)
    have "free 0 st = Some st" by (simp add: free_def)
    then show ?thesis using sim_free [OF h, of p] al Free assms(1) h(2) spec_free [of p B] spec_free_NULL [of B] by (cases "p = 0") auto
  next
    case (Realloc r1 p len)
    have "realloc r1 0 len st = malloc r1 len st" by (simp add: realloc_def)
    then show ?thesis using sim_malloc [OF h, of len r1] sim_realloc [OF h, of p len r1] al Realloc h(2)
        spec_realloc_new spec_realloc_NULL [of r1 p len B] by (cases "p = 0") fastforce+
  next
    case (Calloc r1 nele elsize)
    then show ?thesis using sim_calloc [OF h, of nele elsize r1] al by simp
  next
    case (Peek p i)
    then show ?thesis using sim_peek [OF h(2), of p _ i] al assms(1) spec_peek by (fastforce split: option.splits)
  next
    case (Poke p i v)
    then show ?thesis using sim_poke [OF h, of p _ i v] al spec_poke by (fastforce split: option.splits)
  qed
qed

interpretation heap: simulation heap_exec heap_spec heap_allowed heap_implements
  by unfold_locales (rule heap_simulates)

end
