(* ===== verification/System_Properties.thy ===== *)
theory System_Properties
  imports Rtc Byteorder Uart Ethos Cpu_Main Flashpage Heap_Refine
begin

text \<open>
  The properties of the drivers and the system services around the kernel: calendar, byte order,
  serial port, serial line protocol, port pins, program break and heap, each with an instance on
  concrete data.
\<close>

section \<open>Calendar\<close>

text \<open>C34: Normalising a time whose fields are not negative ends and gives the same instant with every field in its
  range; when asked for, the day of the year and the day of the week are those of that date in the Gregorian calendar.\<close>

theorem rtc_normalize_keeps_instant:
  assumes "tm_small t"
  shows "\<exists>t'. rtc_tm_normalize cp t = Some t' \<and> tm_normal t' \<and> instant t' = instant_of t
    \<and> (cp \<longrightarrow> tm_yday t' = day_number (tm_mday t') (tm_mon t') (tm_year t' + 1900) - days_before_year (tm_year t' + 1900)
         \<and> tm_wday t' = (day_number (tm_mday t') (tm_mon t') (tm_year t' + 1900) + 1) mod 7)"
  by (rule rtc_tm_normalize_spec [OF assms])

text \<open>2019-12-31 23:59:75.\<close>

definition demo_tm :: tm where
  "demo_tm = \<lparr>tm_sec = 75, tm_min = 59, tm_hour = 23, tm_mday = 31, tm_mon = 11, tm_year = 119, tm_wday = 0, tm_yday = 0\<rparr>"

theorem rtc_normalize_keeps_instant_witness:
  "\<exists>t'. rtc_tm_normalize True demo_tm = Some t' \<and> tm_normal t' \<and> instant t' = instant_of demo_tm"
  using rtc_normalize_keeps_instant [of demo_tm True] by (auto simp: tm_small_def demo_tm_def)

text \<open>The comparison of two normalised times has the sign of the distance of the two instants.\<close>

theorem rtc_compare_is_chronological:
  assumes "tm_normal a" and "tm_normal b" and "\<bar>tm_year a - tm_year b\<bar> \<le> 32767"
  shows "\<exists>r. rtc_tm_compare a b = Some r \<and> sgn r = sgn (instant a - instant b)"
  by (rule rtc_tm_compare_spec [OF assms])

theorem rtc_compare_is_chronological_example:
  "\<exists>r. rtc_tm_compare (demo_tm\<lparr>tm_sec := 7\<rparr>) (demo_tm\<lparr>tm_sec := 9\<rparr>) = Some r \<and> sgn r = -1"
proof -
  have "tm_normal (demo_tm\<lparr>tm_sec := 7\<rparr>)" "tm_normal (demo_tm\<lparr>tm_sec := 9\<rparr>)"
    by (simp_all add: tm_normal_def demo_tm_def month_days_def)
  moreover have "instant (demo_tm\<lparr>tm_sec := 7\<rparr>) - instant (demo_tm\<lparr>tm_sec := 9\<rparr>) = -2"
    by (simp add: instant_def)
  ultimately show ?thesis
    using rtc_compare_is_chronological [of "demo_tm\<lparr>tm_sec := 7\<rparr>" "demo_tm\<lparr>tm_sec := 9\<rparr>"] by (auto simp: demo_tm_def)
qed

section \<open>Byte order\<close>

text \<open>A number in network order has its bytes in memory most significant first, converting it back gives the
  number for every width and either build option, and so does writing it to a byte buffer and reading it there.\<close>

theorem byteorder_roundtrip:
  assumes "2 \<le> length b"
  shows "byteorder_ntohs mc (byteorder_htons mc' v) = v \<and> byteorder_ntohl (byteorder_htonl w) = w
    \<and> byteorder_ntohll (byteorder_htonll x) = x
    \<and> bytes_of 4 (byteorder_htonl w) = rev (bytes_of 4 w) \<and> bytes_of 8 (byteorder_htonll x) = rev (bytes_of 8 x)
    \<and> (\<exists>b'. byteorder_htobebufs b v = Some b' \<and> take 2 b' = bytes_of 2 (byteorder_htons mc v) \<and> drop 2 b' = drop 2 b
          \<and> byteorder_bebuftohs b' = Some v)"
proof -
  have "byteorder_ntohs mc (byteorder_htons mc' v) = v" "byteorder_ntohl (byteorder_htonl w) = w"
      "byteorder_ntohll (byteorder_htonll x) = x"
    by (simp_all add: byteorder_ntohs_def byteorder_htons_def byteorder_ntohl_def byteorder_htonl_def
        byteorder_ntohll_def byteorder_htonll_def swap_involution)
  then show ?thesis using network_bytes(2,3) bebuf_roundtrip [OF assms, of v mc] by blast
qed

theorem byteorder_roundtrip_example:
  "byteorder_ntohl (byteorder_htonl 0x12345678) = 0x12345678
   \<and> (\<exists>b'. byteorder_htobebufs [0, 0, 7] 0x1234 = Some b' \<and> drop 2 b' = [7] \<and> byteorder_bebuftohs b' = Some 0x1234)"
  using byteorder_roundtrip [of "[0, 0, 7]" False False "0x1234" "0x12345678" 0] by auto

section \<open>Serial port\<close>

text \<open>C35: Every received byte is echoed; the ring keeps the first 127 bytes that were not read yet and drops the
  rest, and a reader gets the kept bytes in the order of arrival.\<close>

theorem uart_receives_in_order:
  assumes "uart_wf s"
  shows "\<exists>s1 s2. uart_receive_all bs s = Some s1 \<and> uart_wf s1 \<and> UART_TXD s1 = UART_TXD s @ bs
    \<and> unat (uart_available s1) = length (take 127 (rx_items s @ bs))
    \<and> uart_read (unat (uart_available s1)) [] s1 = Some (take 127 (rx_items s @ bs), [], s2)
    \<and> uart_wf s2 \<and> rx_items s2 = []"
proof -
  obtain s1 where s1: "uart_receive_all bs s = Some s1" "uart_wf s1" "UART_TXD s1 = UART_TXD s @ bs"
      "rx_items s1 = take 127 (rx_items s @ bs)" using uart_receive_all_spec [OF assms] by blast
  have c: "unat (uart_available s1) = length (rx_items s1)" using uart_available_count [OF s1(2)] by simp
  then obtain s2 where "uart_read (unat (uart_available s1)) [] s1 = Some (rx_items s1, [], s2)" "uart_wf s2" "rx_items s2 = []"
    using uart_read_spec [OF s1(2), of "rx_count s1" "[]"] by auto
  then show ?thesis using s1 c by auto
qed

definition demo_uart :: uart_state where
  "demo_uart = uart_init \<lparr>rx_buffer = replicate 128 0, rx_head = 5, rx_tail = 3, appending = False, UART_BAUD = 0, UART_CTL = 0,
     UART2_BAUD = 0, UART2_CTL = 0, uart_stat = (\<lambda>_. 0), uart_k = 0, UART_TXD = [], UART_STAT_written = [],
     uart2_stat = (\<lambda>_. 0), uart2_k = 0, UART2_TXD = []\<rparr>"

theorem uart_receives_in_order_witness:
  "\<exists>s1 s2. uart_receive_all [65, 66] demo_uart = Some s1 \<and> UART_TXD s1 = [65, 66] \<and> uart_read 2 [] s1 = Some ([65, 66], [], s2)"
proof -
  have "uart_wf demo_uart" by (auto simp: uart_wf_def demo_uart_def uart_init_def)
  moreover have "rx_items demo_uart = []" "UART_TXD demo_uart = []"
    by (simp_all add: rx_items_def rx_count_def demo_uart_def uart_init_def)
  moreover have "take 127 ([] @ [65, 66]) = [65, 66 :: u8]" "length [65, 66 :: u8] = 2" by simp_all
  ultimately show ?thesis using uart_receives_in_order [of demo_uart "[65, 66]"] by (metis append_Nil)
qed

section \<open>Serial line protocol\<close>

text \<open>C36: A packet of the network device that one side frames and escapes onto the line reaches the network device of the other
  side unchanged, whatever bytes it holds, provided every call of \<open>write\<close> that the two sides make for it takes all the bytes it is
  asked to write. The condition is needed: when a packet that fits the output buffer is written, and that one call takes only
  the first \<open>m\<close> bytes, the code writes the beginning of the buffer again instead of its rest.\<close>

theorem ethos_packet_roundtrip:
  fixes os os' :: "nat \<Rightarrow> nat \<Rightarrow> int"
  assumes "serial_out a = ([], k)" and "line_state (serial e) = WAIT_FRAMESTART"
    and "bs \<noteq> []" and "length bs \<le> MTU" and "tap_out e = (out, j)"
  defines "len \<equiv> length (escaped bs)" and "line \<equiv> fst (serial_out (on_tap os bs a))"
  shows "(complete_writes os k (snd (serial_out (on_tap os bs a))) \<and> os' j (length bs) = int (length bs) \<longrightarrow>
        on_serial os' line e = Some (e\<lparr>serial := serial_zero, tap_out := (out @ bs, Suc j)\<rparr>))
    \<and> (len < SERIAL_BUFFER_SIZE \<and> os k 1 = 1 \<and> os (Suc k) len = int m \<and> 0 < m \<and> m < len
        \<and> os (k + 2) (len - m) = int (len - m) \<and> os (k + 3) 1 = 1 \<longrightarrow>
        line = LINE_FRAME_DELIMITER # take m (escaped bs) @ take (len - m) (escaped bs) @ [LINE_FRAME_DELIMITER])"
proof (intro conjI impI)
  assume c: "complete_writes os k (snd (serial_out (on_tap os bs a))) \<and> os' j (length bs) = int (length bs)"
  have "line = LINE_FRAME_DELIMITER # escaped bs @ [LINE_FRAME_DELIMITER]"
    using on_tap_frame [OF assms(1) conjunct1 [OF c]] by (simp add: line_def)
  then show "on_serial os' line e = Some (e\<lparr>serial := serial_zero, tap_out := (out @ bs, Suc j)\<rparr>)"
    using on_serial_data_frame [of os' j bs e out] c assms(2-5) by simp
next
  assume "len < SERIAL_BUFFER_SIZE \<and> os k 1 = 1 \<and> os (Suc k) len = int m \<and> 0 < m \<and> m < len
        \<and> os (k + 2) (len - m) = int (len - m) \<and> os (k + 3) 1 = 1"
  then show "line = LINE_FRAME_DELIMITER # take m (escaped bs) @ take (len - m) (escaped bs) @ [LINE_FRAME_DELIMITER]"
    using on_tap_short [OF assms(1), of bs os m] by (simp add: len_def line_def)
qed

definition demo_ethos :: ethos where
  "demo_ethos = \<lparr>serial = serial_zero, serial_out = ([], 0), tap_out = ([], 0), std_out = ([], 0)\<rparr>"

theorem ethos_packet_roundtrip_witness:
  "on_serial (\<lambda>_ n. int n) (fst (serial_out (on_tap (\<lambda>_ n. int n) [0x7E, 1, 0x7D] demo_ethos))) demo_ethos
     = Some (demo_ethos\<lparr>serial := serial_zero, tap_out := ([0x7E, 1, 0x7D], 1)\<rparr>)
   \<and> fst (serial_out (on_tap (\<lambda>k n. if k = 1 then 2 else int n) [1, 2, 3] demo_ethos)) = [0x7E, 1, 2, 1, 0x7E]"
proof -
  have d: "serial_out demo_ethos = ([], 0)" "line_state (serial demo_ethos) = WAIT_FRAMESTART" "tap_out demo_ethos = ([], 0)"
    by (simp_all add: demo_ethos_def serial_zero_def)
  have e: "escaped [1, 2, 3] = [1, 2, 3]" by (simp add: escaped_def LINE_FRAME_DELIMITER_def LINE_ESC_CHAR_def)
  show ?thesis
    using ethos_packet_roundtrip [where a = demo_ethos and e = demo_ethos and bs = "[0x7E, 1, 0x7D]" and os = "\<lambda>_ n. int n"
        and os' = "\<lambda>_ n. int n", OF d(1,2) _ _ d(3)]
      ethos_packet_roundtrip [where a = demo_ethos and e = demo_ethos and bs = "[1, 2, 3]" and os = "\<lambda>k n. if k = 1 then 2 else int n"
        and m = 2, OF d(1,2) _ _ d(3)]
    unfolding e by (simp add: complete_writes_def MTU_def SERIAL_BUFFER_SIZE_def LINE_FRAME_DELIMITER_def)
qed

section \<open>Port pins\<close>

text \<open>A pin configured as output reads back the value written to it, and no other pin reads differently.\<close>

theorem gpio_output_reads_back:
  assumes "port_of pn = Some p"
  shows "\<exists>s'. gpio_write pn v (snd (gpio_init pn GPIO_OUT s)) = Some s'
    \<and> gpio_read pn s' = Some (if v \<noteq> 0 then pin_of pn else 0)
    \<and> (\<forall>q. pin_of q AND pin_of pn = 0 \<or> port_of q \<noteq> Some p \<longrightarrow> gpio_read q s' = gpio_read q s)"
  by (rule gpio_write_read [OF assms])

definition demo_gpio :: gpio_state where
  "demo_gpio = \<lparr>ports = (\<lambda>_. \<lparr>IN_reg = 0x10, OD_reg = 0, DIR_reg = 0, IFG_reg = 0, IES_reg = 0, IE_reg = 0, SEL_reg = 0\<rparr>),
     isr_ctx = (\<lambda>_. None)\<rparr>"

theorem gpio_output_reads_back_example:
  "\<exists>s'. gpio_write (GPIO_PIN 2 3) 1 (snd (gpio_init (GPIO_PIN 2 3) GPIO_OUT demo_gpio)) = Some s'
     \<and> gpio_read (GPIO_PIN 2 3) s' = Some 8"
proof -
  have "port_of (GPIO_PIN 2 3) = Some 2" "pin_of (GPIO_PIN 2 3) = 8" using GPIO_PIN_parts [of 2 3] by simp_all
  then show ?thesis using gpio_output_reads_back [of "GPIO_PIN 2 3" 2 1 demo_gpio] by auto
qed

section \<open>Program break\<close>

text \<open>The allocator over the program break hands out the bytes from the break on when they fit below the top of
  the heap, so that blocks never overlap, and otherwise changes nothing; a request of \<open>2 ^ 15\<close> bytes or more
  is taken for a negative increment, succeeds and moves the break down over blocks already handed out.\<close>

theorem oneway_malloc_moves_break:
  assumes "brk_ok r1 b" and "n \<noteq> 0"
  shows "if 2 ^ 15 \<le> unat n then
      cur_break b \<noteq> 0xffff \<longrightarrow> oneway_malloc r1 n b = (cur_break b, b\<lparr>cur_break := cur_break b + n\<rparr>)
        \<and> (2 ^ 16 \<le> unat (cur_break b) + unat n \<longrightarrow> unat (cur_break b + n) < unat (cur_break b))
    else if unat (cur_break b) + unat n \<le> unat (heap_top r1 b) then
      \<exists>b'. oneway_malloc r1 n b = (cur_break b, b') \<and> brk_ok r1 b'
        \<and> unat (cur_break b') = unat (cur_break b) + unat n \<and> brk_mem b' = brk_mem b \<and> heap_end b' = heap_end b
    else oneway_malloc r1 n b = (0, b)"
proof (cases "2 ^ 15 \<le> unat n")
  case True
  then show ?thesis using oneway_malloc_large [OF assms(1) True] by auto
next
  case False
  then have "0 < n" "n < 2 ^ 15" using assms(2) by (simp_all add: word_less_nat_alt unat_gt_0)
  then show ?thesis using oneway_malloc_spec [OF assms(1)] False by simp
qed

definition demo_brk :: brk_state where
  "demo_brk = \<lparr>cur_break = 0x8000, heap_end = 0, brk_mem = (\<lambda>_. 0)\<rparr>"

theorem oneway_malloc_moves_break_example:
  "oneway_malloc 0x9000 0xFF00 demo_brk = (0x8000, demo_brk\<lparr>cur_break := 0x7F00\<rparr>)"
proof -
  have "brk_ok 0x9000 demo_brk" by (simp add: brk_ok_def heap_top_def demo_brk_def STACK_EXTRA_def)
  then show ?thesis using oneway_malloc_moves_break [of "0x9000" demo_brk "0xFF00"] by (simp add: demo_brk_def)
qed

section \<open>Heap\<close>

text \<open>Chunks of 4, 6 and 4 bytes, of which the first is free, below a fixed end of the heap.\<close>

definition demo_heap :: malloc_state where
  "demo_heap = \<lparr>mem = (\<lambda>_. 0)(0x200 := 4, 0x206 := 6, 0x20E := 4), flp = 0x200, brkval = 0x214,
     malloc_heap_start = 0x200, malloc_heap_end = 0x300, malloc_margin = 0\<rparr>"

lemma demo_heap_inv: "heap_inv demo_heap [0x200, 0x206, 0x20E] [0x200]"
  by (simp add: heap_inv_def heap_brk_def demo_heap_def addr_def ascending_def sz_def nx_def load16_def even_addr_even even_or_1)

text \<open>
  A client that asks for two zeroed elements of four bytes, writes the fourth byte, reads it, gives the block back and
  goes on asking for more.
\<close>

definition demo_client :: "(heap_call, u16) client" where
  "demo_client rs =
     (case rs of
        [] \<Rightarrow> Calloc 0x400 2 4
      | [p] \<Rightarrow> if p = 0 then Free 0 else Poke p 3 7
      | [p, _] \<Rightarrow> if p = 0 then Free 0 else Peek p 3
      | p # _ # _ # rest \<Rightarrow> if rest = [] then Free p else Malloc 0x400 6)"

inductive_cases heap_callocE: "heap_spec (Calloc r1 n m) p B B'"
inductive_cases heap_pokeE: "heap_spec (Poke p i v) r B B'"
inductive_cases heap_peekE: "heap_spec (Peek p i) r B B'"

lemma trace_demo:
  "trace heap_spec demo_client [p] B B' \<Longrightarrow> p \<noteq> 0 \<Longrightarrow> \<exists>bs. B' p = Some bs \<and> 8 \<le> length bs"
  "trace heap_spec demo_client [p, q] B B' \<Longrightarrow> p \<noteq> 0 \<Longrightarrow> \<exists>bs. B' p = Some bs \<and> 8 \<le> length bs \<and> bs ! 3 = 7"
  "trace heap_spec demo_client [p, q, r] B B' \<Longrightarrow> p \<noteq> 0 \<Longrightarrow> \<exists>bs. B' p = Some bs \<and> r = 7"
proof -
  show 1: "\<exists>bs. B' p = Some bs \<and> 8 \<le> length bs" if "trace heap_spec demo_client [p] B B'" "p \<noteq> 0" for B'
    using that unfolding trace_one by (auto simp: demo_client_def fresh_def elim!: heap_callocE)
  have st: "trace heap_spec demo_client (rs @ [r]) B B' \<longleftrightarrow> (\<exists>b. trace heap_spec demo_client rs B b \<and> heap_spec (demo_client rs) r b B')" for rs r B'
    by (rule trace_snoc_simps)
  show 2: "\<exists>bs. B' p = Some bs \<and> 8 \<le> length bs \<and> bs ! 3 = 7" if t: "trace heap_spec demo_client [p, q] B B'" "p \<noteq> 0" for B'
  proof -
    obtain b where b: "trace heap_spec demo_client [p] B b" "heap_spec (demo_client [p]) q b B'" using t(1) st [of "[p]" q B'] by auto
    then show ?thesis using 1 [OF b(1) t(2)] t(2) by (auto simp: demo_client_def elim!: heap_pokeE)
  qed
  show "\<exists>bs. B' p = Some bs \<and> r = 7" if t: "trace heap_spec demo_client [p, q, r] B B'" "p \<noteq> 0"
  proof -
    obtain b where b: "trace heap_spec demo_client [p, q] B b" "heap_spec (demo_client [p, q]) r b B'" using t(1) st [of "[p, q]" r B'] by auto
    then show ?thesis using 2 [OF b(1) t(2)] t(2) by (auto simp: demo_client_def elim!: heap_peekE)
  qed
qed

lemma demo_client_well_behaved: "well_behaved heap_spec heap_allowed demo_client B"
  unfolding well_behaved_def
proof (intro allI impI)
  fix rs B'
  assume t: "trace heap_spec demo_client rs B B'"
  consider "rs = []" | p where "rs = [p]" | p q where "rs = [p, q]" | p q r where "rs = [p, q, r]"
    | p q r x xs where "rs = p # q # r # x # xs" by (metis list.exhaust)
  then show "heap_allowed B' (demo_client rs)"
  proof cases
    case 1
    then show ?thesis by (simp add: demo_client_def)
  next
    case (2 p)
    then show ?thesis using trace_demo(1) [of p B B'] t by (auto simp: demo_client_def)
  next
    case (3 p q)
    then show ?thesis using trace_demo(2) [of p q B B'] t by (auto simp: demo_client_def)
  next
    case (4 p q r)
    then show ?thesis using trace_demo(3) [of p q r B B'] t by (auto simp: demo_client_def)
  next
    case (5 p q r x xs)
    then show ?thesis by (simp add: demo_client_def)
  qed
qed

text \<open>C20: The heap refines its specification, a map from the addresses of the live blocks to their bytes. Whatever
  calls of \<open>malloc\<close>, \<open>free\<close>, \<open>realloc\<close> and \<open>calloc\<close> and accesses to its blocks a client makes, in any number and depending on
  the answers it got, as long as the specification allows them: every call ends, its answer is one the specification permits,
  the live blocks hold exactly the bytes the specification says, and they are apart from one another.\<close>

theorem heap_refines_blocks:
  assumes "heap_implements st B" and "well_behaved heap_spec heap_allowed client B"
  shows "\<exists>rs st' B'. exec heap_exec client n st = Some (rs, st') \<and> length rs = n \<and> trace heap_spec client rs B B'
    \<and> heap_implements st' B' \<and> separate B'"
proof -
  have sep: "separate B'" if "heap_implements st' B'" for st' B'
    using that separate_blocks [OF _ live_subset] by (auto simp: heap_implements_def)
  show ?thesis using heap.exec_simulates [OF assms, of n] sep by blast
qed

theorem heap_refines_blocks_witness:
  "\<exists>p q r st'. exec heap_exec demo_client 3 demo_heap = Some ([p, q, r], st') \<and> (p = 0 \<or> r = 7)"
proof -
  have "heap_implements demo_heap (blocks_of demo_heap (live [0x200, 0x206, 0x20E] [0x200]))"
    by (rule heap_implementsI [OF demo_heap_inv refl])
  from heap_refines_blocks [OF this demo_client_well_behaved, of 3]
  obtain rs st' B B' where "exec heap_exec demo_client 3 demo_heap = Some (rs, st')" "length rs = 3" "trace heap_spec demo_client rs B B'" by blast
  moreover from \<open>length rs = 3\<close> obtain p q r where "rs = [p, q, r]" by (auto simp: numeral_3_eq_3 length_Suc_conv)
  ultimately show ?thesis using trace_demo(3) [of p q r B B'] by blast
qed

text \<open>C21: A request for an even number of bytes succeeds when a free chunk is large enough or there is room
  above the break: the block is at least as large as asked for, overlaps none of the blocks that are
  allocated, whose sizes and bytes stay as they are, and the heap stays consistent. Otherwise the result is
  \<open>NULL\<close> and no byte of memory changes.\<close>

theorem malloc_gives_fresh_block:
  assumes "heap_inv st xs fs" and "even (unat len)"
  shows "\<exists>p st'. malloc r1 len st = Some (p, st') \<and>
    (if (\<exists>x \<in> set fs. request len \<le> sz st x) \<or> unat (heap_brk st) + unat (request len) + 2 \<le> unat (heap_limit r1 st)
     then p \<noteq> 0 \<and> request len \<le> sz st' (p - 2) \<and> keeps (set xs - set fs) st st'
       \<and> (\<forall>y \<in> set xs - set fs. unat y + 2 + unat (sz st y) \<le> unat (p - 2) \<or> unat (p - 2) + 2 + unat (sz st' (p - 2)) \<le> unat y)
       \<and> (\<exists>xs' fs'. heap_inv st' xs' fs' \<and> set xs' - set fs' = insert (p - 2) (set xs - set fs))
     else p = 0 \<and> heap_inv st' xs fs \<and> mem st' = mem st)"
proof -
  obtain p st' where m: "malloc r1 len st = Some (p, st')" "if (\<exists>x \<in> set fs. unat (request len) \<le> unat (sz st x))
      \<or> unat (heap_brk st) + unat (request len) + 2 \<le> unat (heap_limit r1 st)
     then \<exists>c xs' fs'. p = c + 2 \<and> unat (request len) \<le> unat (sz st' c) \<and> takes st xs fs c st' xs' fs'
     else p = 0 \<and> heap_inv st' xs fs \<and> mem st' = mem st"
    using malloc_spec [OF assms, of r1] by blast
  show ?thesis
  proof (cases "(\<exists>x \<in> set fs. request len \<le> sz st x) \<or> unat (heap_brk st) + unat (request len) + 2 \<le> unat (heap_limit r1 st)")
    case True
    then obtain c xs' fs' where c: "p = c + 2" "unat (request len) \<le> unat (sz st' c)" "takes st xs fs c st' xs' fs'"
      using m(2) by (auto simp: word_le_nat_alt split: if_splits)
    then show ?thesis using True m(1) takes_apart [OF c(3)] by (auto simp: word_le_nat_alt takes_def)
  next
    case False
    then show ?thesis using m by (auto simp: word_le_nat_alt split: if_splits)
  qed
qed

theorem malloc_gives_fresh_block_witness:
  "\<exists>p st'. malloc 0x400 4 demo_heap = Some (p, st') \<and> p \<noteq> 0 \<and> 4 \<le> sz st' (p - 2) \<and> keeps {0x206, 0x20E} demo_heap st'"
proof -
  have "\<exists>x \<in> set [0x200]. request 4 \<le> sz demo_heap x" "request 4 = 4"
    by (simp_all add: request_def demo_heap_def sz_def load16_def even_addr_even even_or_1)
  moreover have "set [0x200, 0x206, 0x20E] - set [0x200] = {0x206, 0x20E :: u16}" by auto
  ultimately show ?thesis using malloc_gives_fresh_block [OF demo_heap_inv, of 4 "0x400"] by auto
qed

text \<open>Freeing an allocated block ends and leaves a consistent heap in which exactly that block is not allocated any
  more, whether it is joined with free neighbours, given back to the break or neither; the sizes and bytes
  of the other allocated blocks stay as they are.\<close>

theorem free_gives_back:
  assumes "heap_inv st xs fs" and "y \<in> set xs" and "y \<notin> set fs"
  shows "\<exists>st' xs' fs'. free (y + 2) st = Some st' \<and> heap_inv st' xs' fs' \<and> set xs' - set fs' = set xs - set fs - {y}
    \<and> keeps (set xs - set fs - {y}) st st'"
  by (rule free_spec [OF assms refl])

theorem free_gives_back_example:
  "\<exists>st' xs' fs'. free 0x208 demo_heap = Some st' \<and> heap_inv st' xs' fs' \<and> set xs' - set fs' = {0x20E} \<and> keeps {0x20E} demo_heap st'"
proof -
  have "set [0x200, 0x206, 0x20E] - set [0x200] - {0x206} = {0x20E :: u16}" by auto
  then show ?thesis using free_gives_back [OF demo_heap_inv, of "0x206"] by simp
qed

text \<open>C22: When a block of an odd size was taken above the break, the size field of the next block taken there lies
  on the last byte of the first block, which is lost.\<close>

theorem malloc_odd_size_corrupts:
  assumes "flp st = 0" and "brkval st = c" and "0 < unat c" "even (unat c)" and "odd (unat len)" and "2 \<le> unat len" and "2 \<le> unat len2"
    and "unat c + unat len + unat len2 + 4 \<le> unat (heap_limit r1 st)"
  shows "\<exists>st1 st2. malloc r1 len st = Some (c + 2, st1) \<and> sz st1 c = len \<and> malloc r1 len2 st1 = Some (c + 2 + len + 2, st2)
    \<and> mem st2 (c + 2 + (len - 1)) = ucast len2"
  by (rule malloc_odd_overwrites [OF assms])

theorem malloc_odd_size_corrupts_witness:
  "\<exists>st1 st2. malloc 0x400 3 (demo_heap\<lparr>flp := 0\<rparr>) = Some (0x216, st1) \<and> malloc 0x400 8 st1 = Some (0x21B, st2)
     \<and> mem st2 0x218 = 8"
  using malloc_odd_size_corrupts [of "demo_heap\<lparr>flp := 0\<rparr>" "0x214" 3 8 "0x400"] by (auto simp: demo_heap_def heap_limit_def)

text \<open>realloc of an allocated block to an even size below 65534 gives a block of at least that size, in place or moved,
  that begins with the old contents, replaces the old one among the allocated blocks and leaves all others untouched; or it
  returns 0 and the heap is as before.\<close>

theorem realloc_resizes:
  assumes "heap_inv st xs fs" and "y \<in> set xs" and "y \<notin> set fs" and "even (unat len)" and "2 \<le> unat len" and "unat len < 65534"
  shows "\<exists>q st'. realloc r1 (y + 2) len st = Some (q, st')
    \<and> (resized st xs fs y len q st' \<or> q = 0 \<and> heap_inv st' xs fs \<and> mem st' = mem st)"
  by (rule realloc_spec [OF assms])

theorem realloc_resizes_example:
  "\<exists>q st'. realloc 0x400 0x208 12 demo_heap = Some (q, st')
     \<and> (resized demo_heap [0x200, 0x206, 0x20E] [0x200] 0x206 12 q st'
       \<or> q = 0 \<and> heap_inv st' [0x200, 0x206, 0x20E] [0x200] \<and> mem st' = mem demo_heap)"
  using realloc_resizes [OF demo_heap_inv, of "0x206" 12 "0x400"] by simp

text \<open>realloc of the topmost block to 65534 bytes passes the test for wrap-around and succeeds: the break moves
  down to the block's own header, and the block's size field says 65534.\<close>

theorem realloc_wraps:
  assumes "heap_inv st xs []" and "y \<in> set xs" and "brkval st = y + 2 + sz st y" and "y < heap_limit r1 st"
  shows "\<exists>st'. realloc r1 (y + 2) 65534 st = Some (y + 2, st') \<and> brkval st' = y \<and> sz st' y = 65534"
  using realloc_wrapped [OF assms] by simp

theorem realloc_wraps_example:
  "\<exists>st'. realloc 0x400 0x210 65534 (demo_heap\<lparr>flp := 0\<rparr>) = Some (0x210, st') \<and> brkval st' = 0x20E \<and> sz st' 0x20E = 65534"
proof -
  have "heap_inv (demo_heap\<lparr>flp := 0\<rparr>) [0x200, 0x206, 0x20E] []"
    by (simp add: heap_inv_def heap_brk_def demo_heap_def addr_def ascending_def sz_def load16_def even_addr_even even_or_1)
  moreover have "brkval (demo_heap\<lparr>flp := 0\<rparr>) = 0x20E + 2 + sz (demo_heap\<lparr>flp := 0\<rparr>) 0x20E"
    by (simp add: demo_heap_def sz_def load16_def even_addr_even even_or_1)
  ultimately show ?thesis using realloc_wraps [of "demo_heap\<lparr>flp := 0\<rparr>" "[0x200, 0x206, 0x20E]" "0x20E" "0x400"]
    by (simp add: heap_limit_def demo_heap_def)
qed

section \<open>Flash pages\<close>





end
