(* ===== verification/Native.thy ===== *)
theory Native
  imports Sched
begin

text \<open>
  Interrupts of the native port: \<open>cpu/native/irq_cpu.c\<close>, \<open>cpu/native/native_cpu.c\<close>, the bracket around system calls
  of \<open>cpu/native/syscalls.c\<close>, the trampolines of \<open>cpu/native/tramp.S\<close> and \<open>cpu/native/periph/pm.c\<close>. The interrupts of
  the port are POSIX signals, which may arrive between any two operations of the running code. The routines
  are therefore lists of operations, one for each statement that reads or writes the shared variables, and a machine
  that executes one operation at a time or delivers a signal. A thread's own code and the callbacks of the
  drivers are values of a type \<open>'h\<close> whose effect on the kernel is the argument \<open>run\<close> of the machine. The scheduler is
  \<open>sched_run\<close> of \<open>Sched\<close>. The pipe never fills.

  The machine executes the handler \<open>native_isr_entry\<close> in one step. That is exact for all signals but one: the handler runs with
  the signals of \<open>_native_sig_set_dint\<close> blocked, and \<open>native_interrupt_init\<close> takes \<open>SIGUSR1\<close> out of that set, so \<open>SIGUSR1\<close> may
  arrive inside the handler of another signal (its own handler blocks every signal). The runs of the machine are those in
  which this does not happen; what it does to a handler that interrupted a system call is \<open>nested_isr_entry\<close>.

  \<open>_native_mod_ctx_leave_sigh\<close> also overwrites the instruction pointer that is stored in the resumed context. The model keeps
  the stored context as it was, which makes a difference only if a context were resumed twice without being stored in between:
  every thread that leaves the processor other than by its end stores its context.
\<close>

section \<open>Signals and contexts\<close>

type_synonym sigset = "nat set"

definition SIGINT :: nat where "SIGINT = 2"
definition SIGKILL :: nat where "SIGKILL = 9"
definition SIGUSR1 :: nat where "SIGUSR1 = 10"
definition SIGSTOP :: nat where "SIGSTOP = 19"
definition NSIG :: nat where "NSIG = 65"

definition valid_signal :: "nat \<Rightarrow> bool" where
  "valid_signal sig \<longleftrightarrow> 0 < sig \<and> sig < NSIG"

definition sigfillset :: sigset where
  "sigfillset = {1..<NSIG}"

datatype sigaction = Default | Ignore | Isr_entry | Shutdown

text \<open>The functions a new interrupt context may start with.\<close>

datatype isr = Irq_handler | Thread_yield | Switch_context_exit

datatype 'h op =
    Syscall_enter
  | Syscall_leave
  | Sigprocmask_dint
  | Sigprocmask_set
  | Prev_state
  | Keep_state
  | Irq_restore
  | Set_enabled int
  | Set_in_isr int
  | Request_switch
  | Yield_test
  | Swapcontext isr
  | Setcontext_isr isr
  | Pushal
  | Popal
  | Set_handler nat "'h option"
  | Sigdelset nat
  | Sigaddset nat
  | Sigaction nat sigaction
  | In_syscall_dec
  | Pause
  | Paused
  | Pm_test
  | Run 'h
  | Irq_loop
  | Popsig
  | Sigpend_load
  | Sigpend_store
  | Call_handler
  | Context_exit
  | Sched_if_requested
  | Sched_run
  | Yield_isr
  | Resume_active

text \<open>
  A saved context is the code that remains to be executed, the return register, the local variables and the signal mask.
  The state adds to the variables of the port the dispositions and the mask that the host keeps, the contexts of the threads
  and of the running code, and of the interrupt handler its variable \<open>sig\<close> and the register of its decrement. The lists
  \<open>caught\<close> and \<open>handled\<close> only record what happened.
\<close>

record 'h ucontext =
  uc_code :: "'h op list"
  uc_ret :: int
  uc_locals :: "int list"
  uc_sigmask :: sigset

record 'h native =
  native_interrupts_enabled :: int
  native_in_isr :: int
  native_in_syscall :: int
  native_sigpend :: int
  native_sig_set :: sigset
  native_sig_set_dint :: sigset
  native_irq_handlers :: "nat \<Rightarrow> 'h option"
  dispositions :: "nat \<Rightarrow> sigaction"
  sig_pipe :: "u8 list"
  sigmask :: sigset
  isr_sigmask :: sigset
  contexts :: "nat \<Rightarrow> 'h ucontext"
  code :: "'h op list"
  ret :: int
  locals :: "int list"
  sig :: "nat option"
  sigpend_reg :: int
  kernel :: sm_timer_state
  caught :: "nat list"
  handled :: "nat list"

text \<open>The program goes on, ends, faults, or waits for a byte of the pipe.\<close>

datatype 'h outcome = Go "'h native" | Exit_success | Exit_failure | Fault | Blocked

section \<open>The routines\<close>

definition native_irq_disable :: "'h op list" where
  "native_irq_disable = [Syscall_enter, Sigprocmask_dint, Prev_state, Set_enabled 0, Syscall_leave]"

definition native_irq_enable :: "'h op list" where
  "native_irq_enable = [Syscall_enter, Prev_state, Set_enabled 1, Sigprocmask_set, Syscall_leave]"

definition native_irq_restore :: "int \<Rightarrow> 'h op list" where
  "native_irq_restore state = (if state = 1 then native_irq_enable else native_irq_disable)"

definition irq_handler_loop :: "'h op list" where
  "irq_handler_loop = [Popsig, Sigpend_load, Sigpend_store, Call_handler, Irq_loop]"

definition native_irq_handler :: "'h op list" where
  "native_irq_handler = [Irq_loop, Context_exit]"

definition isr_cpu_switch_context_exit :: "'h op list" where
  "isr_cpu_switch_context_exit = [Sched_if_requested, Set_enabled 1, Resume_active]"

definition native_cpu_switch_context_exit :: "int \<Rightarrow> 'h op list" where
  "native_cpu_switch_context_exit in_isr =
     (if in_isr = 0 then native_irq_disable @ [Set_in_isr 1, Setcontext_isr Switch_context_exit]
      else isr_cpu_switch_context_exit)"

definition isr_thread_yield :: "int \<Rightarrow> 'h op list" where
  "isr_thread_yield sigpend =
     (if sigpend > 0 then native_irq_handler else [Sched_run, Set_enabled 1, Resume_active])"

definition native_thread_yield_higher :: "'h op list" where
  "native_thread_yield_higher = [Request_switch, Yield_test]"

definition yield_higher_body :: "'h op list" where
  "yield_higher_body = [Set_in_isr 1] @ native_irq_disable @ [Swapcontext Thread_yield] @ native_irq_enable"

definition native_sig_leave_tramp :: "'h op list" where
  "native_sig_leave_tramp = [Pushal, Swapcontext Irq_handler] @ native_irq_enable @ [Set_in_isr 0, Popal]"

definition native_sig_leave_handler :: "'h op list" where
  "native_sig_leave_handler = [Set_in_isr 0]"

definition syscall_leave_body :: "'h op list" where
  "syscall_leave_body = [Set_in_isr 1, Set_enabled 0, Swapcontext Irq_handler]"

definition set_signal_handler :: "nat \<Rightarrow> bool \<Rightarrow> 'h op list" where
  "set_signal_handler s add =
     [Syscall_enter, if add then Sigdelset s else Sigaddset s, Syscall_leave,
      Syscall_enter, Sigaction s (if add then Isr_entry else Ignore), Syscall_leave]"

definition register_interrupt :: "nat \<Rightarrow> 'h \<Rightarrow> 'h op list" where
  "register_interrupt s handler =
     native_irq_disable @ [Keep_state, Set_handler s (Some handler)] @ set_signal_handler s True @ [Irq_restore]"

definition unregister_interrupt :: "nat \<Rightarrow> 'h op list" where
  "unregister_interrupt s =
     native_irq_disable @ [Keep_state] @ set_signal_handler s False @ [Set_handler s None, Irq_restore]"

definition native_pm_set_lowest :: "'h op list" where
  "native_pm_set_lowest = [Syscall_enter, Pause, In_syscall_dec, Pm_test]"

text \<open>A wrapped system call or library call, \<open>_native_read\<close> or \<open>malloc\<close> for instance.\<close>

definition native_syscall :: "'h \<Rightarrow> 'h op list" where
  "native_syscall real = [Syscall_enter, Run real, Syscall_leave]"

text \<open>A context starts with all signals unblocked and ends in \<open>sched_task_exit\<close>.\<close>

definition native_thread_stack_init :: "'h op list \<Rightarrow> 'h ucontext" where
  "native_thread_stack_init task_func =
     \<lparr>uc_code = task_func @ [Context_exit], uc_ret = 0, uc_locals = [], uc_sigmask = {}\<rparr>"

definition native_interrupt_init :: "'h native \<Rightarrow> 'h native" where
  "native_interrupt_init s = s\<lparr>
     native_sigpend := 0,
     native_irq_handlers := (\<lambda>_. None),
     native_sig_set := sigfillset - {SIGUSR1, SIGINT},
     native_sig_set_dint := sigfillset - {SIGUSR1, SIGINT},
     dispositions := (dispositions s)(SIGUSR1 := Isr_entry, SIGINT := Shutdown),
     isr_sigmask := sigmask s,
     native_in_syscall := 0,
     sig_pipe := []\<rparr>"

section \<open>The pipe\<close>

text \<open>The four bytes of an \<open>int\<close>, little-endian.\<close>

definition int_bytes :: "nat \<Rightarrow> u8 list" where
  "int_bytes n = map (\<lambda>i. word_of_nat (n div 256 ^ i)) [0..<4]"

definition bytes_int :: "u8 list \<Rightarrow> nat" where
  "bytes_int bs = (\<Sum>i < 4. unat (bs ! i) * 256 ^ i)"

text \<open>
  \<open>_native_popsig\<close>: \<open>rd avail count\<close> is the result of a \<open>read\<close> of \<open>count\<close> bytes when \<open>avail\<close> bytes are in the pipe. The
  loop asks for the missing bytes until none is missing. An empty pipe blocks the caller.
\<close>

partial_function (option) popsig_loop ::
    "(nat \<Rightarrow> nat \<Rightarrow> int) \<Rightarrow> nat \<Rightarrow> u8 list \<Rightarrow> u8 list \<Rightarrow> (u8 list \<times> u8 list) option option" where
  "popsig_loop rd nleft buf pipe =
     (if nleft = 0 then Some (Some (buf, pipe))
      else if pipe = [] then None
      else let nread = rd (length pipe) nleft in
        if nread = -1 then Some None
        else popsig_loop rd (nleft - nat nread) (buf @ take (nat nread) pipe) (drop (nat nread) pipe))"

definition native_popsig :: "(nat \<Rightarrow> nat \<Rightarrow> int) \<Rightarrow> u8 list \<Rightarrow> (nat \<times> u8 list) option option" where
  "native_popsig rd pipe = map_option (map_option (\<lambda>(buf, rest). (bytes_int buf, rest))) (popsig_loop rd 4 [] pipe)"

section \<open>The operations\<close>

definition goto :: "'h op list \<Rightarrow> 'h native \<Rightarrow> 'h outcome" where
  "goto ops s = Go (s\<lparr>code := ops @ code s\<rparr>)"

definition isr_entry_code :: "isr \<Rightarrow> 'h native \<Rightarrow> 'h op list" where
  "isr_entry_code e s = (case e of
     Irq_handler \<Rightarrow> native_irq_handler
   | Thread_yield \<Rightarrow> [Yield_isr]
   | Switch_context_exit \<Rightarrow> isr_cpu_switch_context_exit)"

definition enter_isr_context :: "isr \<Rightarrow> 'h native \<Rightarrow> 'h native" where
  "enter_isr_context e s = s\<lparr>code := isr_entry_code e s, sigmask := isr_sigmask s, ret := 0, locals := []\<rparr>"

definition with_kernel :: "sm_timer_state option \<Rightarrow> 'h native \<Rightarrow> 'h outcome" where
  "with_kernel k s = (case k of None \<Rightarrow> Fault | Some k' \<Rightarrow> Go (s\<lparr>kernel := k'\<rparr>))"

definition native_syscall_leave :: "'h native \<Rightarrow> 'h outcome" where
  "native_syscall_leave s =
     (let s1 = s\<lparr>native_in_syscall := native_in_syscall s - 1\<rparr> in
      if native_sigpend s1 > 0 \<and> native_in_isr s1 = 0 \<and> native_in_syscall s1 = 0
         \<and> native_interrupts_enabled s1 = 1 \<and> sched_active_thread (kernel s1) \<noteq> None
      then goto syscall_leave_body s1 else Go s1)"

definition swapcontext :: "isr \<Rightarrow> 'h native \<Rightarrow> 'h outcome" where
  "swapcontext e s = (case sched_active_thread (kernel s) of
     None \<Rightarrow> Fault
   | Some t \<Rightarrow> Go (enter_isr_context e (s\<lparr>contexts := (contexts s)(t :=
       \<lparr>uc_code = code s, uc_ret = ret s, uc_locals = locals s, uc_sigmask = sigmask s\<rparr>)\<rparr>)))"

text \<open>\<open>_native_mod_ctx_leave_sigh\<close> and \<open>setcontext\<close> of the active thread.\<close>

definition resume_active :: "'h native \<Rightarrow> 'h outcome" where
  "resume_active s = (case sched_active_thread (kernel s) of
     None \<Rightarrow> Fault
   | Some t \<Rightarrow> let c = contexts s t in
       Go (s\<lparr>code := native_sig_leave_handler @ uc_code c, ret := uc_ret c, locals := uc_locals c, sigmask := uc_sigmask c\<rparr>))"

definition native_sched_run :: "'h native \<Rightarrow> 'h outcome" where
  "native_sched_run s = with_kernel (map_option snd (sched_run (kernel s))) s"

definition call_handler :: "('h \<Rightarrow> sm_timer_state \<Rightarrow> sm_timer_state option) \<Rightarrow> 'h native \<Rightarrow> 'h outcome" where
  "call_handler run s = (case sig s of
     None \<Rightarrow> Fault
   | Some n \<Rightarrow>
       let s1 = s\<lparr>sig := None, handled := handled s @ [n]\<rparr> in
       (case native_irq_handlers s n of
          Some h \<Rightarrow> with_kernel (run h (kernel s)) s1
        | None \<Rightarrow> if n = SIGUSR1 then Go s1 else Exit_failure))"

definition exec ::
    "(nat \<Rightarrow> nat \<Rightarrow> int) \<Rightarrow> ('h \<Rightarrow> sm_timer_state \<Rightarrow> sm_timer_state option) \<Rightarrow> 'h op \<Rightarrow> 'h native \<Rightarrow> 'h outcome" where
  "exec rd run x s = (case x of
     Syscall_enter \<Rightarrow> Go (s\<lparr>native_in_syscall := native_in_syscall s + 1\<rparr>)
   | Syscall_leave \<Rightarrow> native_syscall_leave s
   | Sigprocmask_dint \<Rightarrow> Go (s\<lparr>sigmask := native_sig_set_dint s\<rparr>)
   | Sigprocmask_set \<Rightarrow> Go (s\<lparr>sigmask := native_sig_set s\<rparr>)
   | Prev_state \<Rightarrow> Go (s\<lparr>ret := native_interrupts_enabled s\<rparr>)
   | Keep_state \<Rightarrow> Go (s\<lparr>locals := ret s # locals s\<rparr>)
   | Irq_restore \<Rightarrow> (case locals s of
        [] \<Rightarrow> Fault | state # r \<Rightarrow> goto (native_irq_restore state) (s\<lparr>locals := r\<rparr>))
   | Set_enabled v \<Rightarrow> Go (s\<lparr>native_interrupts_enabled := v\<rparr>)
   | Set_in_isr v \<Rightarrow> Go (s\<lparr>native_in_isr := v\<rparr>)
   | Request_switch \<Rightarrow> Go (s\<lparr>kernel := (kernel s)\<lparr>sched_context_switch_request := True\<rparr>\<rparr>)
   | Yield_test \<Rightarrow> if native_in_isr s = 0 then goto yield_higher_body s else Go s
   | Swapcontext e \<Rightarrow> swapcontext e s
   | Setcontext_isr e \<Rightarrow> Go (enter_isr_context e s)
   | Pushal \<Rightarrow> Go (s\<lparr>locals := ret s # locals s\<rparr>)
   | Popal \<Rightarrow> (case locals s of [] \<Rightarrow> Fault | v # r \<Rightarrow> Go (s\<lparr>ret := v, locals := r\<rparr>))
   | Set_handler n h \<Rightarrow> if n < 255 then Go (s\<lparr>native_irq_handlers := (native_irq_handlers s)(n := h)\<rparr>) else Fault
   | Sigdelset n \<Rightarrow> if valid_signal n then Go (s\<lparr>native_sig_set := native_sig_set s - {n}\<rparr>) else Exit_failure
   | Sigaddset n \<Rightarrow> if valid_signal n then Go (s\<lparr>native_sig_set := insert n (native_sig_set s)\<rparr>) else Exit_failure
   | Sigaction n a \<Rightarrow> if valid_signal n \<and> n \<noteq> SIGKILL \<and> n \<noteq> SIGSTOP
        then Go (s\<lparr>dispositions := (dispositions s)(n := a)\<rparr>) else Exit_failure
   | In_syscall_dec \<Rightarrow> Go (s\<lparr>native_in_syscall := native_in_syscall s - 1\<rparr>)
   | Pause \<Rightarrow> goto [Paused] s
   | Paused \<Rightarrow> Blocked
   | Pm_test \<Rightarrow> if native_sigpend s > 0 then goto [Syscall_enter, Syscall_leave] s else Go s
   | Run h \<Rightarrow> with_kernel (run h (kernel s)) s
   | Irq_loop \<Rightarrow> if native_sigpend s > 0 then goto irq_handler_loop s else Go s
   | Popsig \<Rightarrow> (case native_popsig rd (sig_pipe s) of
        None \<Rightarrow> Blocked
      | Some None \<Rightarrow> Exit_failure
      | Some (Some (n, rest)) \<Rightarrow> Go (s\<lparr>sig := Some n, sig_pipe := rest\<rparr>))
   | Sigpend_load \<Rightarrow> Go (s\<lparr>sigpend_reg := native_sigpend s\<rparr>)
   | Sigpend_store \<Rightarrow> Go (s\<lparr>native_sigpend := sigpend_reg s - 1\<rparr>)
   | Call_handler \<Rightarrow> call_handler run s
   | Context_exit \<Rightarrow> Go (s\<lparr>code := native_cpu_switch_context_exit (native_in_isr s)\<rparr>)
   | Sched_if_requested \<Rightarrow>
        if sched_context_switch_request (kernel s) \<or> sched_active_thread (kernel s) = None then native_sched_run s else Go s
   | Sched_run \<Rightarrow> native_sched_run s
   | Yield_isr \<Rightarrow> Go (s\<lparr>code := isr_thread_yield (native_sigpend s)\<rparr>)
   | Resume_active \<Rightarrow> resume_active s)"

text \<open>One operation of the running code.\<close>

definition cpu_step ::
    "(nat \<Rightarrow> nat \<Rightarrow> int) \<Rightarrow> ('h \<Rightarrow> sm_timer_state \<Rightarrow> sm_timer_state option) \<Rightarrow> 'h native \<Rightarrow> 'h outcome" where
  "cpu_step rd run s = (case code s of [] \<Rightarrow> Blocked | x # xs \<Rightarrow> exec rd run x (s\<lparr>code := xs\<rparr>))"

section \<open>Signals\<close>

definition isr_set_sigmask :: "'h native \<Rightarrow> 'h native" where
  "isr_set_sigmask s = s\<lparr>sigmask := native_sig_set_dint s, native_interrupts_enabled := 0\<rparr>"

text \<open>The handler: save the signal, count it, and enter the interrupt context if possible.\<close>

definition isr_save :: "nat \<Rightarrow> 'h native \<Rightarrow> 'h native" where
  "isr_save n s = s\<lparr>sig_pipe := sig_pipe s @ int_bytes n\<rparr>"

definition isr_count :: "'h native \<Rightarrow> 'h native" where
  "isr_count s = s\<lparr>native_sigpend := native_sigpend s + 1\<rparr>"

definition isr_enter :: "'h native \<Rightarrow> 'h native" where
  "isr_enter s =
     (if sched_active_thread (kernel s) = None then s
      else if native_interrupts_enabled s = 0 then s
      else if native_in_isr s \<noteq> 0 then s
      else if native_in_syscall s \<noteq> 0 then s
      else (isr_set_sigmask s)\<lparr>native_in_isr := 1, code := native_sig_leave_tramp @ code s\<rparr>)"

definition native_isr_entry :: "nat \<Rightarrow> 'h native \<Rightarrow> 'h native" where
  "native_isr_entry n s = isr_enter (isr_count (isr_save n (s\<lparr>caught := caught s @ [n]\<rparr>)))"

text \<open>
  The handler of the signal \<open>n\<close>, interrupted by that of \<open>SIGUSR1\<close> before it saves its signal, between the saving and the
  counting, or between the load and the store of the increment. In a system call the inner handler only saves and counts, so
  that the outer one goes on where it was; that is the case which is described here.
\<close>

datatype nesting = Before_write | Before_count | Inside_count

definition nested_isr_entry :: "nesting \<Rightarrow> nat \<Rightarrow> 'h native \<Rightarrow> 'h native option" where
  "nested_isr_entry w n s =
     (if native_in_syscall s = 0 then None
      else let s0 = s\<lparr>caught := caught s @ [n]\<rparr> in
        Some (case w of
          Before_write \<Rightarrow> isr_enter (isr_count (isr_save n (native_isr_entry SIGUSR1 s0)))
        | Before_count \<Rightarrow> isr_enter (isr_count (native_isr_entry SIGUSR1 (isr_save n s0)))
        | Inside_count \<Rightarrow>
            let s1 = isr_save n s0; reg = native_sigpend s1; s2 = native_isr_entry SIGUSR1 s1
            in isr_enter (s2\<lparr>native_sigpend := reg + 1\<rparr>)))"

text \<open>A caught signal also ends a \<open>pause\<close>.\<close>

definition end_pause :: "'h native \<Rightarrow> 'h native" where
  "end_pause s = s\<lparr>code := (case code s of Paused # r \<Rightarrow> r | c \<Rightarrow> c)\<rparr>"

definition deliver :: "nat \<Rightarrow> 'h native \<Rightarrow> 'h outcome" where
  "deliver n s = (case dispositions s n of
     Ignore \<Rightarrow> Go s
   | Default \<Rightarrow> Exit_failure
   | Isr_entry \<Rightarrow> Go (native_isr_entry n (end_pause s))
   | Shutdown \<Rightarrow> Exit_success)"

section \<open>The machine\<close>

text \<open>\<open>nstep rd run s s'\<close>: one operation, or an unblocked signal.\<close>

inductive nstep ::
    "(nat \<Rightarrow> nat \<Rightarrow> int) \<Rightarrow> ('h \<Rightarrow> sm_timer_state \<Rightarrow> sm_timer_state option) \<Rightarrow> 'h native \<Rightarrow> 'h native \<Rightarrow> bool"
  for rd run where
  Op: "cpu_step rd run s = Go s' \<Longrightarrow> nstep rd run s s'"
| Signal: "valid_signal n \<Longrightarrow> n \<notin> sigmask s \<Longrightarrow> deliver n s = Go s' \<Longrightarrow> nstep rd run s s'"

text \<open>A schedule of operations and signals, executed.\<close>

datatype event = Step nat | Sig nat

fun steps ::
    "(nat \<Rightarrow> nat \<Rightarrow> int) \<Rightarrow> ('h \<Rightarrow> sm_timer_state \<Rightarrow> sm_timer_state option) \<Rightarrow> nat \<Rightarrow> 'h native \<Rightarrow> 'h outcome" where
  "steps rd run 0 s = Go s"
| "steps rd run (Suc n) s = (case cpu_step rd run s of Go s' \<Rightarrow> steps rd run n s' | x \<Rightarrow> x)"

fun schedule ::
    "(nat \<Rightarrow> nat \<Rightarrow> int) \<Rightarrow> ('h \<Rightarrow> sm_timer_state \<Rightarrow> sm_timer_state option) \<Rightarrow> event list \<Rightarrow> 'h native \<Rightarrow> 'h outcome" where
  "schedule rd run [] s = Go s"
| "schedule rd run (Step n # es) s = (case steps rd run n s of Go s' \<Rightarrow> schedule rd run es s' | x \<Rightarrow> x)"
| "schedule rd run (Sig n # es) s =
     (if valid_signal n \<and> n \<notin> sigmask s then (case deliver n s of Go s' \<Rightarrow> schedule rd run es s' | x \<Rightarrow> x)
      else schedule rd run es s)"

end
