(* ===== verification/Native_Inv.thy ===== *)
theory Native_Inv
  imports Native
begin

text \<open>
  The invariant of the native machine of \<open>Native\<close>: thread code and interrupt code never mix, interrupt code runs with
  interrupts off and outside system calls, the pipe holds exactly the signals caught and not yet handled, and the count of
  pending signals never exceeds them.
\<close>

section \<open>The pipe\<close>

text \<open>What \<open>read\<close> promises: with bytes available, between one and all of those asked for.\<close>

definition reads :: "(nat \<Rightarrow> nat \<Rightarrow> int) \<Rightarrow> bool" where
  "reads rd \<longleftrightarrow> (\<forall>avail count. 0 < avail \<longrightarrow> 0 < count \<longrightarrow> 0 < rd avail count \<and> rd avail count \<le> int (min avail count))"

lemma popsig_loop_split:
  assumes "reads rd" and "n \<le> length pipe"
  shows "popsig_loop rd n buf pipe = Some (Some (buf @ take n pipe, drop n pipe))"
  using assms(2)
proof (induction n arbitrary: buf pipe rule: less_induct)
  case (less n)
  show ?case
  proof (cases "n = 0")
    case True
    then show ?thesis by (subst popsig_loop.simps) simp
  next
    case False
    with less.prems have p: "pipe \<noteq> []" by auto
    define m where "m = nat (rd (length pipe) n)"
    have r: "0 < rd (length pipe) n" "rd (length pipe) n \<le> int (min (length pipe) n)"
      using assms(1) p False by (auto simp: reads_def)
    then have m: "0 < m" "m \<le> n" "rd (length pipe) n \<noteq> -1" by (auto simp: m_def)
    have "popsig_loop rd n buf pipe = popsig_loop rd (n - m) (buf @ take m pipe) (drop m pipe)"
      using m(3) by (subst popsig_loop.simps) (simp add: False p Let_def m_def)
    also have "\<dots> = Some (Some ((buf @ take m pipe) @ take (n - m) (drop m pipe), drop (n - m) (drop m pipe)))"
      by (rule less.IH) (use m less.prems in auto)
    finally show ?thesis using m take_add [of m "n - m" pipe] by simp
  qed
qed

lemma int_bytes_length [simp]: "length (int_bytes n) = 4"
  by (simp add: int_bytes_def)

lemma digits_mod: "(\<Sum>i < k. (n div b ^ i mod b) * b ^ i) = n mod b ^ k" for n b k :: nat
proof (induction k)
  case (Suc k)
  have "n mod b ^ Suc k = b ^ k * (n div b ^ k mod b) + n mod b ^ k" using mod_mult2_eq [of n "b ^ k" b] by (simp add: mult.commute)
  then show ?case using Suc by (simp add: mult.commute)
qed simp

lemma bytes_int_bytes: "n < 256 ^ 4 \<Longrightarrow> bytes_int (int_bytes n) = n"
proof -
  assume n: "n < 256 ^ 4"
  have "unat (word_of_nat m :: u8) = m mod 256" for m by (simp add: unsigned_of_nat take_bit_eq_mod)
  then have "bytes_int (int_bytes n) = (\<Sum>i < 4. (n div 256 ^ i mod 256) * 256 ^ i)"
    by (simp add: bytes_int_def int_bytes_def)
  also have "\<dots> = n mod 256 ^ 4" by (rule digits_mod)
  also have "\<dots> = n" using n by simp
  finally show ?thesis .
qed

lemma popsig_first:
  assumes "reads rd" and "n < 256 ^ 4"
  shows "native_popsig rd (int_bytes n @ rest) = Some (Some (n, rest))"
  using popsig_loop_split [OF assms(1), of 4 "int_bytes n @ rest" "[]"] bytes_int_bytes [OF assms(2)]
  by (simp add: native_popsig_def)

section \<open>Code\<close>

text \<open>
  Thread code: \<open>thread_code i n e ops\<close> for the values \<open>i\<close>, \<open>n\<close> and \<open>e\<close> of \<open>_native_in_isr\<close>, \<open>_native_in_syscall\<close> and
  \<open>native_interrupts_enabled\<close> before \<open>ops\<close>. System calls are properly nested, a switch to the interrupt context happens
  outside them and with interrupts off, and the thread continues with interrupts on.
\<close>

fun thread_code :: "int \<Rightarrow> int \<Rightarrow> int \<Rightarrow> 'h op list \<Rightarrow> bool" where
  "thread_code i n e [] \<longleftrightarrow> i = 0 \<and> n = 0"
| "thread_code i n e (x # c) \<longleftrightarrow> 0 \<le> n \<and> (case x of
     Syscall_enter \<Rightarrow> thread_code i (n + 1) e c
   | Syscall_leave \<Rightarrow> 0 < n \<and> thread_code i (n - 1) e c
   | In_syscall_dec \<Rightarrow> 0 < n \<and> thread_code i (n - 1) e c
   | Irq_restore \<Rightarrow> thread_code i n 0 c \<and> thread_code i n 1 c
   | Set_enabled v \<Rightarrow> v \<in> {0, 1} \<and> thread_code i n v c
   | Set_in_isr v \<Rightarrow> thread_code v n e c
   | Yield_test \<Rightarrow> i = 0 \<and> n = 0 \<and> thread_code 0 0 1 c
   | Swapcontext k \<Rightarrow> i = 1 \<and> n = 0 \<and> e = 0 \<and> k \<noteq> Switch_context_exit \<and> thread_code 0 0 1 c
   | Setcontext_isr k \<Rightarrow> i = 1 \<and> n = 0 \<and> e = 0 \<and> k = Switch_context_exit
   | Context_exit \<Rightarrow> i = 0 \<and> n = 0
   | Irq_loop \<Rightarrow> False | Popsig \<Rightarrow> False | Sigpend_load \<Rightarrow> False | Sigpend_store \<Rightarrow> False | Call_handler \<Rightarrow> False
   | Sched_if_requested \<Rightarrow> False | Sched_run \<Rightarrow> False | Yield_isr \<Rightarrow> False | Resume_active \<Rightarrow> False
   | _ \<Rightarrow> thread_code i n e c)"

definition isr_codes :: "'h op list list" where
  "isr_codes =
     [native_irq_handler, irq_handler_loop @ [Context_exit], tl irq_handler_loop @ [Context_exit],
      tl (tl irq_handler_loop) @ [Context_exit], tl (tl (tl irq_handler_loop)) @ [Context_exit], [Context_exit],
      isr_cpu_switch_context_exit, tl isr_cpu_switch_context_exit, [Yield_isr], [Sched_run, Set_enabled 1, Resume_active]]"

definition isr_mode :: "'h native \<Rightarrow> bool" where
  "isr_mode s \<longleftrightarrow> native_in_isr s = 1 \<and> native_in_syscall s = 0
     \<and> (if native_interrupts_enabled s = 0 then code s \<in> set isr_codes else native_interrupts_enabled s = 1 \<and> code s = [Resume_active])"

definition thread_mode :: "'h native \<Rightarrow> bool" where
  "thread_mode s \<longleftrightarrow> thread_code (native_in_isr s) (native_in_syscall s) (native_interrupts_enabled s) (code s)"

lemmas isr_code_simps = isr_codes_def irq_handler_loop_def native_irq_handler_def isr_cpu_switch_context_exit_def
lemmas routine_defs = native_irq_disable_def native_irq_enable_def yield_higher_body_def native_sig_leave_tramp_def
  native_sig_leave_handler_def syscall_leave_body_def

lemma thread_code_nonneg: "thread_code i n e c \<Longrightarrow> 0 \<le> n"
  by (cases c) auto

section \<open>The invariant\<close>

text \<open>The count of pending signals, when \<open>q\<close> are in the pipe and one may be in hand.\<close>

definition pend_ok :: "'h native \<Rightarrow> nat \<Rightarrow> bool" where
  "pend_ok s q = (case code s of
     Popsig # _ \<Rightarrow> sig s = None \<and> 0 < native_sigpend s \<and> native_sigpend s \<le> int q
   | Sigpend_load # _ \<Rightarrow> sig s \<noteq> None \<and> 0 < native_sigpend s \<and> native_sigpend s \<le> int q + 1
   | Sigpend_store # _ \<Rightarrow> sig s \<noteq> None \<and> 0 < sigpend_reg s \<and> sigpend_reg s \<le> int q + 1
   | Call_handler # _ \<Rightarrow> sig s \<noteq> None \<and> 0 \<le> native_sigpend s \<and> native_sigpend s \<le> int q
   | _ \<Rightarrow> sig s = None \<and> 0 \<le> native_sigpend s \<and> native_sigpend s \<le> int q)"

definition in_hand :: "'h native \<Rightarrow> nat list" where
  "in_hand s = (case sig s of None \<Rightarrow> [] | Some n \<Rightarrow> [n])"

definition queue_inv :: "'h native \<Rightarrow> nat list \<Rightarrow> bool" where
  "queue_inv s q \<longleftrightarrow> sig_pipe s = concat (map int_bytes q) \<and> (\<forall>n \<in> set q. valid_signal n)
     \<and> caught s = handled s @ in_hand s @ q \<and> pend_ok s (length q)"

definition contexts_ok :: "'h native \<Rightarrow> bool" where
  "contexts_ok s \<longleftrightarrow> (\<forall>t. thread_code 0 0 1 (uc_code (contexts s t)))"

definition native_inv :: "'h native \<Rightarrow> bool" where
  "native_inv s \<longleftrightarrow> (thread_mode s \<or> isr_mode s) \<and> native_interrupts_enabled s \<in> {0, 1}
     \<and> contexts_ok s \<and> (\<exists>q. queue_inv s q)"

definition calm :: "'h op list \<Rightarrow> bool" where
  "calm c = (case c of Popsig # _ \<Rightarrow> False | Sigpend_load # _ \<Rightarrow> False | Sigpend_store # _ \<Rightarrow> False | Call_handler # _ \<Rightarrow> False | _ \<Rightarrow> True)"

lemma thread_code_calm: "thread_code i n e c \<Longrightarrow> calm c"
  by (cases c) (auto simp: calm_def split: op.splits)

lemma pend_ok_calm: "calm (code s) \<Longrightarrow> pend_ok s q \<longleftrightarrow> sig s = None \<and> 0 \<le> native_sigpend s \<and> native_sigpend s \<le> int q"
  by (auto simp: pend_ok_def calm_def split: list.splits op.splits)

section \<open>Steps of a thread\<close>

lemma thread_code_routines [simp]:
  "thread_code i n e (native_irq_disable @ c) \<longleftrightarrow> 0 \<le> n \<and> thread_code i n 0 c"
  "thread_code i n e (native_irq_enable @ c) \<longleftrightarrow> 0 \<le> n \<and> thread_code i n 1 c"
  "thread_code i n e (syscall_leave_body @ c) \<longleftrightarrow> n = 0 \<and> thread_code 0 0 1 c"
  "thread_code i n e (yield_higher_body @ c) \<longleftrightarrow> n = 0 \<and> thread_code 0 0 1 c"
  by (auto simp: routine_defs)

lemma thread_code_tramp [simp]:
  "thread_code i n e (native_sig_leave_tramp @ c) \<longleftrightarrow> i = 1 \<and> n = 0 \<and> e = 0 \<and> thread_code 0 0 1 c"
  by (auto simp: native_sig_leave_tramp_def)

text \<open>The calls a thread may make.\<close>

lemma thread_code_calls [simp]:
  "thread_code 0 0 e (register_interrupt n h @ c) \<longleftrightarrow> thread_code 0 0 0 c \<and> thread_code 0 0 1 c"
  "thread_code 0 0 e (unregister_interrupt n @ c) \<longleftrightarrow> thread_code 0 0 0 c \<and> thread_code 0 0 1 c"
  "thread_code 0 0 e (native_pm_set_lowest @ c) \<longleftrightarrow> thread_code 0 0 e c"
  "thread_code 0 0 e (native_thread_yield_higher @ c) \<longleftrightarrow> thread_code 0 0 1 c"
  "thread_code 0 0 e (native_syscall h @ c) \<longleftrightarrow> thread_code 0 0 e c"
  by (auto simp: register_interrupt_def unregister_interrupt_def set_signal_handler_def native_pm_set_lowest_def
    native_thread_yield_higher_def native_syscall_def)

text \<open>A step of a thread leaves the signals alone.\<close>

definition same_signals :: "'h native \<Rightarrow> 'h native \<Rightarrow> bool" where
  "same_signals s s' \<longleftrightarrow> sig_pipe s' = sig_pipe s \<and> caught s' = caught s \<and> handled s' = handled s
     \<and> sig s' = sig s \<and> native_sigpend s' = native_sigpend s"

lemma with_kernel_Go: "with_kernel k s = Go s' \<longleftrightarrow> (\<exists>k'. k = Some k' \<and> s' = s\<lparr>kernel := k'\<rparr>)"
  by (auto simp: with_kernel_def split: option.splits)

lemma enter_isr_mode:
  assumes "native_in_isr s = 1" and "native_in_syscall s = 0" and "native_interrupts_enabled s = 0"
  shows "isr_mode (enter_isr_context k s)" "calm (code (enter_isr_context k s))"
  using assms by (auto simp: isr_mode_def enter_isr_context_def isr_entry_code_def isr_code_simps calm_def split: isr.splits)

lemma thread_swap:
  assumes "thread_mode (s\<lparr>code := Swapcontext k # c\<rparr>)" and "contexts_ok s" and "swapcontext k (s\<lparr>code := c\<rparr>) = Go s'"
  shows "isr_mode s' \<and> calm (code s') \<and> contexts_ok s' \<and> same_signals s s'"
proof -
  obtain t where s': "s' = enter_isr_context k (s\<lparr>code := c, contexts := (contexts s)(t :=
       \<lparr>uc_code = c, uc_ret = ret s, uc_locals = locals s, uc_sigmask = sigmask s\<rparr>)\<rparr>)"
    using assms(3) by (auto simp: swapcontext_def split: option.splits)
  have f: "native_in_isr s = 1" "native_in_syscall s = 0" "native_interrupts_enabled s = 0" "thread_code 0 0 1 c"
    using assms(1) by (auto simp: thread_mode_def)
  then have "isr_mode s' \<and> calm (code s')" unfolding s' by (intro conjI enter_isr_mode) simp_all
  then show ?thesis using f(4) assms(2) by (auto simp: s' contexts_ok_def same_signals_def enter_isr_context_def)
qed

lemma thread_step:
  assumes t: "thread_mode (s\<lparr>code := x # c\<rparr>)" and k: "contexts_ok s" and e: "exec rd run x (s\<lparr>code := c\<rparr>) = Go s'"
  shows "(thread_mode s' \<or> isr_mode s' \<and> calm (code s')) \<and> contexts_ok s' \<and> same_signals s s'"
proof (cases "\<exists>k. x = Swapcontext k \<or> x = Setcontext_isr k")
  case True
  then consider k where "x = Swapcontext k" | k where "x = Setcontext_isr k" by blast
  then show ?thesis
  proof cases
    case 1
    then show ?thesis using thread_swap [where s = s and c = c] t k e by (simp add: exec_def)
  next
    case (2 k)
    have "native_in_isr s = 1" "native_in_syscall s = 0" "native_interrupts_enabled s = 0" using t 2 by (auto simp: thread_mode_def)
    then have "isr_mode s' \<and> calm (code s')" using enter_isr_mode [where s = "s\<lparr>code := c\<rparr>" and k = k] e 2 by (simp add: exec_def)
    moreover have "s' = enter_isr_context k (s\<lparr>code := c\<rparr>)" using e 2 by (simp add: exec_def)
    ultimately show ?thesis using k by (simp add: same_signals_def contexts_ok_def enter_isr_context_def)
  qed
next
  case False
  then show ?thesis using t k e
    by (cases x)
      (auto simp: exec_def thread_mode_def goto_def native_syscall_leave_def Let_def contexts_ok_def same_signals_def with_kernel_Go
        native_irq_restore_def native_cpu_switch_context_exit_def split: if_splits list.splits)
qed

lemma same_signals_queue:
  assumes "same_signals s s'" and "queue_inv s q" and "calm (code s)" and "calm (code s')"
  shows "queue_inv s' q"
  using assms by (simp add: queue_inv_def same_signals_def pend_ok_calm in_hand_def)

section \<open>Steps of the interrupt code\<close>

lemma queue_first:
  assumes "queue_inv s q" and "code s = Popsig # c" and "reads rd"
  obtains n q' where "q = n # q'" "native_popsig rd (sig_pipe s) = Some (Some (n, concat (map int_bytes q')))"
proof -
  have "q \<noteq> []" using assms(1,2) by (auto simp: queue_inv_def pend_ok_def)
  then obtain n q' where q: "q = n # q'" by (cases q) auto
  have "n < 256 ^ 4" using assms(1) q by (simp add: queue_inv_def valid_signal_def NSIG_def)
  then show ?thesis using that [OF q] popsig_first [OF assms(3)] assms(1) q by (simp add: queue_inv_def)
qed

lemma isr_popsig:
  assumes "isr_mode s" and "queue_inv s q" and "code s = Popsig # c" and "reads rd" and "cpu_step rd run s = Go s'"
  shows "isr_mode s' \<and> contexts s' = contexts s \<and> (\<exists>q. queue_inv s' q)"
proof -
  obtain n q' where q: "q = n # q'" "native_popsig rd (sig_pipe s) = Some (Some (n, concat (map int_bytes q')))"
    using queue_first [OF assms(2-4)] .
  then have s': "s' = s\<lparr>code := c, sig := Some n, sig_pipe := concat (map int_bytes q')\<rparr>"
    using assms(3,5) by (simp add: cpu_step_def exec_def)
  have c: "c = Sigpend_load # tl c" using assms(1,3) by (auto simp: isr_mode_def isr_code_simps split: if_splits)
  have "queue_inv s' q'" using assms(2,3) c by (auto simp: s' q queue_inv_def in_hand_def pend_ok_def split: list.splits)
  moreover have "isr_mode s'" using assms(1,3) by (auto simp: s' isr_mode_def isr_code_simps split: if_splits)
  ultimately show ?thesis by (auto simp: s')
qed

lemma isr_step_code:
  assumes c: "code s \<in> set isr_codes" and f: "native_interrupts_enabled s = 0" "native_in_isr s = 1" "native_in_syscall s = 0"
    and q: "queue_inv s q" and st: "cpu_step rd run s = Go s'" and np: "hd (code s) \<noteq> Popsig"
  shows "isr_mode s' \<and> contexts s' = contexts s \<and> queue_inv s' q"
proof -
  note d = cpu_step_def exec_def isr_mode_def queue_inv_def in_hand_def pend_ok_def
  consider (loop) "code s = native_irq_handler" | (load) "code s = tl irq_handler_loop @ [Context_exit]"
    | (store) "code s = tl (tl irq_handler_loop) @ [Context_exit]" | (call) "code s = tl (tl (tl irq_handler_loop)) @ [Context_exit]"
    | (exit) "code s = [Context_exit]" | (sched) "code s = isr_cpu_switch_context_exit" | (on) "code s = tl isr_cpu_switch_context_exit"
    | (yield) "code s = [Yield_isr]" | (run) "code s = [Sched_run, Set_enabled 1, Resume_active]"
    using c np by (auto simp: isr_codes_def irq_handler_loop_def)
  then show ?thesis
  proof cases
    case loop
    then show ?thesis using f q st by (auto simp: d isr_code_simps goto_def split: if_splits)
  next
    case load
    then show ?thesis using f q st by (auto simp: d isr_code_simps)
  next
    case store
    then show ?thesis using f q st by (auto simp: d isr_code_simps)
  next
    case call
    then show ?thesis using f q st
      by (auto simp: d isr_code_simps call_handler_def with_kernel_Go Let_def split: option.splits if_splits)
  next
    case exit
    then show ?thesis using f q st by (auto simp: d isr_code_simps native_cpu_switch_context_exit_def)
  next
    case sched
    then show ?thesis using f q st by (auto simp: d isr_code_simps native_sched_run_def with_kernel_Go split: if_splits)
  next
    case on
    then show ?thesis using f q st by (auto simp: d isr_code_simps)
  next
    case yield
    then show ?thesis using f q st by (auto simp: d isr_code_simps isr_thread_yield_def split: if_splits)
  next
    case run
    then show ?thesis using f q st by (auto simp: d isr_code_simps native_sched_run_def with_kernel_Go)
  qed
qed

lemma isr_step:
  assumes "isr_mode s" and "contexts_ok s" and "queue_inv s q" and "reads rd" and "cpu_step rd run s = Go s'"
  shows "(thread_mode s' \<and> native_interrupts_enabled s' = 1 \<or> isr_mode s') \<and> contexts_ok s' \<and> (\<exists>q. queue_inv s' q)"
proof (cases "hd (code s) = Popsig")
  case True
  then obtain c where "code s = Popsig # c" using assms(5) by (cases "code s") (auto simp: cpu_step_def)
  then show ?thesis using isr_popsig [OF assms(1,3) _ assms(4,5)] assms(2) by (auto simp: contexts_ok_def)
next
  case False
  have m: "native_in_isr s = 1" "native_in_syscall s = 0" using assms(1) by (simp_all add: isr_mode_def)
  from assms(1) consider "code s \<in> set isr_codes" "native_interrupts_enabled s = 0"
    | "code s = [Resume_active]" "native_interrupts_enabled s = 1" by (auto simp: isr_mode_def split: if_splits)
  then show ?thesis
  proof cases
    case 1
    have "isr_mode s' \<and> contexts s' = contexts s \<and> queue_inv s' q" by (rule isr_step_code [OF 1 m assms(3,5) False])
    then show ?thesis using assms(2) by (auto simp: contexts_ok_def)
  next
    case 2
    then show ?thesis using assms(2,3,5) m
      thread_code_calm [of 0 0 1 "uc_code (contexts s (the (sched_active_thread (kernel s))))"]
      by (auto simp: cpu_step_def exec_def resume_active_def native_sig_leave_handler_def thread_mode_def contexts_ok_def
          queue_inv_def in_hand_def pend_ok_def Let_def split: option.splits)
  qed
qed

section \<open>Signals\<close>

lemma native_isr_entry_eq:
  "native_isr_entry n s =
     (let s1 = s\<lparr>sig_pipe := sig_pipe s @ int_bytes n, caught := caught s @ [n], native_sigpend := native_sigpend s + 1\<rparr> in
      if sched_active_thread (kernel s1) = None then s1
      else if native_interrupts_enabled s1 = 0 then s1
      else if native_in_isr s1 \<noteq> 0 then s1
      else if native_in_syscall s1 \<noteq> 0 then s1
      else (isr_set_sigmask s1)\<lparr>native_in_isr := 1, code := native_sig_leave_tramp @ code s1\<rparr>)"
  by (simp add: native_isr_entry_def isr_enter_def isr_count_def isr_save_def isr_set_sigmask_def Let_def)

lemma isr_mode_no_pause: "isr_mode s \<Longrightarrow> end_pause s = s"
  by (auto simp: isr_mode_def isr_code_simps end_pause_def split: if_splits)

lemma thread_mode_pause: "thread_mode s \<Longrightarrow> thread_mode (end_pause s)"
  by (auto simp: thread_mode_def end_pause_def split: list.splits op.splits)

lemma pend_ok_more:
  "pend_ok s q \<Longrightarrow> pend_ok (s\<lparr>sig_pipe := p, caught := c, native_sigpend := native_sigpend s + 1\<rparr>) (Suc q)"
  by (auto simp: pend_ok_def split: list.splits op.splits)

lemma queue_caught:
  assumes "queue_inv s q" and "valid_signal n"
  shows "queue_inv (s\<lparr>sig_pipe := sig_pipe s @ int_bytes n, caught := caught s @ [n], native_sigpend := native_sigpend s + 1\<rparr>) (q @ [n])"
  using assms pend_ok_more [of s "length q"] by (auto simp: queue_inv_def in_hand_def)

lemma isr_entry_inv:
  assumes m: "thread_mode s \<or> isr_mode s" and e: "native_interrupts_enabled s \<in> {0, 1}" and q: "queue_inv s q" and n: "valid_signal n"
  shows "(thread_mode (native_isr_entry n s) \<or> isr_mode (native_isr_entry n s)) \<and> contexts (native_isr_entry n s) = contexts s
    \<and> queue_inv (native_isr_entry n s) (q @ [n])"
proof -
  define s1 where "s1 = s\<lparr>sig_pipe := sig_pipe s @ int_bytes n, caught := caught s @ [n], native_sigpend := native_sigpend s + 1\<rparr>"
  have q1: "queue_inv s1 (q @ [n])" unfolding s1_def by (rule queue_caught [OF q n])
  have m1: "thread_mode s1 \<or> isr_mode s1" using m by (auto simp: thread_mode_def isr_mode_def s1_def)
  consider "native_isr_entry n s = s1" | "native_isr_entry n s = (isr_set_sigmask s1)\<lparr>native_in_isr := 1, code := native_sig_leave_tramp @ code s1\<rparr>"
      "native_interrupts_enabled s1 \<noteq> 0" "native_in_isr s1 = 0" "native_in_syscall s1 = 0"
    unfolding native_isr_entry_eq s1_def [symmetric] Let_def by (meson eq_reflection)
  then show ?thesis
  proof cases
    case 1
    then show ?thesis using m1 q1 by (simp add: s1_def)
  next
    case 2
    define s2 where "s2 = (isr_set_sigmask s1)\<lparr>native_in_isr := 1, code := native_sig_leave_tramp @ code s1\<rparr>"
    have t1: "thread_code 0 0 1 (code s1)" using m1 2 e by (auto simp: isr_mode_def thread_mode_def s1_def)
    then have "thread_mode s2" by (simp add: s2_def isr_set_sigmask_def thread_mode_def 2(4))
    then have "calm (code s2)" by (simp add: thread_mode_def thread_code_calm)
    moreover have "same_signals s1 s2" by (simp add: s2_def isr_set_sigmask_def same_signals_def)
    ultimately have "queue_inv s2 (q @ [n])" using same_signals_queue [OF _ q1] thread_code_calm [OF t1] by blast
    then show ?thesis using 2(1) \<open>thread_mode s2\<close> by (simp add: s2_def isr_set_sigmask_def s1_def)
  qed
qed

lemma isr_entry_enabled: "native_interrupts_enabled s \<in> {0, 1} \<Longrightarrow> native_interrupts_enabled (native_isr_entry n s) \<in> {0, 1}"
  by (auto simp: native_isr_entry_eq isr_set_sigmask_def Let_def)

text \<open>\<open>SIGUSR1\<close> inside the handler of another signal overtakes it, or is not counted.\<close>

lemma isr_enter_syscall: "native_in_syscall s \<noteq> 0 \<Longrightarrow> isr_enter s = s"
  by (simp add: isr_enter_def)

lemma nested_isr_entry_effect:
  assumes "native_in_syscall s \<noteq> 0"
  shows "nested_isr_entry w n s = Some (s\<lparr>caught := caught s @ [n, SIGUSR1],
      sig_pipe := sig_pipe s @ (if w = Before_write then int_bytes SIGUSR1 @ int_bytes n else int_bytes n @ int_bytes SIGUSR1),
      native_sigpend := native_sigpend s + (if w = Inside_count then 1 else 2)\<rparr>)"
  using assms
  by (cases w) (simp_all add: nested_isr_entry_def native_isr_entry_def isr_enter_syscall isr_count_def isr_save_def Let_def)

section \<open>The machine keeps the invariant\<close>

lemma thread_step_enabled:
  assumes "thread_mode (s\<lparr>code := x # c\<rparr>)" and "native_interrupts_enabled s \<in> {0, 1}" and "exec rd run x (s\<lparr>code := c\<rparr>) = Go s'"
  shows "native_interrupts_enabled s' \<in> {0, 1}"
proof (cases "\<exists>v. x = Set_enabled v")
  case True
  then show ?thesis using assms by (auto simp: thread_mode_def exec_def)
next
  case False
  have "native_interrupts_enabled s' = native_interrupts_enabled s" using assms(1,3) False
    by (cases x) (auto simp: exec_def thread_mode_def goto_def native_syscall_leave_def Let_def with_kernel_Go
        enter_isr_context_def swapcontext_def split: if_splits list.splits option.splits)
  then show ?thesis using assms(2) by simp
qed

lemma native_inv_op:
  assumes inv: "native_inv s" and rd: "reads rd" and st: "cpu_step rd run s = Go s'"
  shows "native_inv s'"
proof -
  obtain q where q: "queue_inv s q" using inv by (auto simp: native_inv_def)
  have k: "contexts_ok s" and e: "native_interrupts_enabled s \<in> {0, 1}" using inv by (auto simp: native_inv_def)
  from inv have "isr_mode s \<or> thread_mode s" by (auto simp: native_inv_def)
  then show ?thesis
  proof
    assume m: "isr_mode s"
    note t = isr_step [OF m k q rd st]
    then have "native_interrupts_enabled s' \<in> {0, 1}" by (auto simp: isr_mode_def split: if_splits)
    then show ?thesis using t by (auto simp: native_inv_def)
  next
    assume m: "thread_mode s"
    obtain x c where c: "code s = x # c" using st by (cases "code s") (auto simp: cpu_step_def)
    then have m': "thread_mode (s\<lparr>code := x # c\<rparr>)" and ex: "exec rd run x (s\<lparr>code := c\<rparr>) = Go s'"
      using m st by (simp_all add: thread_mode_def cpu_step_def)
    have calm: "calm (code s)" using m by (simp add: thread_mode_def thread_code_calm)
    note t = thread_step [OF m' k ex]
    then have "calm (code s')" by (auto simp: thread_mode_def thread_code_calm)
    then have "queue_inv s' q" using same_signals_queue [OF _ q calm] t by blast
    then show ?thesis using t thread_step_enabled [OF m' e ex] by (auto simp: native_inv_def)
  qed
qed

lemma native_inv_signal:
  assumes inv: "native_inv s" and n: "valid_signal n" and d: "deliver n s = Go s'"
  shows "native_inv s'"
proof (cases "dispositions s n")
  case Isr_entry
  define s1 where "s1 = end_pause s"
  obtain q where q: "queue_inv s q" using inv by (auto simp: native_inv_def)
  have "thread_mode s1 \<and> thread_mode s \<or> isr_mode s1 \<and> s1 = s"
    using inv isr_mode_no_pause thread_mode_pause by (auto simp: native_inv_def s1_def)
  moreover have same: "same_signals s s1" "contexts s1 = contexts s" "native_interrupts_enabled s1 = native_interrupts_enabled s"
    by (simp_all add: s1_def end_pause_def same_signals_def)
  ultimately have m: "thread_mode s1 \<or> isr_mode s1" "queue_inv s1 q"
    using same_signals_queue [OF _ q] q by (auto simp: thread_mode_def thread_code_calm)
  have e: "native_interrupts_enabled s1 \<in> {0, 1}" using inv same by (simp add: native_inv_def)
  have "s' = native_isr_entry n s1" using d Isr_entry by (simp add: deliver_def s1_def)
  then show ?thesis using isr_entry_inv [OF m(1) e m(2) n] isr_entry_enabled [OF e] inv same
    by (auto simp: native_inv_def contexts_ok_def)
qed (use inv d in \<open>auto simp: deliver_def\<close>)

theorem native_inv_step: "nstep rd run s s' \<Longrightarrow> reads rd \<Longrightarrow> native_inv s \<Longrightarrow> native_inv s'"
  by (induction rule: nstep.induct) (auto intro: native_inv_op native_inv_signal)

theorem native_inv_reachable:
  assumes "(nstep rd run)\<^sup>*\<^sup>* s s'" and "reads rd" and "native_inv s"
  shows "native_inv s'"
  using assms by (induction rule: rtranclp_induct) (auto intro: native_inv_step)

lemma steps_reachable: "steps rd run n s = Go s' \<Longrightarrow> (nstep rd run)\<^sup>*\<^sup>* s s'"
  by (induction n arbitrary: s) (auto split: outcome.splits intro: nstep.Op converse_rtranclp_into_rtranclp)

lemma schedule_reachable: "schedule rd run es s = Go s' \<Longrightarrow> (nstep rd run)\<^sup>*\<^sup>* s s'"
  by (induction rd run es s rule: schedule.induct)
    (auto split: outcome.splits if_splits dest: steps_reachable intro: nstep.Signal converse_rtranclp_into_rtranclp rtranclp_trans)

text \<open>The pipe never blocks the interrupt code.\<close>

lemma exec_blocked: "exec rd run x s = Blocked \<Longrightarrow> x = Popsig \<or> x = Paused"
  by (cases x) (simp_all add: exec_def goto_def native_syscall_leave_def Let_def with_kernel_def swapcontext_def
    resume_active_def native_sched_run_def call_handler_def split: if_splits list.splits option.splits)

lemma native_inv_blocked:
  assumes inv: "native_inv s" and rd: "reads rd" and st: "cpu_step rd run s = Blocked"
  shows "code s = [] \<or> hd (code s) = Paused"
proof (cases "code s")
  case (Cons x c)
  obtain q where q: "queue_inv s q" using inv by (auto simp: native_inv_def)
  have "x \<noteq> Popsig"
  proof
    assume x: "x = Popsig"
    have c: "code s = Popsig # c" using Cons x by simp
    obtain n q' where "native_popsig rd (sig_pipe s) = Some (Some (n, concat (map int_bytes q')))"
      using queue_first [OF q c rd] by blast
    then show False using st Cons x by (simp add: cpu_step_def exec_def)
  qed
  then have "x = Paused" using exec_blocked [of rd run x "s\<lparr>code := c\<rparr>"] st Cons by (simp add: cpu_step_def)
  then show ?thesis using Cons by simp
qed simp

section \<open>The interrupt handler empties the queue\<close>

lemma steps_add: "steps rd run (m + n) s = (case steps rd run m s of Go s' \<Rightarrow> steps rd run n s' | x \<Rightarrow> x)"
  by (induction m arbitrary: s) (auto split: outcome.splits)

text \<open>The callbacks of the queued signals, one after the other; \<open>SIGUSR1\<close> needs none.\<close>

definition callback ::
    "('h \<Rightarrow> sm_timer_state \<Rightarrow> sm_timer_state option) \<Rightarrow> (nat \<Rightarrow> 'h option) \<Rightarrow> nat \<Rightarrow> sm_timer_state \<Rightarrow> sm_timer_state option" where
  "callback run hs n k = (case hs n of Some h \<Rightarrow> run h k | None \<Rightarrow> if n = SIGUSR1 then Some k else None)"

fun callbacks ::
    "('h \<Rightarrow> sm_timer_state \<Rightarrow> sm_timer_state option) \<Rightarrow> (nat \<Rightarrow> 'h option) \<Rightarrow> nat list \<Rightarrow> sm_timer_state \<Rightarrow> sm_timer_state option" where
  "callbacks run hs [] k = Some k"
| "callbacks run hs (n # q) k = Option.bind (callback run hs n k) (callbacks run hs q)"

lemma call_handler_callback:
  "sig s = Some n \<Longrightarrow> callback run (native_irq_handlers s) n (kernel s) = Some k \<Longrightarrow>
   call_handler run s = Go (s\<lparr>sig := None, handled := handled s @ [n], kernel := k\<rparr>)"
  by (cases "native_irq_handlers s n") (auto simp: call_handler_def callback_def with_kernel_def Let_def split: if_splits)

lemma handler_round:
  assumes rd: "reads rd" and n: "valid_signal n" and cb: "callback run (native_irq_handlers s) n (kernel s) = Some k"
    and s: "code s = Irq_loop # c" "sig_pipe s = int_bytes n @ p" "native_sigpend s > 0"
  shows "\<exists>r. steps rd run 5 s = Go (s\<lparr>sig_pipe := p, native_sigpend := native_sigpend s - 1, sigpend_reg := r, kernel := k,
    handled := handled s @ [n], sig := None\<rparr>)"
proof -
  define d where "d = Irq_loop # c"
  define s1 where "s1 = s\<lparr>sig := Some n, sig_pipe := p, sigpend_reg := native_sigpend s, native_sigpend := native_sigpend s - 1, code := d\<rparr>"
  have pop: "native_popsig rd (int_bytes n @ p) = Some (Some (n, p))"
    using popsig_first [OF rd] n by (simp add: valid_signal_def NSIG_def)
  have "steps rd run 5 s = steps rd run 1 (s1\<lparr>code := Call_handler # d\<rparr>)"
    using s pop by (simp add: eval_nat_numeral cpu_step_def exec_def goto_def irq_handler_loop_def s1_def d_def)
  also have "\<dots> = call_handler run s1" by (cases "call_handler run s1") (simp_all add: cpu_step_def exec_def s1_def)
  also have "\<dots> = Go (s1\<lparr>sig := None, handled := handled s1 @ [n], kernel := k\<rparr>)"
    using cb by (intro call_handler_callback) (simp_all add: s1_def)
  also have "s1\<lparr>sig := None, handled := handled s1 @ [n], kernel := k\<rparr> = s\<lparr>sig_pipe := p, native_sigpend := native_sigpend s - 1,
      sigpend_reg := native_sigpend s, kernel := k, handled := handled s @ [n], sig := None\<rparr>"
    using s(1) by (intro native.equality) (simp_all add: s1_def d_def)
  finally show ?thesis by blast
qed

lemma handler_drains:
  assumes "reads rd" and "\<forall>n \<in> set q. valid_signal n" and "callbacks run (native_irq_handlers s) q (kernel s) = Some k"
    and "code s = Irq_loop # c" and "sig_pipe s = concat (map int_bytes q)" and "native_sigpend s = int (length q)"
  shows "\<exists>s'. steps rd run (5 * length q + 1) s = Go s' \<and> code s' = c \<and> sig_pipe s' = [] \<and> native_sigpend s' = 0
    \<and> kernel s' = k \<and> handled s' = handled s @ q"
  using assms
proof (induction q arbitrary: s)
  case Nil
  then show ?case by (simp add: cpu_step_def exec_def)
next
  case (Cons n q)
  obtain k1 where k1: "callback run (native_irq_handlers s) n (kernel s) = Some k1" "callbacks run (native_irq_handlers s) q k1 = Some k"
    using Cons.prems(3) by (auto simp: bind_eq_Some_conv)
  obtain r where r: "steps rd run 5 s = Go (s\<lparr>sig_pipe := concat (map int_bytes q), native_sigpend := native_sigpend s - 1, sigpend_reg := r,
      kernel := k1, handled := handled s @ [n], sig := None\<rparr>)" (is "_ = Go ?s1")
    using handler_round [OF Cons.prems(1) _ k1(1) Cons.prems(4), of "concat (map int_bytes q)"] Cons.prems(2,5,6) by auto
  have "5 * length (n # q) + 1 = 5 + (5 * length q + 1)" by simp
  then have "steps rd run (5 * length (n # q) + 1) s = steps rd run (5 * length q + 1) ?s1" using r by (simp only: steps_add) simp
  moreover have "\<exists>s'. steps rd run (5 * length q + 1) ?s1 = Go s' \<and> code s' = c \<and> sig_pipe s' = [] \<and> native_sigpend s' = 0
      \<and> kernel s' = k \<and> handled s' = handled ?s1 @ q"
    by (rule Cons.IH) (use Cons.prems k1 in auto)
  ultimately show ?case by (simp only:) simp
qed

end
