(* ===== verification/Native_Properties.thy ===== *)
theory Native_Properties
  imports Native_Inv Kernel_Examples
begin

text \<open>
  What the interrupt machinery of the native port guarantees, and three interleavings in which it goes wrong.
\<close>

section \<open>Start\<close>

text \<open>The memory before \<open>native_interrupt_init\<close>: zeros, the boot code and one context for each thread.\<close>

definition native_reset :: "sm_timer_state \<Rightarrow> 'h op list \<Rightarrow> (nat \<Rightarrow> 'h op list) \<Rightarrow> 'h native" where
  "native_reset k boot tasks =
     \<lparr>native_interrupts_enabled = 0, native_in_isr = 0, native_in_syscall = 0, native_sigpend = 0, native_sig_set = {},
      native_sig_set_dint = {}, native_irq_handlers = (\<lambda>_. None), dispositions = (\<lambda>_. Default), sig_pipe = [], sigmask = {},
      isr_sigmask = {}, contexts = (\<lambda>t. native_thread_stack_init (tasks t)), code = boot, ret = 0, locals = [], sig = None,
      sigpend_reg = 0, kernel = k, caught = [], handled = []\<rparr>"

text \<open>Boot code and tasks are made of complete calls.\<close>

definition native_programs :: "'h op list \<Rightarrow> (nat \<Rightarrow> 'h op list) \<Rightarrow> bool" where
  "native_programs boot tasks \<longleftrightarrow> thread_code 0 0 0 boot \<and> (\<forall>t. thread_code 0 0 1 (tasks t @ [Context_exit]))"

lemma native_inv_start:
  assumes "native_programs boot tasks"
  shows "native_inv (native_interrupt_init (native_reset k boot tasks))"
proof -
  let ?s = "native_interrupt_init (native_reset k boot tasks)"
  have m: "thread_mode ?s" using assms by (simp add: thread_mode_def native_interrupt_init_def native_reset_def native_programs_def)
  then have "queue_inv ?s []"
    by (simp add: queue_inv_def thread_mode_def thread_code_calm pend_ok_calm)
      (simp add: native_interrupt_init_def native_reset_def in_hand_def)
  moreover have "contexts_ok ?s" using assms
    by (simp add: contexts_ok_def native_interrupt_init_def native_reset_def native_programs_def native_thread_stack_init_def)
  ultimately show ?thesis using m by (auto simp: native_inv_def native_interrupt_init_def native_reset_def)
qed

lemmas native_inv_from_start = native_inv_reachable [OF _ _ native_inv_start]

section \<open>Examples\<close>

text \<open>A read gives all bytes asked for that are there; the callbacks and the thread's own code leave the kernel alone.\<close>

definition demo_read :: "nat \<Rightarrow> nat \<Rightarrow> int" where
  "demo_read avail n = int (min avail n)"

definition demo_run :: "unit \<Rightarrow> sm_timer_state \<Rightarrow> sm_timer_state option" where
  "demo_run h k = Some k"

lemma demo_reads: "reads demo_read"
  by (auto simp: reads_def demo_read_def)

definition demo_tasks :: "nat \<Rightarrow> unit op list" where
  "demo_tasks t = native_pm_set_lowest @ native_thread_yield_higher"

definition demo_boot :: "unit op list" where
  "demo_boot = native_irq_enable @ register_interrupt 14 () @ [Run ()]"

lemma demo_programs: "native_programs demo_boot demo_tasks"
  by (auto simp: native_programs_def demo_boot_def demo_tasks_def)

definition demo_kernel :: sm_timer_state where
  "demo_kernel = demo STATUS_SLEEPING False"

lemma demo_kernel_simps [simp]: "sched_active_thread demo_kernel = Some 2" "\<not> sched_context_switch_request demo_kernel"
  by (simp_all add: demo_kernel_def demo_simps)

definition demo_native :: "unit native" where
  "demo_native = native_interrupt_init (native_reset demo_kernel demo_boot demo_tasks)"

lemma demo_native_simps:
  "code demo_native = demo_boot" "sig_pipe demo_native = []" "kernel demo_native = demo_kernel" "handled demo_native = []"
  "native_irq_handlers demo_native = (\<lambda>_. None)" "sigmask demo_native = {}"
  "dispositions demo_native = (\<lambda>_. Default)(SIGUSR1 := Isr_entry, SIGINT := Shutdown)"
  "contexts demo_native = (\<lambda>t. native_thread_stack_init (demo_tasks t))"
  "native_interrupts_enabled demo_native = 0" "native_in_isr demo_native = 0" "native_in_syscall demo_native = 0"
  "native_sigpend demo_native = 0"
  by (simp_all add: demo_native_def native_interrupt_init_def native_reset_def)

text \<open>A running thread with a handler for \<open>SIGALRM\<close>, and the handler of that signal about to run.\<close>

definition demo_thread_at :: "unit op list \<Rightarrow> unit native" where
  "demo_thread_at c = demo_native\<lparr>native_interrupts_enabled := 1, code := c,
     dispositions := (dispositions demo_native)(14 := Isr_entry), native_irq_handlers := [14 \<mapsto> ()]\<rparr>"

definition demo_in_isr :: "unit native" where
  "demo_in_isr = demo_native\<lparr>native_in_isr := 1, code := native_irq_handler, native_irq_handlers := [14 \<mapsto> ()],
     native_sigpend := 1, sig_pipe := int_bytes 14\<rparr>"

lemmas machine_simps = cpu_step_def exec_def deliver_def native_isr_entry_eq end_pause_def Let_def goto_def routine_defs
  set_signal_handler_def native_syscall_leave_def native_irq_restore_def swapcontext_def enter_isr_context_def
  isr_entry_code_def native_irq_handler_def irq_handler_loop_def call_handler_def with_kernel_def isr_set_sigmask_def

lemma demo_interrupted:
  "\<exists>s. schedule demo_read demo_run [Step 5, Sig 10, Step 6] demo_native = Go s \<and> code s = Call_handler # native_irq_handler \<and> caught s = [10]"
proof -
  have "native_popsig demo_read (int_bytes 10) = Some (Some (10, []))" using popsig_first [OF demo_reads, of 10 "[]"] by simp
  then show ?thesis
    by (simp add: demo_native_def native_interrupt_init_def native_reset_def demo_boot_def eval_nat_numeral machine_simps
        valid_signal_def NSIG_def SIGUSR1_def SIGINT_def)
qed

section \<open>Signals reach their callbacks\<close>



text \<open>C24: A callback runs with the interrupts off, outside system calls and in the interrupt context, and a signal that
  arrives meanwhile is queued and changes neither what runs nor the kernel: interrupts are not nested.
\<close>

theorem native_isr_not_nested:
  assumes "reads rd" and "native_programs boot tasks"
    and "(nstep rd run)\<^sup>*\<^sup>* (native_interrupt_init (native_reset k boot tasks)) s" and "code s = Call_handler # c"
  shows "native_in_isr s = 1 \<and> native_interrupts_enabled s = 0 \<and> native_in_syscall s = 0 \<and> c = native_irq_handler
    \<and> (\<forall>n s'. deliver n s = Go s' \<longrightarrow> code s' = code s \<and> kernel s' = kernel s \<and> handled s' = handled s)"
proof -
  have "native_inv s" by (rule native_inv_from_start [OF assms(3,1,2)])
  then have m: "isr_mode s" using assms(4) by (auto simp: native_inv_def thread_mode_def)
  then have f: "native_in_isr s = 1" "native_interrupts_enabled s = 0" "native_in_syscall s = 0" "c = native_irq_handler"
    using assms(4) by (auto simp: isr_mode_def isr_code_simps split: if_splits)
  moreover have "code s' = code s \<and> kernel s' = kernel s \<and> handled s' = handled s" if "deliver n s = Go s'" for n s'
    using that f(2) isr_mode_no_pause [OF m] by (auto simp: deliver_def native_isr_entry_eq Let_def split: sigaction.splits)
  ultimately show ?thesis by blast
qed

theorem native_isr_not_nested_witness:
  "\<exists>s. schedule demo_read demo_run [Step 5, Sig 10, Step 6] demo_native = Go s \<and> code s = Call_handler # native_irq_handler
     \<and> native_in_isr s = 1 \<and> native_interrupts_enabled s = 0 \<and> native_in_syscall s = 0
     \<and> (\<forall>n s'. deliver n s = Go s' \<longrightarrow> code s' = code s \<and> kernel s' = kernel s \<and> handled s' = handled s)"
  using demo_interrupted schedule_reachable native_isr_not_nested [OF demo_reads demo_programs] unfolding demo_native_def by fast

text \<open>C25: The loop of the interrupt handler ends: with \<open>n\<close> signals pending it returns to the context switch after \<open>5 n + 1\<close>
  operations, has run their callbacks in order of arrival and leaves the pipe empty and the count at 0.
\<close>

theorem native_irq_handler_ends:
  assumes "reads rd" and "\<forall>n \<in> set q. valid_signal n" and "callbacks run (native_irq_handlers s) q (kernel s) = Some k"
    and "code s = native_irq_handler" and "sig_pipe s = concat (map int_bytes q)" and "native_sigpend s = int (length q)"
  shows "\<exists>s'. steps rd run (5 * length q + 1) s = Go s' \<and> code s' = [Context_exit] \<and> sig_pipe s' = [] \<and> native_sigpend s' = 0
    \<and> kernel s' = k \<and> handled s' = handled s @ q"
  using handler_drains [OF assms(1-3) _ assms(5,6)] assms(4) by (simp add: native_irq_handler_def)

theorem native_irq_handler_ends_witness:
  "\<exists>s'. steps demo_read demo_run 11 (demo_native\<lparr>code := native_irq_handler, sig_pipe := int_bytes 10 @ int_bytes 10, native_sigpend := 2\<rparr>) = Go s'
     \<and> code s' = [Context_exit] \<and> sig_pipe s' = [] \<and> native_sigpend s' = 0 \<and> kernel s' = demo_kernel \<and> handled s' = [10, 10]"
  using native_irq_handler_ends [OF demo_reads, of "[10, 10]" demo_run
      "demo_native\<lparr>code := native_irq_handler, sig_pipe := int_bytes 10 @ int_bytes 10, native_sigpend := 2\<rparr>" demo_kernel]
  by (simp add: demo_native_simps valid_signal_def NSIG_def callback_def SIGUSR1_def)

text \<open>A thread runs with interrupts on and no signal is pending.\<close>

definition thread_running :: "'h native \<Rightarrow> bool" where
  "thread_running s \<longleftrightarrow> native_interrupts_enabled s = 1 \<and> native_in_isr s = 0 \<and> native_in_syscall s = 0
     \<and> sched_active_thread (kernel s) \<noteq> None \<and> native_sigpend s = 0 \<and> sig_pipe s = []"

section \<open>Switching threads\<close>

lemma sys_pre_request: "sys_pre (k\<lparr>sched_context_switch_request := b\<rparr>) Q T V L = sys_pre k Q T V L"
  by (simp add: sys_pre_def rq_inv_def tm_inv_def thr_inv_def timers_inv_def slot_ok_def queued_def)

lemma sys_pre_active:
  assumes "sys_pre k Q T V L" and "a \<le> MAXTHREADS" and "in_use (sched_threads k a)"
  shows "sys_pre (k\<lparr>sched_active_thread := Some a, sched_active_pid := int a\<rparr>) Q T V L"
  using assms by (simp add: sys_pre_def rq_inv_def tm_inv_def thr_inv_def timers_inv_def slot_ok_def queued_def)

text \<open>A thread that yields, and is not the one the scheduler would choose.\<close>

definition demo_idle :: "unit native" where
  "demo_idle = (demo_thread_at native_thread_yield_higher)\<lparr>kernel := demo_kernel\<lparr>sched_active_thread := Some 1, sched_active_pid := int 1\<rparr>\<rparr>"

text \<open>C26: A yield on the native port, undisturbed by signals, ends after 14 operations in the first thread of the highest
  non-empty run queue, running outside the interrupt context with interrupts on, while the saved context of the yielding
  thread continues behind the call; the scheduler's invariant holds.\<close>

theorem native_yield_runs_highest:
  assumes "thread_running s" and "code s = native_thread_yield_higher @ c" and "sched_active_thread (kernel s) = Some t"
    and "sys_pre (kernel s) Q T V L" and "top Q p"
  shows "\<exists>s'. steps rd run 14 s = Go s' \<and> thread_running s' \<and> sched_active_thread (kernel s') = Some (hd (Q p))
    \<and> sys_inv (kernel s') Q T V L \<and> uc_code (contexts s' t) = native_irq_enable @ c
    \<and> code s' = (if hd (Q p) = t then native_irq_enable @ c else uc_code (contexts s (hd (Q p))))"
proof -
  define k where "k = (kernel s)\<lparr>sched_context_switch_request := True\<rparr>"
  have "sys_pre k Q T V L" using assms(4) by (simp add: k_def sys_pre_request)
  note r = sched_run_sys [OF this assms(5)]
  have "sched_run k = Some (if sched_active_thread k = Some (hd (Q p)) then 0 else 1, handed_over (sched_active_thread k) (hd (Q p)) k)"
    using r(1) by (simp add: sched_run_def)
  moreover have "sched_active_thread k = Some t" using assms(3) by (simp add: k_def)
  ultimately have run: "sched_run k = Some (if t = hd (Q p) then 0 else 1, handed_over (Some t) (hd (Q p)) k)" by simp
  show ?thesis using assms(1-3) run r(2,3) \<open>sched_active_thread k = Some t\<close>
    by (simp add: native_thread_yield_higher_def eval_nat_numeral machine_simps thread_running_def k_def [symmetric]
        isr_thread_yield_def native_sched_run_def resume_active_def)
qed

theorem native_yield_runs_highest_witness:
  "\<exists>s'. steps demo_read demo_run 14 demo_idle = Go s' \<and> thread_running s' \<and> sched_active_thread (kernel s') = Some 2
     \<and> uc_code (contexts s' 1) = native_irq_enable \<and> code s' = demo_tasks 2 @ [Context_exit]"
proof -
  have k: "sys_pre demo_kernel demo_queues [] [] []" using demo_sleeping by (simp add: demo_kernel_def sys_inv_def)
  have "1 \<le> MAXTHREADS" "in_use (sched_threads demo_kernel 1)" by (simp_all add: demo_kernel_def demo_simps kernel_consts)
  then have "sys_pre (demo_kernel\<lparr>sched_active_thread := Some 1, sched_active_pid := int 1\<rparr>) demo_queues [] [] []"
    by (rule sys_pre_active [OF k])
  then have "sys_pre (kernel demo_idle) demo_queues [] [] []" by (simp add: demo_idle_def)
  moreover have "thread_running demo_idle" by (simp add: demo_idle_def thread_running_def demo_thread_at_def demo_native_simps)
  ultimately show ?thesis using native_yield_runs_highest [OF _ _ _ _ demo_top, of demo_idle "[]" 1 "[]" "[]" "[]" demo_read demo_run]
    by (auto simp: demo_idle_def demo_thread_at_def demo_native_simps demo_queues_def native_thread_stack_init_def)
qed

section \<open>Interleavings that go wrong\<close>

text \<open>C27: A signal that arrives after \<open>unregister_interrupt\<close> entered its first system call and before it blocks the signals
  is queued; when interrupts are restored its handler is gone, and the program ends with an error.
\<close>

theorem native_unregister_race:
  assumes "thread_running s" and "code s = unregister_interrupt n @ c" and "valid_signal n" and "n \<notin> {SIGUSR1, SIGKILL, SIGSTOP}"
    and "n \<notin> sigmask s" and "dispositions s n = Isr_entry" and "reads rd"
  shows "schedule rd run [Step 1, Sig n, Step 26] s = Exit_failure"
proof -
  obtain t where t: "sched_active_thread (kernel s) = Some t" using assms(1) by (auto simp: thread_running_def)
  have pop: "native_popsig rd (int_bytes n) = Some (Some (n, []))"
    using popsig_first [OF assms(7), of n "[]"] assms(3) by (simp add: valid_signal_def NSIG_def)
  have n: "n < 255" using assms(3) by (simp add: valid_signal_def NSIG_def)
  show ?thesis using assms t pop n
    by (simp add: unregister_interrupt_def eval_nat_numeral cpu_step_def exec_def deliver_def native_isr_entry_eq end_pause_def
        thread_running_def Let_def goto_def routine_defs set_signal_handler_def native_syscall_leave_def native_irq_restore_def
        swapcontext_def enter_isr_context_def isr_entry_code_def native_irq_handler_def irq_handler_loop_def call_handler_def)
qed

theorem native_unregister_race_witness:
  "thread_running (demo_thread_at (unregister_interrupt 14))
     \<and> schedule demo_read demo_run [Step 1, Sig 14, Step 26] (demo_thread_at (unregister_interrupt 14)) = Exit_failure"
  using native_unregister_race [OF _ _ _ _ _ _ demo_reads, of "demo_thread_at (unregister_interrupt 14)" 14 "[]" demo_run]
  by (simp add: demo_thread_at_def demo_native_simps thread_running_def valid_signal_def NSIG_def SIGUSR1_def SIGKILL_def SIGSTOP_def)

text \<open>C28: The count of pending signals is decremented by a load and a store: a signal that arrives between them is in the pipe
  but not counted, so the handler returns to the thread without running its callback.
\<close>

theorem native_sigpend_lost:
  assumes "isr_mode s" and "code s = native_irq_handler" and "native_sigpend s = 1" and "sig_pipe s = int_bytes n"
    and "native_irq_handlers s n = Some h" and "run h (kernel s) = Some k"
    and "sched_active_thread k = Some t" and "\<not> sched_context_switch_request k"
    and "valid_signal n" and "valid_signal m" and "m \<notin> sigmask s" and "dispositions s m = Isr_entry" and "reads rd"
  shows "\<exists>s'. schedule rd run [Step 3, Sig m, Step 8] s = Go s' \<and> code s' = uc_code (contexts s t) \<and> native_in_isr s' = 0
    \<and> native_interrupts_enabled s' = 1 \<and> native_sigpend s' = 0 \<and> sig_pipe s' = int_bytes m"
proof -
  have pop: "native_popsig rd (int_bytes n) = Some (Some (n, []))"
    using popsig_first [OF assms(13), of n "[]"] assms(9) by (simp add: valid_signal_def NSIG_def)
  have f: "native_interrupts_enabled s = 0" "native_in_isr s = 1" "native_in_syscall s = 0"
    using assms(1,2) by (auto simp: isr_mode_def isr_code_simps split: if_splits)
  then show ?thesis using assms pop
    by (simp add: eval_nat_numeral cpu_step_def exec_def deliver_def native_isr_entry_eq end_pause_def
        Let_def goto_def routine_defs native_irq_handler_def irq_handler_loop_def call_handler_def with_kernel_def
        native_cpu_switch_context_exit_def isr_cpu_switch_context_exit_def resume_active_def)
qed

theorem native_sigpend_lost_witness:
  "\<exists>s'. schedule demo_read demo_run [Step 3, Sig 10, Step 8] demo_in_isr = Go s' \<and> code s' = demo_tasks 2 @ [Context_exit]
     \<and> native_in_isr s' = 0 \<and> native_interrupts_enabled s' = 1 \<and> native_sigpend s' = 0 \<and> sig_pipe s' = int_bytes 10"
  using native_sigpend_lost [of demo_in_isr 14 "()" demo_run demo_kernel 2 10 demo_read] demo_reads
  by (simp add: demo_in_isr_def demo_native_simps isr_mode_def isr_codes_def valid_signal_def NSIG_def demo_run_def
      native_thread_stack_init_def SIGUSR1_def SIGINT_def)

text \<open>
  A signal that arrives after \<open>pm_set_lowest\<close> entered its system call and before it pauses is queued, and the processor
  sleeps although a signal is pending.
\<close>

lemma native_pm_set_lowest_sleeps:
  assumes "thread_running s" and "code s = native_pm_set_lowest @ c" and "valid_signal n" and "n \<notin> sigmask s"
    and "dispositions s n = Isr_entry"
  shows "\<exists>s'. schedule rd run [Step 1, Sig n, Step 1] s = Go s' \<and> native_sigpend s' = 1 \<and> cpu_step rd run s' = Blocked"
  using assms
  by (auto simp: native_pm_set_lowest_def eval_nat_numeral cpu_step_def exec_def deliver_def native_isr_entry_eq end_pause_def
      thread_running_def Let_def goto_def)

text \<open>Without such a signal, registering a handler lets the signal through to it.\<close>

lemma register_interrupt_installs:
  assumes "thread_running s" and "code s = register_interrupt n h @ c" and "valid_signal n" and "n \<notin> {SIGKILL, SIGSTOP}"
  shows "\<exists>s'. steps rd run 19 s = Go s' \<and> code s' = c \<and> thread_running s' \<and> native_irq_handlers s' = (native_irq_handlers s)(n \<mapsto> h)
    \<and> dispositions s' = (dispositions s)(n := Isr_entry) \<and> sigmask s' = native_sig_set s - {n} \<and> native_sig_set s' = native_sig_set s - {n}"
proof -
  have n: "n < 255" using assms(3) by (simp add: valid_signal_def NSIG_def)
  then show ?thesis using assms
    by (simp add: register_interrupt_def eval_nat_numeral cpu_step_def exec_def
        thread_running_def Let_def goto_def routine_defs set_signal_handler_def native_syscall_leave_def native_irq_restore_def)
qed

end
