(* ===== verification/Native_Periph.thy ===== *)
theory Native_Periph
  imports Rtc
begin

text \<open>
  Drivers of the native port: asynchronous reading (\<open>cpu/native/async_read.c\<close>), serial port, random numbers and
  clock (\<open>cpu/native/periph\<close>). The host's calls are arguments or input queues: what \<open>open\<close>, \<open>fcntl\<close>
  and \<open>select\<close> return, and the results of the successive reads of a file. \<open>None\<close> is a null call, an access out of bounds
  or an exit of the program.
\<close>

section \<open>Asynchronous reading\<close>

definition ASYNC_READ_NUMOF :: nat where "ASYNC_READ_NUMOF = 2"
definition NATIVE_UART_NUMOF :: nat where "NATIVE_UART_NUMOF = 1"

datatype read_result = Byte u8 | End_of_file | Again | Read_error

text \<open>The registered callbacks are that of the serial port and those of other drivers.\<close>

datatype async_callback = Io_signal_handler | Other nat

record host_io =
  next_index :: nat
  async_fds :: "nat \<Rightarrow> int"
  async_callbacks :: "nat \<Rightarrow> async_callback"
  rx_cb_set :: "nat \<Rightarrow> bool"
  tty_fds :: "nat \<Rightarrow> int"
  inputs :: "int \<Rightarrow> read_result list"
  received :: "u8 list"
  written :: "int \<Rightarrow> u8 list"
  sigio_set :: bool

definition native_async_read_setup :: "host_io \<Rightarrow> host_io" where
  "native_async_read_setup s = s\<lparr>sigio_set := True\<rparr>"

definition native_async_read_add_handler :: "bool \<Rightarrow> int \<Rightarrow> async_callback \<Rightarrow> host_io \<Rightarrow> host_io option" where
  "native_async_read_add_handler fcntl_ok fd handler s =
     (if next_index s \<ge> ASYNC_READ_NUMOF then None
      else
        let s1 = s\<lparr>async_fds := (async_fds s)(next_index s := fd), async_callbacks := (async_callbacks s)(next_index s := handler)\<rparr>
        in if fcntl_ok then Some (s1\<lparr>next_index := next_index s1 + 1\<rparr>) else None)"

text \<open>The highest descriptor, and the descriptors to wait for.\<close>

fun max_fd_loop :: "(nat \<Rightarrow> int) \<Rightarrow> nat \<Rightarrow> nat \<Rightarrow> int \<Rightarrow> int" where
  "max_fd_loop f i 0 m = m"
| "max_fd_loop f i (Suc n) m = max_fd_loop f (Suc i) n (if m < f i then f i else m)"

definition asked_fds :: "host_io \<Rightarrow> int set" where
  "asked_fds s = async_fds s ` {..<next_index s}"

section \<open>The serial port\<close>

fun find_uart :: "(nat \<Rightarrow> int) \<Rightarrow> int \<Rightarrow> nat \<Rightarrow> nat \<Rightarrow> nat" where
  "find_uart f fd u 0 = u"
| "find_uart f fd u (Suc n) = (if f u = fd then u else find_uart f fd (Suc u) n)"

text \<open>
  The loop of the handler: \<open>read\<close> takes the next result, and a non-blocking file without one answers \<open>EAGAIN\<close>.
\<close>

function io_loop :: "nat \<Rightarrow> int \<Rightarrow> host_io \<Rightarrow> host_io option" where
  "io_loop uart fd s =
     (case inputs s fd of
        [] \<Rightarrow> Some s
      | r # rs \<Rightarrow>
          let s1 = s\<lparr>inputs := (inputs s)(fd := rs)\<rparr> in
          (case r of
             Byte c \<Rightarrow>
               if uart < NATIVE_UART_NUMOF \<and> rx_cb_set s1 uart then io_loop uart fd (s1\<lparr>received := received s1 @ [c]\<rparr>) else None
           | Read_error \<Rightarrow>
               if uart < NATIVE_UART_NUMOF then Some (s1\<lparr>rx_cb_set := (rx_cb_set s1)(uart := False)\<rparr>) else None
           | _ \<Rightarrow> Some s1))"
  by pat_completeness auto
termination
  by (relation "measure (\<lambda>(uart, fd, s). length (inputs s fd))") auto

declare io_loop.simps [simp del]

definition io_signal_handler :: "int \<Rightarrow> host_io \<Rightarrow> host_io option" where
  "io_signal_handler fd s = io_loop (find_uart (tty_fds s) fd 0 NATIVE_UART_NUMOF) fd s"

partial_function (option) async_dispatch ::
    "(nat \<Rightarrow> int \<Rightarrow> host_io \<Rightarrow> host_io option) \<Rightarrow> int set \<Rightarrow> nat \<Rightarrow> host_io \<Rightarrow> host_io option" where
  "async_dispatch other ready i s =
     (if i < next_index s then do {
        s1 \<leftarrow> (if async_fds s i \<in> ready then
                 (case async_callbacks s i of
                    Io_signal_handler \<Rightarrow> io_signal_handler (async_fds s i) s
                  | Other k \<Rightarrow> other k (async_fds s i) s)
               else Some s);
        async_dispatch other ready (Suc i) s1
      }
      else Some s)"

text \<open>\<open>select\<close> is given the highest descriptor plus one and the descriptors, and answers with a count and the ready ones.\<close>

definition async_io_isr ::
    "(int \<Rightarrow> int set \<Rightarrow> int \<times> int set) \<Rightarrow> (nat \<Rightarrow> int \<Rightarrow> host_io \<Rightarrow> host_io option) \<Rightarrow> host_io \<Rightarrow> host_io option" where
  "async_io_isr select other s =
     (let max_fd = max_fd_loop (async_fds s) 0 (next_index s) 0;
          (count, ready) = select (max_fd + 1) (asked_fds s)
      in if count > 0 then async_dispatch other ready 0 s else Some s)"

definition UART_OK :: int where "UART_OK = 0"
definition UART_NODEV :: int where "UART_NODEV = -1"
definition UART_NOBAUD :: int where "UART_NOBAUD = -2"
definition UART_INTERR :: int where "UART_INTERR = -3"

definition baudrates :: "nat list" where
  "baudrates = [0, 50, 75, 110, 134, 150, 200, 300, 600, 1200, 1800, 2400, 4800, 9600, 19200, 38400, 57600, 115200, 230400]"

definition native_uart_init ::
    "int \<Rightarrow> bool \<Rightarrow> nat \<Rightarrow> nat \<Rightarrow> bool \<Rightarrow> host_io \<Rightarrow> (int \<times> host_io) option" where
  "native_uart_init open_result fcntl_ok uart baudrate rx_cb s =
     (if uart \<ge> NATIVE_UART_NUMOF then Some (UART_NODEV, s)
      else if baudrate \<notin> set baudrates then Some (UART_NOBAUD, s)
      else
        let s1 = s\<lparr>tty_fds := (tty_fds s)(uart := open_result)\<rparr> in
        if open_result < 0 then Some (UART_INTERR, s1)
        else do {
          let s2 = s1\<lparr>rx_cb_set := (rx_cb_set s1)(uart := rx_cb)\<rparr>;
          s3 \<leftarrow> native_async_read_add_handler fcntl_ok open_result Io_signal_handler (native_async_read_setup s2);
          Some (UART_OK, s3)
        })"

definition native_uart_write :: "nat \<Rightarrow> u8 list \<Rightarrow> host_io \<Rightarrow> host_io option" where
  "native_uart_write uart data s =
     (if uart < NATIVE_UART_NUMOF
      then Some (s\<lparr>written := (written s)(tty_fds s uart := written s (tty_fds s uart) @ data)\<rparr>) else None)"

section \<open>Random numbers\<close>

datatype rng_mode = Hq | Det

text \<open>
  \<open>rd k n\<close> is the result of the \<open>k\<close>-th read of at most \<open>n\<close> bytes of the random device: an error or the bytes. The
  deterministic generator is the sequence of the values of \<open>random\<close>.
\<close>

partial_function (option) rng_read_hq_loop ::
    "(nat \<Rightarrow> nat \<Rightarrow> u8 list option) \<Rightarrow> nat \<Rightarrow> nat \<Rightarrow> u8 list \<Rightarrow> u8 list option" where
  "rng_read_hq_loop rd k num buf =
     (if num = 0 then Some buf
      else (case rd k num of
              None \<Rightarrow> None
            | Some bs \<Rightarrow> rng_read_hq_loop rd (Suc k) (num - length bs) (buf @ bs)))"

definition native_rng_read_det :: "(nat \<Rightarrow> u32) \<Rightarrow> nat \<Rightarrow> u8 list" where
  "native_rng_read_det random num = map (\<lambda>i. ucast (random i)) [0..<num]"

definition hwrng_read ::
    "bool \<Rightarrow> rng_mode \<Rightarrow> (nat \<Rightarrow> nat \<Rightarrow> u8 list option) \<Rightarrow> (nat \<Rightarrow> u32) \<Rightarrow> nat \<Rightarrow> u8 list option" where
  "hwrng_read initialized mode rd random num =
     (if \<not> initialized then Some []
      else (case mode of Hq \<Rightarrow> rng_read_hq_loop rd 0 num [] | Det \<Rightarrow> Some (native_rng_read_det random num)))"

section \<open>The clock\<close>

record native_rtc =
  rtc_initialized :: bool
  rtc_powered :: bool
  rtc_alarm :: tm

definition tm_zero :: tm where
  "tm_zero = \<lparr>tm_sec = 0, tm_min = 0, tm_hour = 0, tm_mday = 0, tm_mon = 0, tm_year = 0, tm_wday = 0, tm_yday = 0\<rparr>"

definition native_rtc_poweron :: "native_rtc \<Rightarrow> native_rtc" where
  "native_rtc_poweron s = (if rtc_initialized s then s\<lparr>rtc_powered := True\<rparr> else s)"

definition native_rtc_init :: "native_rtc \<Rightarrow> native_rtc" where
  "native_rtc_init s = native_rtc_poweron (s\<lparr>rtc_alarm := tm_zero, rtc_initialized := True\<rparr>)"

definition native_rtc_poweroff :: "native_rtc \<Rightarrow> native_rtc" where
  "native_rtc_poweroff s = s\<lparr>rtc_powered := False\<rparr>"

definition native_rtc_set_time :: "tm \<Rightarrow> native_rtc \<Rightarrow> int \<times> native_rtc" where
  "native_rtc_set_time t s =
     (if \<not> rtc_initialized s then (-1, s) else if \<not> rtc_powered s then (-1, s) else (-1, s))"

text \<open>\<open>now\<close> is the host's local time.\<close>

definition native_rtc_get_time :: "tm \<Rightarrow> native_rtc \<Rightarrow> int \<times> tm option" where
  "native_rtc_get_time now s =
     (if \<not> rtc_initialized s then (-1, None) else if \<not> rtc_powered s then (-1, None) else (0, Some now))"

definition native_rtc_set_alarm :: "tm \<Rightarrow> native_rtc \<Rightarrow> int \<times> native_rtc" where
  "native_rtc_set_alarm t s =
     (if \<not> rtc_initialized s then (-1, s) else if \<not> rtc_powered s then (-1, s) else (-1, s\<lparr>rtc_alarm := t\<rparr>))"

definition native_rtc_get_alarm :: "native_rtc \<Rightarrow> int \<times> tm option" where
  "native_rtc_get_alarm s =
     (if \<not> rtc_initialized s then (-1, None) else if \<not> rtc_powered s then (-1, None) else (0, Some (rtc_alarm s)))"

definition native_rtc_clear_alarm :: "native_rtc \<Rightarrow> native_rtc" where
  "native_rtc_clear_alarm s = s\<lparr>rtc_alarm := tm_zero\<rparr>"

section \<open>What the drivers do\<close>

lemma max_fd_loop_bound:
  "m \<le> max_fd_loop f i n m \<and> (\<forall>j. i \<le> j \<longrightarrow> j < i + n \<longrightarrow> f j \<le> max_fd_loop f i n m)"
proof (induction f i n m rule: max_fd_loop.induct)
  case (2 f i n m)
  have "f j \<le> max_fd_loop f i (Suc n) m" if "i \<le> j" "j < i + Suc n" for j
    using 2 that by (cases "j = i") (auto split: if_splits)
  moreover have "m \<le> max_fd_loop f i (Suc n) m" using 2 by (auto split: if_splits intro: order_trans)
  ultimately show ?case by blast
qed auto

text \<open>Every descriptor \<open>select\<close> is asked for lies below the bound it is given.\<close>

lemma asked_below_max: "fd \<in> asked_fds s \<Longrightarrow> fd < max_fd_loop (async_fds s) 0 (next_index s) 0 + 1"
  using max_fd_loop_bound [of 0 "async_fds s" 0 "next_index s"] by (auto simp: asked_fds_def less_Suc_eq_le)

lemma io_loop_bytes:
  assumes "uart < NATIVE_UART_NUMOF" and "rx_cb_set s uart" and "inputs s fd = map Byte bs @ rest"
  shows "io_loop uart fd s = io_loop uart fd (s\<lparr>inputs := (inputs s)(fd := rest), received := received s @ bs\<rparr>)"
  using assms
proof (induction bs arbitrary: s)
  case Nil
  then have "s\<lparr>inputs := (inputs s)(fd := rest), received := received s @ []\<rparr> = s" by (auto intro!: host_io.equality)
  then show ?case by (simp only:)
next
  case (Cons b bs)
  define s1 where "s1 = s\<lparr>inputs := (inputs s)(fd := map Byte bs @ rest), received := received s @ [b]\<rparr>"
  have "io_loop uart fd s = io_loop uart fd s1" using Cons.prems by (subst io_loop.simps) (simp add: s1_def)
  also have "\<dots> = io_loop uart fd (s1\<lparr>inputs := (inputs s1)(fd := rest), received := received s1 @ bs\<rparr>)"
    by (rule Cons.IH) (use Cons.prems in \<open>simp_all add: s1_def\<close>)
  finally show ?case by (simp add: s1_def fun_upd_def cong: if_cong)
qed

text \<open>The serial port hands the bytes that are there to its callback, in order, until there are none.\<close>

lemma io_signal_receives:
  assumes "tty_fds s 0 = fd" and "rx_cb_set s 0" and "inputs s fd = map Byte bs"
  shows "io_signal_handler fd s = Some (s\<lparr>inputs := (inputs s)(fd := []), received := received s @ bs\<rparr>)"
  using io_loop_bytes [of 0 s fd bs "[]"] assms
  by (simp add: io_signal_handler_def NATIVE_UART_NUMOF_def numeral_eq_Suc io_loop.simps [of 0 fd "s\<lparr>inputs := _, received := _\<rparr>"])

text \<open>A signal for the only registered file reaches the serial port.\<close>

lemma sigio_receives:
  assumes "next_index s = 1" and "async_fds s 0 = fd" and "async_callbacks s 0 = Io_signal_handler"
    and "tty_fds s 0 = fd" and "rx_cb_set s 0" and "inputs s fd = map Byte bs" and "\<And>n. fd < n \<Longrightarrow> select n {fd} = (1, {fd})"
  shows "async_io_isr select other s = Some (s\<lparr>inputs := (inputs s)(fd := []), received := received s @ bs\<rparr>)"
proof -
  have "asked_fds s = {fd}" using assms(1,2) by (simp add: asked_fds_def lessThan_Suc)
  then have "select (max_fd_loop (async_fds s) 0 (next_index s) 0 + 1) (asked_fds s) = (1, {fd})"
    using assms(7) asked_below_max [of fd s] by simp
  then show ?thesis using assms(1-3) io_signal_receives [OF assms(4-6)]
    by (simp add: async_io_isr_def Let_def async_dispatch.simps [of other "{fd}" 0] async_dispatch.simps [of other "{fd}" "Suc 0"])
qed

text \<open>
  After a read error the callback is removed, but the handler stays registered: the next byte calls a null pointer.
\<close>

lemma io_signal_after_error:
  assumes "tty_fds s 0 = fd" and "inputs s fd = Read_error # Byte b # rest"
  shows "\<exists>s'. io_signal_handler fd s = Some s' \<and> io_signal_handler fd s' = None"
  using assms by (simp add: io_signal_handler_def NATIVE_UART_NUMOF_def io_loop.simps)

text \<open>Handlers are never removed, so the third initialisation of the serial port ends the program.\<close>

lemma uart_init_thrice:
  assumes "next_index s = 0" and "0 \<le> fd" and "b \<in> set baudrates"
  shows "\<exists>s1 s2. native_uart_init fd True 0 b rx s = Some (UART_OK, s1) \<and> native_uart_init fd True 0 b rx s1 = Some (UART_OK, s2)
    \<and> native_uart_init fd True 0 b rx s2 = None"
  using assms
  by (simp add: native_uart_init_def native_async_read_add_handler_def native_async_read_setup_def NATIVE_UART_NUMOF_def
      ASYNC_READ_NUMOF_def Let_def)

text \<open>The random device fills the buffer when every read gives at least one byte and at most those asked for.\<close>

lemma rng_read_hq_fills:
  assumes "\<forall>k n. 0 < n \<longrightarrow> (\<exists>bs. rd k n = Some bs \<and> 0 < length bs \<and> length bs \<le> n)"
  shows "\<exists>bs. rng_read_hq_loop rd k num buf = Some (buf @ bs) \<and> length bs = num"
proof (induction num arbitrary: k buf rule: less_induct)
  case (less num)
  show ?case
  proof (cases "num = 0")
    case True
    then show ?thesis by (subst rng_read_hq_loop.simps) simp
  next
    case False
    then obtain bs where bs: "rd k num = Some bs" "0 < length bs" "length bs \<le> num" using assms by blast
    then obtain cs where "rng_read_hq_loop rd (Suc k) (num - length bs) (buf @ bs) = Some ((buf @ bs) @ cs)" "length cs = num - length bs"
      using less.IH [of "num - length bs" "Suc k" "buf @ bs"] False by auto
    then show ?thesis using bs False by (subst rng_read_hq_loop.simps) (auto intro!: exI [of _ "bs @ cs"])
  qed
qed

text \<open>The alarm of the clock is stored although setting it reports failure.\<close>

lemma rtc_alarm_stored:
  assumes "rtc_initialized s" and "rtc_powered s"
  shows "fst (native_rtc_set_alarm t s) = -1 \<and> native_rtc_get_alarm (snd (native_rtc_set_alarm t s)) = (0, Some t)"
  using assms by (simp add: native_rtc_set_alarm_def native_rtc_get_alarm_def)

end
