(* ===== verification/Native_Mtd.thy ===== *)
theory Native_Mtd
  imports Prelude
begin

text \<open>
  Emulated devices of the native port: the flash memory in a file (\<open>cpu/native/mtd/mtd_native.c\<close>), pulse widths
  (\<open>periph/pwm.c\<close>) and quadrature counters (\<open>periph/qdec.c\<close>). The host process is a 32-bit one. Of a file the model keeps the
  contents and, while it is open, the position; a file that cannot be opened is \<open>None\<close>.
\<close>

section \<open>Files\<close>

type_synonym host_file = "u8 list \<times> nat"

text \<open>
  \<open>fseek\<close> takes a signed offset and leaves the position alone when it fails; \<open>fgetc\<close> gives the value of \<open>EOF\<close> at the end without
  moving; \<open>fputc\<close> overwrites or extends.
\<close>

definition fseek_set :: "u32 \<Rightarrow> host_file \<Rightarrow> host_file" where
  "fseek_set addr = (\<lambda>(bs, pos). if unat addr < 2 ^ 31 then (bs, unat addr) else (bs, pos))"

definition fseek_back :: "host_file \<Rightarrow> host_file" where
  "fseek_back = (\<lambda>(bs, pos). (bs, pos - 1))"

definition fgetc :: "host_file \<Rightarrow> u8 \<times> host_file" where
  "fgetc = (\<lambda>(bs, pos). if pos < length bs then (bs ! pos, (bs, pos + 1)) else (0xFF, (bs, pos)))"

definition fputc :: "u8 \<Rightarrow> host_file \<Rightarrow> host_file" where
  "fputc c = (\<lambda>(bs, pos).
     if pos < length bs then (bs[pos := c], pos + 1) else (bs @ replicate (pos - length bs) 0 @ [c], pos + 1))"

section \<open>Flash memory in a file\<close>

text \<open>
  The three numbers the code reads of a device. Their type is declared in a header outside this repository and taken as
  \<open>uint32_t\<close>, that of the addresses; they are not 0, since the code divides by them.
\<close>

datatype mtd_error = MTD_EIO | MTD_EOVERFLOW | MTD_ENOTSUP

record mtd_dev =
  sector_count :: u32
  pages_per_sector :: u32
  page_size :: u32

definition mtd_size :: "mtd_dev \<Rightarrow> u32" where
  "mtd_size dev = sector_count dev * pages_per_sector dev * page_size dev"

text \<open>A file that is missing is created when the host allows it.\<close>

definition mtd_init :: "mtd_dev \<Rightarrow> bool \<Rightarrow> u8 list option \<Rightarrow> (mtd_error + unit) \<times> u8 list option" where
  "mtd_init dev creatable f =
     (case f of
        Some bs \<Rightarrow> (Inr (), Some bs)
      | None \<Rightarrow>
          if \<not> creatable then (Inl MTD_EIO, None)
          else (Inr (), Some (fst (((fputc 0xFF) ^^ unat (mtd_size dev)) ([], 0)))))"

definition mtd_read :: "mtd_dev \<Rightarrow> u32 \<Rightarrow> u32 \<Rightarrow> u8 list option \<Rightarrow> mtd_error + u8 list" where
  "mtd_read dev addr len f =
     (if addr + len > mtd_size dev then Inl MTD_EOVERFLOW
      else
        case f of
          None \<Rightarrow> Inl MTD_EIO
        | Some bs \<Rightarrow> let (bs1, pos) = fseek_set addr (bs, 0) in Inr (take (unat len) (drop pos bs1)))"

fun mtd_write_loop :: "u8 list \<Rightarrow> host_file \<Rightarrow> host_file" where
  "mtd_write_loop [] f = f"
| "mtd_write_loop (b # buff) f = (let (c, f1) = fgetc f in mtd_write_loop buff (fputc (c AND b) (fseek_back f1)))"

text \<open>The buffer has \<open>len\<close> bytes.\<close>

definition mtd_write :: "mtd_dev \<Rightarrow> u8 list \<Rightarrow> u32 \<Rightarrow> u32 \<Rightarrow> u8 list option \<Rightarrow> (mtd_error + u32) \<times> u8 list option" where
  "mtd_write dev buff addr len f =
     (if addr + len > mtd_size dev then (Inl MTD_EOVERFLOW, f)
      else if (addr mod page_size dev) + len > page_size dev then (Inl MTD_EOVERFLOW, f)
      else
        case f of
          None \<Rightarrow> (Inl MTD_EIO, None)
        | Some bs \<Rightarrow> (Inr len, Some (fst (mtd_write_loop (take (unat len) buff) (fseek_set addr (bs, 0))))))"

definition mtd_erase :: "mtd_dev \<Rightarrow> u32 \<Rightarrow> u32 \<Rightarrow> u8 list option \<Rightarrow> (mtd_error + unit) \<times> u8 list option" where
  "mtd_erase dev addr len f =
     (let sector_size = pages_per_sector dev * page_size dev in
      if addr + len > mtd_size dev then (Inl MTD_EOVERFLOW, f)
      else if addr mod sector_size \<noteq> 0 \<or> len mod sector_size \<noteq> 0 then (Inl MTD_EOVERFLOW, f)
      else
        case f of
          None \<Rightarrow> (Inl MTD_EIO, None)
        | Some bs \<Rightarrow> (Inr (), Some (fst (((fputc 0xFF) ^^ unat len) (fseek_set addr (bs, 0))))))"

definition mtd_power :: "mtd_error + unit" where
  "mtd_power = Inl MTD_ENOTSUP"

section \<open>Pulse widths and counters\<close>

definition NATIVE_PWM_NB_CHAN :: nat where "NATIVE_PWM_NB_CHAN = 2"
definition PWM_NUMOF :: nat where "PWM_NUMOF = 8"

record native_pwm =
  duty_cycle :: u16
  on :: bool

text \<open>The channels of all devices; an access outside is \<open>None\<close>, and so is a failed assertion.\<close>

type_synonym pwms = "native_pwm list list"

definition pwm_init :: "nat \<Rightarrow> u32 \<Rightarrow> pwms \<Rightarrow> u32 \<times> pwms" where
  "pwm_init pwm freq ps =
     (if pwm \<ge> PWM_NUMOF then (0, ps)
      else (freq, ps[pwm := map (\<lambda>c. c\<lparr>duty_cycle := 0, on := False\<rparr>) (ps ! pwm)]))"

definition pwm_channels :: "nat \<Rightarrow> nat" where
  "pwm_channels pwm = NATIVE_PWM_NB_CHAN"

definition pwm_set :: "nat \<Rightarrow> nat \<Rightarrow> u16 \<Rightarrow> pwms \<Rightarrow> pwms option" where
  "pwm_set pwm channel v ps =
     (if pwm < PWM_NUMOF \<and> channel < NATIVE_PWM_NB_CHAN
      then Some (ps[pwm := (ps ! pwm)[channel := (ps ! pwm ! channel)\<lparr>duty_cycle := v\<rparr>]]) else None)"

definition pwm_poweron :: "nat \<Rightarrow> pwms \<Rightarrow> pwms option" where
  "pwm_poweron pwm ps = (if pwm < PWM_NUMOF then Some (ps[pwm := map (\<lambda>c. c\<lparr>on := True\<rparr>) (ps ! pwm)]) else None)"

definition pwm_poweroff :: "nat \<Rightarrow> pwms \<Rightarrow> pwms option" where
  "pwm_poweroff pwm ps = (if pwm < PWM_NUMOF then Some (ps[pwm := map (\<lambda>c. c\<lparr>on := False\<rparr>) (ps ! pwm)]) else None)"

definition QDEC_NUMOF :: nat where "QDEC_NUMOF = 8"

datatype qdec_mode = QDEC_X1 | QDEC_X2 | QDEC_X4

record native_qdec =
  qdecs :: "u32 list"
  qdecs_value :: "32 word list"

definition qdec_EINVAL :: int where "qdec_EINVAL = 22"

text \<open>The loop of \<open>qdec_init\<close> clears the same element in each round, and the functions that start and stop are empty.\<close>

definition qdec_init :: "nat \<Rightarrow> qdec_mode \<Rightarrow> native_qdec \<Rightarrow> (int \<times> native_qdec) option" where
  "qdec_init qdec mode q =
     (if qdec < QDEC_NUMOF then
        (case mode of
           QDEC_X1 \<Rightarrow> Some (0, q\<lparr>qdecs := (qdecs q)[qdec := 0]\<rparr>)
         | _ \<Rightarrow> Some (qdec_EINVAL, q))
      else None)"

definition qdec_read :: "nat \<Rightarrow> native_qdec \<Rightarrow> int option" where
  "qdec_read qdec q = (if qdec < length (qdecs_value q) then Some (sint (qdecs_value q ! qdec)) else None)"

definition qdec_read_and_reset :: "nat \<Rightarrow> native_qdec \<Rightarrow> (int \<times> native_qdec) option" where
  "qdec_read_and_reset qdec q =
     (if qdec < length (qdecs_value q)
      then Some (sint (qdecs_value q ! qdec), q\<lparr>qdecs_value := (qdecs_value q)[qdec := 0]\<rparr>) else None)"

section \<open>What is written is read\<close>

lemma fputc_loop:
  "length bs \<ge> pos + n \<Longrightarrow> ((fputc c) ^^ n) (bs, pos) = (take pos bs @ replicate n c @ drop (pos + n) bs, pos + n)"
proof (induction n)
  case (Suc n)
  have l: "length (take pos bs @ replicate n c @ drop (pos + n) bs) = length bs" using Suc.prems by simp
  have "drop (pos + n) bs = bs ! (pos + n) # drop (pos + Suc n) bs" using Suc.prems by (simp add: Cons_nth_drop_Suc)
  moreover have "length (take pos bs @ replicate n c) = pos + n" using Suc.prems by simp
  ultimately have "(take pos bs @ replicate n c @ drop (pos + n) bs)[pos + n := c] = take pos bs @ replicate n c @ c # drop (pos + Suc n) bs"
    by (metis append_assoc list_update_length)
  then show ?case using Suc l by (simp add: fputc_def replicate_append_same [symmetric])
qed simp

lemma mtd_write_loop_spec:
  "pos + length buff \<le> length bs \<Longrightarrow>
   mtd_write_loop buff (bs, pos) = (take pos bs @ map2 (AND) (drop pos bs) buff @ drop (pos + length buff) bs, pos + length buff)"
proof (induction buff arbitrary: bs pos)
  case (Cons b buff)
  define bs1 where "bs1 = bs[pos := bs ! pos AND b]"
  have p: "pos < length bs" using Cons.prems by simp
  have "mtd_write_loop (b # buff) (bs, pos) = mtd_write_loop buff (bs1, pos + 1)"
    using p by (simp add: fgetc_def fputc_def fseek_back_def bs1_def)
  moreover have "take (pos + 1) bs1 = take pos bs @ [bs ! pos AND b]" "drop (pos + 1) bs1 = drop (pos + 1) bs"
    "drop (pos + 1 + length buff) bs1 = drop (pos + 1 + length buff) bs" "drop pos bs = bs ! pos # drop (pos + 1) bs"
    using p by (simp_all add: bs1_def take_Suc_conv_app_nth Cons_nth_drop_Suc)
  moreover have "pos + 1 + length buff \<le> length bs1" using Cons.prems by (simp add: bs1_def)
  ultimately show ?case using Cons.IH [of "pos + 1" bs1] by simp
qed simp

text \<open>A range inside the device, whose file has its full size and is not too large for the positions of a file.\<close>

definition mtd_range :: "mtd_dev \<Rightarrow> u32 \<Rightarrow> u32 \<Rightarrow> u8 list \<Rightarrow> bool" where
  "mtd_range dev addr len bs \<longleftrightarrow> unat addr + unat len \<le> unat (mtd_size dev) \<and> unat (mtd_size dev) \<le> length bs
     \<and> unat (mtd_size dev) < 2 ^ 31"

lemma mtd_rangeD:
  assumes "mtd_range dev addr len bs"
  shows "\<not> addr + len > mtd_size dev" "fseek_set addr (bs, 0) = (bs, unat addr)" "unat addr + unat len \<le> length bs"
proof -
  have "unat (addr + len) = unat addr + unat len" using assms by (simp add: mtd_range_def unat_word_ariths)
  then show "\<not> addr + len > mtd_size dev" "unat addr + unat len \<le> length bs"
    using assms by (simp_all add: mtd_range_def word_less_nat_alt)
  show "fseek_set addr (bs, 0) = (bs, unat addr)" using assms by (simp add: mtd_range_def fseek_set_def)
qed

lemma mtd_read_range:
  "mtd_range dev addr len bs \<Longrightarrow> mtd_read dev addr len (Some bs) = Inr (take (unat len) (drop (unat addr) bs))"
  using mtd_rangeD [of dev addr len bs] by (simp add: mtd_read_def)

lemma mtd_erase_range:
  assumes "mtd_range dev addr len bs" and "addr mod (pages_per_sector dev * page_size dev) = 0" "len mod (pages_per_sector dev * page_size dev) = 0"
  shows "mtd_erase dev addr len (Some bs) =
    (Inr (), Some (take (unat addr) bs @ replicate (unat len) 0xFF @ drop (unat addr + unat len) bs))"
  using mtd_rangeD [OF assms(1)] assms(2,3) fputc_loop [of "unat addr" "unat len" bs] by (simp add: mtd_erase_def Let_def)

lemma mtd_write_range:
  assumes "mtd_range dev addr len bs" and "length buff = unat len" and "\<not> (addr mod page_size dev) + len > page_size dev"
  shows "mtd_write dev buff addr len (Some bs) =
    (Inr len, Some (take (unat addr) bs @ map2 (AND) (drop (unat addr) bs) buff @ drop (unat addr + unat len) bs))"
  using mtd_rangeD [OF assms(1)] assms(2,3) mtd_write_loop_spec [of "unat addr" buff bs] by (simp add: mtd_write_def)

text \<open>A device that was just created is erased.\<close>

lemma mtd_init_erased: "mtd_init dev True None = (Inr (), Some (replicate (unat (mtd_size dev)) 0xFF))"
proof -
  have "((fputc 0xFF) ^^ n) ([], 0) = (replicate n 0xFF, n)" for n
    by (induction n) (simp_all add: fputc_def replicate_append_same)
  then show ?thesis by (simp add: mtd_init_def)
qed

lemma ff_AND: "(0xFF :: u8) AND x = x"
proof -
  have "(0xFF :: u8) = - 1" by simp
  then show ?thesis by (simp only: and.left_neutral)
qed

text \<open>
  What is written to an erased page is what is read from it, and everything else stays as it was.
\<close>

lemma mtd_write_erased:
  assumes r: "mtd_range dev addr len bs" and l: "length buff = unat len" and p: "\<not> (addr mod page_size dev) + len > page_size dev"
    and e: "take (unat len) (drop (unat addr) bs) = replicate (unat len) 0xFF"
  shows "\<exists>bs'. mtd_write dev buff addr len (Some bs) = (Inr len, Some bs') \<and> mtd_read dev addr len (Some bs') = Inr buff
    \<and> length bs' = length bs \<and> take (unat addr) bs' = take (unat addr) bs \<and> drop (unat addr + unat len) bs' = drop (unat addr + unat len) bs"
proof -
  define a n where "a = unat addr" and "n = unat len"
  define bs' where "bs' = take a bs @ map2 (AND) (drop a bs) buff @ drop (a + n) bs"
  have an: "a + n \<le> length bs" using mtd_rangeD(3) [OF r] by (simp add: a_def n_def)
  have "map2 (AND) (drop a bs) buff = map2 (AND) (take n (drop a bs)) buff"
    using l by (intro nth_equalityI) (auto simp: n_def)
  also have "\<dots> = buff" unfolding e [folded a_def n_def] using l by (intro nth_equalityI) (auto simp: n_def ff_AND)
  finally have m: "bs' = take a bs @ buff @ drop (a + n) bs" by (simp add: bs'_def)
  have "length bs' = length bs" "take a bs' = take a bs" "drop (a + n) bs' = drop (a + n) bs" "take n (drop a bs') = buff"
    using an l by (simp_all add: m n_def)
  moreover have "mtd_range dev addr len bs'" using r calculation(1) by (simp add: mtd_range_def)
  ultimately show ?thesis using mtd_write_range [OF r l p] mtd_read_range [of dev addr len bs'] by (simp add: bs'_def a_def n_def)
qed

text \<open>
  The test for the end of the device wraps round: a write to the last page of the address space passes it, the positioning fails,
  and the first page of the device is changed.
\<close>

lemma mtd_write_wraps:
  assumes "page_size dev = 256" and "length buff = 256" and "256 \<le> length bs"
  shows "mtd_write dev buff 0xFFFFFF00 256 (Some bs) = (Inr 256, Some (map2 (AND) bs buff @ drop 256 bs))"
proof -
  have "fseek_set 0xFFFFFF00 (bs, 0) = (bs, 0)" by (simp add: fseek_set_def)
  then show ?thesis using assms mtd_write_loop_spec [of 0 buff bs] by (simp add: mtd_write_def word_less_nat_alt)
qed

text \<open>A read there finds something instead of reporting an error.\<close>

lemma mtd_read_wraps: "mtd_read dev 0xFFFFFF00 256 (Some bs) = Inr (take 256 bs)"
  by (simp add: mtd_read_def fseek_set_def word_less_nat_alt)

section \<open>Counters\<close>

text \<open>Initialisation, which is said to reset the counter, leaves the count that is read.\<close>

lemma qdec_init_keeps_count: "qdec_init qdec mode q = Some (r, q') \<Longrightarrow> qdec_read qdec q' = qdec_read qdec q"
  by (cases mode) (auto simp: qdec_init_def qdec_read_def split: if_splits)

lemma qdec_reset: "qdec_read_and_reset qdec q = Some (n, q') \<Longrightarrow> qdec_read qdec q = Some n \<and> qdec_read qdec q' = Some 0"
  by (auto simp: qdec_read_and_reset_def qdec_read_def split: if_splits)

lemma pwm_power_set:
  assumes "length ps = PWM_NUMOF" and "\<forall>cs \<in> set ps. length cs = NATIVE_PWM_NB_CHAN" and "pwm < PWM_NUMOF" and "ch < NATIVE_PWM_NB_CHAN"
  shows "\<exists>ps1 ps2. pwm_set pwm ch v ps = Some ps1 \<and> pwm_poweroff pwm ps1 = Some ps2 \<and> duty_cycle (ps2 ! pwm ! ch) = v
    \<and> \<not> on (ps2 ! pwm ! ch)"
  using assms by (auto simp: pwm_set_def pwm_poweroff_def)

end
