(* ===== verification/Periph_Common.thy ===== *)
theory Periph_Common
  imports Byteorder Gpio
begin

text \<open>
  The parts of drivers that all processors share (\<open>drivers/periph_common\<close>): register access over I2C, byte access to an
  EEPROM, and register access over SPI. The transfer functions of a processor are arguments; those of I2C and SPI work on a
  bus whose state is of any type.
\<close>

section \<open>I2C\<close>

definition I2C_ADDR10 :: u8 where "I2C_ADDR10 = 0x01"
definition I2C_REG16 :: u8 where "I2C_REG16 = 0x02"
definition I2C_NOSTOP :: u8 where "I2C_NOSTOP = 0x04"
definition I2C_NOSTART :: u8 where "I2C_NOSTART = 0x08"

lemmas i2c_flags = I2C_ADDR10_def I2C_REG16_def I2C_NOSTOP_def I2C_NOSTART_def

definition EOPNOTSUPP :: int where "EOPNOTSUPP = 95"

text \<open>The result of a transfer, with what a read stored, and the bus after it.\<close>

record 'b i2c_driver =
  i2c_write_bytes :: "nat \<Rightarrow> u16 \<Rightarrow> u8 list \<Rightarrow> u8 \<Rightarrow> 'b \<Rightarrow> int \<times> 'b"
  i2c_read_bytes :: "nat \<Rightarrow> u16 \<Rightarrow> nat \<Rightarrow> u8 \<Rightarrow> 'b \<Rightarrow> (int \<times> u8 list) \<times> 'b"

definition i2c_read_byte :: "'b i2c_driver \<Rightarrow> nat \<Rightarrow> u16 \<Rightarrow> u8 \<Rightarrow> 'b \<Rightarrow> (int \<times> u8 list) \<times> 'b" where
  "i2c_read_byte drv dev adr flags b = i2c_read_bytes drv dev adr 1 flags b"

definition i2c_write_byte :: "'b i2c_driver \<Rightarrow> nat \<Rightarrow> u16 \<Rightarrow> u8 \<Rightarrow> u8 \<Rightarrow> 'b \<Rightarrow> int \<times> 'b" where
  "i2c_write_byte drv dev adr data flags b = i2c_write_bytes drv dev adr [data] flags b"

definition i2c_read_regs :: "bool \<Rightarrow> 'b i2c_driver \<Rightarrow> nat \<Rightarrow> u16 \<Rightarrow> u16 \<Rightarrow> nat \<Rightarrow> u8 \<Rightarrow> 'b \<Rightarrow> (int \<times> u8 list) \<times> 'b" where
  "i2c_read_regs mc drv dev adr reg len flags b =
     (if flags AND (I2C_NOSTOP OR I2C_NOSTART) \<noteq> 0 then ((- EOPNOTSUPP, []), b)
      else
        let reg_end = (if flags AND I2C_REG16 \<noteq> 0 then htons mc reg else reg);
            n = (if flags AND I2C_REG16 \<noteq> 0 then 2 else 1);
            (ret, b1) = i2c_write_bytes drv dev adr (take n (bytes_of 2 reg_end)) (flags OR I2C_NOSTOP) b
        in if ret < 0 then ((ret, []), b1) else i2c_read_bytes drv dev adr len flags b1)"

definition i2c_read_reg :: "bool \<Rightarrow> 'b i2c_driver \<Rightarrow> nat \<Rightarrow> u16 \<Rightarrow> u16 \<Rightarrow> u8 \<Rightarrow> 'b \<Rightarrow> (int \<times> u8 list) \<times> 'b" where
  "i2c_read_reg mc drv dev adr reg flags b = i2c_read_regs mc drv dev adr reg 1 flags b"

definition i2c_write_regs :: "bool \<Rightarrow> 'b i2c_driver \<Rightarrow> nat \<Rightarrow> u16 \<Rightarrow> u16 \<Rightarrow> u8 list \<Rightarrow> u8 \<Rightarrow> 'b \<Rightarrow> int \<times> 'b" where
  "i2c_write_regs mc drv dev adr reg data flags b =
     (if flags AND (I2C_NOSTOP OR I2C_NOSTART) \<noteq> 0 then (- EOPNOTSUPP, b)
      else
        let reg_end = (if flags AND I2C_REG16 \<noteq> 0 then htons mc reg else reg);
            n = (if flags AND I2C_REG16 \<noteq> 0 then 2 else 1);
            (ret, b1) = i2c_write_bytes drv dev adr (take n (bytes_of 2 reg_end)) (flags OR I2C_NOSTOP) b
        in if ret < 0 then (ret, b1) else i2c_write_bytes drv dev adr data (flags OR I2C_NOSTART) b1)"

definition i2c_write_reg :: "bool \<Rightarrow> 'b i2c_driver \<Rightarrow> nat \<Rightarrow> u16 \<Rightarrow> u16 \<Rightarrow> u8 \<Rightarrow> u8 \<Rightarrow> 'b \<Rightarrow> int \<times> 'b" where
  "i2c_write_reg mc drv dev adr reg data flags b = i2c_write_regs mc drv dev adr reg [data] flags b"

section \<open>EEPROM\<close>

text \<open>The functions that read and write several bytes return how many; the device is of any type. A \<open>size_t\<close> has 32 bits here.\<close>

record 'e eeprom_driver =
  eeprom_read :: "u32 \<Rightarrow> nat \<Rightarrow> 'e \<Rightarrow> u8 list"
  eeprom_write :: "u32 \<Rightarrow> u8 list \<Rightarrow> 'e \<Rightarrow> 'e"

definition EEPROM_CLEAR_BYTE :: u8 where "EEPROM_CLEAR_BYTE = 0"

definition eeprom_read_byte :: "'e eeprom_driver \<Rightarrow> u32 \<Rightarrow> 'e \<Rightarrow> u8" where
  "eeprom_read_byte drv pos e = hd (eeprom_read drv pos 1 e)"

definition eeprom_write_byte :: "'e eeprom_driver \<Rightarrow> u32 \<Rightarrow> u8 \<Rightarrow> 'e \<Rightarrow> 'e" where
  "eeprom_write_byte drv pos v e = eeprom_write drv pos [v] e"

fun eeprom_set_loop :: "'e eeprom_driver \<Rightarrow> u32 \<Rightarrow> u8 \<Rightarrow> nat \<Rightarrow> 'e \<Rightarrow> 'e" where
  "eeprom_set_loop drv pos v 0 e = e"
| "eeprom_set_loop drv pos v (Suc n) e = eeprom_set_loop drv (pos + 1) v n (eeprom_write_byte drv pos v e)"

text \<open>\<open>len\<close> is as wide as the position is, so that the sum in the assertion may wrap round; a failed assertion is \<open>None\<close>.\<close>

definition eeprom_set :: "'e eeprom_driver \<Rightarrow> u32 \<Rightarrow> u32 \<Rightarrow> u8 \<Rightarrow> u32 \<Rightarrow> 'e \<Rightarrow> (u32 \<times> 'e) option" where
  "eeprom_set drv EEPROM_SIZE pos v len e =
     (if pos + len \<le> EEPROM_SIZE then Some (len, eeprom_set_loop drv pos v (unat len) e) else None)"

definition eeprom_clear :: "'e eeprom_driver \<Rightarrow> u32 \<Rightarrow> u32 \<Rightarrow> u32 \<Rightarrow> 'e \<Rightarrow> (u32 \<times> 'e) option" where
  "eeprom_clear drv EEPROM_SIZE pos len e = eeprom_set drv EEPROM_SIZE pos EEPROM_CLEAR_BYTE len e"

definition eeprom_erase :: "'e eeprom_driver \<Rightarrow> u32 \<Rightarrow> 'e \<Rightarrow> (u32 \<times> 'e) option" where
  "eeprom_erase drv EEPROM_SIZE e = eeprom_clear drv EEPROM_SIZE 0 EEPROM_SIZE e"

section \<open>SPI\<close>

datatype spi_result = SPI_OK | SPI_NODEV | SPI_NOCS

text \<open>\<open>undef\<close> has the values of \<open>SPI_CS_UNDEF\<close> and \<open>GPIO_UNDEF\<close> of the processor.\<close>

definition spi_init_cs :: "nat \<Rightarrow> u16 set \<Rightarrow> nat \<Rightarrow> u16 \<Rightarrow> gpio_state \<Rightarrow> (spi_result \<times> gpio_state) option" where
  "spi_init_cs SPI_NUMOF undef bus cs s =
     (if bus \<ge> SPI_NUMOF then Some (SPI_NODEV, s)
      else if cs \<in> undef then Some (SPI_NOCS, s)
      else do {
        let (_, s1) = gpio_init cs GPIO_OUT s;
        s2 \<leftarrow> gpio_set cs s1;
        Some (SPI_OK, s2)
      })"

text \<open>A transfer: whether the chip stays selected, the bytes to send, and their number; the result is what came in.\<close>

type_synonym 'b spi_driver = "bool \<Rightarrow> u8 list \<Rightarrow> nat \<Rightarrow> 'b \<Rightarrow> u8 list \<times> 'b"

definition spi_transfer_byte :: "'b spi_driver \<Rightarrow> bool \<Rightarrow> u8 \<Rightarrow> 'b \<Rightarrow> u8 \<times> 'b" where
  "spi_transfer_byte spi_transfer_bytes cont out b = (let (inp, b1) = spi_transfer_bytes cont [out] 1 b in (hd inp, b1))"

definition spi_transfer_reg :: "'b spi_driver \<Rightarrow> u8 \<Rightarrow> u8 \<Rightarrow> 'b \<Rightarrow> u8 \<times> 'b" where
  "spi_transfer_reg spi_transfer_bytes reg out b =
     (let (_, b1) = spi_transfer_bytes True [reg] 1 b in spi_transfer_byte spi_transfer_bytes False out b1)"

definition spi_transfer_regs :: "'b spi_driver \<Rightarrow> u8 \<Rightarrow> u8 list \<Rightarrow> nat \<Rightarrow> 'b \<Rightarrow> u8 list \<times> 'b" where
  "spi_transfer_regs spi_transfer_bytes reg out len b =
     (let (_, b1) = spi_transfer_bytes True [reg] 1 b in spi_transfer_bytes False out len b1)"

section \<open>Registers over I2C\<close>

text \<open>The register number is sent in network order, or as one byte.\<close>

definition reg_bytes :: "u8 \<Rightarrow> u16 \<Rightarrow> u8 list" where
  "reg_bytes flags reg = (if flags AND I2C_REG16 \<noteq> 0 then rev (bytes_of 2 reg) else take 1 (bytes_of 2 reg))"

lemma reg_on_bus:
  "take (if flags AND I2C_REG16 \<noteq> 0 then 2 else 1) (bytes_of 2 (if flags AND I2C_REG16 \<noteq> 0 then htons mc reg else reg)) = reg_bytes flags reg"
proof -
  have "bytes_of 2 (htons mc reg) = rev (bytes_of 2 reg)" unfolding htons_def by (rule network_bytes)
  moreover have "length (bytes_of 2 reg) = 2" by (simp add: bytes_of_def)
  ultimately show ?thesis by (simp add: reg_bytes_def)
qed

text \<open>A transfer that the caller wants to continue or to have continued is refused before anything is sent.\<close>

lemma i2c_regs_refused:
  assumes "flags AND (I2C_NOSTOP OR I2C_NOSTART) \<noteq> 0"
  shows "i2c_read_regs mc drv dev adr reg len flags b = ((- EOPNOTSUPP, []), b)"
    and "i2c_write_regs mc drv dev adr reg data flags b = (- EOPNOTSUPP, b)"
  using assms by (simp_all add: i2c_read_regs_def i2c_write_regs_def)

lemma i2c_regs_transfers:
  assumes "flags AND (I2C_NOSTOP OR I2C_NOSTART) = 0"
    and "i2c_write_bytes drv dev adr (reg_bytes flags reg) (flags OR I2C_NOSTOP) b = (ret, b1)"
  shows "i2c_read_regs mc drv dev adr reg len flags b = (if ret < 0 then ((ret, []), b1) else i2c_read_bytes drv dev adr len flags b1)"
    and "i2c_write_regs mc drv dev adr reg data flags b =
      (if ret < 0 then (ret, b1) else i2c_write_bytes drv dev adr data (flags OR I2C_NOSTART) b1)"
  using assms reg_on_bus [of flags mc reg] by (simp_all add: i2c_read_regs_def i2c_write_regs_def Let_def)

text \<open>
  A device with registers: a register number that is sent without a stop selects a register; the bytes that follow without a start
  go to the registers from there on, and a read gives what they hold. \<open>sel\<close> and \<open>regs\<close> are its selected register and its
  registers.
\<close>

definition store_regs :: "u16 \<Rightarrow> u8 list \<Rightarrow> (u16 \<Rightarrow> u8) \<Rightarrow> u16 \<Rightarrow> u8" where
  "store_regs r data f k = (if unat (k - r) < length data then data ! unat (k - r) else f k)"

definition register_device :: "'b i2c_driver \<Rightarrow> nat \<Rightarrow> u16 \<Rightarrow> u8 \<Rightarrow> ('b \<Rightarrow> u16) \<Rightarrow> ('b \<Rightarrow> u16 \<Rightarrow> u8) \<Rightarrow> bool" where
  "register_device drv dev adr flags sel regs \<longleftrightarrow>
     (\<forall>reg b. \<exists>b1. i2c_write_bytes drv dev adr (reg_bytes flags reg) (flags OR I2C_NOSTOP) b = (0, b1)
        \<and> sel b1 = (if flags AND I2C_REG16 \<noteq> 0 then reg else ucast (ucast reg :: u8)) \<and> regs b1 = regs b)
     \<and> (\<forall>data b. \<exists>b1. i2c_write_bytes drv dev adr data (flags OR I2C_NOSTART) b = (0, b1) \<and> regs b1 = store_regs (sel b) data (regs b))
     \<and> (\<forall>len b. \<exists>b1. i2c_read_bytes drv dev adr len flags b = ((0, map (\<lambda>i. regs b (sel b + of_nat i)) [0..<len]), b1) \<and> regs b1 = regs b)"

text \<open>What is written to registers is read from them.\<close>

lemma i2c_regs_roundtrip:
  assumes dev: "register_device drv dev adr flags sel regs" and fl: "flags AND (I2C_NOSTOP OR I2C_NOSTART) = 0" and l: "length data \<le> 65536"
  shows "\<exists>b1 b2. i2c_write_regs mc drv dev adr reg data flags b = (0, b1)
    \<and> i2c_read_regs mc' drv dev adr reg (length data) flags b1 = ((0, data), b2) \<and> regs b2 = regs b1"
proof -
  define r where "r = (if flags AND I2C_REG16 \<noteq> 0 then reg else ucast (ucast reg :: u8))"
  have dev': "\<And>reg b. \<exists>b1. i2c_write_bytes drv dev adr (reg_bytes flags reg) (flags OR I2C_NOSTOP) b = (0, b1)
        \<and> sel b1 = (if flags AND I2C_REG16 \<noteq> 0 then reg else ucast (ucast reg :: u8)) \<and> regs b1 = regs b"
    "\<And>data b. \<exists>b1. i2c_write_bytes drv dev adr data (flags OR I2C_NOSTART) b = (0, b1) \<and> regs b1 = store_regs (sel b) data (regs b)"
    "\<And>len b. \<exists>b1. i2c_read_bytes drv dev adr len flags b = ((0, map (\<lambda>i. regs b (sel b + of_nat i)) [0..<len]), b1) \<and> regs b1 = regs b"
    using dev by (simp_all only: register_device_def)
  obtain b1 where b1: "i2c_write_bytes drv dev adr (reg_bytes flags reg) (flags OR I2C_NOSTOP) b = (0, b1)" "sel b1 = r" "regs b1 = regs b"
    using dev'(1) [of reg b] by (auto simp only: r_def)
  obtain b2 where b2: "i2c_write_bytes drv dev adr data (flags OR I2C_NOSTART) b1 = (0, b2)" "regs b2 = store_regs r data (regs b)"
    using dev'(2) [of data b1] by (auto simp only: b1(2,3))
  obtain b3 where b3: "i2c_write_bytes drv dev adr (reg_bytes flags reg) (flags OR I2C_NOSTOP) b2 = (0, b3)" "sel b3 = r" "regs b3 = regs b2"
    using dev'(1) [of reg b2] by (auto simp only: r_def)
  obtain b4 where b4: "i2c_read_bytes drv dev adr (length data) flags b3 = ((0, map (\<lambda>i. regs b3 (r + of_nat i)) [0..<length data]), b4)" "regs b4 = regs b3"
    using dev'(3) [of "length data" b3] by (auto simp only: b3(2))
  have "map (\<lambda>i. regs b3 (r + of_nat i)) [0..<length data] = data"
  proof (rule nth_equalityI)
    fix i
    assume "i < length (map (\<lambda>i. regs b3 (r + of_nat i)) [0..<length data])"
    then have i: "i < length data" by simp
    then have "unat (of_nat i :: u16) = i" using l by (simp add: unat_of_nat take_bit_eq_mod)
    then show "map (\<lambda>i. regs b3 (r + of_nat i)) [0..<length data] ! i = data ! i" using i b3(3) b2(2) by (simp add: store_regs_def)
  qed simp
  then show ?thesis
    using i2c_regs_transfers(2) [OF fl b1(1), of mc data] i2c_regs_transfers(1) [OF fl b3(1), of mc' "length data"] b2(1) b3(3) b4 by simp
qed

text \<open>A device of this kind, for register numbers of one byte.\<close>

definition demo_i2c :: "(u16 \<times> (u16 \<Rightarrow> u8)) i2c_driver" where
  "demo_i2c = \<lparr>i2c_write_bytes = (\<lambda>dev adr bs flags (p, f).
       if flags AND I2C_NOSTART \<noteq> 0 then (0, (p, store_regs p bs f)) else (0, (ucast (hd bs), f))),
     i2c_read_bytes = (\<lambda>dev adr len flags (p, f). ((0, map (\<lambda>i. f (p + of_nat i)) [0..<len]), (p, f)))\<rparr>"

lemma demo_i2c_device: "register_device demo_i2c 0 adr 0 fst snd"
proof -
  have "reg_bytes 0 reg = [ucast reg]" for reg by (simp add: reg_bytes_def bytes_of_def upt_rec)
  then have "i2c_write_bytes demo_i2c 0 adr (reg_bytes 0 reg) (0 OR I2C_NOSTOP) b = (0, (ucast (ucast reg :: u8), snd b))" for reg b
    by (cases b) (simp add: demo_i2c_def i2c_flags)
  moreover have "i2c_write_bytes demo_i2c 0 adr data (0 OR I2C_NOSTART) b = (0, (fst b, store_regs (fst b) data (snd b)))" for data b
    by (cases b) (simp add: demo_i2c_def i2c_flags)
  moreover have "i2c_read_bytes demo_i2c 0 adr len 0 b = ((0, map (\<lambda>i. snd b (fst b + of_nat i)) [0..<len]), b)" for len b
    by (cases b) (simp add: demo_i2c_def)
  ultimately show ?thesis by (simp add: register_device_def)
qed

lemma demo_i2c_roundtrip:
  "\<exists>b1 b2. i2c_write_regs True demo_i2c 0 0x50 7 [1, 2, 3] 0 (0, \<lambda>_. 0) = (0, b1)
     \<and> i2c_read_regs True demo_i2c 0 0x50 7 3 0 b1 = ((0, [1, 2, 3]), b2)"
proof -
  have l: "length [1, 2, 3 :: u8] = 3" by simp
  have "(0 :: u8) AND (I2C_NOSTOP OR I2C_NOSTART) = 0" "3 \<le> (65536 :: nat)" by simp_all
  then show ?thesis
    using i2c_regs_roundtrip [OF demo_i2c_device, where data = "[1, 2, 3]" and mc = True and mc' = True and reg = 7
      and b = "(0, \<lambda>_. 0)" and adr = "0x50", unfolded l] by blast
qed

section \<open>Filling an EEPROM\<close>

text \<open>What the loop relies on: writing one byte changes that byte.\<close>

definition byte_store :: "'e eeprom_driver \<Rightarrow> ('e \<Rightarrow> u32 \<Rightarrow> u8) \<Rightarrow> bool" where
  "byte_store drv cells \<longleftrightarrow> (\<forall>pos v e. cells (eeprom_write drv pos [v] e) = (cells e)(pos := v))
     \<and> (\<forall>pos e. eeprom_read drv pos 1 e = [cells e pos])"

lemma eeprom_set_loop_cells:
  "byte_store drv cells \<Longrightarrow> n \<le> 2 ^ 32 \<Longrightarrow>
   cells (eeprom_set_loop drv pos v n e) k = (if unat (k - pos) < n then v else cells e k)"
proof (induction n arbitrary: pos e)
  case (Suc n)
  have w: "cells (eeprom_write_byte drv pos v e) = (cells e)(pos := v)" using Suc.prems(1) by (simp add: byte_store_def eeprom_write_byte_def)
  show ?case
  proof (cases "k = pos")
    case True
    then show ?thesis using Suc.IH [of "pos + 1" "eeprom_write_byte drv pos v e"] Suc.prems w by simp
  next
    case False
    then have "unat (k - pos) = unat (k - (pos + 1)) + 1"
      using unat_minus_one [of "k - pos"] by (simp add: algebra_simps unat_gt_0)
    then show ?thesis using Suc.IH [of "pos + 1" "eeprom_write_byte drv pos v e"] Suc.prems w False by simp
  qed
qed simp

text \<open>Setting a range within the device sets its bytes and no other.\<close>

lemma eeprom_set_range:
  assumes "byte_store drv cells" and "unat pos + unat len \<le> unat EEPROM_SIZE"
  shows "\<exists>e'. eeprom_set drv EEPROM_SIZE pos v len e = Some (len, e')
    \<and> (\<forall>k. eeprom_read_byte drv k e' = (if unat pos \<le> unat k \<and> unat k < unat pos + unat len then v else eeprom_read_byte drv k e))"
proof -
  have s: "unat (pos + len) = unat pos + unat len" using assms(2) unsigned_less [of EEPROM_SIZE, where ?'a = nat] by (simp add: unat_word_ariths)
  have l: "unat len \<le> 2 ^ 32" using unsigned_less [of len, where ?'a = nat] by simp
  have k: "unat (k - pos) < unat len \<longleftrightarrow> unat pos \<le> unat k \<and> unat k < unat pos + unat len" for k
    using s unsigned_less [of "pos + len", where ?'a = nat] unsigned_less [of pos, where ?'a = nat] by (auto simp: unat_sub_if')
  have "eeprom_read_byte drv k e = cells e k" for k e using assms(1) by (simp add: byte_store_def eeprom_read_byte_def)
  then show ?thesis using eeprom_set_loop_cells [OF assms(1) l] k s assms(2) by (simp add: eeprom_set_def word_le_nat_alt)
qed

lemma eeprom_erase_all:
  assumes "byte_store drv cells"
  shows "\<exists>e'. eeprom_erase drv EEPROM_SIZE e = Some (EEPROM_SIZE, e') \<and> (\<forall>k < EEPROM_SIZE. eeprom_read_byte drv k e' = 0)"
  using eeprom_set_range [OF assms, of 0 EEPROM_SIZE EEPROM_SIZE EEPROM_CLEAR_BYTE e]
  by (auto simp: eeprom_erase_def eeprom_clear_def EEPROM_CLEAR_BYTE_def word_less_nat_alt)

text \<open>The assertion lets a range pass whose end wraps round: every byte of the device is set and more.\<close>

lemma eeprom_set_wraps:
  assumes "byte_store drv cells"
  shows "\<exists>e'. eeprom_set drv 1024 1 v 0xFFFFFFFF e = Some (0xFFFFFFFF, e') \<and> (\<forall>k. k \<noteq> 0 \<longrightarrow> eeprom_read_byte drv k e' = v)"
proof -
  have "unat (k - 1) < unat (0xFFFFFFFF :: u32) \<longleftrightarrow> k \<noteq> 0" for k :: u32
  proof -
    have "k - 1 = - 1 \<longleftrightarrow> k = 0" by (metis add_diff_cancel diff_0 diff_add_cancel)
    moreover have "(0xFFFFFFFF :: u32) = - 1" by simp
    ultimately have "unat (k - 1) \<noteq> unat (0xFFFFFFFF :: u32) \<longleftrightarrow> k \<noteq> 0" by (metis word_unat_eq_iff)
    then show ?thesis using unsigned_less [of "k - 1", where ?'a = nat] by auto
  qed
  moreover have "eeprom_read_byte drv k e = cells e k" for k e using assms by (simp add: byte_store_def eeprom_read_byte_def)
  ultimately show ?thesis using eeprom_set_loop_cells [OF assms, of "unat (0xFFFFFFFF :: u32)" 1 v e] by (simp add: eeprom_set_def)
qed

definition demo_eeprom :: "(u32 \<Rightarrow> u8) eeprom_driver" where
  "demo_eeprom = \<lparr>eeprom_read = (\<lambda>pos n f. map (\<lambda>i. f (pos + of_nat i)) [0..<n]), eeprom_write = (\<lambda>pos bs f. f(pos := hd bs))\<rparr>"

lemma demo_eeprom_store: "byte_store demo_eeprom (\<lambda>f. f)"
  by (simp add: byte_store_def demo_eeprom_def)

section \<open>Registers over SPI\<close>

text \<open>The chip stays selected behind the register number and is released at the end.\<close>

lemma spi_transfer_regs_sends:
  assumes "\<And>cont out n b. snd (drv cont out n b) = b @ [(cont, out)]"
  shows "snd (spi_transfer_regs drv reg out len b) = b @ [(True, [reg]), (False, out)]"
    and "snd (spi_transfer_reg drv reg v b) = b @ [(True, [reg]), (False, [v])]"
  using assms by (simp_all add: spi_transfer_regs_def spi_transfer_reg_def spi_transfer_byte_def case_prod_unfold Let_def)

lemma spi_init_cs_errors:
  "bus \<ge> n \<Longrightarrow> spi_init_cs n undef bus cs s = Some (SPI_NODEV, s)"
  "bus < n \<Longrightarrow> cs \<in> undef \<Longrightarrow> spi_init_cs n undef bus cs s = Some (SPI_NOCS, s)"
  by (simp_all add: spi_init_cs_def)

end
