(* ===== verification/Slip.thy ===== *)
theory Slip
  imports Prelude
begin

text \<open>
  The serial-line framing that the tunnel programs of \<open>dist/tools/tunslip\<close> share: the output queue \<open>slip_buf\<close> with the
  functions that fill and flush it, and the escaping of packets. Errors that end a program (\<open>err\<close>, \<open>exit\<close>) are values;
  \<open>Out_of_bounds\<close> stands for an access outside an array and \<open>Uninitialised\<close> for the use of a
  variable without a value. The operating system's \<open>write\<close> on the serial device is a parameter: \<open>dev k\<close> is the outcome of the \<open>k\<close>-th call. Messages on the standard error output are left out.
\<close>

section \<open>Results\<close>

datatype tun_error = Err_read | Err_slip_overflow | Err_flush | Err_write | Err_sendto | Err_eof | Uninitialised | Out_of_bounds

definition and_then :: "tun_error + 'a \<Rightarrow> ('a \<Rightarrow> tun_error + 'b) \<Rightarrow> tun_error + 'b" where
  "and_then m f = (case m of Inl e \<Rightarrow> Inl e | Inr x \<Rightarrow> f x)"

lemma and_then_simps [simp]: "and_then (Inl e) f = Inl e" "and_then (Inr x) f = f x"
  by (simp_all add: and_then_def)

lemma and_then_Inr: "and_then m f = Inr y \<longleftrightarrow> (\<exists>x. m = Inr x \<and> f x = Inr y)"
  by (cases m) simp_all

lemma and_then_Inl: "and_then m f = Inl e \<longleftrightarrow> m = Inl e \<or> (\<exists>x. m = Inr x \<and> f x = Inl e)"
  by (cases m) simp_all

lemma and_then_assoc: "and_then (and_then m f) g = and_then m (\<lambda>x. and_then (f x) g)"
  by (cases m) simp_all

section \<open>The output queue\<close>

definition SLIP_END :: u8 where "SLIP_END = 0xC0"
definition SLIP_ESC :: u8 where "SLIP_ESC = 0xDB"
definition SLIP_ESC_END :: u8 where "SLIP_ESC_END = 0xDC"
definition SLIP_ESC_ESC :: u8 where "SLIP_ESC_ESC = 0xDD"

lemmas slip_codes = SLIP_END_def SLIP_ESC_def SLIP_ESC_END_def SLIP_ESC_ESC_def

text \<open>\<open>write\<close> accepts some number of bytes, or fails with \<open>EAGAIN\<close>, or fails otherwise.\<close>

datatype write_answer = Accepts nat | Again | Fails

type_synonym device = "nat \<Rightarrow> write_answer"

text \<open>
  The queue is \<open>slip_buf\<close> from \<open>slip_begin\<close> up to \<open>slip_end\<close>. Of the device the model keeps the bytes it accepted and the
  number of calls.
\<close>

record slip_out =
  slip_buf :: "u8 list"
  slip_begin :: nat
  slip_end :: nat
  on_line :: "u8 list"
  calls :: nat

definition SLIP_BUF_SIZE :: nat where "SLIP_BUF_SIZE = 2000"

definition slip_empty :: "'z slip_out_scheme \<Rightarrow> bool" where
  "slip_empty s \<longleftrightarrow> slip_end s = 0"

definition slip_flushbuf :: "device \<Rightarrow> 'z slip_out_scheme \<Rightarrow> tun_error + 'z slip_out_scheme" where
  "slip_flushbuf dev s =
     (if slip_empty s then Inr s
      else
        let s1 = s\<lparr>calls := calls s + 1\<rparr> in
        case dev (calls s) of
          Fails \<Rightarrow> Inl Err_flush
        | Again \<Rightarrow> Inr s1
        | Accepts k \<Rightarrow>
            let n = min k (slip_end s - slip_begin s);
                s2 = s1\<lparr>on_line := on_line s @ take n (drop (slip_begin s) (slip_buf s)), slip_begin := slip_begin s + n\<rparr>
            in Inr (if slip_begin s2 = slip_end s2 then s2\<lparr>slip_begin := 0, slip_end := 0\<rparr> else s2))"

text \<open>\<open>tunslip6\<close> flushes a queue that is full; \<open>tunslip\<close> and \<open>tapslip6\<close> do not.\<close>

definition slip_put :: "u8 \<Rightarrow> 'z slip_out_scheme \<Rightarrow> 'z slip_out_scheme" where
  "slip_put c s = s\<lparr>slip_buf := (slip_buf s)[slip_end s := c], slip_end := slip_end s + 1\<rparr>"

definition slip_send :: "device \<Rightarrow> u8 \<Rightarrow> 'z slip_out_scheme \<Rightarrow> tun_error + 'z slip_out_scheme" where
  "slip_send dev c s =
     (if slip_end s \<ge> SLIP_BUF_SIZE then Inl Err_slip_overflow
      else
        let s1 = slip_put c s
        in if slip_end s1 \<ge> SLIP_BUF_SIZE then slip_flushbuf dev s1 else Inr s1)"

definition slip_send_char :: "device \<Rightarrow> u8 \<Rightarrow> 'z slip_out_scheme \<Rightarrow> tun_error + 'z slip_out_scheme" where
  "slip_send_char dev c s =
     (if c = SLIP_END then and_then (slip_send dev SLIP_ESC s) (slip_send dev SLIP_ESC_END)
      else if c = SLIP_ESC then and_then (slip_send dev SLIP_ESC s) (slip_send dev SLIP_ESC_ESC)
      else slip_send dev c s)"

text \<open>The loop of \<open>write_to_serial\<close> has the same switch as \<open>slip_send_char\<close> in its body.\<close>

fun write_loop :: "device \<Rightarrow> u8 list \<Rightarrow> 'z slip_out_scheme \<Rightarrow> tun_error + 'z slip_out_scheme" where
  "write_loop dev [] s = Inr s"
| "write_loop dev (c # cs) s = and_then (slip_send_char dev c s) (write_loop dev cs)"

definition write_to_serial :: "device \<Rightarrow> u8 list \<Rightarrow> 'z slip_out_scheme \<Rightarrow> tun_error + 'z slip_out_scheme" where
  "write_to_serial dev p s = and_then (write_loop dev p s) (slip_send dev SLIP_END)"

section \<open>What is on the line\<close>

definition slip_ok :: "'z slip_out_scheme \<Rightarrow> bool" where
  "slip_ok s \<longleftrightarrow> length (slip_buf s) = SLIP_BUF_SIZE \<and> slip_begin s \<le> slip_end s \<and> slip_end s \<le> SLIP_BUF_SIZE"

definition queued :: "'z slip_out_scheme \<Rightarrow> u8 list" where
  "queued s = drop (slip_begin s) (take (slip_end s) (slip_buf s))"

definition stream :: "'z slip_out_scheme \<Rightarrow> u8 list" where
  "stream s = on_line s @ queued s"

text \<open>A transfer of bytes from the queue to the device keeps what was sent.\<close>

lemma slip_flushbuf_keeps:
  assumes "slip_ok s" and "slip_flushbuf dev s = Inr s'"
  shows "slip_ok s'" "stream s' = stream s" "slip_end s' \<le> slip_end s" "\<exists>xs. on_line s' = on_line s @ xs"
proof -
  define n where "n = (case dev (calls s) of Accepts k \<Rightarrow> min k (slip_end s - slip_begin s) | _ \<Rightarrow> 0)"
  have b: "slip_begin s \<le> slip_end s" "length (slip_buf s) = SLIP_BUF_SIZE" "slip_end s \<le> SLIP_BUF_SIZE"
    using assms(1) by (simp_all add: slip_ok_def)
  have n: "n \<le> slip_end s - slip_begin s" by (auto simp: n_def split: write_answer.splits)
  have q: "queued s = take n (drop (slip_begin s) (slip_buf s)) @ drop (slip_begin s + n) (take (slip_end s) (slip_buf s))"
    using n b(1) append_take_drop_id [of n "queued s"] by (simp add: queued_def drop_take add.commute)
  have e: "slip_empty s \<and> s' = s \<or> on_line s' = on_line s @ take n (drop (slip_begin s) (slip_buf s)) \<and> slip_buf s' = slip_buf s
    \<and> (slip_begin s' = slip_begin s + n \<and> slip_end s' = slip_end s
       \<or> slip_begin s' = 0 \<and> slip_end s' = 0 \<and> slip_begin s + n = slip_end s)"
    using assms(2) by (auto simp: slip_flushbuf_def n_def Let_def split: if_splits write_answer.splits)
  show "slip_ok s'" "slip_end s' \<le> slip_end s" "\<exists>xs. on_line s' = on_line s @ xs" using e b n by (auto simp: slip_ok_def)
  show "stream s' = stream s" using e q by (auto simp: stream_def queued_def slip_empty_def)
qed

lemma slip_put_stream:
  assumes "slip_ok s" and "slip_end s < SLIP_BUF_SIZE"
  shows "slip_ok (slip_put c s)" "stream (slip_put c s) = stream s @ [c]"
proof -
  have b: "slip_begin s \<le> slip_end s" "slip_end s < length (slip_buf s)" using assms by (simp_all add: slip_ok_def)
  then have "take (slip_end s + 1) ((slip_buf s)[slip_end s := c]) = take (slip_end s) (slip_buf s) @ [c]"
    by (simp add: take_Suc_conv_app_nth)
  then have "queued (slip_put c s) = queued s @ [c]" using b by (simp add: queued_def slip_put_def)
  then show "stream (slip_put c s) = stream s @ [c]" by (simp add: stream_def slip_put_def)
  show "slip_ok (slip_put c s)" using assms by (simp add: slip_ok_def slip_put_def)
qed

lemma slip_send_stream:
  assumes "slip_ok s" and "slip_send dev c s = Inr s'"
  shows "slip_ok s' \<and> stream s' = stream s @ [c]"
  using assms slip_put_stream [OF assms(1), of c] slip_flushbuf_keeps(1,2) [of "slip_put c s" dev s']
  by (auto simp: slip_send_def Let_def split: if_splits)

text \<open>The escaped form of a byte and of a packet.\<close>

definition slip_code :: "u8 \<Rightarrow> u8 list" where
  "slip_code c = (if c = SLIP_END then [SLIP_ESC, SLIP_ESC_END] else if c = SLIP_ESC then [SLIP_ESC, SLIP_ESC_ESC] else [c])"

definition slip_frame :: "u8 list \<Rightarrow> u8 list" where
  "slip_frame p = concat (map slip_code p) @ [SLIP_END]"

lemma slip_send_char_stream:
  assumes "slip_ok s" and "slip_send_char dev c s = Inr s'"
  shows "slip_ok s' \<and> stream s' = stream s @ slip_code c"
proof -
  have "slip_ok s' \<and> stream s' = stream s @ [a, b]" if t: "and_then (slip_send dev a s) (slip_send dev b) = Inr s'" for a b
  proof -
    obtain s1 where s1: "slip_send dev a s = Inr s1" "slip_send dev b s1 = Inr s'" using t by (auto simp: and_then_Inr)
    show ?thesis using slip_send_stream [OF assms(1) s1(1)] slip_send_stream [OF _ s1(2)] by simp
  qed
  then show ?thesis using assms(2) slip_send_stream [OF assms(1), of dev c s'] by (simp add: slip_send_char_def slip_code_def split: if_splits)
qed

lemma write_loop_stream:
  "slip_ok s \<Longrightarrow> write_loop dev p s = Inr s' \<Longrightarrow> slip_ok s' \<and> stream s' = stream s @ concat (map slip_code p)"
proof (induction p arbitrary: s)
  case (Cons c p)
  obtain s1 where s1: "slip_send_char dev c s = Inr s1" "write_loop dev p s1 = Inr s'" using Cons.prems(2) by (auto simp: and_then_Inr)
  then show ?case using slip_send_char_stream [OF Cons.prems(1) s1(1)] Cons.IH [of s1] by simp
qed simp

lemma write_to_serial_stream:
  assumes "slip_ok s" and "write_to_serial dev p s = Inr s'"
  shows "slip_ok s' \<and> stream s' = stream s @ slip_frame p"
proof -
  obtain s1 where s1: "write_loop dev p s = Inr s1" "slip_send dev SLIP_END s1 = Inr s'"
    using assms(2) by (auto simp: write_to_serial_def and_then_Inr)
  show ?thesis using write_loop_stream [OF assms(1) s1(1)] slip_send_stream [OF _ s1(2)] by (simp add: slip_frame_def)
qed

text \<open>With room for the escaped packet, or a device that takes all it is given, a packet is queued without error.\<close>

lemma slip_send_room: "slip_end s + 1 < SLIP_BUF_SIZE \<Longrightarrow> slip_send dev c s = Inr (slip_put c s)"
  by (simp add: slip_send_def slip_put_def)

lemma slip_end_put [simp]: "slip_end (slip_put c s) = slip_end s + 1"
  by (simp add: slip_put_def)

lemma slip_send_char_room:
  assumes "slip_end s + length (slip_code c) < SLIP_BUF_SIZE"
  shows "\<exists>s'. slip_send_char dev c s = Inr s' \<and> slip_end s' = slip_end s + length (slip_code c)"
  using assms by (simp add: slip_send_char_def slip_code_def slip_send_room split: if_splits)

lemma write_to_serial_room:
  "slip_end s + length (slip_frame p) < SLIP_BUF_SIZE \<Longrightarrow>
   \<exists>s'. write_to_serial dev p s = Inr s' \<and> slip_end s' = slip_end s + length (slip_frame p)"
proof (induction p arbitrary: s)
  case Nil
  then show ?case by (simp add: write_to_serial_def slip_frame_def slip_send_room)
next
  case (Cons c p)
  then have "slip_end s + length (slip_code c) < SLIP_BUF_SIZE" by (simp add: slip_frame_def)
  from slip_send_char_room [OF this, of dev] obtain s1 where
    s1: "slip_send_char dev c s = Inr s1" "slip_end s1 = slip_end s + length (slip_code c)" by blast
  then have "slip_end s1 + length (slip_frame p) < SLIP_BUF_SIZE" using Cons.prems by (simp add: slip_frame_def)
  from Cons.IH [OF this] show ?case using s1 by (auto simp: write_to_serial_def slip_frame_def)
qed

definition accepts_all :: "device \<Rightarrow> bool" where
  "accepts_all dev \<longleftrightarrow> (\<forall>k. \<exists>n \<ge> SLIP_BUF_SIZE. dev k = Accepts n)"

lemma slip_send_accepted:
  assumes "accepts_all dev" and "slip_ok s" and "slip_end s < SLIP_BUF_SIZE"
  shows "\<exists>s'. slip_send dev c s = Inr s' \<and> slip_ok s' \<and> slip_end s' < SLIP_BUF_SIZE"
proof (cases "slip_end s + 1 < SLIP_BUF_SIZE")
  case True
  then show ?thesis using slip_put_stream(1) [OF assms(2,3)] by (simp add: slip_send_room)
next
  case False
  obtain n where n: "SLIP_BUF_SIZE \<le> n" "dev (calls s) = Accepts n" using assms(1) by (auto simp: accepts_all_def)
  have "slip_send dev c s = slip_flushbuf dev (slip_put c s)" using False assms(3) by (simp add: slip_send_def)
  moreover have "\<exists>s'. slip_flushbuf dev (slip_put c s) = Inr s' \<and> slip_end s' = 0"
    using n assms(2,3) by (auto simp: slip_flushbuf_def slip_put_def slip_empty_def slip_ok_def Let_def min_def)
  ultimately show ?thesis using slip_flushbuf_keeps(1) [OF slip_put_stream(1) [OF assms(2,3)]] by (fastforce simp: SLIP_BUF_SIZE_def)
qed

lemma slip_send_char_accepted:
  assumes "accepts_all dev" and "slip_ok s" and "slip_end s < SLIP_BUF_SIZE"
  shows "\<exists>s'. slip_send_char dev c s = Inr s' \<and> slip_ok s' \<and> slip_end s' < SLIP_BUF_SIZE"
proof -
  have "\<exists>s'. and_then (slip_send dev a s) (slip_send dev b) = Inr s' \<and> slip_ok s' \<and> slip_end s' < SLIP_BUF_SIZE" for a b
    using slip_send_accepted [OF assms, of a] slip_send_accepted [OF assms(1), of _ b] by (fastforce simp: and_then_Inr)
  then show ?thesis using slip_send_accepted [OF assms, of c] by (simp add: slip_send_char_def)
qed

lemma write_to_serial_accepted:
  assumes "accepts_all dev"
  shows "slip_ok s \<Longrightarrow> slip_end s < SLIP_BUF_SIZE \<Longrightarrow> \<exists>s'. write_to_serial dev p s = Inr s' \<and> slip_end s' < SLIP_BUF_SIZE"
proof (induction p arbitrary: s)
  case Nil
  then show ?case using slip_send_accepted [OF assms Nil(1,2), of SLIP_END] by (auto simp: write_to_serial_def)
next
  case (Cons c p)
  obtain s1 where s1: "slip_send_char dev c s = Inr s1" "slip_ok s1" "slip_end s1 < SLIP_BUF_SIZE"
    using slip_send_char_accepted [OF assms Cons(2,3), of c] by blast
  then show ?case using Cons.IH [OF s1(2,3)] by (simp add: write_to_serial_def and_then_assoc)
qed

text \<open>
  A device that takes only a part of a full queue leaves it full, and the next byte ends the program although the part
  that was taken has made room.
\<close>

lemma slip_send_after_partial:
  assumes "slip_ok s" and "slip_end s = SLIP_BUF_SIZE - 1" and "slip_begin s = 0" and "dev (calls s) = Accepts k" and "k < SLIP_BUF_SIZE"
  shows "\<exists>s'. slip_send dev c s = Inr s' \<and> length (queued s') = SLIP_BUF_SIZE - k \<and> slip_send dev d s' = Inl Err_slip_overflow"
  using assms
  by (auto simp: slip_send_def slip_put_def slip_flushbuf_def slip_empty_def slip_ok_def queued_def SLIP_BUF_SIZE_def Let_def)

end
