(* ===== verification/Tunslip6.thy ===== *)
theory Tunslip6
  imports Slip
begin

text \<open>
  \<open>dist/tools/tunslip/tunslip6.c\<close>: packets between a tunnel device and a serial line. The receiving function is fed the
  bytes that the serial device has ready; \<open>fread\<close> finds the end of the file behind them. Writing a packet to the tunnel
  device and the prefix that \<open>inet_pton\<close> reads from the command line are parameters, kept with the verbosity in a
  record. Time stamps, hexadecimal dumps and the calls of \<open>ifconfig\<close> are left out but for the address a gateway asks for.
\<close>

section \<open>Receiving\<close>

datatype tun_event = To_tun "u8 list" | Printed "u8 list" | Set_mac "u8 list"

record tun_conf =
  verbose :: int
  prefix_addr :: "u8 list"
  tun_takes :: "u8 list \<Rightarrow> bool"

record tunslip6 = slip_out +
  inbuf :: "u8 list"
  inbufptr :: nat
  events :: "tun_event list"

definition INBUF_SIZE :: nat where "INBUF_SIZE = 2000"

definition packet :: "tunslip6 \<Rightarrow> u8 list" where
  "packet s = take (inbufptr s) (inbuf s)"

definition emit :: "tun_event \<Rightarrow> tunslip6 \<Rightarrow> tunslip6" where
  "emit e s = s\<lparr>events := events s @ [e]\<rparr>"

fun sensible_loop :: "u8 list \<Rightarrow> bool \<Rightarrow> bool" where
  "sensible_loop [] ret = ret"
| "sensible_loop (c # cs) ret =
     (if c = 13 \<or> c = 10 \<or> c = 9 then sensible_loop cs ret
      else if c < 32 \<or> 126 < c then False
      else if 65 \<le> c \<and> c \<le> 90 then sensible_loop cs True
      else if 97 \<le> c \<and> c \<le> 122 then sensible_loop cs True
      else if 48 \<le> c \<and> c \<le> 57 then sensible_loop cs True
      else sensible_loop cs ret)"

definition is_sensible_string :: "u8 list \<Rightarrow> bool" where
  "is_sensible_string s = (if s \<noteq> [] \<and> hd s = 0x60 then False else sensible_loop s False)"

text \<open>The address a gateway announces, with colons between its bytes.\<close>

definition gateway_mac :: "u8 list \<Rightarrow> u8 list" where
  "gateway_mac buf = concat (map (\<lambda>i. if odd i \<and> i < 14 then [buf ! (2 + i), 0x3A] else [buf ! (2 + i)]) [0..<16])"

fun send_chars :: "device \<Rightarrow> u8 list \<Rightarrow> tunslip6 \<Rightarrow> tun_error + tunslip6" where
  "send_chars dev [] s = Inr s"
| "send_chars dev (c # cs) s = and_then (slip_send_char dev c s) (send_chars dev cs)"

definition send_prefix :: "tun_conf \<Rightarrow> device \<Rightarrow> tunslip6 \<Rightarrow> tun_error + tunslip6" where
  "send_prefix conf dev s =
     and_then (slip_send dev 0x21 s) (\<lambda>s1.
     and_then (slip_send dev 0x50 s1) (\<lambda>s2.
     and_then (send_chars dev (take 8 (prefix_addr conf)) s2)
       (slip_send dev SLIP_END)))"

text \<open>The end of a packet: a request of the gateway, a line of text, or a packet for the tunnel.\<close>

definition slip_packet :: "tun_conf \<Rightarrow> device \<Rightarrow> tunslip6 \<Rightarrow> tun_error + tunslip6" where
  "slip_packet conf dev s =
     (if inbufptr s > 0 then
        and_then
          (if inbuf s ! 0 = 0x21 then
             Inr (if inbuf s ! 1 = 0x4D then emit (Set_mac (gateway_mac (inbuf s))) s else s)
           else if inbuf s ! 0 = 0x3F then
             (if inbuf s ! 1 = 0x50 then send_prefix conf dev s else Inr s)
           else if inbuf s ! 0 = 13 then Inr (emit (Printed (drop 1 (packet s))) s)
           else if is_sensible_string (packet s) then
             Inr (if verbose conf = 1 then emit (Printed (packet s)) s else s)
           else if tun_takes conf (packet s) then Inr (emit (To_tun (packet s)) s)
           else Inl Err_write)
          (\<lambda>s1. Inr (s1\<lparr>inbufptr := 0\<rparr>))
      else Inr s)"

definition store_char :: "tun_conf \<Rightarrow> u8 \<Rightarrow> tunslip6 \<Rightarrow> tun_error + tunslip6" where
  "store_char conf c s =
     (if inbufptr s \<ge> length (inbuf s) then Inl Out_of_bounds
      else
        let s1 = s\<lparr>inbuf := (inbuf s)[inbufptr s := c], inbufptr := inbufptr s + 1\<rparr> in
        Inr (if verbose conf = 2 \<or> verbose conf = 3 \<or> verbose conf > 4 then
               (if c = 10 \<and> is_sensible_string (packet s1) then (emit (Printed (packet s1)) s1)\<lparr>inbufptr := 0\<rparr> else s1)
             else if verbose conf = 4 then
               (if c = 0 \<or> c = 13 \<or> c = 10 \<or> c = 9 \<or> c \<ge> 32 \<and> c \<le> 126 then emit (Printed [c]) s1 else s1)
             else s1))"

definition unescape :: "u8 \<Rightarrow> u8" where
  "unescape c = (if c = SLIP_ESC_END then SLIP_END else if c = SLIP_ESC_ESC then SLIP_ESC else c)"

text \<open>The test at the head of the loop.\<close>

definition drop_large :: "tunslip6 \<Rightarrow> tunslip6" where
  "drop_large s = (if inbufptr s \<ge> INBUF_SIZE then s\<lparr>inbufptr := 0\<rparr> else s)"

text \<open>
  The loop from the label \<open>after_fread\<close> on. The result has the bytes left in the input, an escape character that was put
  back.
\<close>

fun serial_loop :: "tun_conf \<Rightarrow> device \<Rightarrow> u8 list \<Rightarrow> tunslip6 \<Rightarrow> tun_error + u8 list \<times> tunslip6" where
  "serial_loop conf dev [] s = Inr ([], s)"
| "serial_loop conf dev (c # cs) s =
     (if c = SLIP_END then and_then (slip_packet conf dev s) (\<lambda>s1. serial_loop conf dev cs (drop_large s1))
      else if c = SLIP_ESC then
        (case cs of
           [] \<Rightarrow> Inr ([SLIP_ESC], s)
         | d # ds \<Rightarrow> and_then (store_char conf (unescape d) s) (\<lambda>s1. serial_loop conf dev ds (drop_large s1)))
      else and_then (store_char conf c s) (\<lambda>s1. serial_loop conf dev cs (drop_large s1)))"

definition serial_to_tun :: "tun_conf \<Rightarrow> device \<Rightarrow> u8 list \<Rightarrow> tunslip6 \<Rightarrow> tun_error + u8 list \<times> tunslip6" where
  "serial_to_tun conf dev inslip s = (if inslip = [] then Inl Err_read else serial_loop conf dev inslip s)"

section \<open>Sending and the main loop\<close>

text \<open>\<open>read\<close> on the tunnel device gives a packet of at most 2000 bytes, or fails.\<close>

definition tun_to_serial :: "device \<Rightarrow> u8 list option \<Rightarrow> tunslip6 \<Rightarrow> tun_error + tunslip6" where
  "tun_to_serial dev infd s =
     (case infd of
        None \<Rightarrow> Inl Err_read
      | Some p \<Rightarrow> write_to_serial dev (take 2000 p) s)"

text \<open>
  The state of the main loop: that of the two directions, the bytes left in the input, and the delay between packets. What
  \<open>select\<close> reports is the input of a round: the bytes that came in, whether the serial device takes output, the packet of
  the tunnel device, and the time in seconds and microseconds at the two places where it is read.
\<close>

record tun_main =
  both :: tunslip6
  inslip :: "u8 list"
  delaymsec :: u16
  delaystartsec :: u32
  delaystartmsec :: u32

record tun_select =
  slip_in :: "u8 list option"
  slip_writable :: bool
  tun_in :: "u8 list option option"
  now :: "int \<times> int"
  now2 :: "int \<times> int"

definition delay_check :: "int \<times> int \<Rightarrow> tun_main \<Rightarrow> tun_main" where
  "delay_check tv m =
     (if delaymsec m \<noteq> 0 then
        let dmsec = (fst tv - uint (delaystartsec m)) * 1000 + snd tv div 1000 - uint (delaystartmsec m);
            m1 = (if dmsec < 0 then m\<lparr>delaymsec := 0\<rparr> else m)
        in if dmsec > uint (delaymsec m1) then m1\<lparr>delaymsec := 0\<rparr> else m1
      else m)"

definition tun_round :: "tun_conf \<Rightarrow> device \<Rightarrow> u16 \<Rightarrow> tun_select \<Rightarrow> tun_main \<Rightarrow> tun_error + tun_main" where
  "tun_round conf dev basedelay sel m =
     (let wset = \<not> slip_empty (both m) \<and> slip_writable sel;
          tunset = (if slip_empty (both m) then tun_in sel else None)
      in
      and_then
        (case slip_in sel of
           None \<Rightarrow> Inr m
         | Some bs \<Rightarrow> and_then (serial_to_tun conf dev (inslip m @ bs) (both m)) (\<lambda>(rest, s). Inr (m\<lparr>both := s, inslip := rest\<rparr>)))
      (\<lambda>m1. and_then
        (if wset then and_then (slip_flushbuf dev (both m1)) (\<lambda>s. Inr (m1\<lparr>both := s\<rparr>)) else Inr m1)
      (\<lambda>m2.
        let m3 = delay_check (now sel) m2 in
        if delaymsec m3 = 0 \<and> slip_empty (both m3) \<and> tunset \<noteq> None then
          and_then (tun_to_serial dev (the tunset) (both m3)) (\<lambda>s1.
          and_then (slip_flushbuf dev s1) (\<lambda>s2.
            let m4 = m3\<lparr>both := s2\<rparr> in
            Inr (if basedelay \<noteq> 0
                 then m4\<lparr>delaymsec := basedelay, delaystartsec := of_int (fst (now2 sel)),
                   delaystartmsec := of_int (snd (now2 sel) div 1000)\<rparr>
                 else m4)))
        else Inr m3)))"

section \<open>The link-local address\<close>

text \<open>
  \<open>ifconf\<close> parses the address of the command line into eight groups (\<open>a\<close>), counting the group it is in (\<open>ai\<close>) and
  remembering where two colons met (\<open>scc\<close>), and moves the groups behind them to the end.
\<close>

definition hex_digit :: "u8 \<Rightarrow> u16" where
  "hex_digit c = (let digit = ucast c - 48 in if digit > 9 then 10 + (ucast c AND 0xDF) - 65 else digit)"

fun lladdr_parse :: "u8 list \<Rightarrow> nat \<Rightarrow> bool \<Rightarrow> nat \<Rightarrow> u16 list \<Rightarrow> nat \<times> nat \<times> u16 list" where
  "lladdr_parse [] ai cc scc a = (ai, scc, a)"
| "lladdr_parse (c # cs) ai cc scc a =
     (if c = 0 \<or> c = 0x2F then (ai, scc, a)
      else if c = 0x3A then
        let scc' = (if cc then ai else scc) in
        if ai + 1 > 7 then (ai + 1, scc', a) else lladdr_parse cs (ai + 1) True scc' a
      else lladdr_parse cs ai False scc (a[ai := push_bit 4 (a ! ai) + hex_digit c]))"

definition lladdr_step :: "nat \<Rightarrow> nat \<Rightarrow> nat \<Rightarrow> u16 list \<Rightarrow> u16 list" where
  "lladdr_step cc scc i a =
     (if 8 - int i - int cc \<le> int scc then a[7 - i := 0] else a[7 - i := a ! (8 - i - cc), 8 - i - cc := 0])"

definition lladdr_groups :: "u8 list \<Rightarrow> u16 list" where
  "lladdr_groups ipaddr =
     (let (ai, scc, a) = lladdr_parse ipaddr 0 False 0 (replicate 8 0); cc = 8 - ai in fold (lladdr_step cc scc) [0..<cc] a)"

text \<open>The four groups behind \<open>fe80::\<close>.\<close>

definition lladdr :: "u8 list \<Rightarrow> u16 list" where
  "lladdr ipaddr = (let a = lladdr_groups ipaddr in [a ! 1 AND 0xFEFD, a ! 2, a ! 3, a ! 7])"

section \<open>The receive buffer is never left\<close>

definition recv_ok :: "tunslip6 \<Rightarrow> bool" where
  "recv_ok s \<longleftrightarrow> length (inbuf s) = INBUF_SIZE \<and> inbufptr s < INBUF_SIZE"

text \<open>Between the storing of a character and the test at the head of the loop the buffer may be full.\<close>

definition recv_full_ok :: "tunslip6 \<Rightarrow> bool" where
  "recv_full_ok s \<longleftrightarrow> length (inbuf s) = INBUF_SIZE \<and> inbufptr s \<le> INBUF_SIZE"

lemma recv_ok_full: "recv_ok s \<Longrightarrow> recv_full_ok s"
  by (simp add: recv_ok_def recv_full_ok_def)

lemma drop_large_ok: "recv_full_ok s \<Longrightarrow> recv_ok (drop_large s)"
  by (simp add: recv_ok_def recv_full_ok_def drop_large_def INBUF_SIZE_def)

lemma store_char_ok: "recv_ok s \<Longrightarrow> \<exists>s'. store_char conf c s = Inr s' \<and> recv_full_ok s'"
  by (auto simp: store_char_def recv_ok_def recv_full_ok_def emit_def Let_def)

text \<open>Sending leaves the receiving side alone, and never leaves its array.\<close>

definition same_input :: "tunslip6 \<Rightarrow> tunslip6 \<Rightarrow> bool" where
  "same_input s s' \<longleftrightarrow> inbuf s' = inbuf s \<and> inbufptr s' = inbufptr s \<and> events s' = events s"

definition sends :: "tunslip6 \<Rightarrow> tun_error + tunslip6 \<Rightarrow> bool" where
  "sends s r \<longleftrightarrow> (case r of Inl e \<Rightarrow> e \<noteq> Out_of_bounds | Inr s' \<Rightarrow> same_input s s')"

lemma sends_then: "sends s m \<Longrightarrow> (\<And>s'. m = Inr s' \<Longrightarrow> sends s' (f s')) \<Longrightarrow> sends s (and_then m f)"
  by (cases m) (auto simp: sends_def same_input_def split: sum.splits)

lemma sends_flush: "sends s (slip_flushbuf dev s)"
  by (auto simp: sends_def same_input_def slip_flushbuf_def Let_def split: write_answer.splits)

lemma sends_send: "sends s (slip_send dev c s)"
proof -
  have "same_input s (slip_put c s)" by (simp add: same_input_def slip_put_def)
  then show ?thesis using sends_flush [of "slip_put c s" dev]
    by (auto simp: slip_send_def Let_def sends_def same_input_def split: sum.splits)
qed

lemma sends_char: "sends s (slip_send_char dev c s)"
  by (simp add: slip_send_char_def sends_send sends_then)

lemma sends_chars: "sends s (send_chars dev cs s)"
proof (induction cs arbitrary: s)
  case Nil
  then show ?case by (simp add: sends_def same_input_def)
next
  case (Cons c cs)
  then show ?case by (auto intro: sends_then sends_char)
qed

lemma sends_prefix: "sends s (send_prefix conf dev s)"
  unfolding send_prefix_def by (intro sends_then sends_send sends_chars)

lemma slip_packet_ok:
  assumes "recv_full_ok s"
  shows "slip_packet conf dev s \<noteq> Inl Out_of_bounds" "slip_packet conf dev s = Inr s' \<Longrightarrow> recv_full_ok s'"
  using assms sends_prefix [of s conf dev]
  by (auto simp: slip_packet_def recv_full_ok_def emit_def sends_def same_input_def and_then_Inl and_then_Inr split: if_splits)

lemma serial_loop_ok:
  "recv_ok s \<Longrightarrow> serial_loop conf dev cs s \<noteq> Inl Out_of_bounds \<and>
     (\<forall>rest s'. serial_loop conf dev cs s = Inr (rest, s') \<longrightarrow> recv_ok s')"
proof (induction conf dev cs s rule: serial_loop.induct)
  case (2 conf dev c cs s)
  have pk: "slip_packet conf dev s \<noteq> Inl Out_of_bounds" "\<And>s'. slip_packet conf dev s = Inr s' \<Longrightarrow> recv_ok (drop_large s')"
    using slip_packet_ok [OF recv_ok_full [OF 2(4)]] drop_large_ok by blast+
  have sc: "\<exists>s'. store_char conf d s = Inr s' \<and> recv_ok (drop_large s')" for d
    using store_char_ok [OF 2(4)] drop_large_ok by blast
  consider "c = SLIP_END" | "c \<noteq> SLIP_END" "c = SLIP_ESC" | "c \<noteq> SLIP_END" "c \<noteq> SLIP_ESC" by blast
  then show ?case
  proof cases
    case 1
    then show ?thesis using pk 2(1) [OF 1] by (cases "slip_packet conf dev s") auto
  next
    case b: 2
    show ?thesis
    proof (cases cs)
      case Nil
      then show ?thesis using b \<open>recv_ok s\<close> by simp
    next
      case (Cons d ds)
      then show ?thesis using b sc [of "unescape d"] "2.IH"(2) [OF b Cons] by auto
    qed
  next
    case 3
    then show ?thesis using sc [of c] "2.IH"(3) [OF 3] by auto
  qed
qed simp

section \<open>Chunks of input\<close>

text \<open>How the input is cut into pieces makes no difference: a half escape sequence is put back.\<close>

lemma serial_loop_append:
  "serial_loop conf dev (xs @ ys) s =
     and_then (serial_loop conf dev xs s) (\<lambda>(rest, s'). serial_loop conf dev (rest @ ys) s')"
proof (induction conf dev xs s rule: serial_loop.induct)
  case (2 conf dev c cs s)
  consider "c = SLIP_END" | "c \<noteq> SLIP_END" "c = SLIP_ESC" | "c \<noteq> SLIP_END" "c \<noteq> SLIP_ESC" by blast
  then show ?case
  proof cases
    case 1
    then show ?thesis using "2.IH"(1) by (simp add: and_then_assoc)
  next
    case 2
    then show ?thesis using "2.IH"(2) by (cases cs) (simp_all add: and_then_assoc)
  next
    case 3
    then show ?thesis using "2.IH"(3) by (simp add: and_then_assoc)
  qed
qed simp

text \<open>Input that comes in pieces, as the main loop hands it on.\<close>

fun serial_chunks :: "tun_conf \<Rightarrow> device \<Rightarrow> u8 list list \<Rightarrow> u8 list \<times> tunslip6 \<Rightarrow> tun_error + u8 list \<times> tunslip6" where
  "serial_chunks conf dev [] (rest, s) = Inr (rest, s)"
| "serial_chunks conf dev (b # bs) (rest, s) = and_then (serial_to_tun conf dev (rest @ b) s) (serial_chunks conf dev bs)"

text \<open>Where the loop stopped it has nothing to do.\<close>

lemma serial_loop_stops:
  "serial_loop conf dev xs s = Inr (r, s') \<Longrightarrow> serial_loop conf dev r s' = Inr (r, s')"
proof (induction conf dev xs s rule: serial_loop.induct)
  case (2 conf dev c cs s)
  consider "c = SLIP_END" | "c \<noteq> SLIP_END" "c = SLIP_ESC" | "c \<noteq> SLIP_END" "c \<noteq> SLIP_ESC" by blast
  then show ?case
  proof cases
    case 1
    then show ?thesis using 2(1) 2(4) by (auto simp: and_then_Inr)
  next
    case b: 2
    then show ?thesis using 2(2) [OF b] 2(4) by (cases cs) (auto simp: and_then_Inr SLIP_ESC_def SLIP_END_def)
  next
    case 3
    then show ?thesis using 2(3) 2(4) by (auto simp: and_then_Inr)
  qed
qed simp

lemma serial_chunks_concat:
  "[] \<notin> set bs \<Longrightarrow> serial_loop conf dev rest s = Inr (rest, s) \<Longrightarrow>
   serial_chunks conf dev bs (rest, s) = serial_loop conf dev (rest @ concat bs) s"
proof (induction bs arbitrary: rest s)
  case (Cons b bs)
  have ne: "rest @ b \<noteq> []" using Cons.prems(1) by auto
  show ?case
  proof (cases "serial_loop conf dev (rest @ b) s")
    case (Inl e)
    then show ?thesis using ne serial_loop_append [of conf dev "rest @ b" "concat bs" s] by (auto simp: serial_to_tun_def)
  next
    case (Inr x)
    obtain r s' where x: "x = (r, s')" by (cases x)
    have "serial_chunks conf dev bs (r, s') = serial_loop conf dev (r @ concat bs) s'"
      using Cons.IH [of r s'] serial_loop_stops [of conf dev "rest @ b" s r s'] Inr x Cons.prems(1) by simp
    then show ?thesis using ne Inr x serial_loop_append [of conf dev "rest @ b" "concat bs" s] by (auto simp: serial_to_tun_def)
  qed
qed simp

section \<open>Packets arrive\<close>

definition delivered :: "tunslip6 \<Rightarrow> u8 list list" where
  "delivered s = List.map_filter (\<lambda>e. case e of To_tun p \<Rightarrow> Some p | _ \<Rightarrow> None) (events s)"

lemma delivered_emit [simp]:
  "delivered (emit (To_tun p) s) = delivered s @ [p]" "delivered (emit (Printed p) s) = delivered s"
  "delivered (s\<lparr>inbufptr := n\<rparr>) = delivered s" "delivered (s\<lparr>inbuf := b\<rparr>) = delivered s"
  by (simp_all add: delivered_def emit_def map_filter_def)

lemma packet_length: "recv_full_ok s \<Longrightarrow> length (packet s) = inbufptr s"
  by (simp add: recv_full_ok_def packet_def)

lemma ip6_not_text: "q \<noteq> [] \<Longrightarrow> hd q = 0x60 \<Longrightarrow> \<not> is_sensible_string q"
  by (simp add: is_sensible_string_def)

lemma store_char_packet:
  assumes ok: "recv_ok s" and ip6: "hd (packet s @ [c]) = 0x60"
  shows "\<exists>s'. store_char conf c s = Inr s' \<and> packet s' = packet s @ [c] \<and> recv_full_ok s' \<and> delivered s' = delivered s"
proof -
  define s1 where "s1 = s\<lparr>inbuf := (inbuf s)[inbufptr s := c], inbufptr := inbufptr s + 1\<rparr>"
  have b: "inbufptr s < length (inbuf s)" "length (inbuf s) = INBUF_SIZE" using ok by (simp_all add: recv_ok_def)
  have p: "packet s1 = packet s @ [c]" using b by (simp add: s1_def packet_def take_Suc_conv_app_nth)
  have ok1: "recv_full_ok s1" "delivered s1 = delivered s" using b by (simp_all add: s1_def recv_full_ok_def)
  have e: "packet (emit e s1) = packet s1" "recv_full_ok (emit e s1) = recv_full_ok s1" for e
    by (simp_all add: packet_def emit_def recv_full_ok_def)
  have "store_char conf c s = Inr s1 \<or> store_char conf c s = Inr (emit (Printed [c]) s1)"
    using b(1) ip6_not_text [of "packet s1"] ip6 p unfolding store_char_def Let_def s1_def [symmetric] by simp
  then show ?thesis using p ok1 e by (elim disjE) simp_all
qed

lemma unescape_codes [simp]: "unescape SLIP_ESC_END = SLIP_END" "unescape SLIP_ESC_ESC = SLIP_ESC"
  by (simp_all add: unescape_def slip_codes)

lemma serial_loop_code:
  "serial_loop conf dev (slip_code c @ rest) s = and_then (store_char conf c s) (\<lambda>s1. serial_loop conf dev rest (drop_large s1))"
  by (simp add: slip_code_def) (simp add: slip_codes unescape_def)

lemma drop_large_small [simp]: "inbufptr s < INBUF_SIZE \<Longrightarrow> drop_large s = s"
  by (simp add: drop_large_def)

text \<open>The marks of the other kinds of input are none of an IPv6 packet.\<close>

lemma slip_packet_ip6:
  assumes "recv_ok s" and "packet s \<noteq> []" and "hd (packet s) = 0x60" and "tun_takes conf (packet s)"
  shows "slip_packet conf dev s = Inr ((emit (To_tun (packet s)) s)\<lparr>inbufptr := 0\<rparr>)"
proof -
  have "inbufptr s > 0" "inbuf s ! 0 = 0x60"
    using assms(2,3) by (auto simp: packet_def hd_conv_nth)
  then show ?thesis using assms ip6_not_text [OF assms(2,3)] by (simp add: slip_packet_def)
qed

lemma serial_loop_frame:
  "recv_ok s \<Longrightarrow> q = packet s @ p \<Longrightarrow> q \<noteq> [] \<Longrightarrow> hd q = 0x60 \<Longrightarrow> length q < INBUF_SIZE \<Longrightarrow> tun_takes conf q \<Longrightarrow>
   \<exists>s'. serial_loop conf dev (slip_frame p @ rest) s = serial_loop conf dev rest s'
     \<and> recv_ok s' \<and> inbufptr s' = 0 \<and> delivered s' = delivered s @ [q]"
proof (induction p arbitrary: s)
  case Nil
  define s' where "s' = (emit (To_tun q) s)\<lparr>inbufptr := 0\<rparr>"
  have "slip_packet conf dev s = Inr s'" using slip_packet_ip6 [of s conf dev] Nil by (simp add: s'_def)
  moreover have "inbufptr s' = 0" "recv_ok s'" "delivered s' = delivered s @ [q]"
    using Nil(1) by (simp_all add: s'_def recv_ok_def emit_def INBUF_SIZE_def) (simp add: delivered_def map_filter_def)
  ultimately show ?case by (auto simp: slip_frame_def recv_ok_def)
next
  case (Cons c p)
  have "hd (packet s @ [c]) = 0x60" using Cons.prems(2-4) by (cases "packet s") auto
  from store_char_packet [OF Cons.prems(1) this, of conf] obtain s1 where
    s1: "store_char conf c s = Inr s1" "packet s1 = packet s @ [c]" "recv_full_ok s1" "delivered s1 = delivered s" by blast
  have "inbufptr s1 < INBUF_SIZE" using packet_length [OF s1(3)] s1(2) Cons.prems(2,5) by simp
  then have ok: "recv_ok s1" "drop_large s1 = s1" using s1(3) by (simp_all add: recv_ok_def recv_full_ok_def)
  have "serial_loop conf dev (slip_frame (c # p) @ rest) s = serial_loop conf dev (slip_frame p @ rest) s1"
    using serial_loop_code [of conf dev c "slip_frame p @ rest" s] s1(1) ok(2) by (simp add: slip_frame_def)
  then show ?case using Cons.IH [OF ok(1)] s1(2,4) Cons.prems by simp
qed

definition ip6_packet :: "tun_conf \<Rightarrow> u8 list \<Rightarrow> bool" where
  "ip6_packet conf p \<longleftrightarrow> p \<noteq> [] \<and> hd p = 0x60 \<and> length p < INBUF_SIZE \<and> tun_takes conf p"

lemma serial_loop_frames:
  "recv_ok s \<Longrightarrow> inbufptr s = 0 \<Longrightarrow> list_all (ip6_packet conf) ps \<Longrightarrow>
   \<exists>s'. serial_loop conf dev (concat (map slip_frame ps)) s = Inr ([], s')
     \<and> recv_ok s' \<and> inbufptr s' = 0 \<and> delivered s' = delivered s @ ps"
proof (induction ps arbitrary: s)
  case (Cons p ps)
  have "packet s = []" using Cons.prems(2) by (simp add: packet_def)
  then obtain s1 where s1: "serial_loop conf dev (slip_frame p @ concat (map slip_frame ps)) s = serial_loop conf dev (concat (map slip_frame ps)) s1"
    "recv_ok s1" "inbufptr s1 = 0" "delivered s1 = delivered s @ [p]"
    using serial_loop_frame [OF Cons.prems(1), of p p conf dev] Cons.prems(3) by (auto simp: ip6_packet_def)
  then show ?case using Cons.IH [OF s1(2,3)] Cons.prems(3) by simp
qed simp

text \<open>Sending several packets one after the other.\<close>

fun send_packets :: "device \<Rightarrow> u8 list list \<Rightarrow> tunslip6 \<Rightarrow> tun_error + tunslip6" where
  "send_packets dev [] s = Inr s"
| "send_packets dev (p # ps) s = and_then (tun_to_serial dev (Some p) s) (send_packets dev ps)"

lemma send_packets_stream:
  "slip_ok s \<Longrightarrow> send_packets dev ps s = Inr s' \<Longrightarrow> list_all (\<lambda>p. length p \<le> 2000) ps \<Longrightarrow>
   slip_ok s' \<and> stream s' = stream s @ concat (map slip_frame ps)"
proof (induction ps arbitrary: s)
  case (Cons p ps)
  obtain s1 where s1: "write_to_serial dev p s = Inr s1" "send_packets dev ps s1 = Inr s'"
    using Cons.prems(2,3) by (auto simp: and_then_Inr tun_to_serial_def)
  have "slip_ok s1 \<and> stream s1 = stream s @ slip_frame p" by (rule write_to_serial_stream [OF Cons.prems(1) s1(1)])
  then show ?case using Cons.IH [OF _ s1(2)] Cons.prems(3) by simp
qed simp

lemma send_packets_accepted:
  assumes "accepts_all dev"
  shows "slip_ok s \<Longrightarrow> slip_end s < SLIP_BUF_SIZE \<Longrightarrow> \<exists>s'. send_packets dev ps s = Inr s'"
proof (induction ps arbitrary: s)
  case (Cons p ps)
  obtain s1 where s1: "write_to_serial dev (take 2000 p) s = Inr s1" "slip_end s1 < SLIP_BUF_SIZE"
    using write_to_serial_accepted [OF assms Cons.prems] by blast
  have "slip_ok s1" using write_to_serial_stream [OF Cons.prems(1) s1(1)] by simp
  then show ?case using Cons.IH [OF _ s1(2)] s1(1) by (simp add: tun_to_serial_def)
qed simp

text \<open>
  A packet of exactly 2000 bytes, which the sending side does send, is thrown away by the receiving side: the buffer is
  full before the end of the packet is seen.
\<close>

lemma full_buffer_dropped:
  assumes "recv_ok s" and "inbufptr s = INBUF_SIZE - 1" and "verbose conf = 1"
  shows "\<exists>s'. serial_loop conf dev (slip_code c @ [SLIP_END]) s = Inr ([], s') \<and> inbufptr s' = 0 \<and> events s' = events s"
proof -
  define s1 where "s1 = s\<lparr>inbuf := (inbuf s)[inbufptr s := c], inbufptr := inbufptr s + 1\<rparr>"
  have "store_char conf c s = Inr s1" using assms by (simp add: store_char_def recv_ok_def s1_def)
  moreover have "drop_large s1 = s1\<lparr>inbufptr := 0\<rparr>" using assms(2) by (simp add: drop_large_def s1_def INBUF_SIZE_def)
  ultimately show ?thesis unfolding serial_loop_code by (simp add: slip_packet_def s1_def INBUF_SIZE_def)
qed

section \<open>The link-local address of a full address\<close>

text \<open>An address that is written with all its eight groups loses the last one.\<close>

lemma lladdr_full_address:
  assumes "lladdr_parse ipaddr 0 False 0 (replicate 8 0) = (7, 0, a)" and "length a = 8"
  shows "lladdr_groups ipaddr = a[7 := 0]" and "lladdr ipaddr ! 3 = 0"
proof -
  show "lladdr_groups ipaddr = a[7 := 0]" using assms by (simp add: lladdr_groups_def lladdr_step_def)
  then show "lladdr ipaddr ! 3 = 0" using assms(2) by (simp add: lladdr_def)
qed

lemma lladdr_full_example:
  "lladdr_groups (map of_char ''fd00:1:2:3:4:5:6:7'') = [0xFD00, 1, 2, 3, 4, 5, 6, 0]"
  "lladdr_groups (map of_char ''fd00:1::6:7/64'') = [0xFD00, 1, 0, 0, 0, 0, 6, 7]"
  by code_simp+

section \<open>Whole packets on the line\<close>

text \<open>What is sent between two states is a sequence of whole frames of packets from a set.\<close>

definition grows :: "u8 list set \<Rightarrow> tunslip6 \<Rightarrow> tunslip6 \<Rightarrow> bool" where
  "grows Q s s' \<longleftrightarrow> slip_ok s' \<and> (\<exists>ps. set ps \<subseteq> Q \<and> stream s' = stream s @ concat (map slip_frame ps))"

lemma grows_refl: "slip_ok s' \<Longrightarrow> stream s' = stream s \<Longrightarrow> grows Q s s'"
  unfolding grows_def by (rule conjI, assumption, rule exI [of _ "[]"]) simp

lemma grows_one: "slip_ok s' \<Longrightarrow> stream s' = stream s @ slip_frame p \<Longrightarrow> p \<in> Q \<Longrightarrow> grows Q s s'"
  unfolding grows_def by (rule conjI, assumption, rule exI [of _ "[p]"]) simp

lemma grows_trans: "grows Q s s' \<Longrightarrow> grows Q s' s'' \<Longrightarrow> grows Q s s''"
proof -
  assume a: "grows Q s s'" "grows Q s' s''"
  obtain ps where ps: "set ps \<subseteq> Q" "stream s' = stream s @ concat (map slip_frame ps)" using a(1) by (auto simp: grows_def)
  obtain qs where qs: "set qs \<subseteq> Q" "stream s'' = stream s' @ concat (map slip_frame qs)" "slip_ok s''" using a(2) by (auto simp: grows_def)
  show ?thesis unfolding grows_def using ps qs by (intro conjI exI [of _ "ps @ qs"]) auto
qed

lemma grows_ok: "grows Q s s' \<Longrightarrow> slip_ok s'"
  by (simp add: grows_def)

lemma input_fields [simp]:
  "slip_ok (s\<lparr>inbufptr := n\<rparr>) = slip_ok s" "stream (s\<lparr>inbufptr := n\<rparr>) = stream s"
  "slip_ok (s\<lparr>inbuf := b\<rparr>) = slip_ok s" "stream (s\<lparr>inbuf := b\<rparr>) = stream s"
  "slip_ok (emit e s) = slip_ok s" "stream (emit e s) = stream s"
  "slip_ok (drop_large s) = slip_ok s" "stream (drop_large s) = stream s"
  by (simp_all add: slip_ok_def stream_def queued_def emit_def drop_large_def)

lemma store_char_grows: "slip_ok s \<Longrightarrow> store_char conf c s = Inr s' \<Longrightarrow> grows Q s s'"
  by (auto simp: store_char_def Let_def intro!: grows_refl split: if_splits)

text \<open>The answer to a request for the prefix.\<close>

definition prefix_reply :: "tun_conf \<Rightarrow> u8 list" where
  "prefix_reply conf = 0x21 # 0x50 # take 8 (prefix_addr conf)"

lemma send_chars_write_loop: "send_chars dev cs s = write_loop dev cs s"
  by (induction cs arbitrary: s) (simp_all add: and_then_def split: sum.splits)

lemma send_prefix_frame: "send_prefix conf dev s = write_to_serial dev (prefix_reply conf) s"
proof -
  have "slip_send_char dev 0x21 = (slip_send dev 0x21 :: tunslip6 \<Rightarrow> _)" "slip_send_char dev 0x50 = (slip_send dev 0x50 :: tunslip6 \<Rightarrow> _)"
    by (simp_all add: fun_eq_iff slip_send_char_def slip_codes)
  then show ?thesis by (simp add: send_prefix_def write_to_serial_def prefix_reply_def send_chars_write_loop and_then_assoc)
qed

lemma slip_packet_grows:
  assumes "slip_ok s" and "prefix_reply conf \<in> Q" and "slip_packet conf dev s = Inr s'"
  shows "grows Q s s'"
proof -
  have "grows Q s (s1\<lparr>inbufptr := 0\<rparr>)" if "send_prefix conf dev s = Inr s1" for s1
    using write_to_serial_stream [OF assms(1), of dev "prefix_reply conf" s1] that assms(2)
    by (auto simp: send_prefix_frame intro!: grows_one)
  then show ?thesis using assms(1,3)
    by (auto simp: slip_packet_def and_then_Inr intro: grows_refl split: if_splits)
qed

lemma serial_loop_grows:
  "slip_ok s \<Longrightarrow> prefix_reply conf \<in> Q \<Longrightarrow> serial_loop conf dev cs s = Inr (rest, s') \<Longrightarrow> grows Q s s'"
proof (induction conf dev cs s rule: serial_loop.induct)
  case (1 conf dev s)
  then show ?case by (simp add: grows_refl)
next
  case (2 conf dev c cs s)
  have next_char: "grows Q s s'" if "grows Q s s1" "slip_ok (drop_large s1) \<Longrightarrow> grows Q (drop_large s1) s'" for s1
    using grows_trans [OF that(1), of s'] that grows_ok [OF that(1)] by (simp add: grows_def)
  consider "c = SLIP_END" | "c \<noteq> SLIP_END" "c = SLIP_ESC" | "c \<noteq> SLIP_END" "c \<noteq> SLIP_ESC" by blast
  then show ?case
  proof cases
    case 1
    then obtain s1 where s1: "slip_packet conf dev s = Inr s1" "serial_loop conf dev cs (drop_large s1) = Inr (rest, s')"
      using 2(6) by (auto simp: and_then_Inr)
    show ?thesis by (rule next_char [OF slip_packet_grows [OF 2(4,5) s1(1)] 2(1) [OF 1 _ 2(5) s1(2)]])
  next
    case b: 2
    show ?thesis
    proof (cases cs)
      case Nil
      then show ?thesis using b 2(4,6) by (auto intro: grows_refl)
    next
      case (Cons d ds)
      then obtain s1 where s1: "store_char conf (unescape d) s = Inr s1" "serial_loop conf dev ds (drop_large s1) = Inr (rest, s')"
        using 2(6) b by (auto simp: and_then_Inr)
      show ?thesis by (rule next_char [OF store_char_grows [OF 2(4) s1(1)] 2(2) [OF b Cons _ 2(5) s1(2)]])
    qed
  next
    case b: 3
    then obtain s1 where s1: "store_char conf c s = Inr s1" "serial_loop conf dev cs (drop_large s1) = Inr (rest, s')"
      using 2(6) by (auto simp: and_then_Inr)
    show ?thesis by (rule next_char [OF store_char_grows [OF 2(4) s1(1)] 2(3) [OF b _ 2(5) s1(2)]])
  qed
qed

lemma slip_flushbuf_grows: "slip_ok s \<Longrightarrow> slip_flushbuf dev s = Inr s' \<Longrightarrow> grows Q s s'"
  using slip_flushbuf_keeps(1,2) by (blast intro: grows_refl)

section \<open>Rounds of the main loop\<close>

definition tun_main_ok :: "tun_main \<Rightarrow> bool" where
  "tun_main_ok m \<longleftrightarrow> slip_ok (both m) \<and> recv_ok (both m)"

definition tun_packets :: "tun_select \<Rightarrow> u8 list set" where
  "tun_packets sel = {p. \<exists>q. tun_in sel = Some (Some q) \<and> p = take 2000 q}"

text \<open>A result that is not outside an array, and whose output grew by whole frames.\<close>

definition round_ok :: "u8 list set \<Rightarrow> tun_main \<Rightarrow> tun_error + tun_main \<Rightarrow> bool" where
  "round_ok Q m r \<longleftrightarrow> (case r of Inl e \<Rightarrow> e \<noteq> Out_of_bounds | Inr m' \<Rightarrow> tun_main_ok m' \<and> grows Q (both m) (both m'))"

lemma round_ok_then:
  "round_ok Q m r \<Longrightarrow> (\<And>m'. r = Inr m' \<Longrightarrow> tun_main_ok m' \<Longrightarrow> round_ok Q m' (f m')) \<Longrightarrow> round_ok Q m (and_then r f)"
  by (cases r) (auto simp: round_ok_def intro: grows_trans split: sum.splits)

lemma round_ok_slip:
  assumes "tun_main_ok m" and "sends (both m) r" and "\<And>s'. r = Inr s' \<Longrightarrow> grows Q (both m) s'"
  shows "round_ok Q m (and_then r (\<lambda>s. Inr (m\<lparr>both := s\<rparr>)))"
proof (cases r)
  case (Inl e)
  then show ?thesis using assms(2) by (simp add: round_ok_def sends_def)
next
  case (Inr s')
  then have "same_input (both m) s'" "grows Q (both m) s'" using assms(2,3) by (simp_all add: sends_def)
  then show ?thesis using Inr assms(1) by (simp add: round_ok_def tun_main_ok_def grows_ok recv_ok_def same_input_def)
qed

lemma round_ok_serial:
  assumes "tun_main_ok m" and "prefix_reply conf \<in> Q"
  shows "round_ok Q m (and_then (serial_to_tun conf dev bs (both m)) (\<lambda>(rest, s). Inr (m\<lparr>both := s, inslip := rest\<rparr>)))"
proof -
  have ok: "slip_ok (both m)" "recv_ok (both m)" using assms(1) by (simp_all add: tun_main_ok_def)
  show ?thesis
  proof (cases "bs = []")
    case True
    then show ?thesis by (simp add: round_ok_def serial_to_tun_def)
  next
    case False
    then show ?thesis using serial_loop_ok [OF ok(2), of conf dev bs] serial_loop_grows [OF ok(1) assms(2), of dev bs]
      by (cases "serial_loop conf dev bs (both m)") (auto simp: round_ok_def serial_to_tun_def tun_main_ok_def grows_ok)
  qed
qed

lemma sends_write_loop: "sends s (write_loop dev p s)"
  using sends_chars [of s dev p] by (simp add: send_chars_write_loop)

lemma sends_tun: "sends s (tun_to_serial dev infd s)"
  by (auto simp: tun_to_serial_def write_to_serial_def sends_def [of s "Inl Err_read"] split: option.splits
      intro!: sends_then sends_write_loop sends_send)

lemma delay_check_both [simp]: "both (delay_check tv m) = both m"
  by (simp add: delay_check_def Let_def)

lemma tun_round_ok:
  assumes "tun_main_ok m" and "prefix_reply conf \<in> Q" and "tun_packets sel \<subseteq> Q"
  shows "round_ok Q m (tun_round conf dev basedelay sel m)"
proof -
  have stay: "round_ok Q m' (Inr m'')" if "tun_main_ok m'" "both m'' = both m'" for m' m''
    using that by (simp add: round_ok_def tun_main_ok_def grows_refl)
  have flush: "round_ok Q m' (and_then (slip_flushbuf dev (both m')) (\<lambda>s. Inr (m'\<lparr>both := s\<rparr>)))" if "tun_main_ok m'" for m'
    by (rule round_ok_slip [OF that sends_flush]) (use that in \<open>auto simp: tun_main_ok_def intro: slip_flushbuf_grows\<close>)
  have tail: "round_ok Q m' (and_then (tun_to_serial dev x (both m')) (\<lambda>s1. and_then (slip_flushbuf dev s1) (\<lambda>s2. Inr (g s2))))"
    if ok: "tun_main_ok m'" and x: "tun_in sel = Some x" and g: "\<And>s. both (g s) = s" for m' x g
  proof -
    have "sends (both m') (and_then (tun_to_serial dev x (both m')) (slip_flushbuf dev))"
      by (intro sends_then sends_tun sends_flush)
    moreover have "grows Q (both m') s'" if t: "and_then (tun_to_serial dev x (both m')) (slip_flushbuf dev) = Inr s'" for s'
    proof -
      obtain p s1 where p: "x = Some p" "write_to_serial dev (take 2000 p) (both m') = Inr s1" "slip_flushbuf dev s1 = Inr s'"
        using t by (auto simp: and_then_Inr tun_to_serial_def split: option.splits)
      have w: "slip_ok s1 \<and> stream s1 = stream (both m') @ slip_frame (take 2000 p)"
        using write_to_serial_stream [OF _ p(2)] ok by (simp add: tun_main_ok_def)
      have "take 2000 p \<in> Q" using assms(3) x p(1) by (auto simp: tun_packets_def)
      then show ?thesis using w grows_one grows_trans slip_flushbuf_grows [OF _ p(3)] by blast
    qed
    ultimately have "round_ok Q m' (and_then (and_then (tun_to_serial dev x (both m')) (slip_flushbuf dev)) (\<lambda>s. Inr (m'\<lparr>both := s\<rparr>)))"
      using ok by (rule round_ok_slip [rotated])
    then show ?thesis using g by (auto simp: round_ok_def tun_main_ok_def and_then_def split: sum.splits)
  qed
  show ?thesis
    unfolding tun_round_def Let_def
  proof (intro round_ok_then)
    show "round_ok Q m (case slip_in sel of None \<Rightarrow> Inr m
      | Some bs \<Rightarrow> and_then (serial_to_tun conf dev (inslip m @ bs) (both m)) (\<lambda>(rest, s). Inr (m\<lparr>both := s, inslip := rest\<rparr>)))"
      using stay [OF assms(1), of m] round_ok_serial [OF assms(1,2)] by (simp split: option.split)
  next
    fix m1
    assume "tun_main_ok m1"
    then show "round_ok Q m1 (if \<not> slip_empty (both m) \<and> slip_writable sel
        then and_then (slip_flushbuf dev (both m1)) (\<lambda>s. Inr (m1\<lparr>both := s\<rparr>)) else Inr m1)"
      using flush [of m1] stay [of m1 m1] by simp
  next
    fix m1 m2
    assume ok: "tun_main_ok m2"
    define m3 where "m3 = delay_check (now sel) m2"
    have "tun_main_ok m3" "both m3 = both m2" using ok by (simp_all add: m3_def tun_main_ok_def)
    moreover have "round_ok Q m2 r = round_ok Q m3 r" for r using calculation(2) by (simp add: round_ok_def split: sum.split)
    ultimately show "round_ok Q m2 (if delaymsec (delay_check (now sel) m2) = 0 \<and> slip_empty (both (delay_check (now sel) m2))
          \<and> (if slip_empty (both m) then tun_in sel else None) \<noteq> None then
          and_then (tun_to_serial dev (the (if slip_empty (both m) then tun_in sel else None)) (both (delay_check (now sel) m2))) (\<lambda>s1.
          and_then (slip_flushbuf dev s1) (\<lambda>s2. Inr (if basedelay \<noteq> 0
            then (delay_check (now sel) m2)\<lparr>both := s2, delaymsec := basedelay, delaystartsec := of_int (fst (now2 sel)),
              delaystartmsec := of_int (snd (now2 sel) div 1000)\<rparr> else (delay_check (now sel) m2)\<lparr>both := s2\<rparr>)))
        else Inr (delay_check (now sel) m2))"
      using tail [of m3 "the (tun_in sel)"] stay [of m3 m3] unfolding m3_def [symmetric] by (auto split: if_splits)
  qed
qed

text \<open>Any number of rounds.\<close>

fun tun_rounds :: "tun_conf \<Rightarrow> device \<Rightarrow> u16 \<Rightarrow> tun_select list \<Rightarrow> tun_main \<Rightarrow> tun_error + tun_main" where
  "tun_rounds conf dev basedelay [] m = Inr m"
| "tun_rounds conf dev basedelay (sel # sels) m =
     and_then (tun_round conf dev basedelay sel m) (tun_rounds conf dev basedelay sels)"

lemma tun_rounds_ok:
  "tun_main_ok m \<Longrightarrow> prefix_reply conf \<in> Q \<Longrightarrow> (\<Union>sel \<in> set sels. tun_packets sel) \<subseteq> Q \<Longrightarrow>
   round_ok Q m (tun_rounds conf dev basedelay sels m)"
proof (induction sels arbitrary: m)
  case Nil
  then show ?case by (simp add: round_ok_def tun_main_ok_def grows_refl)
next
  case (Cons sel sels)
  have "round_ok Q m (tun_round conf dev basedelay sel m)" using tun_round_ok Cons.prems by simp
  then show ?case using Cons by (auto intro: round_ok_then)
qed

end
