(* ===== verification/Tapslip6.thy ===== *)
theory Tapslip6
  imports Tunslip6
begin

text \<open>
  \<open>dist/tools/tunslip/tapslip6.c\<close>, the variant for a network device with hardware addresses. Its state is that of
  \<open>tunslip6\<close>; the output queue is not flushed when it is full, text is recognised differently, and the program ends when
  nothing more can be read.
\<close>

section \<open>Sending\<close>

definition tap_slip_send :: "u8 \<Rightarrow> tunslip6 \<Rightarrow> tun_error + tunslip6" where
  "tap_slip_send c s = (if slip_end s \<ge> SLIP_BUF_SIZE then Inl Err_slip_overflow else Inr (slip_put c s))"

fun tap_write_loop :: "u8 list \<Rightarrow> tunslip6 \<Rightarrow> tun_error + tunslip6" where
  "tap_write_loop [] s = Inr s"
| "tap_write_loop (c # cs) s =
     and_then
       (if c = SLIP_END then and_then (tap_slip_send SLIP_ESC s) (tap_slip_send SLIP_ESC_END)
        else if c = SLIP_ESC then and_then (tap_slip_send SLIP_ESC s) (tap_slip_send SLIP_ESC_ESC)
        else tap_slip_send c s)
       (tap_write_loop cs)"

definition tap_write_to_serial :: "u8 list \<Rightarrow> tunslip6 \<Rightarrow> tun_error + tunslip6" where
  "tap_write_to_serial p s = and_then (tap_write_loop p s) (tap_slip_send SLIP_END)"

definition tap_tun_to_serial :: "u8 list option \<Rightarrow> tunslip6 \<Rightarrow> tun_error + tunslip6" where
  "tap_tun_to_serial infd s = (case infd of None \<Rightarrow> Inl Err_read | Some p \<Rightarrow> tap_write_to_serial (take 2000 p) s)"

section \<open>Receiving\<close>

fun tap_sensible_loop :: "u8 list \<Rightarrow> bool" where
  "tap_sensible_loop [] = True"
| "tap_sensible_loop (c # cs) =
     (if c = 0 \<or> c = 13 \<or> c = 10 \<or> c = 9 then tap_sensible_loop cs
      else if c < 32 \<or> 126 < c then False
      else tap_sensible_loop cs)"

definition tap_is_sensible_string :: "u8 list \<Rightarrow> bool" where
  "tap_is_sensible_string s = tap_sensible_loop (drop 1 s)"

definition tap_packet :: "tun_conf \<Rightarrow> tunslip6 \<Rightarrow> tun_error + tunslip6" where
  "tap_packet conf s =
     (if inbufptr s > 0 then
        and_then
          (if inbuf s ! 0 = 0x21 then
             Inr (if inbuf s ! 1 = 0x4D then emit (Set_mac (gateway_mac (inbuf s))) s else s)
           else if inbuf s ! 0 = 13 then Inr (emit (Printed (drop 1 (packet s))) s)
           else if tap_is_sensible_string (packet s) then Inr (emit (Printed (packet s)) s)
           else if tun_takes conf (packet s) then Inr (emit (To_tun (packet s)) s)
           else Inl Err_write)
          (\<lambda>s1. Inr (s1\<lparr>inbufptr := 0\<rparr>))
      else Inr s)"

definition tap_store :: "u8 \<Rightarrow> tunslip6 \<Rightarrow> tun_error + tunslip6" where
  "tap_store c s =
     (if inbufptr s \<ge> length (inbuf s) then Inl Out_of_bounds
      else Inr (s\<lparr>inbuf := (inbuf s)[inbufptr s := c], inbufptr := inbufptr s + 1\<rparr>))"

fun tap_serial_loop :: "tun_conf \<Rightarrow> u8 list \<Rightarrow> tunslip6 \<Rightarrow> tun_error + u8 list \<times> tunslip6" where
  "tap_serial_loop conf [] s = Inl Err_eof"
| "tap_serial_loop conf (c # cs) s =
     (if c = SLIP_END then and_then (tap_packet conf s) (\<lambda>s1. tap_serial_loop conf cs (drop_large s1))
      else if c = SLIP_ESC then
        (case cs of
           [] \<Rightarrow> Inr ([SLIP_ESC], s)
         | d # ds \<Rightarrow> and_then (tap_store (unescape d) s) (\<lambda>s1. tap_serial_loop conf ds (drop_large s1)))
      else and_then (tap_store c s) (\<lambda>s1. tap_serial_loop conf cs (drop_large s1)))"

definition tap_serial_to_tun :: "tun_conf \<Rightarrow> u8 list \<Rightarrow> tunslip6 \<Rightarrow> tun_error + u8 list \<times> tunslip6" where
  "tap_serial_to_tun conf inp s = (if inp = [] then Inl Err_read else tap_serial_loop conf inp s)"

section \<open>The main loop\<close>

fun tap_send_all :: "u8 list \<Rightarrow> tunslip6 \<Rightarrow> tun_error + tunslip6" where
  "tap_send_all [] s = Inr s"
| "tap_send_all (c # cs) s = and_then (tap_slip_send c s) (tap_send_all cs)"

text \<open>\<open>?M\<close> and \<open>?IPA\<close>.\<close>

definition tap_requests :: "bool \<Rightarrow> bool \<Rightarrow> tunslip6 \<Rightarrow> tun_error + tunslip6" where
  "tap_requests request_mac got_sigalarm s =
     and_then (if request_mac then tap_send_all [0x3F, 0x4D, SLIP_END] s else Inr s)
       (\<lambda>s1. if got_sigalarm then tap_send_all [0x3F, 0x49, 0x50, 0x41, SLIP_END] s1 else Inr s1)"

definition tap_round ::
    "tun_conf \<Rightarrow> device \<Rightarrow> bool \<Rightarrow> bool \<Rightarrow> tun_select \<Rightarrow> u8 list \<times> tunslip6 \<Rightarrow> tun_error + u8 list \<times> tunslip6" where
  "tap_round conf dev request_mac got_sigalarm sel = (\<lambda>(inp, s0).
     and_then (tap_requests request_mac got_sigalarm s0) (\<lambda>s.
     let wset = \<not> slip_empty s \<and> slip_writable sel;
         tunset = (if slip_empty s then tun_in sel else None)
     in
     and_then (case slip_in sel of None \<Rightarrow> Inr (inp, s) | Some bs \<Rightarrow> tap_serial_to_tun conf (inp @ bs) s) (\<lambda>(inp1, s1).
     and_then (if wset then slip_flushbuf dev s1 else Inr s1) (\<lambda>s2.
     and_then
       (if slip_empty s2 \<and> tunset \<noteq> None then and_then (tap_tun_to_serial (the tunset) s2) (slip_flushbuf dev) else Inr s2) (\<lambda>s3.
     Inr (inp1, s3))))))"

section \<open>Properties\<close>

text \<open>
  The receiving function returns only when the input ends in the middle of an escape sequence; otherwise the program
  ends.
\<close>

lemma tap_serial_exits: "tap_serial_loop conf cs s = Inr (rest, s') \<Longrightarrow> rest = [SLIP_ESC] \<and> last cs = SLIP_ESC"
proof (induction conf cs s rule: tap_serial_loop.induct)
  case (2 conf c cs s)
  consider "c = SLIP_END" | "c \<noteq> SLIP_END" "c = SLIP_ESC" | "c \<noteq> SLIP_END" "c \<noteq> SLIP_ESC" by blast
  then show ?case
  proof cases
    case 1
    then show ?thesis using 2(1) [OF 1] 2(4) by (cases cs) (auto simp: and_then_Inr)
  next
    case b: 2
    show ?thesis
    proof (cases cs)
      case Nil
      then show ?thesis using b 2(4) by auto
    next
      case (Cons d ds)
      then show ?thesis using 2(2) [OF b Cons] 2(4) b by (cases ds) (auto simp: and_then_Inr)
    qed
  next
    case b: 3
    then show ?thesis using 2(3) [OF b] 2(4) by (cases cs) (auto simp: and_then_Inr)
  qed
qed simp

text \<open>As long as the queue does not overflow, the sending side agrees with that of \<open>tunslip6\<close>.\<close>

lemma tap_slip_send_same: "slip_end s + 1 < SLIP_BUF_SIZE \<Longrightarrow> tap_slip_send c s = slip_send dev c s"
  by (simp add: tap_slip_send_def slip_send_room)

lemma tap_write_same:
  "slip_end s + length (slip_frame p) < SLIP_BUF_SIZE \<Longrightarrow> tap_write_to_serial p s = write_to_serial dev p s"
proof (induction p arbitrary: s)
  case Nil
  then show ?case by (simp add: tap_write_to_serial_def write_to_serial_def tap_slip_send_same slip_frame_def)
next
  case (Cons c p)
  have l: "slip_end s + length (slip_code c) < SLIP_BUF_SIZE" using Cons.prems by (simp add: slip_frame_def)
  obtain s1 where s1: "slip_send_char dev c s = Inr s1" "slip_end s1 = slip_end s + length (slip_code c)"
    using slip_send_char_room [OF l] by blast
  have two: "and_then (tap_slip_send a s) (tap_slip_send b) = and_then (slip_send dev a s) (slip_send dev b)"
    if "slip_end s + 2 < SLIP_BUF_SIZE" for a b
    using that by (simp add: tap_slip_send_def slip_send_room)
  have "(if c = SLIP_END then and_then (tap_slip_send SLIP_ESC s) (tap_slip_send SLIP_ESC_END)
      else if c = SLIP_ESC then and_then (tap_slip_send SLIP_ESC s) (tap_slip_send SLIP_ESC_ESC) else tap_slip_send c s) = Inr s1"
    using l s1(1) by (simp add: slip_send_char_def slip_code_def two tap_slip_send_same [of s c dev] split: if_splits)
  moreover have "slip_end s1 + length (slip_frame p) < SLIP_BUF_SIZE" using s1(2) Cons.prems by (simp add: slip_frame_def)
  ultimately show ?case using Cons.IH [of s1] s1(1) by (simp add: tap_write_to_serial_def write_to_serial_def)
qed

text \<open>A packet of one byte counts as text, and so does every packet of printable characters and zeros but for the first byte.\<close>

lemma tap_single_byte_is_text: "tap_is_sensible_string [c]"
  by (simp add: tap_is_sensible_string_def)

end
