(* ===== verification/Tunslip4.thy ===== *)
theory Tunslip4
  imports Slip
begin

text \<open>
  \<open>dist/tools/tunslip/tunslip.c\<close>: IPv4 packets between a tunnel device and a serial line, with a DHCP relay. Packets are
  checked on their way; the checksum and the checks of \<open>check_ip\<close> work on the receive buffer as an array, so that a length
  field that points behind it shows. The host is little-endian. The sockets and the tunnel device are parameters: what
  they accept is a predicate on messages.
\<close>

section \<open>Checksums\<close>

definition be16 :: "u8 \<Rightarrow> u8 \<Rightarrow> u16" where
  "be16 a b = push_bit 8 (ucast a) + ucast b"

definition be_bytes :: "u16 \<Rightarrow> u8 list" where
  "be_bytes v = [ucast (drop_bit 8 v), ucast v]"

text \<open>Adding with the carry brought round.\<close>

definition carry_add :: "u16 \<Rightarrow> u16 \<Rightarrow> u16" where
  "carry_add acc t = (let acc' = acc + t in if acc' < t then acc' + 1 else acc')"

fun ip4sum :: "u16 \<Rightarrow> u8 list \<Rightarrow> u16" where
  "ip4sum acc (a # b # p) = ip4sum (carry_add acc (be16 a b)) p"
| "ip4sum acc [a] = carry_add acc (be16 a 0)"
| "ip4sum acc [] = acc"

text \<open>\<open>len\<close> bytes of the array from \<open>i\<close> on.\<close>

definition bytes_at :: "u8 list \<Rightarrow> nat \<Rightarrow> nat \<Rightarrow> tun_error + u8 list" where
  "bytes_at buf i len = (if i + len \<le> length buf then Inr (take len (drop i buf)) else Inl Out_of_bounds)"

definition ip4sum_at :: "u16 \<Rightarrow> u8 list \<Rightarrow> nat \<Rightarrow> u16 \<Rightarrow> tun_error + u16" where
  "ip4sum_at acc buf i len = and_then (bytes_at buf i (unat len)) (\<lambda>p. Inr (ip4sum acc p))"

definition bad_sum :: "u16 \<Rightarrow> bool" where
  "bad_sum acc \<longleftrightarrow> acc \<noteq> 0xFFFF \<and> acc \<noteq> 0"

definition check_ip :: "u8 list \<Rightarrow> nat \<Rightarrow> tun_error + int" where
  "check_ip ip ip_len =
     (if ip ! 0 AND 0xF0 \<noteq> 0x40 then Inr (-1)
      else if unat (be16 (ip ! 2) (ip ! 3)) > ip_len then Inr (-2)
      else if unat (be16 (ip ! 2) (ip ! 3)) < ip_len then Inr (-3)
      else
        let ip_hl = 4 * ucast (ip ! 0 AND 0x0F) :: u16 in
        and_then (ip4sum_at 0 ip 0 ip_hl) (\<lambda>sum.
        if bad_sum sum then Inr (-4)
        else if ip ! 9 = 6 \<or> ip ! 9 = 17 then
          let tcp_len = of_nat ip_len - ip_hl :: u16 in
          and_then (ip4sum_at (ucast (ip ! 9) + tcp_len) ip 12 8) (\<lambda>sum1.
          and_then (ip4sum_at sum1 ip (unat ip_hl) tcp_len) (\<lambda>sum2.
          if bad_sum sum2 then
            (if ip ! 9 = 6 then Inr (-5)
             else if ip ! 26 \<noteq> 0 \<or> ip ! 27 \<noteq> 0 then Inr (-6)
             else Inr 0)
          else Inr 0))
        else if ip ! 9 = 1 then
          let icmp_len = of_nat ip_len - ip_hl :: u16 in
          and_then (ip4sum_at 0 ip (unat ip_hl) icmp_len) (\<lambda>sum1. Inr (if bad_sum sum1 then -7 else 0))
        else Inr 0))"

fun sensible4_loop :: "u8 list \<Rightarrow> bool" where
  "sensible4_loop [] = True"
| "sensible4_loop (c # cs) =
     (if c = 0 \<or> c = 13 \<or> c = 10 \<or> c = 9 then sensible4_loop cs
      else if c < 32 \<or> 126 < c then False
      else sensible4_loop cs)"

text \<open>The loop of this program starts at the second character.\<close>

definition is_sensible_string4 :: "u8 list \<Rightarrow> bool" where
  "is_sensible_string4 s = sensible4_loop (drop 1 s)"

section \<open>The relay\<close>

text \<open>
  A message has 44 bytes up to the hardware address, 192 bytes for names (which the client's light messages do not have),
  and options.
\<close>

definition DHCP_BASE_LEN :: nat where "DHCP_BASE_LEN = 44"
definition DHCP_HOLE_LEN :: nat where "DHCP_HOLE_LEN = 192"
definition DHCP_OPTIONS_SIZE :: nat where "DHCP_OPTIONS_SIZE = 312"

record relay_conf =
  giaddr :: "u8 list"
  netaddr :: "u8 list"
  circuit_addr :: "u8 list"
  dhsock :: bool
  server_takes :: "u8 list \<Rightarrow> bool"
  tun4_takes :: "u8 list \<Rightarrow> bool"

datatype tun4_event = To_tun4 "u8 list" | To_server "u8 list" | Printed4 "u8 list" | Route_delete "u8 list" | Route_add "u8 list"

record tunslip4 = slip_out +
  ibuf :: "u8 list"
  iptr :: nat
  obuf :: "u8 list"
  ipa :: "u8 list"
  ip_id :: u16
  evs :: "tun4_event list"

definition emit4 :: "tun4_event \<Rightarrow> tunslip4 \<Rightarrow> tunslip4" where
  "emit4 e s = s\<lparr>evs := evs s @ [e]\<rparr>"

definition relay_options :: "relay_conf \<Rightarrow> u8 list" where
  "relay_options conf = [118, 4] @ netaddr conf @ [82, 18] @ [5, 4] @ netaddr conf @ [1, 4] @ circuit_addr conf
     @ [3, 4] @ giaddr conf @ [255]"

text \<open>
  The message is put together in an array of 44, 192 and 312 bytes; the options of the client lose their last byte, which
  is taken to be the end mark.
\<close>

definition relay_dhcp_to_server :: "relay_conf \<Rightarrow> nat \<Rightarrow> tunslip4 \<Rightarrow> tun_error + tunslip4" where
  "relay_dhcp_to_server conf len s =
     (if ibuf s ! 28 \<noteq> 1 then Inr s
      else
        let s1 = s\<lparr>ibuf := (ibuf s)[38 := 0x80, 39 := 0]\<rparr>;
            base = take DHCP_BASE_LEN (drop 28 (ibuf s1));
            optlen = int len - 20 - 8 - int DHCP_BASE_LEN
        in
        if optlen < 1 \<or> nat optlen > DHCP_OPTIONS_SIZE \<or> nat optlen - 1 + length (relay_options conf) > DHCP_OPTIONS_SIZE
        then Inl Out_of_bounds
        else
          let options = take (nat optlen - 1) (drop (28 + DHCP_BASE_LEN) (ibuf s1)) @ relay_options conf;
              base1 = base[3 := base ! 3 + 1];
              m = take 24 base1 @ giaddr conf @ drop 28 base1 @ replicate DHCP_HOLE_LEN 0 @ options
          in if server_takes conf m then Inr (emit4 (To_server m) s1) else Inl Err_sendto)"

text \<open>
  The copying of options to the client: \<open>p\<close> is the offset in the message \<open>inm\<close> of 548 bytes and \<open>fin\<close> that of its end, \<open>t\<close> the
  options copied so far, \<open>op\<close> the last option code. A read behind the message and a write behind the 312 bytes of options
  are errors.
\<close>

definition copy_options :: "u8 list \<Rightarrow> u8 list \<Rightarrow> tun_error + u8 list" where
  "copy_options t bs = (if length t + length bs \<le> DHCP_OPTIONS_SIZE then Inr (t @ bs) else Inl Out_of_bounds)"

function relay_loop :: "u8 list \<Rightarrow> nat \<Rightarrow> nat \<Rightarrow> u8 list \<Rightarrow> u8 option \<Rightarrow> u8 \<Rightarrow> tun_error + u8 list \<times> u8 option \<times> u8" where
  "relay_loop inm fin p t op msg_type =
     (if \<not> p < fin then Inr (t, op, msg_type)
      else if p \<ge> length inm then Inl Out_of_bounds
      else if inm ! p = 255 then Inr (t, Some 255, msg_type)
      else if p + 1 \<ge> length inm then Inl Out_of_bounds
      else
        let oc = inm ! p; n = unat (inm ! (p + 1)) + 2 in
        if oc = 53 \<and> p + 2 \<ge> length inm then Inl Out_of_bounds
        else if oc = 53 \<or> oc = 1 \<or> oc = 3 \<or> oc = 51 \<or> oc = 54 then
          and_then (bytes_at inm p n) (\<lambda>bs.
          and_then (copy_options t bs) (\<lambda>t1.
            relay_loop inm fin (p + n) t1 (Some oc) (if oc = 53 then inm ! (p + 2) else msg_type)))
        else if oc = 6 then
          and_then (bytes_at inm (p + 2) 4) (\<lambda>bs.
          and_then (copy_options t (6 # 4 # bs)) (\<lambda>t1. relay_loop inm fin (p + n) t1 (Some oc) msg_type))
        else relay_loop inm fin (p + n) t (Some oc) msg_type)"
  by pat_completeness auto

termination
  by (relation "measure (\<lambda>(inm, fin, p, t, op, msg_type). length inm - p)") auto

declare relay_loop.simps [simp del]

text \<open>The packet to the client, with its checksums.\<close>

definition relay_header :: "relay_conf \<Rightarrow> u16 \<Rightarrow> nat \<Rightarrow> u8 list \<Rightarrow> u16 \<Rightarrow> u8 list" where
  "relay_header conf nid ip_len dst ip_sum =
     [0x45, 0] @ be_bytes (of_nat ip_len) @ be_bytes nid @ [0, 0, 64, 17] @ be_bytes ip_sum @ giaddr conf @ dst"

definition relay_udp :: "nat \<Rightarrow> u16 \<Rightarrow> u8 list" where
  "relay_udp udp_len uh_sum = be_bytes 67 @ be_bytes 68 @ be_bytes (of_nat udp_len) @ be_bytes uh_sum"

definition relay_packet :: "relay_conf \<Rightarrow> u16 \<Rightarrow> u8 list \<Rightarrow> u8 list \<Rightarrow> u8 list" where
  "relay_packet conf nid dst m =
     (let udp_len = 8 + length m; ip_len = 20 + udp_len;
          ip_sum = NOT (ip4sum 0 (relay_header conf nid ip_len dst 0));
          sum = ip4sum (17 + of_nat udp_len) (giaddr conf @ dst);
          sum1 = ip4sum sum (relay_udp udp_len 0 @ m);
          uh_sum = (if sum1 \<noteq> 0xFFFF then NOT sum1 else 0xFFFF)
      in relay_header conf nid ip_len dst ip_sum @ relay_udp udp_len uh_sum @ m)"

section \<open>The serial line\<close>

definition slip_send4 :: "u8 \<Rightarrow> tunslip4 \<Rightarrow> tun_error + tunslip4" where
  "slip_send4 c s = (if slip_end s \<ge> SLIP_BUF_SIZE then Inl Err_slip_overflow else Inr (slip_put c s))"

fun write_loop4 :: "u8 list \<Rightarrow> tunslip4 \<Rightarrow> tun_error + tunslip4" where
  "write_loop4 [] s = Inr s"
| "write_loop4 (c # cs) s =
     and_then
       (if c = SLIP_END then and_then (slip_send4 SLIP_ESC s) (slip_send4 SLIP_ESC_END)
        else if c = SLIP_ESC then and_then (slip_send4 SLIP_ESC s) (slip_send4 SLIP_ESC_ESC)
        else slip_send4 c s)
       (write_loop4 cs)"

text \<open>A field of two bytes as the host reads and writes it.\<close>

definition raw16 :: "u8 list \<Rightarrow> nat \<Rightarrow> u16" where
  "raw16 buf i = be16 (buf ! (i + 1)) (buf ! i)"

definition set_raw16 :: "nat \<Rightarrow> u16 \<Rightarrow> u8 list \<Rightarrow> u8 list" where
  "set_raw16 i v buf = buf[i := ucast v, i + 1 := ucast (drop_bit 8 v)]"

definition host_htons :: "u16 \<Rightarrow> u16" where
  "host_htons v = be16 (ucast v) (ucast (drop_bit 8 v))"

text \<open>A packet without an identification gets one, and its checksum is adjusted.\<close>

definition give_ip_id :: "u16 \<Rightarrow> u8 list \<Rightarrow> u8 list" where
  "give_ip_id nid0 ip =
     (let nid = host_htons nid0;
          ip1 = set_raw16 4 nid ip;
          nnid = NOT nid;
          ip2 = set_raw16 10 (raw16 ip1 10 + nnid) ip1
      in if raw16 ip2 10 < nnid then set_raw16 10 (raw16 ip2 10 + 1) ip2 else ip2)"

definition IP_DF :: u16 where "IP_DF = 0x4000"

text \<open>
  The packet is the first \<open>len\<close> bytes of the array \<open>ip\<close>, which may change; it is dropped when it fails the checks.
\<close>

definition write_to_serial4 :: "u8 list \<Rightarrow> nat \<Rightarrow> tunslip4 \<Rightarrow> tun_error + u8 list \<times> tunslip4" where
  "write_to_serial4 ip len s =
     and_then (check_ip ip len) (\<lambda>ecode.
     if ecode < 0 then Inr (ip, s)
     else
       let new = raw16 ip 4 = 0 \<and> raw16 ip 6 AND IP_DF \<noteq> 0;
           ip1 = (if new then give_ip_id (ip_id s) ip else ip);
           s1 = (if new then s\<lparr>ip_id := ip_id s + 1\<rparr> else s)
       in
       and_then (if new then check_ip ip1 len else Inr 0) (\<lambda>ecode1.
       if ecode1 < 0 then Inr (ip1, s1)
       else and_then (write_loop4 (take len ip1) s1) (\<lambda>s2. and_then (slip_send4 SLIP_END s2) (\<lambda>s3. Inr (ip1, s3)))))"

text \<open>The array that \<open>tun_to_serial\<close> reads into is static.\<close>

definition tun_to_serial4 :: "u8 list option \<Rightarrow> tunslip4 \<Rightarrow> tun_error + tunslip4" where
  "tun_to_serial4 infd s =
     (case infd of
        None \<Rightarrow> Inl Err_read
      | Some p0 \<Rightarrow>
          let p = take 2000 p0
          in and_then (write_to_serial4 (p @ drop (length p) (obuf s)) (length p) s) (\<lambda>(ip, s1). Inr (s1\<lparr>obuf := ip\<rparr>)))"

text \<open>
  An answer of the server, as \<open>recv\<close> gave it (\<open>None\<close> for an error): \<open>stack\<close> has the bytes that the message array holds
  before its options when \<open>recv\<close> leaves them alone. A code that no option set is not looked at.
\<close>

definition relay_dhcp_to_client :: "relay_conf \<Rightarrow> u8 list \<Rightarrow> u8 list option \<Rightarrow> tunslip4 \<Rightarrow> tun_error + tunslip4" where
  "relay_dhcp_to_client conf stack r s =
     (let msg = take 548 (case r of None \<Rightarrow> [] | Some m \<Rightarrow> m);
          n = length msg;
          inm = msg @ drop n (take 236 stack @ replicate DHCP_OPTIONS_SIZE 0)
      in
      if inm ! 0 \<noteq> 2 then Inr s
      else
        let base = take DHCP_BASE_LEN inm;
            base1 = (base[3 := base ! 3 + 1])[24 := 0, 25 := 0, 26 := 0, 27 := 0]
        in
        and_then (relay_loop inm n 240 (take 4 (drop 236 inm)) None 0) (\<lambda>(t, op, msg_type).
        if op = None then Inl Uninitialised
        else
          and_then (if op = Some 255 then copy_options t [255] else Inr t) (\<lambda>options.
            let dst = (if inm ! 10 AND 0x80 \<noteq> 0 then replicate 4 255 else take 4 (drop 16 inm));
                pkt = relay_packet conf (ip_id s) dst (base1 @ options)
            in and_then (write_to_serial4 pkt (length pkt) (s\<lparr>ip_id := ip_id s + 1\<rparr>)) (\<lambda>(ip, s1). Inr s1))))"

text \<open>The end of a packet on the serial line.\<close>

definition new_ipa :: "tunslip4 \<Rightarrow> tunslip4" where
  "new_ipa s =
     (let s0 = s\<lparr>iptr := 0\<rparr>; a = take 4 (drop 4 (ibuf s)) in
      if ipa s0 = a then s0
      else
        let s1 = (if ipa s0 \<noteq> replicate 4 0 then emit4 (Route_delete (ipa s0)) s0 else s0);
            s2 = s1\<lparr>ipa := a\<rparr>
        in if ipa s2 \<noteq> replicate 4 0 then emit4 (Route_add (ipa s2)) s2 else s2)"

definition dhcp_request :: "u8 list \<Rightarrow> bool" where
  "dhcp_request ip \<longleftrightarrow> ip ! 9 = 17 \<and> take 4 (drop 16 ip) = replicate 4 0xFF
     \<and> be16 (ip ! 20) (ip ! 21) = 68 \<and> be16 (ip ! 22) (ip ! 23) = 67"

definition slip_packet4 :: "relay_conf \<Rightarrow> tunslip4 \<Rightarrow> tun_error + tunslip4" where
  "slip_packet4 conf s =
     (if iptr s > 0 then
        and_then (check_ip (ibuf s) (iptr s)) (\<lambda>ecode.
        if ecode < 0 \<and> iptr s = 8 \<and> take 4 (ibuf s) = [0x3D, 0x49, 0x50, 0x41] then Inr (new_ipa s)
        else if ecode < 0 then
          let p = take (iptr s) (ibuf s);
              s1 = (if ibuf s ! 0 = 13 then emit4 (Printed4 (drop 1 p)) s
                    else if is_sensible_string4 p then emit4 (Printed4 p) s else s)
          in Inr (s1\<lparr>iptr := 0\<rparr>)
        else
          and_then
            (if dhsock conf \<and> dhcp_request (ibuf s)
             then and_then (relay_dhcp_to_server conf (iptr s) s) (\<lambda>s1. Inr (s1\<lparr>iptr := 0\<rparr>)) else Inr s)
          (\<lambda>s1.
            let p = take (iptr s1) (ibuf s1)
            in if tun4_takes conf p then Inr ((emit4 (To_tun4 p) s1)\<lparr>iptr := 0\<rparr>) else Inl Err_write))
      else Inr s)"

definition store_char4 :: "u8 \<Rightarrow> tunslip4 \<Rightarrow> tun_error + tunslip4" where
  "store_char4 c s =
     (if iptr s \<ge> length (ibuf s) then Inl Out_of_bounds
      else Inr (s\<lparr>ibuf := (ibuf s)[iptr s := c], iptr := iptr s + 1\<rparr>))"

definition read_more :: "tunslip4 \<Rightarrow> tunslip4" where
  "read_more s = (if iptr s \<ge> 2000 then s\<lparr>iptr := 0\<rparr> else s)"

text \<open>When nothing more can be read the program ends.\<close>

fun serial_loop4 :: "relay_conf \<Rightarrow> u8 list \<Rightarrow> tunslip4 \<Rightarrow> tun_error + u8 list \<times> tunslip4" where
  "serial_loop4 conf [] s = Inl Err_eof"
| "serial_loop4 conf (c # cs) s =
     (if c = SLIP_END then and_then (slip_packet4 conf s) (\<lambda>s1. serial_loop4 conf cs (read_more s1))
      else if c = SLIP_ESC then
        (case cs of
           [] \<Rightarrow> Inr ([SLIP_ESC], s)
         | d # ds \<Rightarrow>
             and_then (store_char4 (if d = SLIP_ESC_END then SLIP_END else if d = SLIP_ESC_ESC then SLIP_ESC else d) s)
               (\<lambda>s1. serial_loop4 conf ds (read_more s1)))
      else and_then (store_char4 c s) (\<lambda>s1. serial_loop4 conf cs (read_more s1)))"

definition serial_to_tun4 :: "relay_conf \<Rightarrow> u8 list \<Rightarrow> tunslip4 \<Rightarrow> tun_error + u8 list \<times> tunslip4" where
  "serial_to_tun4 conf inslip s = (if inslip = [] then Inl Err_read else serial_loop4 conf inslip s)"

section \<open>The main loop\<close>

record tun4_select =
  alarm :: bool
  slip4_in :: "u8 list option"
  slip4_writable :: bool
  tun4_in :: "u8 list option option"
  dhcp_in :: "u8 list option option"

definition send_ipa_request :: "tunslip4 \<Rightarrow> tun_error + tunslip4" where
  "send_ipa_request s =
     and_then (slip_send4 0x3F s) (\<lambda>s1. and_then (slip_send4 0x49 s1) (\<lambda>s2. and_then (slip_send4 0x50 s2) (\<lambda>s3.
     and_then (slip_send4 0x41 s3) (slip_send4 SLIP_END))))"

definition tun4_round ::
    "relay_conf \<Rightarrow> device \<Rightarrow> u8 list \<Rightarrow> tun4_select \<Rightarrow> u8 list \<times> tunslip4 \<Rightarrow> tun_error + u8 list \<times> tunslip4" where
  "tun4_round conf dev stack sel = (\<lambda>(inslip, s0).
     and_then (if alarm sel then send_ipa_request s0 else Inr s0) (\<lambda>s.
     let empty = slip_empty s;
         wset = \<not> empty \<and> slip4_writable sel;
         tunset = (if empty then tun4_in sel else None);
         dhset = (if empty \<and> dhsock conf then dhcp_in sel else None)
     in
     and_then (case slip4_in sel of None \<Rightarrow> Inr (inslip, s) | Some bs \<Rightarrow> serial_to_tun4 conf (inslip @ bs) s) (\<lambda>(inslip1, s1).
     and_then (if wset then slip_flushbuf dev s1 else Inr s1) (\<lambda>s2.
     and_then
       (if slip_empty s2 \<and> tunset \<noteq> None then and_then (tun_to_serial4 (the tunset) s2) (slip_flushbuf dev) else Inr s2) (\<lambda>s3.
     and_then
       (if dhsock conf \<and> slip_empty s3 \<and> dhset \<noteq> None
        then and_then (relay_dhcp_to_client conf stack (the dhset) s3) (slip_flushbuf dev) else Inr s3) (\<lambda>s4.
     Inr (inslip1, s4)))))))"

end
