(* ===== verification/Tunslip4_Check.thy ===== *)
theory Tunslip4_Check
  imports Tunslip4
begin

text \<open>
  What the checks of \<open>tunslip.c\<close> do: the checksum is the sum of the words modulo 65535, the packets that the relay builds and
  those whose identification is filled in pass the checks, and the places where a packet from the line makes the program
  leave its arrays.
\<close>

section \<open>The checksum is the sum modulo 65535\<close>

fun word_sum :: "u8 list \<Rightarrow> nat" where
  "word_sum (a # b # p) = unat a * 256 + unat b + word_sum p"
| "word_sum [a] = unat a * 256"
| "word_sum [] = 0"

lemma unat_be16 [simp]: "unat (be16 a b) = unat a * 256 + unat b"
proof -
  have u: "unat (ucast c :: u16) = unat c" for c :: u8
    using unat_lt_8 [of c] by (simp add: unsigned_ucast_eq take_bit_nat_eq_self)
  have "unat (push_bit 8 (ucast a :: u16)) = unat a * 256"
    using unat_lt_8 [of a] u [of a] by (simp add: push_bit_eq_mult unat_word_ariths)
  then show ?thesis using u unat_lt_8 [of a] unat_lt_8 [of b] by (simp add: be16_def unat_word_ariths)
qed

lemma unat_carry_add:
  "unat (carry_add s t) = (if unat s + unat t < 65536 then unat s + unat t else unat s + unat t - 65535)"
proof (cases "unat s + unat t < 65536")
  case True
  then have "unat (s + t) = unat s + unat t" by (simp add: unat_word_ariths)
  then show ?thesis using True by (simp add: carry_add_def Let_def word_less_nat_alt)
next
  case False
  have l: "unat s < 65536" "unat t < 65536" by (rule unat_lt_16)+
  have "unat (s + t) = (unat s + unat t) mod 65536" by (simp add: unat_word_ariths)
  moreover have "(unat s + unat t) mod 65536 = unat s + unat t - 65536"
    using False l by (subst le_mod_geq) (auto intro!: mod_less)
  ultimately have w: "unat (s + t) = unat s + unat t - 65536" by simp
  then have "unat (s + t + 1) = unat s + unat t - 65535" using False l by (subst unat_word_ariths(1)) simp
  then show ?thesis using False l w by (simp add: carry_add_def Let_def word_less_nat_alt)
qed

lemma carry_add_mod: "unat (carry_add s t) mod 65535 = (unat s + unat t) mod 65535"
  by (simp add: unat_carry_add le_mod_geq)

lemma carry_add_0: "carry_add s t = 0 \<longleftrightarrow> s = 0 \<and> t = 0"
proof -
  have "unat (carry_add s t) = 0 \<longleftrightarrow> unat s = 0 \<and> unat t = 0" by (auto simp: unat_carry_add)
  then show ?thesis by (simp add: unat_eq_0)
qed

lemma ip4sum_mod: "unat (ip4sum s p) mod 65535 = (unat s + word_sum p) mod 65535"
proof (induction s p rule: ip4sum.induct)
  case (1 s a b p)
  have "(unat (carry_add s (be16 a b)) + word_sum p) mod 65535 = (unat s + unat (be16 a b) + word_sum p) mod 65535"
    using carry_add_mod [of s "be16 a b"] by (metis mod_add_left_eq)
  then show ?case using 1 by (simp add: add.assoc)
next
  case (2 s a)
  then show ?case using carry_add_mod [of s "be16 a 0"] by simp
qed simp

lemma ip4sum_0: "ip4sum s p = 0 \<longleftrightarrow> s = 0 \<and> word_sum p = 0"
proof (induction s p rule: ip4sum.induct)
  case (1 s a b p)
  have "be16 a b = 0 \<longleftrightarrow> unat a * 256 + unat b = 0" using unat_be16 [of a b] by (metis unat_eq_0)
  then show ?case using 1 by (auto simp: carry_add_0)
next
  case (2 s a)
  have "be16 a 0 = 0 \<longleftrightarrow> unat a * 256 = 0" using unat_be16 [of a 0] by (metis unat_eq_0 add_0_right unsigned_0)
  then show ?case by (auto simp: carry_add_0)
qed simp

text \<open>The sum as the Internet standards define it: of the words modulo 65535, where 0 means that there was nothing but 0.\<close>

definition internet_sum :: "nat \<Rightarrow> nat" where
  "internet_sum n = (if n = 0 then 0 else if n mod 65535 = 0 then 65535 else n mod 65535)"

lemma ip4sum_internet: "unat (ip4sum 0 p) = internet_sum (word_sum p)"
proof -
  define r where "r = unat (ip4sum 0 p)"
  have m: "r mod 65535 = word_sum p mod 65535" "r < 65536" and z: "r = 0 \<longleftrightarrow> word_sum p = 0"
    using ip4sum_mod [of 0 p] ip4sum_0 [of 0 p] unat_lt_16 [of "ip4sum 0 p"] by (simp_all add: r_def unat_eq_0)
  have "r < 65535 \<or> r = 65535" using m(2) by linarith
  then have "r = internet_sum (word_sum p)" using m(1) z by (auto simp: internet_sum_def)
  then show ?thesis by (simp add: r_def)
qed

lemma bad_sum_mod: "bad_sum r \<longleftrightarrow> unat r mod 65535 \<noteq> 0"
proof -
  have "unat r mod 65535 = 0 \<longleftrightarrow> unat r = 0 \<or> unat r = 65535"
    using unat_lt_16 [of r] by (auto simp: mod_eq_0_iff_dvd elim!: dvdE)
  moreover have "r = 0xFFFF \<longleftrightarrow> unat r = 65535" by (simp add: word_unat_eq_iff)
  ultimately show ?thesis by (auto simp: bad_sum_def unat_eq_0)
qed

lemma bad_ip4sum: "bad_sum (ip4sum s p) \<longleftrightarrow> (unat s + word_sum p) mod 65535 \<noteq> 0"
  by (simp add: bad_sum_mod ip4sum_mod)

lemma word_sum_append: "even (length p) \<Longrightarrow> word_sum (p @ q) = word_sum p + word_sum q"
  by (induction p rule: word_sum.induct) auto

lemma be16_be_bytes: "unat (ucast (drop_bit 8 v) :: u8) * 256 + unat (ucast v :: u8) = unat (v :: u16)"
proof -
  have "unat (drop_bit 8 v) < 256" using unat_lt_16 [of v] by (simp add: unat_drop_bit)
  then show ?thesis by (simp add: unat_ucast unat_drop_bit)
qed

lemma word_sum_be_bytes [simp]: "word_sum (be_bytes v @ p) = unat v + word_sum p" "word_sum (be_bytes v) = unat v"
  by (simp_all add: be_bytes_def be16_be_bytes)

lemma length_be_bytes [simp]: "length (be_bytes v) = 2"
  by (simp add: be_bytes_def)

lemma unat_NOT: "unat (NOT v :: u16) = 65535 - unat v"
proof -
  have "NOT v = - 1 - v" by (simp add: not_eq_complement)
  moreover have "unat (- 1 - v) = unat (- 1 :: u16) - unat v" by (rule unat_sub) simp
  ultimately show ?thesis by (simp add: unsigned_minus_1_eq_mask mask_eq_exp_minus_1)
qed

section \<open>The packets of the relay pass the checks\<close>

lemma NOT_sum_good: "(unat (ip4sum s p) + unat (NOT (ip4sum s p))) mod 65535 = 0"
  using unat_lt_16 [of "ip4sum s p"] by (simp add: unat_NOT)

lemma sum_complement: "(unat s + word_sum p + unat (NOT (ip4sum s p))) mod 65535 = 0"
  using NOT_sum_good [of s p] ip4sum_mod [of s p] by (metis mod_add_left_eq)

lemma relay_header_sum:
  assumes "length gi = 4" and "length dst = 4" and "giaddr conf = gi"
  shows "word_sum (relay_header conf nid n dst v) = word_sum (relay_header conf nid n dst 0) + unat v"
  using assms by (simp add: relay_header_def)

lemma relay_udp_sum: "word_sum (relay_udp n v @ m) = word_sum (relay_udp n 0 @ m) + unat v"
  by (simp add: relay_udp_def)

text \<open>The fields of a packet with a header of 20 bytes.\<close>

lemma check_ip_udp:
  assumes len: "length h = 20" "length pkt = 20 + length u" "pkt = h @ u" "length pkt < 65536" "8 \<le> length u"
    and h: "h ! 0 = 0x45" "be16 (h ! 2) (h ! 3) = of_nat (length pkt)" "h ! 9 = 17"
    and sums: "word_sum h mod 65535 = 0" "(17 + length u + word_sum (drop 12 h) + word_sum u) mod 65535 = 0"
  shows "check_ip pkt (length pkt) = Inr 0"
proof -
  have f: "pkt ! 0 = 0x45" "pkt ! 2 = h ! 2" "pkt ! 3 = h ! 3" "pkt ! 9 = 17" using len(1,3) h by (simp_all add: nth_append)
  have n: "unat (be16 (pkt ! 2) (pkt ! 3)) = length pkt"
    unfolding f(2,3) h(2) using len(4) by (simp add: unat_of_nat take_bit_eq_mod)
  have u: "unat (of_nat (length pkt) - 20 :: u16) = length u" and u': "of_nat (length pkt) - 20 = (of_nat (length u) :: u16)"
    using len(2,4) by (simp_all add: unat_of_nat take_bit_eq_mod)
  have b: "bytes_at pkt 0 20 = Inr h" "bytes_at pkt 12 8 = Inr (drop 12 h)" "bytes_at pkt 20 (length u) = Inr u"
    using len(1,3) by (simp_all add: bytes_at_def)
  have s1: "\<not> bad_sum (ip4sum 0 h)" using sums(1) by (simp add: bad_ip4sum)
  have "(unat (ip4sum (17 + of_nat (length u)) (drop 12 h)) + word_sum u) mod 65535 = 0"
  proof -
    have "unat (17 + of_nat (length u) :: u16) = 17 + length u" using len(2,4) by (simp add: unat_word_ariths unat_of_nat take_bit_eq_mod)
    then show ?thesis using ip4sum_mod [of "17 + of_nat (length u)" "drop 12 h"] sums(2) by (metis mod_add_left_eq)
  qed
  then have s2: "\<not> bad_sum (ip4sum (ip4sum (17 + of_nat (length u)) (drop 12 h)) u)" by (simp add: bad_ip4sum)
  have hl: "4 * ucast (pkt ! 0 AND 0x0F) = (20 :: u16)" "pkt ! 0 AND 0xF0 = 0x40" using f(1) by simp_all
  show ?thesis using f(4) n u u' b s1 s2 unfolding check_ip_def Let_def hl(1) by (simp add: hl(2) ip4sum_at_def)
qed

lemma be16_bytes: "be16 (ucast (drop_bit 8 v)) (ucast v) = v"
  by (simp add: word_unat_eq_iff be16_be_bytes)

lemma sums_chain:
  assumes "s mod (n :: nat) = a mod n" and "t mod n = (s + b) mod n" and "(t + u) mod n = 0"
  shows "(a + b + u) mod n = 0"
proof -
  have "(a + b) mod n = t mod n" using assms(1,2) by (metis mod_add_left_eq)
  then show ?thesis using assms(3) by (metis mod_add_left_eq)
qed

lemma relay_packet_checks:
  assumes gi: "length (giaddr conf) = 4" and dst: "length dst = 4" and m: "length m + 28 < 65536"
  shows "check_ip (relay_packet conf nid dst m) (length (relay_packet conf nid dst m)) = Inr 0"
proof -
  define n where "n = 8 + length m"
  define h where "h = relay_header conf nid (20 + n) dst"
  define s where "s = ip4sum (17 + of_nat n) (giaddr conf @ dst)"
  define s1 where "s1 = ip4sum s (relay_udp n 0 @ m)"
  define us where "us = (if s1 \<noteq> 0xFFFF then NOT s1 else 0xFFFF)"
  define hs where "hs = h (NOT (ip4sum 0 (h 0)))"
  define u where "u = relay_udp n us @ m"
  define pkt where "pkt = relay_packet conf nid dst m"
  have pkt: "pkt = hs @ u"
    by (simp add: pkt_def relay_packet_def Let_def hs_def h_def u_def us_def s1_def s_def n_def)
  have l: "length hs = 20" "length u = n" using gi dst by (simp_all add: hs_def h_def u_def relay_header_def relay_udp_def n_def)
  have lp: "length pkt = 20 + n" using pkt l by simp
  define v where "v = (of_nat (20 + n) :: u16)"
  define c where "c = NOT (ip4sum 0 (h 0))"
  have hs: "hs = 0x45 # 0 # ucast (drop_bit 8 v) # ucast v # ucast (drop_bit 8 nid) # ucast nid # 0 # 0 # 64 # 17
      # ucast (drop_bit 8 c) # ucast c # giaddr conf @ dst"
    unfolding hs_def c_def [symmetric] by (simp add: h_def relay_header_def be_bytes_def v_def)
  have v: "v = of_nat (length pkt)" unfolding v_def lp ..
  have f: "hs ! 0 = 0x45" "be16 (hs ! 2) (hs ! 3) = of_nat (length pkt)" "hs ! 9 = 17" "drop 12 hs = giaddr conf @ dst"
    unfolding v [symmetric] by (simp_all add: hs be16_bytes)
  have s1: "word_sum hs mod 65535 = 0"
    using sum_complement [of 0 "h 0"] relay_header_sum [OF gi dst refl, of nid "20 + n" "NOT (ip4sum 0 (h 0))"]
    unfolding hs_def h_def by (simp only: unsigned_0 add_0_left)
  have s2: "(17 + n + word_sum (giaddr conf @ dst) + word_sum u) mod 65535 = 0"
  proof -
    have "unat (17 + of_nat n :: u16) = 17 + n" using m by (simp add: n_def unat_word_ariths unat_of_nat take_bit_eq_mod)
    then have "unat s mod 65535 = (17 + n + word_sum (giaddr conf @ dst)) mod 65535"
      using ip4sum_mod [of "17 + of_nat n" "giaddr conf @ dst"] by (simp add: s_def)
    moreover have "unat s1 mod 65535 = (unat s + word_sum (relay_udp n 0 @ m)) mod 65535"
      using ip4sum_mod [of s "relay_udp n 0 @ m"] by (simp add: s1_def)
    moreover have "(unat s1 + unat us) mod 65535 = 0" using unat_lt_16 [of s1] by (auto simp: us_def unat_NOT)
    ultimately have "(17 + n + word_sum (giaddr conf @ dst) + word_sum (relay_udp n 0 @ m) + unat us) mod 65535 = 0"
      by (rule sums_chain)
    then show ?thesis unfolding u_def relay_udp_sum [of n us m] by (simp only: add.assoc)
  qed
  have "length pkt = 20 + length u" "length pkt < 65536" "8 \<le> length u" using l(2) lp m by (simp_all add: n_def)
  from check_ip_udp [OF l(1) this(1) pkt this(2,3) f(1-3) s1] s2 have "check_ip pkt (length pkt) = Inr 0"
    unfolding l(2) f(4) by blast
  then show ?thesis by (simp add: pkt_def)
qed

lemma mod_add_cancel: "(x + z) mod n = (y + z) mod n \<Longrightarrow> x mod n = (y :: nat) mod n"
  by (simp add: nat_mod_eq_iff)

section \<open>Filling in the identification keeps the checksum\<close>

text \<open>Swapping the bytes of a word multiplies it by 256 modulo 65535.\<close>

lemma host_htons_mod: "unat (host_htons v) mod 65535 = unat v * 256 mod 65535"
proof -
  define a b where "a = unat (ucast (drop_bit 8 v) :: u8)" and "b = unat (ucast v :: u8)"
  have "unat v = a * 256 + b" "unat (host_htons v) = b * 256 + a" using be16_be_bytes [of v] by (simp_all add: a_def b_def host_htons_def)
  moreover have "(a * 256 + b) * 256 mod 65535 = (a + b * 256) mod 65535"
  proof -
    have "(a * 256 + b) * 256 = (a + b * 256) + a * 65535" by simp
    then show ?thesis by (simp only: mod_mult_self1)
  qed
  ultimately show ?thesis by (simp add: add.commute)
qed

lemma raw16_host_htons: "be16 (buf ! i) (buf ! (i + 1)) = host_htons (raw16 buf i)"
proof -
  have "ucast (be16 a b) = b" "ucast (drop_bit 8 (be16 a b)) = a" for a b :: u8
  proof -
    have "unat (ucast (be16 a b) :: u8) = unat b" "unat (ucast (drop_bit 8 (be16 a b)) :: u8) = unat a"
      using unat_lt_8 [of a] unat_lt_8 [of b] by (simp_all add: unat_ucast unat_drop_bit)
    then show "ucast (be16 a b) = b" "ucast (drop_bit 8 (be16 a b)) = a" by (simp_all add: word_unat_eq_iff)
  qed
  then show ?thesis by (simp add: host_htons_def raw16_def)
qed

lemma raw16_set: "i + 1 < length buf \<Longrightarrow> raw16 (set_raw16 i v buf) i = v"
  by (simp add: raw16_def set_raw16_def be16_bytes)

lemma raw16_set_other: "i + 1 < j \<or> j + 1 < i \<Longrightarrow> raw16 (set_raw16 i v buf) j = raw16 buf j"
  by (auto simp: raw16_def set_raw16_def)

lemma length_set_raw16 [simp]: "length (set_raw16 i v buf) = length buf"
  by (simp add: set_raw16_def)

text \<open>A word at an even place counts in the sum as its value in network order.\<close>

lemma word_sum_set:
  "even i \<Longrightarrow> i + 1 < length buf \<Longrightarrow>
   word_sum (set_raw16 i v buf) + unat (host_htons (raw16 buf i)) = word_sum buf + unat (host_htons v)"
proof (induction buf arbitrary: i rule: word_sum.induct)
  case (1 a b p)
  show ?case
  proof (cases i)
    case 0
    have "unat (host_htons v) = unat (ucast v :: u8) * 256 + unat (ucast (drop_bit 8 v) :: u8)" by (simp add: host_htons_def)
    then show ?thesis using 0 raw16_host_htons [of "a # b # p" 0, symmetric] by (simp add: set_raw16_def)
  next
    case (Suc j)
    then obtain k where k: "i = Suc (Suc k)" using 1(2) by (cases j) auto
    have "set_raw16 i v (a # b # p) = a # b # set_raw16 k v p" "raw16 (a # b # p) i = raw16 p k" by (simp_all add: k set_raw16_def raw16_def)
    then show ?thesis using 1(1) [of k] 1(2,3) k by simp
  qed
qed auto

lemma give_ip_id_eq:
  assumes "12 \<le> length ip" and ip1_def: "ip1 = set_raw16 4 (host_htons nid) ip"
  shows "give_ip_id nid ip = set_raw16 10 (carry_add (raw16 ip 10) (NOT (host_htons nid))) ip1"
proof -
  have "raw16 ip1 10 = raw16 ip 10" by (simp add: ip1_def raw16_set_other)
  moreover have "raw16 (set_raw16 10 v ip1) 10 = v" for v using assms(1) by (simp add: raw16_set ip1_def)
  moreover have "set_raw16 10 w (set_raw16 10 v ip1) = set_raw16 10 w ip1" for v w by (simp add: set_raw16_def list_update_swap)
  ultimately show ?thesis by (simp add: give_ip_id_def Let_def ip1_def [symmetric] carry_add_def)
qed

lemma give_ip_id_sum:
  assumes l: "12 \<le> length ip" and z: "raw16 ip 4 = 0"
  shows "word_sum (give_ip_id nid ip) mod 65535 = word_sum ip mod 65535"
proof -
  define ip1 where "ip1 = set_raw16 4 (host_htons nid) ip"
  define R N where "R = raw16 ip 10" and "N = NOT (host_htons nid)"
  define ip2 where "ip2 = set_raw16 10 (carry_add R N) ip1"
  have eq: "give_ip_id nid ip = ip2" using give_ip_id_eq [OF l ip1_def] by (simp add: ip2_def ip1_def R_def N_def)
  have r1: "raw16 ip1 10 = R" by (simp add: ip1_def raw16_set_other R_def)
  have w1: "word_sum ip1 = word_sum ip + unat (host_htons (host_htons nid))"
    using word_sum_set [of 4 ip "host_htons nid"] l z by (simp add: ip1_def host_htons_def)
  have w2: "word_sum ip2 + unat (host_htons R) = word_sum ip1 + unat (host_htons (carry_add R N))"
    using word_sum_set [of 10 ip1 "carry_add R N"] l r1 by (simp add: ip2_def ip1_def)
  have c: "unat (host_htons (carry_add R N)) mod 65535 = (unat (host_htons R) + unat N * 256) mod 65535"
  proof -
    have "unat (host_htons (carry_add R N)) mod 65535 = (unat R + unat N) * 256 mod 65535"
      using host_htons_mod [of "carry_add R N"] carry_add_mod [of R N] by (metis mod_mult_left_eq)
    also have "\<dots> = (unat R * 256 + unat N * 256) mod 65535" by (simp add: algebra_simps)
    also have "\<dots> = (unat (host_htons R) + unat N * 256) mod 65535" using host_htons_mod [of R] by (metis mod_add_left_eq)
    finally show ?thesis .
  qed
  have "(unat (host_htons (host_htons nid)) + unat N * 256) mod 65535 = 0"
  proof -
    have "unat N = 65535 - unat (host_htons nid)" by (simp add: N_def unat_NOT)
    then have "unat (host_htons nid) * 256 + unat N * 256 = 65535 * 256" using unat_lt_16 [of "host_htons nid"] by simp
    then show ?thesis using host_htons_mod [of "host_htons nid"] by (metis mod_add_left_eq mod_mult_self1_is_0)
  qed
  then have "(word_sum ip2 + unat (host_htons R)) mod 65535 = (word_sum ip + unat (host_htons R)) mod 65535"
    using w1 w2 c by (smt (verit) add.assoc add.commute add.right_neutral mod_add_left_eq mod_add_right_eq)
  then have "word_sum ip2 mod 65535 = word_sum ip mod 65535" by (rule mod_add_cancel)
  then show ?thesis by (simp add: eq)
qed

lemma give_ip_id_nth: "k \<notin> {4, 5, 10, 11} \<Longrightarrow> give_ip_id nid ip ! k = ip ! k"
  by (auto simp: give_ip_id_def Let_def set_raw16_def)

lemma give_ip_id_length [simp]: "length (give_ip_id nid ip) = length ip"
  by (simp add: give_ip_id_def Let_def)

lemma give_ip_id_drop: "12 \<le> k \<Longrightarrow> drop k (give_ip_id nid ip) = drop k ip"
  by (simp add: give_ip_id_def Let_def set_raw16_def)

lemma give_ip_id_take:
  assumes "12 \<le> k" "k \<le> length ip"
  shows "take k (give_ip_id nid ip) = give_ip_id nid (take k ip)"
proof -
  have "raw16 (take k ip) 10 = raw16 ip 10" using assms by (simp add: raw16_def)
  then show ?thesis
    using give_ip_id_eq [of ip _ nid, OF _ refl] give_ip_id_eq [of "take k ip" _ nid, OF _ refl] assms
    by (simp add: set_raw16_def take_update_swap)
qed

text \<open>The checks have the same outcome after the identification was filled in.\<close>

lemma check_ip_give_ip_id:
  assumes z: "raw16 ip 4 = 0" and hl: "12 \<le> unat (4 * ucast (ip ! 0 AND 0x0F) :: u16)"
  shows "check_ip (give_ip_id nid ip) len = check_ip ip len"
proof -
  define ip' where "ip' = give_ip_id nid ip"
  define k where "k = (4 * ucast (ip ! 0 AND 0x0F) :: u16)"
  have nth: "ip' ! 0 = ip ! 0" "ip' ! 2 = ip ! 2" "ip' ! 3 = ip ! 3" "ip' ! 9 = ip ! 9" "ip' ! 26 = ip ! 26" "ip' ! 27 = ip ! 27"
    by (simp_all add: ip'_def give_ip_id_nth)
  have at: "ip4sum_at s ip' i n = ip4sum_at s ip i n" if "12 \<le> i" for s i n
    using give_ip_id_drop [OF that, of nid ip] by (simp add: ip4sum_at_def bytes_at_def ip'_def)
  have hdr: "and_then (ip4sum_at 0 ip' 0 k) (\<lambda>sum. if bad_sum sum then a else b) = and_then (ip4sum_at 0 ip 0 k) (\<lambda>sum. if bad_sum sum then a else b)"
    for a b :: "tun_error + int"
  proof (cases "unat k \<le> length ip")
    case True
    have "12 \<le> length (take (unat k) ip)" "raw16 (take (unat k) ip) 4 = 0" using True hl z by (simp_all add: k_def raw16_def)
    from give_ip_id_sum [OF this, of nid]
    have "word_sum (take (unat k) ip') mod 65535 = word_sum (take (unat k) ip) mod 65535"
      using give_ip_id_take [of "unat k" ip nid] hl True by (simp add: ip'_def k_def)
    then have "bad_sum (ip4sum 0 (take (unat k) ip')) = bad_sum (ip4sum 0 (take (unat k) ip))" by (simp add: bad_ip4sum)
    then show ?thesis using True by (simp add: ip4sum_at_def bytes_at_def ip'_def)
  next
    case False
    then show ?thesis by (simp add: ip4sum_at_def bytes_at_def ip'_def)
  qed
  have "12 \<le> unat k" using hl by (simp add: k_def)
  then have atk: "ip4sum_at s ip' (unat k) n = ip4sum_at s ip (unat k) n" "ip4sum_at s ip' 12 8 = ip4sum_at s ip 12 8" for s n
    using at by simp_all
  show ?thesis unfolding ip'_def [symmetric] check_ip_def nth Let_def k_def [symmetric] atk hdr by (rule refl)
qed

text \<open>
  The bit is looked for in the wrong byte: the flag of a packet that must not be fragmented, as it stands in the packet, does
  not count.
\<close>

lemma df_not_seen: "ip ! 7 = 0 \<Longrightarrow> raw16 ip 6 AND IP_DF = 0"
proof -
  assume "ip ! 7 = 0"
  then have r: "raw16 ip 6 = ucast (ip ! 6)" by (simp add: raw16_def be16_def)
  have df: "IP_DF = push_bit 14 1" by (simp add: IP_DF_def push_bit_eq_mult)
  have "bit IP_DF n \<longleftrightarrow> n = 14" for n unfolding df bit_push_bit_iff bit_1_iff by auto
  moreover have "\<not> bit (ip ! 6) 14" using bit_imp_le_length [of "ip ! 6" 14] by auto
  ultimately have "\<not> (bit (raw16 ip 6) n \<and> bit IP_DF n)" for n unfolding r bit_ucast_iff by metis
  then show ?thesis by (intro bit_eqI) (simp only: bit_and_iff bit_0_eq bot_apply bot_bool_def simp_thms)
qed

section \<open>Leaving the arrays\<close>

text \<open>
  A header length that is larger than the packet makes the length of the rest wrap round, and the sum is taken far behind
  the receive buffer.
\<close>

lemma check_ip_leaves_buffer:
  assumes v: "ip ! 0 AND 0xF0 = 0x40" and len: "unat (be16 (ip ! 2) (ip ! 3)) = n" and p: "ip ! 9 = 6 \<or> ip ! 9 = 17 \<or> ip ! 9 = 1"
    and hl: "n < unat (4 * ucast (ip ! 0 AND 0x0F) :: u16)" and l: "length ip = 2000"
    and s: "\<not> bad_sum (ip4sum 0 (take (unat (4 * ucast (ip ! 0 AND 0x0F) :: u16)) ip))"
  shows "check_ip ip n = Inl Out_of_bounds"
proof -
  define k where "k = (4 * ucast (ip ! 0 AND 0x0F) :: u16)"
  have "ip ! 0 AND 0x0F = take_bit 4 (ip ! 0)" by (simp add: take_bit_eq_mask mask_eq_exp_minus_1)
  then have "unat (ip ! 0 AND 0x0F) = take_bit 4 (unat (ip ! 0))" by (simp only: unsigned_take_bit_eq)
  then have "unat (ip ! 0 AND 0x0F) \<le> 15" using take_bit_nat_less_exp [of 4 "unat (ip ! 0)"] by simp
  then have k: "unat k \<le> 60" by (simp add: k_def unat_word_ariths unat_ucast_up)
  have n: "n < 65536" using len unat_lt_16 [of "be16 (ip ! 2) (ip ! 3)"] by simp
  have "unat (of_nat n - k) = 65536 + n - unat k"
    using n k hl by (simp add: k_def [symmetric] unat_sub_if' word_le_nat_alt unat_of_nat take_bit_eq_mod)
  then have big: "2000 < unat (of_nat n - k)" using k by simp
  have b: "ip4sum_at 0 ip 0 k = Inr (ip4sum 0 (take (unat k) ip))" "ip4sum_at s ip 12 8 = Inr (ip4sum s (take 8 (drop 12 ip)))" for s
    using l k by (simp_all add: ip4sum_at_def bytes_at_def)
  have o: "ip4sum_at s ip (unat k) (of_nat n - k) = Inl Out_of_bounds" for s
    using big l by (simp add: ip4sum_at_def bytes_at_def)
  show ?thesis unfolding check_ip_def Let_def k_def [symmetric] using v len p s b o by (auto simp: k_def [symmetric])
qed

section \<open>The relay to the server\<close>

lemma relay_to_server_leaves_array:
  assumes "ibuf s ! 28 = 1" and "length (relay_options conf) = 27" and "358 < len"
  shows "relay_dhcp_to_server conf len s = Inl Out_of_bounds"
proof -
  have "nat (int len - 72) = len - 72" by simp
  then show ?thesis using assms by (simp add: relay_dhcp_to_server_def Let_def DHCP_BASE_LEN_def DHCP_OPTIONS_SIZE_def) linarith
qed

text \<open>
  The request as it is passed on: with the broadcast flag, one hop more, the relay's address and the empty names put in
  between, and the options of the relay in place of the end mark.
\<close>

definition relayed_request :: "relay_conf \<Rightarrow> nat \<Rightarrow> u8 list \<Rightarrow> u8 list" where
  "relayed_request conf len b =
     take 24 ((drop 28 b)[3 := b ! 31 + 1, 10 := 0x80, 11 := 0]) @ giaddr conf @ take 16 (drop 56 b)
       @ replicate 192 0 @ take (len - 73) (drop 72 b) @ relay_options conf"

lemma relay_to_server_message:
  assumes op: "ibuf s ! 28 = 1" and lens: "length (relay_options conf) = 27" and len: "73 \<le> len" "len \<le> 358"
    and b: "length (ibuf s) = 2000" and ok: "server_takes conf (relayed_request conf len (ibuf s))"
  shows "relay_dhcp_to_server conf len s =
    Inr (emit4 (To_server (relayed_request conf len (ibuf s))) (s\<lparr>ibuf := (ibuf s)[38 := 0x80, 39 := 0]\<rparr>))"
proof -
  define ib where "ib = ibuf s"
  define base where "base = take 44 (drop 28 (ib[38 := 0x80, 39 := 0]))"
  have base: "base = (take 44 (drop 28 ib))[10 := 0x80, 11 := 0]"
    by (simp add: base_def drop_update_swap take_update_swap)
  have b3: "base ! 3 = ib ! 31" using b by (simp add: base ib_def)
  have "take 24 (base[3 := base ! 3 + 1]) = take 24 ((drop 28 ib)[3 := ib ! 31 + 1, 10 := 0x80, 11 := 0])"
    using b3 by (simp add: base take_update_swap list_update_swap)
  moreover have "drop 28 (ib[38 := 0x80, 39 := 0]) ! 3 = base ! 3" by (simp add: base_def)
  moreover have "drop 28 (base[3 := base ! 3 + 1]) = take 16 (drop 56 ib)" by (simp add: base drop_take)
  moreover have "drop 72 (ib[38 := 0x80, 39 := 0]) = drop 72 ib" by simp
  moreover have "nat (int len - 72) = len - 72" "len - 72 - 1 = len - 73" "len - 72 \<le> 312" "len - 73 \<le> 285" using len by simp_all
  ultimately show ?thesis using op lens len ok
    by (simp add: relay_dhcp_to_server_def Let_def DHCP_BASE_LEN_def DHCP_OPTIONS_SIZE_def DHCP_HOLE_LEN_def
        relayed_request_def ib_def [symmetric] base_def [symmetric])
qed

section \<open>Nothing left to read\<close>

text \<open>The receiving function returns only when the input ends in the middle of an escape sequence.\<close>

lemma serial_loop4_exits: "serial_loop4 conf cs s = Inr (rest, s') \<Longrightarrow> rest = [SLIP_ESC] \<and> last cs = SLIP_ESC"
proof (induction conf cs s rule: serial_loop4.induct)
  case (2 conf c cs s)
  consider "c = SLIP_END" | "c \<noteq> SLIP_END" "c = SLIP_ESC" | "c \<noteq> SLIP_END" "c \<noteq> SLIP_ESC" by blast
  then show ?case
  proof cases
    case 1
    then show ?thesis using 2(1) [OF 1] 2(4) by (cases cs) (auto simp: and_then_Inr)
  next
    case b: 2
    show ?thesis
    proof (cases cs)
      case Nil
      then show ?thesis using b 2(4) by auto
    next
      case (Cons d ds)
      then show ?thesis using 2(2) [OF b Cons] 2(4) b by (cases ds) (auto simp: and_then_Inr)
    qed
  next
    case b: 3
    then show ?thesis using 2(3) [OF b] 2(4) by (cases cs) (auto simp: and_then_Inr)
  qed
qed simp

section \<open>Sending\<close>

lemma slip_send4_put: "slip_end s < SLIP_BUF_SIZE \<Longrightarrow> slip_send4 c s = Inr (slip_put c s)"
  by (simp add: slip_send4_def)

text \<open>A packet fits into what is left of the queue, or the program ends.\<close>

lemma write_frame4:
  "slip_ok s \<Longrightarrow>
   (if slip_end s + length (slip_frame p) \<le> SLIP_BUF_SIZE
    then \<exists>s'. and_then (write_loop4 p s) (slip_send4 SLIP_END) = Inr s' \<and> slip_ok s' \<and> stream s' = stream s @ slip_frame p
    else and_then (write_loop4 p s) (slip_send4 SLIP_END) = Inl Err_slip_overflow)"
proof (induction p arbitrary: s)
  case Nil
  then show ?case using slip_put_stream [OF Nil] by (auto simp: slip_frame_def slip_send4_def)
next
  case (Cons c p)
  define r where "r = (if c = SLIP_END then and_then (slip_send4 SLIP_ESC s) (slip_send4 SLIP_ESC_END)
        else if c = SLIP_ESC then and_then (slip_send4 SLIP_ESC s) (slip_send4 SLIP_ESC_ESC) else slip_send4 c s)"
  have two: "and_then (slip_send4 a s) (slip_send4 b) =
      (if slip_end s + 2 \<le> SLIP_BUF_SIZE then Inr (slip_put b (slip_put a s)) else Inl Err_slip_overflow)" for a b
    by (simp add: slip_send4_def)
  have r: "r = (if slip_end s + length (slip_code c) \<le> SLIP_BUF_SIZE then Inr (fold slip_put (slip_code c) s) else Inl Err_slip_overflow)"
    by (simp add: r_def slip_code_def two slip_send4_def)
  have fit: "slip_ok (fold slip_put (slip_code c) s) \<and> stream (fold slip_put (slip_code c) s) = stream s @ slip_code c
      \<and> slip_end (fold slip_put (slip_code c) s) = slip_end s + length (slip_code c)"
    if "slip_end s + length (slip_code c) \<le> SLIP_BUF_SIZE"
    using that slip_put_stream [OF Cons.prems, of c] slip_put_stream [OF Cons.prems, of SLIP_ESC]
      slip_put_stream [of "slip_put SLIP_ESC s"] by (auto simp: slip_code_def split: if_splits)
  have e: "and_then (write_loop4 (c # p) s) (slip_send4 SLIP_END) = and_then r (\<lambda>s1. and_then (write_loop4 p s1) (slip_send4 SLIP_END))"
    by (simp add: r_def and_then_assoc)
  have f: "slip_frame (c # p) = slip_code c @ slip_frame p" by (simp add: slip_frame_def)
  show ?case
  proof (cases "slip_end s + length (slip_code c) \<le> SLIP_BUF_SIZE")
    case True
    then show ?thesis unfolding e r f using fit [OF True] Cons.IH [of "fold slip_put (slip_code c) s"] by (auto simp: add.assoc)
  next
    case False
    then show ?thesis unfolding e r f by simp
  qed
qed

section \<open>The relay to the client\<close>

text \<open>
  Options for the client are at most 312 bytes, or the copying left the array. The packet built from them passes the
  checks and is sent.
\<close>

lemma relay_loop_length: "relay_loop inm fin p t op mt = Inr (t', op', mt') \<Longrightarrow> length t \<le> 312 \<Longrightarrow> length t' \<le> 312"
proof (induction "length inm - p" arbitrary: p t op mt rule: less_induct)
  case less
  have IH: "length t' \<le> 312" if "relay_loop inm fin q u oc m = Inr (t', op', mt')" "p < q" "p < length inm" "length u \<le> 312" for q u oc m
    using less.hyps [of q u oc m] that by simp
  from less.prems show ?case
    by (subst (asm) relay_loop.simps)
      (auto simp: Let_def and_then_Inr copy_options_def DHCP_OPTIONS_SIZE_def split: if_splits intro: IH)
qed

lemma slip_frame_length: "length (slip_frame p) \<le> 2 * length p + 1"
proof -
  have "length (concat (map slip_code p)) \<le> 2 * length p" by (induction p) (auto simp: slip_code_def)
  then show ?thesis by (simp add: slip_frame_def)
qed

text \<open>A packet that passes the checks and is not given an identification is queued as it is.\<close>

lemma write_to_serial4_sent:
  assumes "check_ip ip len = Inr 0" and "raw16 ip 6 AND IP_DF = 0" and "slip_ok s"
    and "slip_end s + length (slip_frame (take len ip)) \<le> SLIP_BUF_SIZE"
  shows "\<exists>s'. write_to_serial4 ip len s = Inr (ip, s') \<and> slip_ok s' \<and> stream s' = stream s @ slip_frame (take len ip)"
proof -
  obtain s1 s' where "write_loop4 (take len ip) s = Inr s1" "slip_send4 SLIP_END s1 = Inr s'" "slip_ok s'"
    "stream s' = stream s @ slip_frame (take len ip)"
    using write_frame4 [OF assms(3), of "take len ip"] assms(4) by (auto simp: and_then_Inr)
  then show ?thesis using assms(1,2) by (simp add: write_to_serial4_def)
qed

text \<open>The message as it is in memory, and the first part of the message to the client.\<close>

definition dhcp_memory :: "u8 list \<Rightarrow> u8 list \<Rightarrow> u8 list" where
  "dhcp_memory stack msg = msg @ drop (length msg) (take 236 stack @ replicate DHCP_OPTIONS_SIZE 0)"

definition client_base :: "u8 list \<Rightarrow> u8 list" where
  "client_base inm = ((take DHCP_BASE_LEN inm)[3 := inm ! 3 + 1])[24 := 0, 25 := 0, 26 := 0, 27 := 0]"

definition client_dst :: "u8 list \<Rightarrow> u8 list" where
  "client_dst inm = (if inm ! 10 AND 0x80 \<noteq> 0 then replicate 4 255 else take 4 (drop 16 inm))"

lemma relay_packet_shape:
  assumes "length (giaddr conf) = 4" and "length dst = 4"
  shows "length (relay_packet conf nid dst m) = 28 + length m" "drop 28 (relay_packet conf nid dst m) = m"
    "relay_packet conf nid dst m ! 7 = 0"
  using assms by (simp_all add: relay_packet_def Let_def relay_header_def relay_udp_def be_bytes_def)

lemma relay_to_client_sent:
  fixes conf stack msg s
  defines "inm \<equiv> dhcp_memory stack msg"
  assumes len: "length msg \<le> 548" "236 \<le> length stack" and op: "inm ! 0 = 2" and gi: "length (giaddr conf) = 4"
    and loop: "relay_loop inm (length msg) 240 (take 4 (drop 236 inm)) None 0 = Inr (t, Some 255, mt)" and t: "length t < 312"
    and s: "slip_ok s" "slip_empty s"
  defines "pkt \<equiv> relay_packet conf (ip_id s) (client_dst inm) (client_base inm @ t @ [255])"
  shows "check_ip pkt (length pkt) = Inr 0"
    and "\<exists>s'. relay_dhcp_to_client conf stack (Some msg) s = Inr s' \<and> slip_ok s' \<and> stream s' = stream s @ slip_frame pkt"
proof -
  have l: "length inm \<ge> 548" using len by (simp add: inm_def dhcp_memory_def DHCP_OPTIONS_SIZE_def)
  have cb: "length (client_base inm) = 44" "length (client_dst inm) = 4"
    using l by (auto simp: client_base_def client_dst_def DHCP_BASE_LEN_def)
  note sh = relay_packet_shape [OF gi cb(2)]
  have lp: "length pkt = 28 + (44 + (length t + 1))" using sh(1) cb by (simp add: pkt_def)
  show ck: "check_ip pkt (length pkt) = Inr 0" using relay_packet_checks [OF gi cb(2)] cb t by (simp add: pkt_def)
  have df: "raw16 pkt 6 AND IP_DF = 0" by (rule df_not_seen) (use sh(3) in \<open>simp add: pkt_def\<close>)
  have "length (slip_frame pkt) \<le> SLIP_BUF_SIZE" using slip_frame_length [of pkt] lp t by (simp add: SLIP_BUF_SIZE_def)
  define s0 where "s0 = s\<lparr>ip_id := ip_id s + 1\<rparr>"
  have s0: "slip_ok s0" "slip_end s0 = 0" "stream s0 = stream s" using s by (simp_all add: s0_def slip_ok_def slip_empty_def stream_def queued_def)
  obtain s' where w: "write_to_serial4 pkt (length pkt) s0 = Inr (pkt, s')" "slip_ok s'" "stream s' = stream s @ slip_frame pkt"
    using write_to_serial4_sent [OF ck df s0(1)] s0 \<open>length (slip_frame pkt) \<le> SLIP_BUF_SIZE\<close> by auto
  have inm: "take 548 msg @ drop (length (take 548 msg)) (take 236 stack @ replicate DHCP_OPTIONS_SIZE 0) = inm"
    using len(1) by (simp add: inm_def dhcp_memory_def)
  have "take DHCP_BASE_LEN inm ! 3 = inm ! 3" by (simp add: DHCP_BASE_LEN_def)
  moreover have "copy_options t [255] = Inr (t @ [255])" using t by (simp add: copy_options_def DHCP_OPTIONS_SIZE_def)
  ultimately have "relay_dhcp_to_client conf stack (Some msg) s = Inr s'"
    using op loop w(1) len(1) unfolding relay_dhcp_to_client_def Let_def option.case inm
    by (simp add: client_base_def [symmetric] client_dst_def [symmetric] pkt_def [symmetric] s0_def [symmetric])
  then show "\<exists>s'. relay_dhcp_to_client conf stack (Some msg) s = Inr s' \<and> slip_ok s' \<and> stream s' = stream s @ slip_frame pkt" using w by simp
qed

text \<open>
  An option that names a name server without giving an address takes two bytes in the answer and six in the message to the
  client: enough of them fill more than the array has.
\<close>

lemma relay_loop_dns:
  assumes "p < fin" and "p + 6 \<le> length inm" and "inm ! p = 6"
  shows "relay_loop inm fin p t op mt =
    (if length t + 6 \<le> 312 then relay_loop inm fin (p + unat (inm ! (p + 1)) + 2) (t @ 6 # 4 # take 4 (drop (p + 2) inm)) (Some 6) mt
     else Inl Out_of_bounds)"
  using assms
  by (subst relay_loop.simps) (simp add: Let_def bytes_at_def copy_options_def DHCP_OPTIONS_SIZE_def)

lemma relay_loop_leaves_array:
  "(\<forall>i < k. inm ! (p + 2 * i) = 6 \<and> inm ! (p + 2 * i + 1) = 0) \<Longrightarrow> p + 2 * k \<le> fin \<Longrightarrow> p + 2 * k + 4 \<le> length inm \<Longrightarrow>
   312 < length t + 6 * k \<Longrightarrow> length t \<le> 312 \<Longrightarrow> relay_loop inm fin p t op mt = Inl Out_of_bounds"
proof (induction k arbitrary: p t op)
  case (Suc k)
  have p: "inm ! p = 6" "inm ! (p + 1) = 0" using Suc.prems(1) by (auto dest: spec [of _ 0])
  have rest: "\<forall>i < k. inm ! (p + 2 + 2 * i) = 6 \<and> inm ! (p + 2 + 2 * i + 1) = 0"
  proof (intro allI impI)
    fix i
    assume "i < k"
    then show "inm ! (p + 2 + 2 * i) = 6 \<and> inm ! (p + 2 + 2 * i + 1) = 0" using Suc.prems(1) [rule_format, of "Suc i"] by simp
  qed
  have "length (t @ 6 # 4 # take 4 (drop (p + 2) inm)) = length t + 6" using Suc.prems(3) by simp
  then show ?case using relay_loop_dns [of p fin inm t op mt] p Suc.IH [OF rest, of "t @ 6 # 4 # take 4 (drop (p + 2) inm)"] Suc.prems
    by (simp split: if_splits)
qed simp

end
