(* ===== verification/Tunnel_Properties.thy ===== *)
theory Tunnel_Properties
  imports Tapslip6 Tunslip4_Check
begin

text \<open>
  The properties of the tunnel programs of \<open>dist/tools/tunslip\<close>, each with an instance on concrete data.
\<close>

section \<open>tunslip6\<close>

definition demo_tun_conf :: tun_conf where
  "demo_tun_conf = \<lparr>verbose = 1, prefix_addr = [0xAA, 0xAA, 0, 0, 0, 0, 0, 0], tun_takes = \<lambda>_. True\<rparr>"

definition demo_tun :: tunslip6 where
  "demo_tun = \<lparr>slip_buf = replicate 2000 0, slip_begin = 0, slip_end = 0, on_line = [], calls = 0,
     inbuf = replicate 2000 0, inbufptr = 0, events = []\<rparr>"

lemma demo_tun_ok: "slip_ok demo_tun" "recv_ok demo_tun" "stream demo_tun = []" "slip_end demo_tun = 0" "inbufptr demo_tun = 0"
  by (simp_all add: demo_tun_def slip_ok_def recv_ok_def stream_def queued_def SLIP_BUF_SIZE_def INBUF_SIZE_def)



text \<open>C39: Whatever comes from the line, from the tunnel device and from the system calls, round after round of the main loop: no
  access leaves the two buffers, their indices stay in range, and what is put on the line, in the device or still in the queue,
  is a sequence of whole frames of packets read from the tunnel and of answers to requests for the prefix.\<close>

theorem tunslip6_rounds_well_formed:
  assumes "tun_main_ok m"
  shows "tun_rounds conf dev basedelay sels m \<noteq> Inl Out_of_bounds \<and>
    (\<forall>m'. tun_rounds conf dev basedelay sels m = Inr m' \<longrightarrow> tun_main_ok m' \<and>
      (\<exists>ps. set ps \<subseteq> insert (prefix_reply conf) (\<Union>sel \<in> set sels. tun_packets sel)
        \<and> stream (both m') = stream (both m) @ concat (map slip_frame ps)))"
  using tun_rounds_ok [OF assms, of conf "insert (prefix_reply conf) (\<Union>sel \<in> set sels. tun_packets sel)" sels dev basedelay,
      OF insertI1 subset_insertI]
  by (auto simp: round_ok_def grows_def)

definition demo_tun_main :: tun_main where
  "demo_tun_main = \<lparr>both = demo_tun, inslip = [], delaymsec = 0, delaystartsec = 0, delaystartmsec = 0\<rparr>"

definition demo_select :: tun_select where
  "demo_select = \<lparr>slip_in = Some [0x3F, 0x50, 0xC0], slip_writable = True, tun_in = Some (Some [0x60, 0xC0]),
     now = (5, 0), now2 = (5, 0)\<rparr>"

theorem tunslip6_rounds_well_formed_witness:
  "tun_rounds demo_tun_conf (\<lambda>_. Accepts 3) 10 [demo_select, demo_select] demo_tun_main \<noteq> Inl Out_of_bounds"
proof -
  have "tun_main_ok demo_tun_main" by (simp add: tun_main_ok_def demo_tun_main_def demo_tun_ok)
  then show ?thesis using tunslip6_rounds_well_formed [of demo_tun_main demo_tun_conf "\<lambda>_. Accepts 3" 10 "[demo_select, demo_select]"] by blast
qed

section \<open>tunslip\<close>

text \<open>C40: An answer of the DHCP server whose options end with an end mark and fit is passed on to the client: the packet that
  the relay builds has right checksums, so the sending function does not drop it, and it is put on the line as one frame.\<close>

theorem tunslip_relay_reaches_client:
  assumes "length msg \<le> 548" and "236 \<le> length stack" and "dhcp_memory stack msg ! 0 = 2" and "length (giaddr conf) = 4"
    and "relay_loop (dhcp_memory stack msg) (length msg) 240 (take 4 (drop 236 (dhcp_memory stack msg))) None 0 = Inr (t, Some 255, mt)"
    and "length t < 312" and "slip_ok s" and "slip_empty s"
  shows "\<exists>pkt s'. relay_dhcp_to_client conf stack (Some msg) s = Inr s' \<and> stream s' = stream s @ slip_frame pkt
    \<and> check_ip pkt (length pkt) = Inr 0 \<and> drop 28 pkt = client_base (dhcp_memory stack msg) @ t @ [255]"
proof -
  define inm where "inm = dhcp_memory stack msg"
  define pkt where "pkt = relay_packet conf (ip_id s) (client_dst inm) (client_base inm @ t @ [255])"
  have "548 \<le> length inm" using assms(1,2) by (simp add: inm_def dhcp_memory_def DHCP_OPTIONS_SIZE_def)
  then have "length (client_dst inm) = 4" by (simp add: client_dst_def)
  then have "drop 28 pkt = client_base inm @ t @ [255]" using relay_packet_shape(2) [OF assms(4)] by (simp add: pkt_def)
  then show ?thesis using relay_to_client_sent [OF assms] unfolding inm_def [symmetric] pkt_def [symmetric] by blast
qed

definition demo_relay :: relay_conf where
  "demo_relay = \<lparr>giaddr = [10, 0, 0, 1], netaddr = [10, 0, 0, 0], circuit_addr = [10, 0, 0, 1], dhsock = True,
     server_takes = \<lambda>_. True, tun4_takes = \<lambda>_. True\<rparr>"

definition demo_tun4 :: tunslip4 where
  "demo_tun4 = \<lparr>slip_buf = replicate 2000 0, slip_begin = 0, slip_end = 0, on_line = [], calls = 0,
     ibuf = replicate 2000 0, iptr = 0, obuf = replicate 2000 0, ipa = [0, 0, 0, 0], ip_id = 0, evs = []\<rparr>"

text \<open>An acknowledgement with a lease time and two name servers, of which one is passed on.\<close>

definition demo_ack :: "u8 list" where
  "demo_ack = [2, 1, 6, 0] @ replicate 12 0 @ [10, 0, 0, 9] @ replicate 216 0 @ [99, 130, 83, 99]
     @ [53, 1, 5, 51, 4, 0, 0, 14, 16, 12, 2, 97, 98, 6, 8, 10, 0, 0, 2, 10, 0, 0, 3, 255]"

theorem tunslip_relay_reaches_client_witness:
  "\<exists>pkt s'. relay_dhcp_to_client demo_relay (replicate 236 0) (Some demo_ack) demo_tun4 = Inr s' \<and> stream s' = slip_frame pkt
    \<and> check_ip pkt (length pkt) = Inr 0
    \<and> drop 72 pkt = [99, 130, 83, 99, 53, 1, 5, 51, 4, 0, 0, 14, 16, 6, 4, 10, 0, 0, 2, 255]"
proof -
  define t where "t = [99, 130, 83, 99, 53, 1, 5, 51, 4, 0, 0, 14, 16, 6, 4, 10, 0, 0, 2 :: u8]"
  define inm where "inm = dhcp_memory (replicate 236 0) demo_ack"
  have "relay_loop inm (length demo_ack) 240 (take 4 (drop 236 inm)) None 0 = Inr (t, Some 255, 5)"
    unfolding inm_def t_def by code_simp
  moreover have "inm ! 0 = 2" "length demo_ack \<le> 548" "length (client_base inm) = 44"
    by (simp_all add: inm_def dhcp_memory_def demo_ack_def client_base_def DHCP_BASE_LEN_def DHCP_OPTIONS_SIZE_def)
  moreover have "slip_ok demo_tun4" "slip_empty demo_tun4" "stream demo_tun4 = []"
    by (simp_all add: demo_tun4_def slip_ok_def slip_empty_def stream_def queued_def SLIP_BUF_SIZE_def)
  moreover have "length (giaddr demo_relay) = 4" "length t < 312" by (simp_all add: demo_relay_def t_def)
  ultimately obtain pkt s' where r: "relay_dhcp_to_client demo_relay (replicate 236 0) (Some demo_ack) demo_tun4 = Inr s'"
    "stream s' = slip_frame pkt" "check_ip pkt (length pkt) = Inr 0" "drop 28 pkt = client_base inm @ t @ [255]" "length (client_base inm) = 44"
    using tunslip_relay_reaches_client [of demo_ack "replicate 236 0" demo_relay t 5 demo_tun4] unfolding inm_def [symmetric] by auto
  have "drop 72 pkt = drop 44 (drop 28 pkt)" by simp
  also have "\<dots> = t @ [255]" unfolding r(4) using r(5) by simp
  finally show ?thesis using r(1-3) by (auto simp: t_def)
qed

end
