(* ===== verification/Spec2Isabelle.thy ===== *)
theory Spec2Isabelle
  imports Kernel_Properties Mintimer_Ticks Library_Properties System_Properties Native_Properties Native_Periph Native_Mtd Periph_Common
    Tunnel_Properties
begin

text \<open>
  A verification library for the Sancus port of RIOT.

  \<^bold>\<open>The program.\<close> The repository runs the RIOT kernel on a Sancus-enabled MSP430. Scheduler and timer
  live in one protected module, \<open>sancus_sm_timer\<close>: its data (thread table, run queues, timer lists) can
  only be reached through its entry \<open>exitless_entry\<close>, which stores the context of the interrupted thread,
  runs the requested operation to its end without being interrupted, and resumes the thread the scheduler
  chooses. Around it are data structures of \<open>core/\<close>, drivers of the processor and the board, the
  allocators, and the host end of the serial line.

  \<^bold>\<open>The kernel.\<close> \<open>Sched_State\<close> holds the state of the module as one record, \<open>sm_timer_state\<close>: the thread table
  (\<open>thread_t\<close> of \<open>core/include/sched.h\<close>), the run queues with the heap of their \<open>rq_entry\<close> links, the bit
  cache, the timer structures with the heap of their \<open>next\<close> links, the counters and the registers of
  TimerA. Every operation is a function from a state to an optional result: \<open>None\<close> is a null or
  out-of-bounds access, an undefined shift, or a loop that does not end; each is a branch of the code.
  The hardware counter is the sequence of values that its reads return.
  \<^item> \<open>Sched_State\<close>, \<open>Sched\<close>: \<open>core/sched.c\<close> (\<open>sched_set_status\<close>, \<open>sched_run\<close>, \<open>sched_switch\<close>, \<open>sched_yield\<close>,
    \<open>sched_task_exit\<close>, periodic threads) and \<open>thread_yield_higher\<close> of \<open>cpu/msp430-sancus/cpu.c\<close>.
  \<^item> \<open>Mintimer\<close>: \<open>sys/secure_mintimer/secure_mintimer_core.c\<close> and \<open>periph/timer.c\<close>. \<open>Mintimer_Queue\<close> proves
    what setting and removing do to the three lists, \<open>Mintimer_Period\<close> the change of period and the merge,
    \<open>Mintimer_Expire\<close> the loop that fires expired timers. \<open>Mintimer_Ticks\<close> holds the calls applications use
    (\<open>sys/include/secure_mintimer/\<close>): conversion of units, and sleeping, which ignores the upper half of a 64-bit time.
  \<^item> \<open>Thread\<close>, \<open>Linked_List\<close>, \<open>Mutex\<close>: \<open>core/thread.c\<close>, \<open>core/include/list.h\<close>, \<open>core/mutex.c\<close>.
  \<^item> \<open>Cpu\<close>, \<open>Boot\<close>: the entries of the module, the initial stack of a thread, \<open>kernel_init\<close>. An operation that
    does not return to its caller yields the \<open>control\<close> value that says which thread is resumed and how.
  \<^item> \<open>Sched_Inv\<close>, \<open>Sched_Steps\<close>: the invariant of the module, that each entry keeps it, and the system as an
    inductive step relation whose steps are entries. The steps cover threads that are not periodic.
  \<^item> \<open>Kernel_Examples\<close>, \<open>Kernel_Properties\<close>: concrete states, and the properties with their instances: the
    invariant of all reachable states; which thread is dispatched, in turn among equals; thread creation,
    exit, wake-up and sleep on every branch; the order of timers and the interrupt that fires them; mutex
    hand-over; the start of the system; and three places where the code loses threads or timers or hangs.

  \<^bold>\<open>Data structures and arithmetic.\<close> \<open>Clist\<close> and \<open>Clist_Sort\<close> (\<open>core/include/clist.h\<close>, \<open>core/clist.c\<close>) model rings
  on an explicit heap of links and prove every operation against lists, the merge sort against the stable
  sort. \<open>Ringbuffer\<close>, \<open>Cib\<close>, \<open>Priority_Queue\<close>, \<open>Lifo\<close>, \<open>Bitarithm\<close> (all \<open>core/\<close>) and \<open>Div\<close> (\<open>sys/include/div.h\<close>) model
  the remaining ones. \<open>Library_Properties\<close> states the results.

  \<^bold>\<open>Drivers and services.\<close> \<open>Rtc\<close> (\<open>drivers/periph_common/rtc.c\<close>) against the Gregorian calendar; \<open>Byteorder\<close>
  (\<open>core/include/byteorder.h\<close>); \<open>Uart\<close> (\<open>boards/sancus-msp430/uart.c\<close>); \<open>Gpio\<close> (\<open>cpu/msp430-sancus/periph/gpio.c\<close>);
  \<open>Cpu_Main\<close> (\<open>msp430-main.c\<close>, \<open>irq.c\<close>, \<open>sys/oneway-malloc\<close>); \<open>Malloc\<close> (\<open>cpu/msp430-sancus/malloc.c\<close>),
  with \<open>Malloc_Heap\<close>, \<open>Malloc_Free\<close> and \<open>Malloc_Realloc\<close> for the invariant of the heap (chunks without gaps, an
  address-ordered free list) and what \<open>malloc\<close>, \<open>free\<close>, \<open>realloc\<close> and \<open>calloc\<close> do to it for even sizes, what odd sizes do, and where
  \<open>realloc\<close> wraps around, and \<open>Heap_Refine\<close> for the specification of the heap as a map from addresses to contents, which
  all four refine for every client; \<open>Flashpage\<close> (\<open>periph/flashpage.c\<close>, \<open>drivers/periph_common/flashpage.c\<close>), with the flash
  controller as an argument; \<open>Periph_Common\<close> (\<open>drivers/periph_common/i2c.c\<close>, \<open>eeprom.c\<close>, \<open>spi.c\<close>), with the transfer
  functions of the processor as arguments: what is written to registers or cells is read from them;
  \<open>Ethos\<close> (\<open>dist/tools/ethos/ethos.c\<close>). \<open>System_Properties\<close> states the results.

  \<^bold>\<open>The native port.\<close> On the host, interrupts are signals (\<open>cpu/native/irq_cpu.c\<close>, \<open>native_cpu.c\<close>, \<open>syscalls.c\<close>,
  \<open>tramp.S\<close>, \<open>periph/pm.c\<close>). \<open>Native\<close> models every routine as a list of operations on the shared variables, and a
  machine whose steps execute one operation of the running context or deliver a signal, so that all interleavings are
  covered; the scheduler it calls is that of \<open>Sched\<close>. \<open>Native_Inv\<close> proves its invariant, \<open>Native_Properties\<close> that no
  caught signal is lost or overtaken and callbacks are not nested, that the handler ends, and three interleavings that go
  wrong, and what a yield does in it. A signal handler is one step, and the pipe does not fill up. \<open>Native_Periph\<close> models the
  drivers for asynchronous reading, serial port, random numbers and clock, \<open>Native_Mtd\<close> the flash memory in a file, where what
  is written to an erased page is read from it, and the emulated pulse widths and counters.

  \<^bold>\<open>Tunnels.\<close> The programs of \<open>dist/tools/tunslip\<close> carry packets between a tunnel device of the host and a serial line.
  \<open>Slip\<close> models the framing and the output queue they share, \<open>Tunslip6\<close>, \<open>Tapslip6\<close> and \<open>Tunslip4\<close> the three programs, the
  last with its packet checks and its DHCP relay, and \<open>Tunslip4_Check\<close> proves the checksum arithmetic. \<open>Tunnel_Properties\<close>
  states that packets arrive, that the buffers are never left by \<open>tunslip6\<close> and only whole frames are sent, and that what the
  relay sends has right checksums; lemmas before it show where \<open>tunslip\<close> leaves its arrays or ends although it should
  go on. The host's \<open>read\<close>, \<open>write\<close> and \<open>select\<close> are parameters or inputs, and ending the program is a value.

  \<^bold>\<open>Interfaces.\<close> \<open>ring_queue\<close> (in \<open>Clist\<close>) is the contract of a queue on a ring; the lists of \<open>clist.h\<close> and the
  copies inside the protected module both satisfy it, and the scheduler's run queues use it through
  the second interpretation. \<open>bounded_fifo\<close> is the contract of a bounded buffer, which the ring buffer, the
  circular integer buffer and the receive buffer of the serial port satisfy. \<open>ordered_insert\<close> (in
  \<open>Priority_Queue\<close>) is that of a queue in order of priority. \<open>simulation\<close> is that of a component and its specification: a
  client that decides each call from the answers so far and keeps to what the specification allows is always answered,
  and only as the specification permits; the heap satisfies it.

  \<^bold>\<open>Loops.\<close> A loop over linked data or a device register is a partial function into \<open>option\<close>, so that not
  ending is \<open>None\<close>; the theorems prove \<open>Some\<close>. Lists are finite chains in the invariants, which is what
  ends the walks; waiting loops end because the counter or the status register eventually shows the awaited
  value, which is a hypothesis on the sequence of its readings. No fuel is used.

  \<^bold>\<open>Integers.\<close> \<open>unsigned\<close>, \<open>size_t\<close> and pointers are 16-bit words, timer ticks 32-bit words, priorities 8-bit
  words, all with wrap-around; a signed \<open>int\<close> whose overflow matters is an integer with an explicit range.

  \<^bold>\<open>Not modelled.\<close> Messages, recursive mutexes and condition variables are commented out in the source;
  mailboxes and thread flags use members that \<open>thread_t\<close> no longer has; the SPI driver uses an initialiser
  that no longer exists. Register contents other than stack pointers, debug output, the statistics
  call-back, panics, start-up code before the kernel, the host's other drivers, and the parsing of command lines
  and the set-up of devices in the host programs are left out. The hardware's memory protection itself is not modelled: that the state of the
  module is only changed by its entries is the assumption under which the step relation describes it.
\<close>

end
